(* ===== verification/Prelude.thy ===== *)
theory Prelude
  imports Main "HOL-Library.Sublist"
begin

text \<open>
  Shared vocabulary of the development: result types, saturating machine
  arithmetic, association-list tables (the code's \<open>HashMap\<close>s), the text model
  and the generic lemmas the component theories rest on.

  Text model: a Rust \<open>str\<close> is a list of HOL characters, one per Unicode scalar
  value. Characters below 128 are ASCII and are treated exactly; characters from
  128 on stand for non-ASCII scalars that are neither white space nor changed by
  \<open>to_lowercase\<close> (CJK text, the case the code's estimators single out).
\<close>

section \<open>Hint collections\<close>

named_theorems inv_intros \<open>introduction rules: an operation keeps a component invariant\<close>
named_theorems frame_simps \<open>fields an operation leaves alone\<close>

section \<open>Results\<close>

text \<open>A Rust \<open>Result\<close> is a sum: \<open>Inl\<close> carries the error, \<open>Inr\<close> the value.\<close>

type_synonym ('e, 'a) result = "'e + 'a"

fun is_ok :: "('e, 'a) result \<Rightarrow> bool" where
  "is_ok (Inr _) = True"
| "is_ok (Inl _) = False"

fun map_result :: "('a \<Rightarrow> ('e, 'b) result) \<Rightarrow> 'a list \<Rightarrow> ('e, 'b list) result" where
  "map_result f [] = Inr []"
| "map_result f (x # xs) =
     (case f x of
        Inl e \<Rightarrow> Inl e
      | Inr y \<Rightarrow> (case map_result f xs of Inl e \<Rightarrow> Inl e | Inr ys \<Rightarrow> Inr (y # ys)))"

lemma is_ok_iff: "is_ok r \<longleftrightarrow> (\<exists>x. r = Inr x)"
  by (cases r) auto

lemma map_result_length: "map_result f xs = Inr ys \<Longrightarrow> length ys = length xs"
  by (induction xs arbitrary: ys) (auto split: sum.splits)

lemma map_result_list_all2:
  "map_result f xs = Inr ys \<Longrightarrow> list_all2 (\<lambda>x y. f x = Inr y) xs ys"
  by (induction xs arbitrary: ys) (auto split: sum.splits)

text \<open>\<open>Iterator::find_map\<close>: the first answer.\<close>

fun find_map :: "('a \<Rightarrow> 'b option) \<Rightarrow> 'a list \<Rightarrow> 'b option" where
  "find_map f [] = None"
| "find_map f (x # xs) = (case f x of Some y \<Rightarrow> Some y | None \<Rightarrow> find_map f xs)"

lemma find_map_None_iff: "find_map f xs = None \<longleftrightarrow> (\<forall>x \<in> set xs. f x = None)"
  by (induction xs) (auto split: option.splits)

lemma find_map_SomeD: "find_map f xs = Some y \<Longrightarrow> \<exists>x \<in> set xs. f x = Some y"
  by (induction xs) (auto split: option.splits)

lemma find_map_append: "find_map f (xs @ ys) = (case find_map f xs of Some y \<Rightarrow> Some y | None \<Rightarrow> find_map f ys)"
  by (induction xs) (auto split: option.splits)

text \<open>Progress of a loop that drops an element from a filtered list.\<close>

lemma length_filter_shrink:
  assumes "\<And>x. P x \<Longrightarrow> Q x" and "y \<in> set xs" and "Q y" and "\<not> P y"
  shows "length (filter P xs) < length (filter Q xs)"
proof -
  have "filter P xs = filter P (filter Q xs)"
    using assms(1) by (auto simp: filter_filter intro: filter_cong)
  moreover have "length (filter P (filter Q xs)) < length (filter Q xs)"
    using assms(2-4) by (intro length_filter_less [where x = y]) auto
  ultimately show ?thesis by simp
qed

section \<open>Saturating arithmetic\<close>

text \<open>\<open>saturating_add\<close> and \<open>saturating_mul\<close> of an unsigned type of the given width;
  \<open>saturating_sub\<close> is subtraction on \<open>nat\<close>.\<close>

definition max_of :: "nat \<Rightarrow> nat" where
  "max_of w = 2 ^ w - 1"

definition sat_add :: "nat \<Rightarrow> nat \<Rightarrow> nat \<Rightarrow> nat" where
  "sat_add w a b = min (a + b) (max_of w)"

definition sat_mul :: "nat \<Rightarrow> nat \<Rightarrow> nat \<Rightarrow> nat" where
  "sat_mul w a b = min (a * b) (max_of w)"

lemma sat_add_le [simp]: "sat_add w a b \<le> a + b"
  by (simp add: sat_add_def)

lemma sat_add_bound [simp]: "sat_add w a b \<le> max_of w"
  by (simp add: sat_add_def)

lemma sat_mul_bound [simp]: "sat_mul w a b \<le> max_of w"
  by (simp add: sat_mul_def)

lemma sat_add_ge: "a \<le> max_of w \<Longrightarrow> a \<le> sat_add w a b"
  by (simp add: sat_add_def)

lemma sat_mul_mono: "a \<le> c \<Longrightarrow> b \<le> d \<Longrightarrow> sat_mul w a b \<le> sat_mul w c d"
  unfolding sat_mul_def by (meson min.mono mult_le_mono order_refl)

section \<open>Tables\<close>

text \<open>
  The code's \<open>HashMap\<close>s and \<open>BTreeMap\<close>s are association lists with one entry per key;
  \<open>tbl_insert\<close> overwrites in place or appends, \<open>tbl_remove\<close> drops the key.
\<close>

type_synonym ('k, 'v) tbl = "('k \<times> 'v) list"

definition tbl_keys :: "('k, 'v) tbl \<Rightarrow> 'k list" where
  "tbl_keys t = map fst t"

fun tbl_insert :: "'k \<Rightarrow> 'v \<Rightarrow> ('k, 'v) tbl \<Rightarrow> ('k, 'v) tbl" where
  "tbl_insert k v [] = [(k, v)]"
| "tbl_insert k v ((k', v') # t) =
     (if k = k' then (k, v) # t else (k', v') # tbl_insert k v t)"

definition tbl_remove :: "'k \<Rightarrow> ('k, 'v) tbl \<Rightarrow> ('k, 'v) tbl" where
  "tbl_remove k t = filter (\<lambda>(k', _). k' \<noteq> k) t"

definition tbl_ok :: "('k, 'v) tbl \<Rightarrow> bool" where
  "tbl_ok t \<longleftrightarrow> distinct (tbl_keys t)"

lemma tbl_keys_Nil [simp]: "tbl_keys [] = []"
  by (simp add: tbl_keys_def)

lemma tbl_keys_Cons [simp]: "tbl_keys ((k, v) # t) = k # tbl_keys t"
  by (simp add: tbl_keys_def)

lemma map_of_tbl_insert [simp]: "map_of (tbl_insert k v t) = (map_of t)(k \<mapsto> v)"
  by (induction k v t rule: tbl_insert.induct) auto

lemma set_tbl_keys_insert [simp]: "set (tbl_keys (tbl_insert k v t)) = insert k (set (tbl_keys t))"
  by (induction k v t rule: tbl_insert.induct) auto

lemma set_tbl_keys: "set (tbl_keys t) = dom (map_of t)"
  by (simp add: tbl_keys_def dom_map_of_conv_image_fst)

lemma map_of_tbl_remove [simp]: "map_of (tbl_remove k t) = (map_of t)(k := None)"
  by (induction t) (auto simp: tbl_remove_def fun_eq_iff)

lemma tbl_ok_Nil [simp]: "tbl_ok []"
  by (simp add: tbl_ok_def)

lemma tbl_ok_insert [simp]: "tbl_ok t \<Longrightarrow> tbl_ok (tbl_insert k v t)"
  by (induction k v t rule: tbl_insert.induct) (auto simp: tbl_ok_def)

lemma tbl_ok_filter: "tbl_ok t \<Longrightarrow> tbl_ok (filter P t)"
  by (induction t) (auto simp: tbl_ok_def tbl_keys_def)

lemma tbl_ok_remove [simp]: "tbl_ok t \<Longrightarrow> tbl_ok (tbl_remove k t)"
  by (simp add: tbl_remove_def tbl_ok_filter)

lemma length_tbl_insert_new: "map_of t k = None \<Longrightarrow> length (tbl_insert k v t) = Suc (length t)"
  by (induction k v t rule: tbl_insert.induct) (auto split: if_splits)

lemma length_tbl_insert_old: "map_of t k = Some x \<Longrightarrow> length (tbl_insert k v t) = length t"
  by (induction k v t rule: tbl_insert.induct) (auto split: if_splits)

lemma length_tbl_remove_le: "length (tbl_remove k t) \<le> length t"
  by (simp add: tbl_remove_def)

section \<open>Characters\<close>

definition char_code :: "char \<Rightarrow> nat" where
  "char_code c = of_char c"

definition is_ascii :: "char \<Rightarrow> bool" where
  "is_ascii c \<longleftrightarrow> char_code c < 128"

text \<open>\<open>str::len\<close>, in UTF-8 bytes.\<close>

definition byte_len :: "string \<Rightarrow> nat" where
  "byte_len s = sum_list (map (\<lambda>c. if is_ascii c then 1 else 3) s)"

definition is_ws :: "char \<Rightarrow> bool" where
  "is_ws c \<longleftrightarrow> (let n = char_code c in n = 32 \<or> (9 \<le> n \<and> n \<le> 13))"

definition is_digit :: "char \<Rightarrow> bool" where
  "is_digit c \<longleftrightarrow> (let n = char_code c in 48 \<le> n \<and> n \<le> 57)"

definition is_upper :: "char \<Rightarrow> bool" where
  "is_upper c \<longleftrightarrow> (let n = char_code c in 65 \<le> n \<and> n \<le> 90)"

definition is_lower :: "char \<Rightarrow> bool" where
  "is_lower c \<longleftrightarrow> (let n = char_code c in 97 \<le> n \<and> n \<le> 122)"

definition is_alnum :: "char \<Rightarrow> bool" where
  "is_alnum c \<longleftrightarrow> is_digit c \<or> is_upper c \<or> is_lower c"

definition lower_char :: "char \<Rightarrow> char" where
  "lower_char c = (if is_upper c then char_of (char_code c + 32) else c)"

definition newline :: char where
  "newline = CHR 0x0A"

definition carriage_return :: char where
  "carriage_return = CHR 0x0D"

definition backslash :: char where
  "backslash = CHR 0x5C"

definition quote_char :: char where
  "quote_char = CHR 0x27"

text \<open>The non-ASCII characters the modelled code writes, U+2026 and U+2014, are two of the
  non-ASCII stand-ins.\<close>

definition em_dash :: char where
  "em_dash = CHR 0x86"

definition ellipsis :: char where
  "ellipsis = CHR 0x85"

section \<open>Strings\<close>

definition trim_start :: "string \<Rightarrow> string" where
  "trim_start s = dropWhile is_ws s"

definition trim_end :: "string \<Rightarrow> string" where
  "trim_end s = rev (dropWhile is_ws (rev s))"

definition trim :: "string \<Rightarrow> string" where
  "trim s = trim_end (trim_start s)"

definition blank :: "string \<Rightarrow> bool" where
  "blank s \<longleftrightarrow> trim s = []"

definition trim_end_matches :: "(char \<Rightarrow> bool) \<Rightarrow> string \<Rightarrow> string" where
  "trim_end_matches p s = rev (dropWhile p (rev s))"

text \<open>\<open>str::split\<close> on a character class: one piece more than there are separators.\<close>

fun split_on :: "(char \<Rightarrow> bool) \<Rightarrow> string \<Rightarrow> string list" where
  "split_on p [] = [[]]"
| "split_on p (c # cs) =
     (if p c then [] # split_on p cs
      else (case split_on p cs of [] \<Rightarrow> [[c]] | w # ws \<Rightarrow> (c # w) # ws))"

definition split_whitespace :: "string \<Rightarrow> string list" where
  "split_whitespace s = filter (\<lambda>w. w \<noteq> []) (split_on is_ws s)"

text \<open>\<open>str::lines\<close>: cut at newlines, drop the final empty piece, drop one carriage return
  before each newline.\<close>

definition strip_cr :: "string \<Rightarrow> string" where
  "strip_cr s = (if s \<noteq> [] \<and> last s = carriage_return then butlast s else s)"

definition str_lines :: "string \<Rightarrow> string list" where
  "str_lines s =
     (let ps = split_on (\<lambda>c. c = newline) s
      in map strip_cr (butlast ps) @ (if last ps = [] then [] else [last ps]))"

fun join :: "string \<Rightarrow> string list \<Rightarrow> string" where
  "join sep [] = []"
| "join sep [x] = x"
| "join sep (x # y # zs) = x @ sep @ join sep (y # zs)"

fun find_str :: "string \<Rightarrow> string \<Rightarrow> nat option" where
  "find_str p [] = (if p = [] then Some 0 else None)"
| "find_str p (c # cs) =
     (if prefix p (c # cs) then Some 0 else map_option Suc (find_str p cs))"

definition contains :: "string \<Rightarrow> string \<Rightarrow> bool" where
  "contains s p \<longleftrightarrow> find_str p s \<noteq> None"

definition starts_with :: "string \<Rightarrow> string \<Rightarrow> bool" where
  "starts_with s p \<longleftrightarrow> prefix p s"

definition ends_with :: "string \<Rightarrow> string \<Rightarrow> bool" where
  "ends_with s p \<longleftrightarrow> suffix p s"

definition strip_prefix :: "string \<Rightarrow> string \<Rightarrow> string option" where
  "strip_prefix s p = (if prefix p s then Some (drop (length p) s) else None)"

definition strip_suffix :: "string \<Rightarrow> string \<Rightarrow> string option" where
  "strip_suffix s p = (if suffix p s then Some (take (length s - length p) s) else None)"

definition to_lower :: "string \<Rightarrow> string" where
  "to_lower s = map lower_char s"

text \<open>\<open>truncate\<close> of \<open>crates/infrastructure/base/src/lib.rs\<close>.\<close>

definition truncate_text :: "string \<Rightarrow> nat \<Rightarrow> string" where
  "truncate_text text max_chars =
     (if max_chars = 0 then []
      else if length text \<le> max_chars then text
      else take max_chars text @ ''...'')"

lemma length_truncate: "length (truncate_text s n) \<le> n + 3"
  by (simp add: truncate_text_def)

lemma dropWhile_idem [simp]: "dropWhile p (dropWhile p xs) = dropWhile p xs"
  by (induction xs) auto

lemma trim_end_idem [simp]: "trim_end (trim_end s) = trim_end s"
  by (simp add: trim_end_def)

lemma trim_Nil [simp]: "trim [] = []"
  by (simp add: trim_def trim_end_def trim_start_def)

lemma hd_trim_end: "trim_end s \<noteq> [] \<Longrightarrow> hd (trim_end s) = hd s"
proof -
  assume ne: "trim_end s \<noteq> []"
  have "s = trim_end s @ rev (takeWhile is_ws (rev s))"
    unfolding trim_end_def by (metis rev_append rev_rev_ident takeWhile_dropWhile_id)
  with ne show ?thesis by (metis hd_append)
qed

lemma trim_start_trim: "trim_start (trim s) = trim s"
proof (cases "trim s = []")
  case True
  then show ?thesis by (simp add: trim_start_def)
next
  case False
  then have "hd (trim s) = hd (trim_start s)"
    by (simp add: trim_def hd_trim_end)
  moreover have "trim_start s \<noteq> []"
    using False by (auto simp: trim_def trim_end_def)
  then have "\<not> is_ws (hd (trim_start s))"
    by (metis hd_dropWhile trim_start_def)
  ultimately show ?thesis
    using False by (cases "trim s") (auto simp: trim_start_def)
qed

lemma trim_idem [simp]: "trim (trim s) = trim s"
proof -
  have "trim (trim s) = trim_end (trim s)"
    by (metis trim_def trim_start_trim)
  then show ?thesis by (simp add: trim_def)
qed

lemma split_on_not_Nil [simp]: "split_on p s \<noteq> []"
  by (induction s) (auto split: list.splits)

lemma split_on_clean: "w \<in> set (split_on p s) \<Longrightarrow> c \<in> set w \<Longrightarrow> \<not> p c"
proof (induction s arbitrary: w)
  case Nil
  then show ?case by simp
next
  case (Cons a s)
  obtain v vs where eq: "split_on p s = v # vs"
    by (cases "split_on p s") auto
  with Cons.prems Cons.IH [of w] Cons.IH [of v] show ?case
    by (auto split: if_splits)
qed

lemma split_on_none: "(\<And>c. c \<in> set s \<Longrightarrow> \<not> p c) \<Longrightarrow> split_on p s = [s]"
  by (induction s) auto

lemma split_on_append:
  "(\<And>c. c \<in> set w \<Longrightarrow> \<not> p c) \<Longrightarrow> p d \<Longrightarrow> split_on p (w @ d # s) = w # split_on p s"
  by (induction w) auto

lemma split_on_join:
  assumes "ws \<noteq> []" and "p d" and "\<And>w c. w \<in> set ws \<Longrightarrow> c \<in> set w \<Longrightarrow> \<not> p c"
  shows "split_on p (join [d] ws) = ws"
  using assms(1,3)
proof (induction "[d]" ws rule: join.induct)
  case (2 x)
  then show ?case by (simp add: split_on_none)
next
  case (3 x y zs)
  then have "split_on p (join [d] (y # zs)) = y # zs" by auto
  moreover have "split_on p (x @ d # join [d] (y # zs)) = x # split_on p (join [d] (y # zs))"
    using 3 \<open>p d\<close> by (intro split_on_append) auto
  ultimately show ?case by simp
qed simp

lemma find_str_prefix: "find_str p s = Some i \<Longrightarrow> prefix p (drop i s) \<and> i \<le> length s"
  by (induction s arbitrary: i) (auto split: if_splits)

lemma contains_iff_sublist: "contains s p \<longleftrightarrow> sublist p s"
  unfolding contains_def
  by (induction s) (auto simp: sublist_Cons_right)

section \<open>Numbers in text\<close>

definition digit_char :: "nat \<Rightarrow> char" where
  "digit_char n = char_of (48 + n)"

definition digit_val :: "char \<Rightarrow> nat" where
  "digit_val c = char_code c - 48"

fun show_nat :: "nat \<Rightarrow> string" where
  "show_nat n = (if n < 10 then [digit_char n] else show_nat (n div 10) @ [digit_char (n mod 10)])"

declare show_nat.simps [simp del]

definition val_of_digits :: "string \<Rightarrow> nat" where
  "val_of_digits s = foldl (\<lambda>a c. 10 * a + digit_val c) 0 s"

text \<open>\<open>str::parse\<close> of an unsigned integer up to \<open>m\<close>: an optional plus sign, then digits.\<close>

definition parse_uint :: "nat \<Rightarrow> string \<Rightarrow> nat option" where
  "parse_uint m s =
     (let ds = (case s of c # cs \<Rightarrow> if c = CHR ''+'' then cs else s | [] \<Rightarrow> [])
      in if ds = [] \<or> \<not> list_all is_digit ds then None
         else if val_of_digits ds \<le> m then Some (val_of_digits ds) else None)"

lemma char_code_digit_char: "n < 10 \<Longrightarrow> char_code (digit_char n) = 48 + n"
  by (simp add: char_code_def digit_char_def)

lemma digit_val_digit_char [simp]: "n < 10 \<Longrightarrow> digit_val (digit_char n) = n"
  by (simp add: digit_val_def char_code_digit_char)

lemma is_digit_digit_char [simp]: "n < 10 \<Longrightarrow> is_digit (digit_char n)"
  by (simp add: is_digit_def char_code_digit_char)

lemma show_nat_digits: "list_all is_digit (show_nat n)"
proof (induction n rule: show_nat.induct)
  case (1 n)
  then show ?case by (subst show_nat.simps) auto
qed

lemma show_nat_not_Nil [simp]: "show_nat n \<noteq> []"
  by (subst show_nat.simps) simp

lemma val_of_digits_snoc: "val_of_digits (s @ [c]) = 10 * val_of_digits s + digit_val c"
  by (simp add: val_of_digits_def)

lemma val_show_nat [simp]: "val_of_digits (show_nat n) = n"
proof (induction n rule: show_nat.induct)
  case (1 n)
  show ?case
  proof (cases "n < 10")
    case True
    then show ?thesis by (subst show_nat.simps) (simp add: val_of_digits_def)
  next
    case False
    with 1 have "val_of_digits (show_nat (n div 10)) = n div 10" by simp
    with False show ?thesis by (subst show_nat.simps) (simp add: val_of_digits_snoc)
  qed
qed

lemma show_nat_inject [simp]: "show_nat m = show_nat n \<longleftrightarrow> m = n"
  by (metis val_show_nat)

lemma hd_show_nat: "is_digit (hd (show_nat n))"
  using show_nat_digits [of n] by (cases "show_nat n") auto

lemma parse_show_nat: "n \<le> m \<Longrightarrow> parse_uint m (show_nat n) = Some n"
proof -
  assume le: "n \<le> m"
  obtain c cs where eq: "show_nat n = c # cs"
    by (cases "show_nat n") auto
  have "is_digit c" using hd_show_nat [of n] eq by simp
  then have "c \<noteq> CHR ''+''" by (auto simp: is_digit_def char_code_def)
  then show ?thesis
    using le show_nat_digits [of n] val_show_nat [of n] eq
    by (simp add: parse_uint_def del: val_show_nat)
qed

lemma is_digit_not_ws: "is_digit c \<Longrightarrow> \<not> is_ws c"
  by (auto simp: is_digit_def is_ws_def Let_def)

text \<open>\<open>{:?}\<close> of a string.\<close>

fun show_hex :: "nat \<Rightarrow> string" where
  "show_hex n =
     (if n < 10 then [digit_char n]
      else if n < 16 then [char_of (87 + n)]
      else show_hex (n div 16) @ show_hex (n mod 16))"

declare show_hex.simps [simp del]

definition debug_char :: "char \<Rightarrow> string" where
  "debug_char c =
     (if c = CHR 0x09 then [backslash, CHR ''t'']
      else if c = carriage_return then [backslash, CHR ''r'']
      else if c = newline then [backslash, CHR ''n'']
      else if c = CHR 0x22 \<or> c = backslash then [backslash, c]
      else if c = CHR 0x00 then [backslash, CHR ''0'']
      else if char_code c < 32 \<or> char_code c = 127
      then [backslash, CHR ''u'', CHR ''{''] @ show_hex (char_code c) @ ''}''
      else [c])"

definition debug_str :: "string \<Rightarrow> string" where
  "debug_str s = [CHR 0x22] @ concat (map debug_char s) @ [CHR 0x22]"

section \<open>JSON values\<close>

text \<open>\<open>serde_json::Value\<close> as data; a number keeps its text. Rendering a value to text is the
  library's and enters the model as a parameter where the code calls it.\<close>

datatype json =
    JNull
  | JBool bool
  | JNum string
  | JStr string
  | JArr "json list"
  | JObj "(string \<times> json) list"

fun json_get :: "string \<Rightarrow> json \<Rightarrow> json option" where
  "json_get k (JObj kvs) = map_of kvs k"
| "json_get k _ = None"

fun json_as_str :: "json \<Rightarrow> string option" where
  "json_as_str (JStr s) = Some s"
| "json_as_str _ = None"

text \<open>Unsigned integer parameters: the value of a number that parses as one.\<close>

fun json_as_u64 :: "json \<Rightarrow> nat option" where
  "json_as_u64 (JNum t) = parse_uint (max_of 64) t"
| "json_as_u64 _ = None"

definition json_str_at :: "string \<Rightarrow> json \<Rightarrow> string option" where
  "json_str_at k v = Option.bind (json_get k v) json_as_str"

lemma json_str_at_obj: "json_str_at k (JObj [(k, JStr s)]) = Some s"
  by (simp add: json_str_at_def)

section \<open>Components as machines\<close>

text \<open>The interface of a component that owns its state: the operations its callers may issue,
  in any order, and an invariant every one of them keeps. A component interprets it on its
  operations and gets the invariant of every run.\<close>

locale machine =
  fixes inv :: "'s \<Rightarrow> bool"
    and step :: "'op \<Rightarrow> 's \<Rightarrow> 's"
  assumes step_inv: "inv s \<Longrightarrow> inv (step ev s)"
begin

lemma run_inv: "inv s \<Longrightarrow> inv (fold step evs s)"
  by (induction evs arbitrary: s) (auto intro: step_inv)

lemma run_all_states: "inv s \<Longrightarrow> n \<le> length evs \<Longrightarrow> inv (fold step (take n evs) s)"
  by (rule run_inv)

end

text \<open>A machine in the style of Rust's \<open>&mut self\<close> operations: each returns an optional error and the
  state it leaves. Operations keep the invariant, a final state stays final, and a level (a
  version, a round, a clock) never falls. Its runs are runs of the plain machine.\<close>

locale guarded_machine =
  fixes inv :: "'s \<Rightarrow> bool"
    and apply_op :: "'op \<Rightarrow> 's \<Rightarrow> 'e option \<times> 's"
    and final :: "'s \<Rightarrow> bool"
    and level :: "'s \<Rightarrow> nat"
  assumes apply_inv: "inv s \<Longrightarrow> inv (snd (apply_op x s))"
    and apply_final: "final s \<Longrightarrow> final (snd (apply_op x s))"
    and apply_level: "level s \<le> level (snd (apply_op x s))"

sublocale guarded_machine \<subseteq> steps: machine inv "\<lambda>x s. snd (apply_op x s)"
  by unfold_locales (rule apply_inv)

context guarded_machine
begin

lemma run_final: "final s \<Longrightarrow> final (fold (\<lambda>x s. snd (apply_op x s)) xs s)"
  by (induction xs arbitrary: s) (simp_all add: apply_final)

lemma run_level: "level s \<le> level (fold (\<lambda>x s. snd (apply_op x s)) xs s)"
proof (induction xs arbitrary: s)
  case (Cons x xs)
  have "level s \<le> level (snd (apply_op x s))" by (rule apply_level)
  also have "\<dots> \<le> level (fold (\<lambda>x s. snd (apply_op x s)) xs (snd (apply_op x s)))"
    by (rule Cons.IH)
  finally show ?case by simp
qed simp

end

end
