(* ===== verification/Conversation.thy ===== *)
theory Conversation
  imports Prelude
begin

text \<open>
  Conversation history of \<open>crates/state/store/src/lib.rs\<close>: blocks, the text view and its
  token estimate, the budget levels, the append-only conversation with its journal sink, and
  the repair of histories with unanswered calls. The wall-clock rendering is
  \<open>crates/infrastructure/base/src/lib.rs\<close>; rendering a JSON value to text is a parameter.
\<close>

section \<open>Calendar\<close>

definition civil_from_days :: "int \<Rightarrow> int \<times> int \<times> int" where
  "civil_from_days days =
     (let z = days + 719468;
          era = z div 146097;
          doe = z mod 146097;
          yoe = (doe - doe div 1460 + doe div 36524 - doe div 146096) div 365;
          year = yoe + era * 400;
          doy = doe - (365 * yoe + yoe div 4 - yoe div 100);
          mp = (5 * doy + 2) div 153;
          day = doy - (153 * mp + 2) div 5 + 1;
          month = (if mp < 10 then mp + 3 else mp - 9)
      in (year + (if month \<le> 2 then 1 else 0), month, day))"

text \<open>\<open>{:04}\<close> and \<open>{:02}\<close>: zero padding, the sign counted.\<close>

definition pad_num :: "nat \<Rightarrow> int \<Rightarrow> string" where
  "pad_num w n =
     (let ds = show_nat (nat \<bar>n\<bar>); sign = (if n < 0 then ''-'' else [])
      in sign @ replicate (w - (length ds + length sign)) (CHR ''0'') @ ds)"

definition format_timestamp :: "nat \<Rightarrow> string" where
  "format_timestamp secs =
     (case civil_from_days (int (secs div 86400)) of (year, month, day) \<Rightarrow>
        let tod = secs mod 86400
        in pad_num 4 year @ ''-'' @ pad_num 2 month @ ''-'' @ pad_num 2 day @ '' '' @
           pad_num 2 (int (tod div 3600)) @ '':'' @ pad_num 2 (int (tod mod 3600 div 60)) @ '' UTC'')"

section \<open>Blocks and entries\<close>

definition BUDGET_WARN_REMAINING :: nat where
  "BUDGET_WARN_REMAINING = 20000"

definition BUDGET_AUTO_COMPACT_REMAINING :: nat where
  "BUDGET_AUTO_COMPACT_REMAINING = 13000"

definition BUDGET_BLOCKING_REMAINING :: nat where
  "BUDGET_BLOCKING_REMAINING = 3000"

datatype role = User | Assistant

datatype block =
    Text string
  | ToolUse string string json
  | ToolResult string string bool "nat option"
  | Image "string option" string string
  | Thinking string "string option"

record history_entry =
  he_role :: role
  he_blocks :: "block list"

text \<open>The text of one block; \<open>None\<close> for the blocks the view leaves out.\<close>

fun block_text :: "(json \<Rightarrow> string) \<Rightarrow> block \<Rightarrow> string option" where
  "block_text render (Text t) = Some t"
| "block_text render (ToolUse call_id name input) =
     Some (''['' @ call_id @ ''] call '' @ name @ '' '' @ render input)"
| "block_text render (ToolResult call_id content is_error produced_at) =
     Some ((case produced_at of Some secs \<Rightarrow> ''['' @ format_timestamp secs @ ''] '' | None \<Rightarrow> []) @
           ''['' @ call_id @ ''] '' @ (if is_error then ''error'' else ''ok'') @ '': '' @ content)"
| "block_text render (Image i mime base64) =
     Some (case i of Some label \<Rightarrow> ''[image '' @ mime @ '': '' @ label @ '']''
                   | None \<Rightarrow> ''[image '' @ mime @ '']'')"
| "block_text render (Thinking _ _) = None"

text \<open>The pieces of an entry's text: a newline piece before every piece but the first.\<close>

fun separate_pieces :: "bool \<Rightarrow> string list \<Rightarrow> string list" where
  "separate_pieces separated [] = []"
| "separate_pieces separated (piece # rest) =
     (if separated then [[newline], piece] else [piece]) @ separate_pieces True rest"

definition text_chunks :: "(json \<Rightarrow> string) \<Rightarrow> history_entry \<Rightarrow> string list" where
  "text_chunks render e = separate_pieces False (List.map_filter (block_text render) (he_blocks e))"

definition entry_text :: "(json \<Rightarrow> string) \<Rightarrow> history_entry \<Rightarrow> string" where
  "entry_text render e = concat (text_chunks render e)"

definition prose :: "history_entry \<Rightarrow> string" where
  "prose e = join [newline]
     (List.map_filter (\<lambda>b. case b of Text t \<Rightarrow> Some t | _ \<Rightarrow> None) (he_blocks e))"

record usage =
  u_input :: nat
  u_output :: nat
  u_last_output :: nat
  u_cache_read :: nat
  u_cache_creation :: nat

definition usage_default :: usage where
  "usage_default = \<lparr>u_input = 0, u_output = 0, u_last_output = 0, u_cache_read = 0, u_cache_creation = 0\<rparr>"

datatype budget_level = BudgetOk | BudgetWarn | AutoCompact | BudgetBlocking

datatype compact_trigger = TAuto | TBlocking | TReactive | TManual "string option" | TModel

definition check_budget :: "nat \<Rightarrow> budget_level" where
  "check_budget remaining =
     (if remaining \<le> BUDGET_BLOCKING_REMAINING then BudgetBlocking
      else if remaining \<le> BUDGET_AUTO_COMPACT_REMAINING then AutoCompact
      else if remaining \<le> BUDGET_WARN_REMAINING then BudgetWarn
      else BudgetOk)"

definition CONTEXT_OVERHEAD_TOKENS :: nat where
  "CONTEXT_OVERHEAD_TOKENS = 2000"

section \<open>Token estimate\<close>

record char_split =
  cs_ascii :: nat
  cs_non_ascii :: nat

definition split_zero :: char_split where
  "split_zero = \<lparr>cs_ascii = 0, cs_non_ascii = 0\<rparr>"

fun split_add :: "char_split \<Rightarrow> string \<Rightarrow> char_split" where
  "split_add sp [] = sp"
| "split_add sp (c # cs) =
     split_add (if is_ascii c then sp\<lparr>cs_ascii := cs_ascii sp + 1\<rparr>
                else sp\<lparr>cs_non_ascii := cs_non_ascii sp + 1\<rparr>) cs"

definition split_of :: "string \<Rightarrow> char_split" where
  "split_of t = split_add split_zero t"

definition div_ceil :: "nat \<Rightarrow> nat \<Rightarrow> nat" where
  "div_ceil a b = a div b + (if a mod b = 0 then 0 else 1)"

definition split_tokens :: "char_split \<Rightarrow> nat" where
  "split_tokens sp = div_ceil (cs_ascii sp) 4 + cs_non_ascii sp"

definition estimate_tokens :: "string \<Rightarrow> nat" where
  "estimate_tokens t = split_tokens (split_of t)"

definition estimate_entry_tokens :: "(json \<Rightarrow> string) \<Rightarrow> history_entry \<Rightarrow> nat" where
  "estimate_entry_tokens render e = split_tokens (foldl split_add split_zero (text_chunks render e))"

section \<open>The conversation\<close>

text \<open>What the journal sink was told, in order.\<close>

datatype sink_note = Appended history_entry | Replaced "history_entry list"

record conversation =
  cv_entries :: "history_entry list"
  cv_usage :: usage
  cv_has_sink :: bool
  cv_notes :: "sink_note list"

definition conv_new :: "bool \<Rightarrow> conversation" where
  "conv_new has_sink = \<lparr>cv_entries = [], cv_usage = usage_default, cv_has_sink = has_sink, cv_notes = []\<rparr>"

definition note_sink :: "sink_note \<Rightarrow> conversation \<Rightarrow> conversation" where
  "note_sink n c = (if cv_has_sink c then c\<lparr>cv_notes := cv_notes c @ [n]\<rparr> else c)"

definition push_blocks :: "role \<Rightarrow> block list \<Rightarrow> conversation \<Rightarrow> conversation" where
  "push_blocks r bs c =
     (let entry = \<lparr>he_role = r, he_blocks = bs\<rparr>; c' = note_sink (Appended entry) c
      in c'\<lparr>cv_entries := cv_entries c' @ [entry]\<rparr>)"

definition push :: "role \<Rightarrow> string \<Rightarrow> conversation \<Rightarrow> conversation" where
  "push r t c = push_blocks r [Text t] c"

definition replace_history :: "history_entry list \<Rightarrow> conversation \<Rightarrow> conversation" where
  "replace_history es c = (note_sink (Replaced es) c)\<lparr>cv_entries := es\<rparr>"

definition install_unjournaled :: "history_entry list \<Rightarrow> conversation \<Rightarrow> conversation" where
  "install_unjournaled es c = c\<lparr>cv_entries := es\<rparr>"

definition settle_usage :: "usage \<Rightarrow> conversation \<Rightarrow> conversation" where
  "settle_usage u c = c\<lparr>cv_usage := u\<rparr>"

section \<open>Repair\<close>

definition all_blocks :: "history_entry list \<Rightarrow> block list" where
  "all_blocks es = concat (map he_blocks es)"

fun use_id :: "block \<Rightarrow> string option" where
  "use_id (ToolUse i _ _) = Some i"
| "use_id _ = None"

fun result_id :: "block \<Rightarrow> string option" where
  "result_id (ToolResult i _ _ _) = Some i"
| "result_id _ = None"

text \<open>The scan over the blocks; \<open>seen\<close> are the ids already filed.\<close>

fun lost_calls :: "string list \<Rightarrow> string list \<Rightarrow> block list \<Rightarrow> string list" where
  "lost_calls answered seen [] = []"
| "lost_calls answered seen (b # bs) =
     (case use_id b of
        Some i \<Rightarrow>
          if i \<notin> set answered \<and> i \<notin> set seen then i # lost_calls answered (i # seen) bs
          else lost_calls answered seen bs
      | None \<Rightarrow> lost_calls answered seen bs)"

definition close_open_calls ::
    "history_entry list \<Rightarrow> string \<Rightarrow> history_entry list \<times> string list" where
  "close_open_calls entries note =
     (let answered = List.map_filter result_id (all_blocks entries);
          lost = lost_calls answered [] (all_blocks entries)
      in if lost = [] then (entries, lost)
         else (entries @ [\<lparr>he_role = User, he_blocks = map (\<lambda>i. ToolResult i note True None) lost\<rparr>], lost))"

section \<open>The journal follows the history\<close>

text \<open>Reading the journal back: appends add, a replacement starts over.\<close>

fun replay_note :: "sink_note \<Rightarrow> history_entry list \<Rightarrow> history_entry list" where
  "replay_note (Appended e) es = es @ [e]"
| "replay_note (Replaced es') es = es'"

datatype conv_op = PushBlocks role "block list" | ReplaceAll "history_entry list" | Settle usage

fun conv_step :: "conv_op \<Rightarrow> conversation \<Rightarrow> conversation" where
  "conv_step (PushBlocks r bs) c = push_blocks r bs c"
| "conv_step (ReplaceAll es) c = replace_history es c"
| "conv_step (Settle u) c = settle_usage u c"

definition journal_inv :: "conversation \<Rightarrow> bool" where
  "journal_inv c \<longleftrightarrow> cv_has_sink c \<and> fold replay_note (cv_notes c) [] = cv_entries c"

lemma push_blocks_entries [simp]:
  "cv_entries (push_blocks r bs c) = cv_entries c @ [\<lparr>he_role = r, he_blocks = bs\<rparr>]"
  by (simp add: push_blocks_def note_sink_def Let_def)

lemma push_entries [simp]:
  "cv_entries (push r t c) = cv_entries c @ [\<lparr>he_role = r, he_blocks = [Text t]\<rparr>]"
  by (simp add: push_def)

lemma replace_history_entries [simp]: "cv_entries (replace_history es c) = es"
  by (simp add: replace_history_def)

lemma settle_usage_fields [simp]:
  "cv_entries (settle_usage u c) = cv_entries c" "cv_usage (settle_usage u c) = u"
  "cv_notes (settle_usage u c) = cv_notes c" "cv_has_sink (settle_usage u c) = cv_has_sink c"
  by (simp_all add: settle_usage_def)

lemma push_blocks_usage [simp]:
  "cv_usage (push_blocks r bs c) = cv_usage c" "cv_usage (push r t c) = cv_usage c"
  "cv_usage (replace_history es c) = cv_usage c"
  by (simp_all add: push_def push_blocks_def replace_history_def note_sink_def Let_def)

lemma journal_inv_step [inv_intros]: "journal_inv c \<Longrightarrow> journal_inv (conv_step ev c)"
  by (cases ev) (auto simp: journal_inv_def push_blocks_def replace_history_def settle_usage_def
      note_sink_def Let_def)

interpretation conv_journal: machine journal_inv conv_step
  by unfold_locales (rule journal_inv_step)

section \<open>Facts about repair and estimates\<close>

lemma lost_calls_set:
  "set (lost_calls answered seen bs) = set (List.map_filter use_id bs) - set answered - set seen"
  by (induction answered seen bs rule: lost_calls.induct)
    (auto simp: List.map_filter_simps split: option.splits)

lemma lost_calls_distinct: "distinct (lost_calls answered seen bs)"
  by (induction answered seen bs rule: lost_calls.induct)
    (auto simp: lost_calls_set split: option.splits)

lemma map_filter_append: "List.map_filter f (xs @ ys) = List.map_filter f xs @ List.map_filter f ys"
  by (simp add: List.map_filter_def)

lemma map_filter_None: "\<forall>x \<in> set xs. f x = None \<Longrightarrow> List.map_filter f xs = []"
  by (induction xs) (auto simp: List.map_filter_simps)

lemma split_add_append: "split_add sp (a @ b) = split_add (split_add sp a) b"
  by (induction sp a rule: split_add.induct) simp_all

lemma fold_split_add_concat: "foldl split_add sp chunks = split_add sp (concat chunks)"
  by (induction chunks arbitrary: sp) (simp_all add: split_add_append)

lemma separate_pieces_concat: "concat (separate_pieces True ps) = concat (map (\<lambda>p. newline # p) ps)"
  by (induction ps) simp_all

lemma join_pieces: "concat (separate_pieces False ps) = join [newline] ps"
proof (cases ps)
  case (Cons p ps')
  have "p @ concat (map (\<lambda>p. newline # p) ps') = join [newline] (p # ps')"
  proof (induction ps' arbitrary: p)
    case (Cons q ps')
    show ?case using Cons.IH [of q] by simp
  qed simp
  with Cons show ?thesis by (simp add: separate_pieces_concat)
qed simp

definition used_ids :: "history_entry list \<Rightarrow> string list" where
  "used_ids es = List.map_filter use_id (all_blocks es)"

definition answered_ids :: "history_entry list \<Rightarrow> string list" where
  "answered_ids es = List.map_filter result_id (all_blocks es)"

lemma closing_blocks:
  "List.map_filter use_id (map (\<lambda>i. ToolResult i note True None) ids) = []"
  "List.map_filter result_id (map (\<lambda>i. ToolResult i note True None) ids) = ids"
  by (induction ids) (simp_all add: List.map_filter_simps)

lemma all_blocks_append [simp]: "all_blocks (a @ b) = all_blocks a @ all_blocks b"
  by (simp add: all_blocks_def)

lemma all_blocks_single [simp]: "all_blocks [e] = he_blocks e"
  by (simp add: all_blocks_def)

section \<open>Properties\<close>

text \<open>the journal is the history: whatever pushes, replacements and settlements a
  conversation with a sink has seen, reading its notes back gives its entries.\<close>

theorem journal_replays_history:
  "cv_entries (fold conv_step evs (conv_new True)) =
     fold replay_note (cv_notes (fold conv_step evs (conv_new True))) []"
proof -
  have "journal_inv (conv_new True)"
    by (simp add: journal_inv_def conv_new_def)
  then have "journal_inv (fold conv_step evs (conv_new True))"
    by (rule conv_journal.run_inv)
  then show ?thesis by (simp add: journal_inv_def)
qed

text \<open>The open calls of a history in the order of their first use, each once: the specification of the
  scan.\<close>

fun first_uses :: "string list \<Rightarrow> string list" where
  "first_uses [] = []"
| "first_uses (i # is) = i # filter (\<lambda>j. j \<noteq> i) (first_uses is)"

definition open_ids :: "history_entry list \<Rightarrow> string list" where
  "open_ids es = first_uses (filter (\<lambda>i. i \<notin> set (answered_ids es)) (used_ids es))"

lemma set_first_uses: "set (first_uses is) = set is"
  by (induction "is") auto

lemma lost_calls_first_uses:
  "lost_calls answered seen bs =
     filter (\<lambda>i. i \<notin> set seen) (first_uses (filter (\<lambda>i. i \<notin> set answered) (List.map_filter use_id bs)))"
proof (induction answered seen bs rule: lost_calls.induct)
  case (2 answered seen b bs)
  show ?case
  proof (cases "use_id b")
    case (Some i)
    have gone: "filter P (filter (\<lambda>j. j \<noteq> i) xs) = filter (\<lambda>j. P j \<and> j \<noteq> i) xs" for P xs
      by (induction xs) auto
    have two: "filter (\<lambda>j. j \<notin> set (i # seen)) xs = filter (\<lambda>j. j \<notin> set seen \<and> j \<noteq> i) xs" for xs
      by (rule filter_cong) auto
    have skip: "filter (\<lambda>j. j \<noteq> i \<and> j \<notin> set seen) xs = filter (\<lambda>j. j \<notin> set seen) xs" if "i \<in> set seen" for xs
      using that by (intro filter_cong) auto
    show ?thesis
      using 2 Some by (auto simp: List.map_filter_simps gone two skip)
  qed (use 2 in \<open>simp add: List.map_filter_simps\<close>)
qed (simp add: List.map_filter_simps)

lemma lost_calls_open: "lost_calls (List.map_filter result_id (all_blocks es)) [] (all_blocks es) = open_ids es"
  by (simp add: lost_calls_first_uses open_ids_def answered_ids_def used_ids_def)

lemma count_list_distinct: "distinct xs \<Longrightarrow> count_list xs x = (if x \<in> set xs then 1 else 0)"
  by (induction xs) auto

text \<open>C8: repair answers the open calls. The reported ids are the ids used without an answer, each once, in
  the order of first use. When there is one, exactly one entry is added, at the end, from the user, with
  one error result per reported id, in that order, holding the note and no production time. So every id
  the history used is answered afterwards, an open one by exactly one result, no other id gets a result,
  and a repaired history needs no second repair.\<close>

theorem close_open_calls_correct:
  "close_open_calls es note =
     (if open_ids es = [] then es
      else es @ [\<lparr>he_role = User, he_blocks = map (\<lambda>i. ToolResult i note True None) (open_ids es)\<rparr>], open_ids es) \<and>
   (let es' = fst (close_open_calls es note)
    in set (used_ids es') \<subseteq> set (answered_ids es') \<and>
       (\<forall>i. count_list (answered_ids es') i =
          count_list (answered_ids es) i + (if i \<in> set (used_ids es) - set (answered_ids es) then 1 else 0)) \<and>
       close_open_calls es' note' = (es', []))"
proof -
  have eq: "close_open_calls es nt =
     (if open_ids es = [] then es
      else es @ [\<lparr>he_role = User, he_blocks = map (\<lambda>i. ToolResult i nt True None) (open_ids es)\<rparr>], open_ids es)" for es nt
    by (simp add: close_open_calls_def Let_def lost_calls_open)
  have set_open: "set (open_ids es) = set (used_ids es) - set (answered_ids es)" for es
    by (auto simp: open_ids_def set_first_uses)
  have dist: "distinct (open_ids es)"
    using lost_calls_distinct [of "answered_ids es" "[]" "all_blocks es"]
    by (simp add: lost_calls_first_uses open_ids_def used_ids_def)
  define es' where "es' = fst (close_open_calls es note)"
  have ids: "used_ids es' = used_ids es" "answered_ids es' = answered_ids es @ open_ids es"
    by (auto simp: es'_def eq used_ids_def answered_ids_def map_filter_append closing_blocks)
  then have "set (open_ids es') = {}" using set_open [of es] set_open [of es'] by auto
  then have "close_open_calls es' note' = (es', [])" by (simp add: eq)
  moreover have "count_list (answered_ids es') i =
      count_list (answered_ids es) i + (if i \<in> set (used_ids es) - set (answered_ids es) then 1 else 0)" for i
    using ids count_list_distinct [OF dist, of i] set_open [of es] by simp
  moreover have "set (used_ids es') \<subseteq> set (answered_ids es')"
    using ids set_open [of es] by auto
  ultimately show ?thesis using eq unfolding es'_def Let_def by blast
qed

text \<open>The estimate of an entry, accumulated over its pieces, is the estimate of its joined
  text, and the pieces are the blocks' texts separated by newlines.\<close>

theorem estimate_entry_is_text_estimate:
  "estimate_entry_tokens render e = estimate_tokens (entry_text render e) \<and>
   entry_text render e = join [newline] (List.map_filter (block_text render) (he_blocks e))"
  by (simp add: estimate_entry_tokens_def estimate_tokens_def split_of_def entry_text_def
      text_chunks_def fold_split_add_concat join_pieces)

end
