(* ===== verification/Sandbox_Rules.thy ===== *)
theory Sandbox_Rules
  imports Prelude
begin

text \<open>
  Permission rules of \<open>crates/capabilities/sandbox/src/lib.rs\<close>: the vocabulary of
  \<open>crates/foundation/protocol\<close>, the wildcard matcher, lexical path normalization, the
  splitter for compound commands, and the rules built on them (parse, display,
  match, coverage).
\<close>

section \<open>Policy vocabulary\<close>

datatype permission_mode = Plan | Auto | Wave

datatype tool_kind = Shell | FileEdit | SessionState | Present | OtherKind

datatype approval_kind = ExecApproval | WriteApproval

definition mode_parse :: "string \<Rightarrow> permission_mode option" where
  "mode_parse s =
     (if s = ''plan'' then Some Plan
      else if s \<in> {''auto'', ''guarded'', ''default'', ''acceptEdits''} then Some Auto
      else if s \<in> {''wave'', ''bypassPermissions'', ''yolo''} then Some Wave
      else None)"

fun mode_as_str :: "permission_mode \<Rightarrow> string" where
  "mode_as_str Plan = ''plan''"
| "mode_as_str Auto = ''auto''"
| "mode_as_str Wave = ''wave''"

fun next_in_cycle :: "permission_mode \<Rightarrow> permission_mode" where
  "next_in_cycle Plan = Auto"
| "next_in_cycle Auto = Wave"
| "next_in_cycle Wave = Plan"

definition cycle_from_str :: "string \<Rightarrow> permission_mode" where
  "cycle_from_str current =
     (case map_option next_in_cycle (mode_parse current) of Some m \<Rightarrow> m | None \<Rightarrow> Plan)"

lemma mode_parse_as_str [simp]: "mode_parse (mode_as_str m) = Some m"
  by (cases m) (simp_all add: mode_parse_def)

lemma next_in_cycle_3: "next_in_cycle (next_in_cycle (next_in_cycle m)) = m"
  by (cases m) simp_all

section \<open>Wildcard matching\<close>

abbreviation star_char :: char where
  "star_char \<equiv> CHR ''*''"

abbreviation any_char :: char where
  "any_char \<equiv> CHR ''?''"

function skip_stars :: "string \<Rightarrow> nat \<Rightarrow> nat" where
  "skip_stars p pi = (if pi < length p \<and> p ! pi = star_char then skip_stars p (pi + 1) else pi)"
  by pat_completeness auto
termination
  by (relation "measure (\<lambda>(p, pi). length p - pi)") auto

declare skip_stars.simps [simp del]

text \<open>The matcher's loop, one call per iteration; \<open>None\<close> would be a loop that does not end.\<close>

partial_function (option) wildcard_loop ::
    "string \<Rightarrow> string \<Rightarrow> nat \<Rightarrow> nat \<Rightarrow> nat option \<Rightarrow> nat \<Rightarrow> bool option" where
  "wildcard_loop p t pi ti star star_t =
     (if ti < length t then
        if pi < length p \<and> (p ! pi = any_char \<or> p ! pi = t ! ti)
        then wildcard_loop p t (pi + 1) (ti + 1) star star_t
        else if pi < length p \<and> p ! pi = star_char
        then wildcard_loop p t (pi + 1) ti (Some pi) ti
        else (case star of
                Some s \<Rightarrow> wildcard_loop p t (s + 1) (star_t + 1) star (star_t + 1)
              | None \<Rightarrow> Some False)
      else Some (skip_stars p pi = length p))"

declare wildcard_loop.simps [code]

definition wildcard_match :: "string \<Rightarrow> string \<Rightarrow> bool" where
  "wildcard_match p t = (wildcard_loop p t 0 0 None 0 = Some True)"

text \<open>The documented meaning of a pattern: \<open>*\<close> any run of characters, \<open>?\<close> one character,
  everything else itself.\<close>

fun glob :: "string \<Rightarrow> string \<Rightarrow> bool" where
  "glob [] t = (t = [])"
| "glob (c # p) [] = (c = star_char \<and> glob p [])"
| "glob (c # p) (d # t) =
     (if c = star_char then glob p (d # t) \<or> glob (c # p) t
      else (c = any_char \<or> c = d) \<and> glob p t)"

subsection \<open>Facts about the specification\<close>

lemma glob_star: "glob (star_char # p) t \<longleftrightarrow> (\<exists>k \<le> length t. glob p (drop k t))"
proof (induction t)
  case Nil
  then show ?case by simp
next
  case (Cons d t)
  have "(\<exists>k \<le> length (d # t). glob p (drop k (d # t))) \<longleftrightarrow>
        glob p (d # t) \<or> (\<exists>k \<le> length t. glob p (drop k t))"
    by (metis Suc_le_mono drop0 drop_Suc_Cons length_Cons not0_implies_Suc zero_le)
  with Cons show ?case by simp
qed

lemma glob_literal_append:
  "star_char \<notin> set seg \<Longrightarrow> glob (seg @ p) t \<Longrightarrow>
     length seg \<le> length t \<and> glob p (drop (length seg) t)"
proof (induction seg arbitrary: t)
  case (Cons c seg)
  then show ?case by (cases t) auto
qed simp

lemma glob_all_stars: "list_all (\<lambda>c. c = star_char) p \<Longrightarrow> glob p []"
  by (induction p) auto

lemma glob_Nil_right: "glob p [] \<longleftrightarrow> list_all (\<lambda>c. c = star_char) p"
  by (induction p) auto

lemma skip_stars_full:
  "pi \<le> length p \<Longrightarrow> skip_stars p pi = length p \<longleftrightarrow> list_all (\<lambda>c. c = star_char) (drop pi p)"
proof (induction p pi rule: skip_stars.induct)
  case (1 p pi)
  show ?case
  proof (cases "pi < length p")
    case True
    then have "drop pi p = p ! pi # drop (pi + 1) p"
      by (simp add: Cons_nth_drop_Suc)
    with 1 True show ?thesis by (subst skip_stars.simps) auto
  next
    case False
    with 1 show ?thesis by (subst skip_stars.simps) auto
  qed
qed

subsection \<open>What the loop matches\<close>

text \<open>A \<open>*\<close> of the pattern that meets a \<open>*\<close> of the text stands for it, as an ordinary character; any
  other is a wildcard.\<close>

fun taken :: "string \<Rightarrow> string \<Rightarrow> bool" where
  "taken [] t = (t = [])"
| "taken (c # p) t =
     (case t of
        [] \<Rightarrow> c = star_char \<and> taken p []
      | d # u \<Rightarrow> if c = any_char \<or> c = d then taken p u
                 else c = star_char \<and> list_ex (\<lambda>k. taken p (drop k t)) [0..<length t + 1])"

lemma taken_star:
  "t \<noteq> [] \<Longrightarrow> hd t \<noteq> star_char \<Longrightarrow> taken (star_char # p) t \<longleftrightarrow> (\<exists>k \<le> length t. taken p (drop k t))"
  by (cases t) (auto simp: list_ex_iff less_Suc_eq_le Bex_def simp del: upt_Suc)

lemma taken_star_text: "taken (star_char # p) (star_char # u) \<longleftrightarrow> taken p u"
  by simp

lemma taken_Nil_right: "taken p [] \<longleftrightarrow> list_all (\<lambda>c. c = star_char) p"
  by (induction p) auto

lemma taken_star_some: "taken (star_char # p) t \<Longrightarrow> \<exists>k \<le> length t. taken p (drop k t)"
proof (cases t)
  case (Cons d u)
  assume a: "taken (star_char # p) t"
  show ?thesis
  proof (cases "d = star_char")
    case True
    with a Cons show ?thesis by (intro exI [of _ 1]) simp
  next
    case False
    with a Cons taken_star [of t p] show ?thesis by simp
  qed
qed simp

text \<open>It is within the documented language, and all of it on texts without a \<open>*\<close>.\<close>

lemma taken_glob: "taken p t \<Longrightarrow> glob p t"
proof (induction p arbitrary: t)
  case (Cons c p)
  show ?case
  proof (cases "c = star_char")
    case True
    then show ?thesis using taken_star_some [of p t] Cons by (auto simp: glob_star)
  next
    case False
    with Cons show ?thesis by (cases t) (auto split: if_splits)
  qed
qed simp

lemma glob_taken: "star_char \<notin> set t \<Longrightarrow> glob p t \<Longrightarrow> taken p t"
proof (induction p arbitrary: t)
  case (Cons c p)
  show ?case
  proof (cases "c = star_char")
    case True
    then obtain k where k: "k \<le> length t" "glob p (drop k t)" using Cons.prems by (auto simp: glob_star)
    moreover have "star_char \<notin> set (drop k t)" using Cons.prems(1) by (meson in_set_dropD)
    ultimately have tk: "taken p (drop k t)" using Cons.IH by blast
    show ?thesis
    proof (cases t)
      case Nil
      with True tk show ?thesis by simp
    next
      case (Cons d u)
      then have "hd t \<noteq> star_char" using Cons.prems(1) \<open>star_char \<notin> set t\<close> by auto
      with Cons True tk k(1) taken_star [of t p] show ?thesis by auto
    qed
  next
    case False
    with Cons show ?thesis by (cases t) (auto split: if_splits)
  qed
qed simp

lemma taken_literal: "c = any_char \<or> c = d \<Longrightarrow> taken (c # p) (d # u) = taken p u"
  by simp

lemma taken_miss: "c \<noteq> star_char \<Longrightarrow> \<not> (c = any_char \<or> c = d) \<Longrightarrow> \<not> taken (c # p) (d # u)"
  by simp

declare taken.simps(2) [simp del]

subsection \<open>The loop against the specification\<close>

text \<open>What a backtrack to the last star can still reach.\<close>

definition star_alt :: "string \<Rightarrow> string \<Rightarrow> nat option \<Rightarrow> nat \<Rightarrow> bool" where
  "star_alt p t star star_t =
     (case star of None \<Rightarrow> False
      | Some s \<Rightarrow> \<exists>k. star_t < k \<and> k \<le> length t \<and> taken (drop (s + 1) p) (drop k t))"

text \<open>Loop invariant: since the last star the pattern has consumed as many characters as it has, and
  its stars have consumed stars.\<close>

definition loop_bounds :: "string \<Rightarrow> string \<Rightarrow> nat \<Rightarrow> nat \<Rightarrow> nat option \<Rightarrow> nat \<Rightarrow> bool" where
  "loop_bounds p t pi ti star star_t \<longleftrightarrow>
     pi \<le> length p \<and> ti \<le> length t \<and>
     (case star of None \<Rightarrow> True
      | Some s \<Rightarrow> s < pi \<and> star_t + (pi - (s + 1)) = ti \<and>
          (\<forall>i. s < i \<and> i < pi \<and> p ! i = star_char \<longrightarrow> t ! (star_t + (i - (s + 1))) = star_char))"

definition loop_order :: "string \<Rightarrow> string \<Rightarrow>
    ((nat \<times> nat \<times> nat option \<times> nat) \<times> (nat \<times> nat \<times> nat option \<times> nat)) set" where
  "loop_order p t = measures
     [\<lambda>(pi, ti, star, star_t). case star of None \<Rightarrow> Suc (length t) | Some _ \<Rightarrow> length t - star_t,
      \<lambda>(pi, ti, star, star_t). length t - ti,
      \<lambda>(pi, ti, star, star_t). length p - pi]"

lemma wf_loop_order: "wf (loop_order p t)"
  by (simp add: loop_order_def)

lemma star_alt_Suc:
  assumes "star_t < length t"
  shows "star_alt p t (Some s) star_t \<longleftrightarrow>
           taken (drop (s + 1) p) (drop (star_t + 1) t) \<or> star_alt p t (Some s) (star_t + 1)"
proof -
  have "(\<exists>k > n. Q k) \<longleftrightarrow> Q (Suc n) \<or> (\<exists>k > Suc n. Q k)" for Q :: "nat \<Rightarrow> bool" and n
    by (metis Suc_lessD Suc_lessI lessI)
  from this [of star_t "\<lambda>k. k \<le> length t \<and> taken (drop (s + 1) p) (drop k t)"] assms
  show ?thesis by (simp add: star_alt_def Suc_le_eq)
qed

text \<open>Whatever an earlier start makes of the pattern up to the current position, it gets there no sooner.\<close>

lemma reaches_no_sooner:
  assumes "\<And>i. i < length seg \<Longrightarrow> seg ! i = star_char \<Longrightarrow> t ! (a + i) = star_char"
    and "a \<le> k" and "k \<le> length t" and "taken (seg @ p) (drop k t)" and "a + length seg \<le> length t"
  shows "\<exists>q. a + length seg \<le> q \<and> q \<le> length t \<and> taken p (drop q t)"
  using assms
proof (induction seg arbitrary: a k)
  case (Cons c seg)
  have next_seg: "t ! (Suc a + i) = star_char" if "i < length seg" "seg ! i = star_char" for i
    using Cons.prems(1) [of "Suc i"] that by simp
  have go: ?case if "Suc a \<le> k'" "k' \<le> length t" "taken (seg @ p) (drop k' t)" for k'
    using Cons.IH [OF next_seg that] Cons.prems(5) by simp
  show ?case
  proof (cases "k < length t")
    case True
    then have dt: "drop k t = t ! k # drop (Suc k) t" by (simp add: Cons_nth_drop_Suc)
    show ?thesis
    proof (cases "c = any_char \<or> c = t ! k")
      case True
      with Cons.prems(4) dt have "taken (seg @ p) (drop (Suc k) t)" by (simp add: taken_literal)
      with go [of "Suc k"] Cons.prems(2) \<open>k < length t\<close> show ?thesis by simp
    next
      case False
      with Cons.prems(4) dt have c: "c = star_char" using taken_miss by auto
      with False dt have "hd (drop k t) \<noteq> star_char" "drop k t \<noteq> []" by auto
      from taken_star [OF this(2,1), of "seg @ p"] Cons.prems(4) c
      obtain j where "j \<le> length (drop k t)" "taken (seg @ p) (drop j (drop k t))" by auto
      then have j: "j \<le> length t - k" "taken (seg @ p) (drop (j + k) t)" by simp_all
      have "t ! a = star_char" using Cons.prems(1) [of 0] c by simp
      with False c have "a \<noteq> k" by auto
      with j go [of "j + k"] Cons.prems(2,3) show ?thesis by simp
    qed
  next
    case False
    then have "drop k t = []" and k: "k = length t" using Cons.prems(3) by auto
    with Cons.prems(4) have stars: "list_all (\<lambda>c. c = star_char) (c # seg @ p)"
      by (simp only: append_Cons taken_Nil_right)
    with Cons.prems(5) show ?thesis by (intro exI [of _ "length t"]) (simp add: taken_Nil_right)
  qed
qed auto

lemma old_star_reaches:
  assumes "loop_bounds p t pi ti star star_t" and "star_alt p t star star_t"
  shows "\<exists>q. ti \<le> q \<and> q \<le> length t \<and> taken (drop pi p) (drop q t)"
proof -
  from assms(2) obtain s k where s: "star = Some s" and k: "star_t < k" "k \<le> length t"
    and g: "taken (drop (s + 1) p) (drop k t)"
    by (auto simp: star_alt_def split: option.splits)
  define seg where "seg = take (pi - (s + 1)) (drop (s + 1) p)"
  have len: "length seg = pi - (s + 1)" and "pi - (s + 1) + (s + 1) = pi" and ti: "star_t + (pi - (s + 1)) = ti" "ti \<le> length t"
    using assms(1) s by (auto simp: loop_bounds_def seg_def)
  then have "drop (s + 1) p = seg @ drop pi p" unfolding seg_def by (metis append_take_drop_id drop_drop)
  moreover have "t ! (star_t + i) = star_char" if "i < length seg" "seg ! i = star_char" for i
  proof -
    have "p ! (s + 1 + i) = star_char" "s < s + 1 + i" "s + 1 + i < pi"
      using that assms(1) s by (auto simp: seg_def loop_bounds_def)
    moreover have "\<forall>j. s < j \<and> j < pi \<and> p ! j = star_char \<longrightarrow> t ! (star_t + (j - (s + 1))) = star_char"
      using assms(1) s by (simp add: loop_bounds_def)
    ultimately have "t ! (star_t + (s + 1 + i - (s + 1))) = star_char" by blast
    then show ?thesis by simp
  qed
  ultimately show ?thesis
    using reaches_no_sooner [of seg t star_t k "drop pi p"] g k ti len by simp
qed

text \<open>One lemma gives termination and the answer.\<close>

lemma wildcard_loop_taken:
  assumes "loop_bounds p t pi ti star star_t"
  shows "wildcard_loop p t pi ti star star_t = Some (taken (drop pi p) (drop ti t) \<or> star_alt p t star star_t)"
  using assms
proof (induction "(pi, ti, star, star_t)" arbitrary: pi ti star star_t
         rule: wf_induct_rule [OF wf_loop_order [of p t], case_names less])
  case less
  note IH = less.hyps and inv = less.prems
  consider (ended) "\<not> ti < length t"
    | (char) "ti < length t" "pi < length p" "p ! pi = any_char \<or> p ! pi = t ! ti"
    | (star) "ti < length t" "pi < length p" "p ! pi = star_char" "p ! pi \<noteq> t ! ti"
    | (miss) "ti < length t" "p ! pi \<noteq> star_char \<or> length p \<le> pi"
        "\<not> (pi < length p \<and> (p ! pi = any_char \<or> p ! pi = t ! ti))"
    by (metis not_less)
  then show ?case
  proof cases
    case ended
    then have "ti = length t" and "pi \<le> length p"
      using inv by (auto simp: loop_bounds_def)
    then show ?thesis
      using old_star_reaches [OF inv]
      by (subst wildcard_loop.simps) (auto simp: skip_stars_full taken_Nil_right)
  next
    case char
    have "loop_bounds p t (pi + 1) (ti + 1) star star_t"
    proof (cases star)
      case (Some s)
      have "t ! (star_t + (i - (s + 1))) = star_char" if i: "s < i" "i < pi + 1" "p ! i = star_char" for i
      proof (cases "i = pi")
        case True
        then show ?thesis using inv char i by (auto simp: loop_bounds_def Some)
      next
        case False
        moreover have "\<forall>j. s < j \<and> j < pi \<and> p ! j = star_char \<longrightarrow> t ! (star_t + (j - (s + 1))) = star_char"
          using inv by (simp add: loop_bounds_def Some)
        ultimately show ?thesis using i by (simp add: less_Suc_eq)
      qed
      moreover have "s < pi" "star_t + (pi - (s + 1)) = ti" using inv by (simp_all add: loop_bounds_def Some)
      ultimately show ?thesis using char by (simp add: loop_bounds_def Some)
    qed (use char in \<open>simp add: loop_bounds_def\<close>)
    moreover have "((pi + 1, ti + 1, star, star_t), (pi, ti, star, star_t)) \<in> loop_order p t"
      using char by (simp add: loop_order_def diff_less_mono2)
    ultimately have "wildcard_loop p t (pi + 1) (ti + 1) star star_t =
        Some (taken (drop (pi + 1) p) (drop (ti + 1) t) \<or> star_alt p t star star_t)"
      using IH by blast
    moreover have "drop pi p = p ! pi # drop (pi + 1) p" and "drop ti t = t ! ti # drop (ti + 1) t"
      using char by (simp_all add: Cons_nth_drop_Suc)
    ultimately show ?thesis
      using char by (subst wildcard_loop.simps) (simp add: taken_literal)
  next
    case star
    have dp: "drop pi p = star_char # drop (pi + 1) p" and dt: "drop ti t = t ! ti # drop (ti + 1) t"
      using star by (metis Cons_nth_drop_Suc Suc_eq_plus1, simp add: Cons_nth_drop_Suc)
    have "loop_bounds p t (pi + 1) ti (Some pi) ti"
      using inv star by (auto simp: loop_bounds_def)
    moreover have "((pi + 1, ti, Some pi, ti), (pi, ti, star, star_t)) \<in> loop_order p t"
      using star inv by (auto simp: loop_order_def loop_bounds_def split: option.splits)
    ultimately have step: "wildcard_loop p t (pi + 1) ti (Some pi) ti =
        Some (taken (drop (pi + 1) p) (drop ti t) \<or> star_alt p t (Some pi) ti)"
      using IH by blast
    have "hd (drop ti t) \<noteq> star_char" "drop ti t \<noteq> []" using star dt by auto
    then have "taken (drop pi p) (drop ti t) \<longleftrightarrow> (\<exists>k \<le> length t - ti. taken (drop (pi + 1) p) (drop (k + ti) t))"
      using taken_star [of "drop ti t" "drop (pi + 1) p"] by (simp add: dp)
    also have "\<dots> \<longleftrightarrow> (\<exists>k. ti \<le> k \<and> k \<le> length t \<and> taken (drop (pi + 1) p) (drop k t))"
    proof (intro iffI; elim exE conjE)
      fix k assume "k \<le> length t - ti" "taken (drop (pi + 1) p) (drop (k + ti) t)"
      then show "\<exists>k. ti \<le> k \<and> k \<le> length t \<and> taken (drop (pi + 1) p) (drop k t)"
        using star by (intro exI [of _ "k + ti"]) auto
    next
      fix k assume "ti \<le> k" "k \<le> length t" "taken (drop (pi + 1) p) (drop k t)"
      then show "\<exists>k \<le> length t - ti. taken (drop (pi + 1) p) (drop (k + ti) t)"
        by (intro exI [of _ "k - ti"]) auto
    qed
    finally have eq: "taken (drop pi p) (drop ti t) \<longleftrightarrow>
        (\<exists>k. ti \<le> k \<and> k \<le> length t \<and> taken (drop (pi + 1) p) (drop k t))" .
    have now: "taken (drop pi p) (drop ti t) \<longleftrightarrow> taken (drop (pi + 1) p) (drop ti t) \<or> star_alt p t (Some pi) ti"
      unfolding eq star_alt_def using star by (auto simp: le_less)
    have old: "taken (drop pi p) (drop ti t)" if "star_alt p t star star_t"
    proof -
      obtain q where q: "ti \<le> q" "q \<le> length t" "taken (drop pi p) (drop q t)"
        using old_star_reaches [OF inv \<open>star_alt p t star star_t\<close>] by blast
      then obtain k where "k \<le> length t - q" "taken (drop (pi + 1) p) (drop (k + q) t)"
        using taken_star_some [of "drop (pi + 1) p" "drop q t"] by (auto simp: dp)
      with q show ?thesis unfolding eq by (intro exI [of _ "k + q"]) auto
    qed
    from star step now old show ?thesis
      by (subst wildcard_loop.simps) auto
  next
    case miss
    have dt: "drop ti t = t ! ti # drop (ti + 1) t"
      using miss by (simp add: Cons_nth_drop_Suc)
    have no: "\<not> taken (drop pi p) (drop ti t)"
    proof (cases "pi < length p")
      case True
      then have "drop pi p = p ! pi # drop (pi + 1) p"
        by (simp add: Cons_nth_drop_Suc)
      with miss True taken_miss [of "p ! pi" "t ! ti" "drop (pi + 1) p" "drop (ti + 1) t"]
      show ?thesis by (simp add: dt)
    qed (simp add: dt)
    show ?thesis
    proof (cases star)
      case None
      with miss no show ?thesis by (subst wildcard_loop.simps) (auto simp: star_alt_def)
    next
      case (Some s)
      have st: "star_t < length t"
        using inv Some miss by (auto simp: loop_bounds_def)
      have "loop_bounds p t (s + 1) (star_t + 1) star (star_t + 1)"
        using inv Some st by (auto simp: loop_bounds_def)
      moreover have "((s + 1, star_t + 1, star, star_t + 1), (pi, ti, star, star_t)) \<in> loop_order p t"
        using Some st by (simp add: loop_order_def diff_less_mono2)
      ultimately have "wildcard_loop p t (s + 1) (star_t + 1) star (star_t + 1) =
          Some (taken (drop (s + 1) p) (drop (star_t + 1) t) \<or> star_alt p t star (star_t + 1))"
        using IH by blast
      with no miss Some star_alt_Suc [OF st, of p s] show ?thesis
        by (subst wildcard_loop.simps) auto
    qed
  qed
qed

lemma loop_bounds_start: "loop_bounds p t 0 0 None 0"
  by (simp add: loop_bounds_def)

lemma wildcard_match_taken: "wildcard_match p t \<longleftrightarrow> taken p t"
  by (simp add: wildcard_match_def wildcard_loop_taken [OF loop_bounds_start] star_alt_def)

lemma wildcard_match_sound: "wildcard_match p t \<Longrightarrow> glob p t"
  by (simp add: wildcard_match_taken taken_glob)

lemma wildcard_match_complete: "star_char \<notin> set t \<Longrightarrow> glob p t \<Longrightarrow> wildcard_match p t"
  by (simp add: wildcard_match_taken glob_taken)

lemma glob_star_drop:
  assumes "k \<le> length t" and "glob (star_char # p) (drop k t)"
  shows "glob (star_char # p) t"
proof -
  from assms(2) obtain j where "j \<le> length t - k" and "glob p (drop (j + k) t)"
    by (auto simp: glob_star)
  with assms(1) have "\<exists>i \<le> length t. glob p (drop i t)"
    by (intro exI [of _ "j + k"]) simp
  then show ?thesis by (simp add: glob_star)
qed

lemma glob_tail: "glob (d # p) t \<Longrightarrow> \<exists>k \<le> length t. glob p (drop k t)"
proof (cases "d = star_char")
  case False
  assume "glob (d # p) t"
  with False obtain e t' where "t = e # t'" and "glob p t'"
    by (cases t) auto
  then show ?thesis by (intro exI [of _ "Suc 0"]) simp
qed (simp add: glob_star)

text \<open>Patterns compose: what matches an instance read as a pattern is matched by the outer
  pattern, unless the outer one holds \<open>?\<close> (which would take a whole \<open>*\<close> for one character).\<close>

lemma glob_trans:
  "any_char \<notin> set b \<Longrightarrow> glob b p \<Longrightarrow> glob p t \<Longrightarrow> glob b t"
proof (induction b p arbitrary: t rule: glob.induct)
  case (2 c b)
  then have "c = star_char" and "t = []" by auto
  with 2 show ?case by simp
next
  case (3 c b d p)
  show ?case
  proof (cases "c = star_char")
    case True
    consider "glob b (d # p)" | "glob (c # b) p"
      using "3.prems"(2) True by auto
    then show ?thesis
    proof cases
      case 1
      then have "glob b t" using "3.IH"(1) [OF True _ 1] "3.prems" by simp
      then show ?thesis
        using True glob_star [of b t] by (metis drop0 zero_le)
    next
      case 2
      obtain k where "k \<le> length t" and "glob p (drop k t)"
        using glob_tail "3.prems"(3) by blast
      then show ?thesis
        using "3.IH"(2) [OF True "3.prems"(1) 2] True glob_star_drop by blast
    qed
  next
    case False
    with "3.prems" obtain t' where "t = d # t'" "c = d" "glob b p" "glob p t'"
      by (cases t) auto
    with False "3.prems"(1) "3.IH"(3) show ?thesis by simp
  qed
qed simp

section \<open>Lexical path normalization\<close>

definition path_sep :: "char \<Rightarrow> bool" where
  "path_sep c \<longleftrightarrow> c = CHR ''/'' \<or> c = backslash"

definition push_segment :: "string list \<Rightarrow> string \<Rightarrow> string list" where
  "push_segment segments part =
     (if part = [] \<or> part = ''.'' then segments
      else if part = ''..'' then butlast segments
      else segments @ [part])"

definition normalize_path_text :: "string \<Rightarrow> string" where
  "normalize_path_text path = join ''/'' (foldl push_segment [] (split_on path_sep path))"

definition clean_segment :: "string \<Rightarrow> bool" where
  "clean_segment w \<longleftrightarrow> w \<notin> {[], ''.'', ''..''} \<and> (\<forall>c \<in> set w. \<not> path_sep c)"

lemma fold_segments_clean:
  assumes "\<forall>w \<in> set parts. \<forall>c \<in> set w. \<not> path_sep c" and "\<forall>w \<in> set segs. clean_segment w"
  shows "\<forall>w \<in> set (foldl push_segment segs parts). clean_segment w"
  using assms
proof (induction parts arbitrary: segs)
  case (Cons w parts)
  have "\<forall>v \<in> set (push_segment segs w). clean_segment v"
    using Cons.prems by (auto simp: push_segment_def clean_segment_def dest: in_set_butlastD)
  with Cons show ?case by simp
qed simp

lemma fold_segments_id:
  "\<forall>w \<in> set parts. clean_segment w \<Longrightarrow> foldl push_segment segs parts = segs @ parts"
  by (induction parts arbitrary: segs) (auto simp: push_segment_def clean_segment_def)

lemma normalized_segments:
  obtains ws where "normalize_path_text p = join ''/'' ws" and "\<forall>w \<in> set ws. clean_segment w"
  unfolding normalize_path_text_def
  using fold_segments_clean [of "split_on path_sep p" "[]"] split_on_clean [of _ path_sep p]
  by (metis empty_iff list.set(1))

lemma split_normalized:
  assumes "\<forall>w \<in> set ws. clean_segment w" and "ws \<noteq> []"
  shows "split_on path_sep (join ''/'' ws) = ws"
  using assms by (intro split_on_join) (auto simp: path_sep_def clean_segment_def)

lemma normalize_clean_join:
  "\<forall>w \<in> set ws. clean_segment w \<Longrightarrow> normalize_path_text (join ''/'' ws) = join ''/'' ws"
  unfolding normalize_path_text_def
  by (cases "ws = []") (simp_all add: push_segment_def split_normalized fold_segments_id)

section \<open>Cutting compound commands\<close>

definition hard_sep :: "char \<Rightarrow> bool" where
  "hard_sep c \<longleftrightarrow> c \<in> {newline, carriage_return, CHR '';'', CHR ''|'', CHR ''&'', CHR 0x60}"

definition soft_sep :: "char \<Rightarrow> bool" where
  "soft_sep c \<longleftrightarrow> c \<in> {CHR ''$'', CHR ''<'', CHR ''>''}"

definition is_compound_command :: "string \<Rightarrow> bool" where
  "is_compound_command command \<longleftrightarrow>
     (\<exists>c \<in> set command. hard_sep c) \<or> contains command ''$('' \<or> contains command ''<('' \<or>
     contains command ''>(''"

text \<open>The byte scan: \<open>cur\<close> is \<open>command[start..i]\<close>, the next argument the rest.\<close>

fun segment_loop :: "string \<Rightarrow> string \<Rightarrow> string list \<Rightarrow> string list" where
  "segment_loop cur [] segments = segments @ [cur]"
| "segment_loop cur [c] segments =
     (if hard_sep c then segments @ [cur, []] else segments @ [cur @ [c]])"
| "segment_loop cur (c # d # rest) segments =
     (if hard_sep c then segment_loop [] (d # rest) (segments @ [cur])
      else if soft_sep c \<and> d = CHR ''('' then segment_loop [] rest (segments @ [cur])
      else segment_loop (cur @ [c]) (d # rest) segments)"

definition split_command_segments :: "string \<Rightarrow> string list" where
  "split_command_segments command =
     filter (\<lambda>s. s \<noteq> []) (map trim (segment_loop [] command []))"

lemma segment_loop_pre: "segment_loop cur rest (pre @ segs) = pre @ segment_loop cur rest segs"
proof (induction cur rest segs rule: segment_loop.induct)
  case (3 cur c d rest segs)
  then show ?case by simp
qed simp_all

lemma segment_loop_acc: "segment_loop cur rest segs = segs @ segment_loop cur rest []"
  using segment_loop_pre [of cur rest segs "[]"] by simp

text \<open>Two-character openers, as one test on neighbours.\<close>

definition opener :: "char \<Rightarrow> char \<Rightarrow> bool" where
  "opener c d \<longleftrightarrow> soft_sep c \<and> d = CHR ''(''"

fun separators_in :: "string \<Rightarrow> bool" where
  "separators_in [] = False"
| "separators_in [c] = hard_sep c"
| "separators_in (c # d # rest) = (hard_sep c \<or> opener c d \<or> separators_in (d # rest))"

lemma is_compound_iff: "is_compound_command s = separators_in s"
proof (induction s rule: separators_in.induct)
  case (3 c d rest)
  have "contains (c # d # rest) [a, b] \<longleftrightarrow> (c = a \<and> d = b) \<or> contains (d # rest) [a, b]" for a b
    by (auto simp: contains_def)
  with 3 show ?case
    by (auto simp: is_compound_command_def opener_def soft_sep_def)
qed (auto simp: is_compound_command_def contains_def)

lemma separators_in_append: "separators_in (a @ b) = False \<Longrightarrow> \<not> separators_in a \<and> \<not> separators_in b"
  by (induction a rule: separators_in.induct) (cases b; auto)+

lemma separators_in_sublist: "sublist a b \<Longrightarrow> separators_in a \<Longrightarrow> separators_in b"
  by (metis separators_in_append sublist_def)

lemma sublist_trim: "sublist (trim s) s"
proof -
  have "prefix (trim_end u) u" for u
    unfolding trim_end_def by (metis rev_rev_ident suffix_dropWhile suffix_to_prefix)
  moreover have "suffix (trim_start s) s"
    unfolding trim_start_def by (rule suffix_dropWhile)
  ultimately show ?thesis
    unfolding trim_def
    by (meson prefix_imp_sublist sublist_order.order_trans suffix_imp_sublist)
qed

lemma segment_loop_hard:
  assumes "hard_sep c"
  shows "segment_loop cur (a @ c # b) segs = segment_loop cur a segs @ segment_loop [] b []"
proof -
  have step: "segment_loop cur (c # b) segs = segs @ [cur] @ segment_loop [] b []" for cur segs
    using assms segment_loop_acc [of "[]" b "segs @ [cur]"] by (cases b) auto
  have "c \<noteq> CHR ''(''"
    using assms by (auto simp: hard_sep_def newline_def carriage_return_def)
  then show ?thesis
    by (induction cur a segs rule: segment_loop.induct) (simp_all add: step)
qed

text \<open>Every piece the loop emits is free of separators, as long as the text collected so far
  and its neighbour are.\<close>

lemma separators_in_snoc:
  "separators_in (a @ [c]) \<longleftrightarrow> separators_in a \<or> hard_sep c \<or> (a \<noteq> [] \<and> opener (last a) c)"
  by (induction a rule: separators_in.induct) auto

lemma segment_loop_clean:
  "\<not> separators_in cur \<Longrightarrow> (rest \<noteq> [] \<and> cur \<noteq> [] \<longrightarrow> \<not> opener (last cur) (hd rest)) \<Longrightarrow>
     \<forall>s \<in> set segs. \<not> separators_in s \<Longrightarrow>
     \<forall>s \<in> set (segment_loop cur rest segs). \<not> separators_in s"
proof (induction cur rest segs rule: segment_loop.induct)
  case (3 cur c d rest segs)
  then show ?case
    by (auto simp: separators_in_snoc opener_def)
qed (auto simp: separators_in_snoc)

lemma segment_loop_whole: "\<not> separators_in rest \<Longrightarrow> segment_loop cur rest segs = segs @ [cur @ rest]"
  by (induction cur rest segs rule: segment_loop.induct) (auto simp: opener_def)

section \<open>Rules\<close>

datatype rule_scope = Bash | File

fun scope_name :: "rule_scope \<Rightarrow> string" where
  "scope_name Bash = ''Bash''"
| "scope_name File = ''File''"

record rule =
  r_scope :: rule_scope
  r_pattern :: string
  r_exact :: bool

datatype rule_error = Invalid string

definition rule_parse :: "string \<Rightarrow> (rule_error, rule) result" where
  "rule_parse entry0 =
     (let entry = trim entry0; invalid = Inl (Invalid entry)
      in case find_str ''('' entry of
           None \<Rightarrow> invalid
         | Some open \<Rightarrow>
             (case strip_suffix entry '')'' of
                None \<Rightarrow> invalid
              | Some body \<Rightarrow>
                  if length body < open + 1 then invalid
                  else
                    let pattern = drop (open + 1) body
                    in if take open entry = ''Bash''
                       then (if pattern = [] then invalid
                             else Inr \<lparr>r_scope = Bash, r_pattern = pattern, r_exact = False\<rparr>)
                       else if take open entry = ''File''
                       then (if pattern = [] then invalid
                             else Inr \<lparr>r_scope = File, r_pattern = pattern, r_exact = False\<rparr>)
                       else invalid))"

definition rule_exact :: "rule_scope \<Rightarrow> string \<Rightarrow> rule" where
  "rule_exact s p = \<lparr>r_scope = s, r_pattern = p, r_exact = True\<rparr>"

definition rule_display :: "rule \<Rightarrow> string" where
  "rule_display r = scope_name (r_scope r) @ ''('' @ r_pattern r @ '')''"

definition matches_text :: "rule \<Rightarrow> string \<Rightarrow> bool" where
  "matches_text r candidate =
     (if r_scope r = File
      then let c = normalize_path_text candidate; p = normalize_path_text (r_pattern r)
           in if r_exact r then p = c else wildcard_match p c
      else if r_exact r then r_pattern r = candidate
      else wildcard_match (r_pattern r) candidate)"

fun candidate_key :: "rule_scope \<Rightarrow> string" where
  "candidate_key Bash = ''command''"
| "candidate_key File = ''path''"

definition rule_matches :: "rule \<Rightarrow> json \<Rightarrow> bool" where
  "rule_matches r input =
     (case json_str_at (candidate_key (r_scope r)) input of
        Some candidate \<Rightarrow> matches_text r candidate
      | None \<Rightarrow> False)"

fun scope_allows_tool :: "rule_scope \<Rightarrow> tool_kind \<Rightarrow> bool" where
  "scope_allows_tool Bash kind = (kind = Shell)"
| "scope_allows_tool File kind = (kind = FileEdit)"

definition is_covered_by :: "rule \<Rightarrow> rule \<Rightarrow> bool" where
  "is_covered_by r ban \<longleftrightarrow> r_scope r = r_scope ban \<and> matches_text ban (r_pattern r)"

section \<open>Properties\<close>

text \<open>C7: the iterative matcher returns on every pattern and text, and computes exactly the language
  \<open>taken\<close>, in which a \<open>*\<close> of the pattern is any run of characters unless it meets a literal \<open>*\<close> of
  the text, which it then stands for. That is a part of the documented language, where \<open>*\<close> is any
  run always, and the whole of it on texts without a literal \<open>*\<close>.\<close>

theorem wildcard_match_correct:
  "wildcard_loop p t 0 0 None 0 = Some (taken p t) \<and>
   wildcard_match p t = taken p t \<and>
   (taken p t \<longrightarrow> glob p t) \<and>
   (star_char \<notin> set t \<longrightarrow> taken p t = glob p t)"
  using wildcard_loop_taken [OF loop_bounds_start, of p t] wildcard_match_taken taken_glob glob_taken
  by (auto simp: star_alt_def)

theorem wildcard_match_correct_witness:
  "wildcard_match ''git *'' ''git push'' \<and> glob ''git *'' ''git push'' \<and>
   \<not> wildcard_match ''git ?'' ''git push''"
proof -
  have "wildcard_match ''git *'' ''git push'' = glob ''git *'' ''git push''"
    and "wildcard_match ''git ?'' ''git push'' = glob ''git ?'' ''git push''"
    using wildcard_match_correct [of "''git *''" "''git push''"]
      wildcard_match_correct [of "''git ?''" "''git push''"] by simp_all
  then show ?thesis by simp
qed

text \<open>A literal \<open>*\<close> in the text is consumed by a pattern \<open>*\<close> as an ordinary character, before
  the star is recorded: the documented wildcard is then missed.\<close>

lemma wildcard_misses_star_text:
  "glob ''rm *'' ''rm *.log'' \<and> \<not> wildcard_match ''rm *'' ''rm *.log''"
  by code_simp

text \<open>normalization is idempotent and its result is a path of plain segments (no empty
  segment, no dot segment, no separator inside one); a detour through a directory and
  back leaves the location it names unchanged.\<close>

theorem normalize_path_text_canonical:
  assumes "clean_segment d"
  shows "normalize_path_text (normalize_path_text p) = normalize_path_text p \<and>
    (normalize_path_text p = [] \<or>
       list_all clean_segment (split_on path_sep (normalize_path_text p))) \<and>
    normalize_path_text (a @ ''/'' @ d @ ''/../'' @ b) = normalize_path_text (a @ ''/'' @ b)"
proof -
  obtain ws where ws: "normalize_path_text p = join ''/'' ws" "\<forall>w \<in> set ws. clean_segment w"
    by (rule normalized_segments)
  have sep: "path_sep (CHR ''/'')" by (simp add: path_sep_def)
  have cut: "split_on path_sep (u @ CHR ''/'' # v) = split_on path_sep u @ split_on path_sep v" for u v
  proof (induction u)
    case (Cons c u)
    then show ?case by (cases "split_on path_sep u") auto
  qed (simp add: sep)
  have "split_on path_sep d = [d]"
    using assms by (intro split_on_none) (simp add: clean_segment_def)
  moreover have "split_on path_sep ''..'' = [''..'']"
    by (simp add: path_sep_def backslash_def)
  ultimately have "split_on path_sep (a @ ''/'' @ d @ ''/../'' @ b) =
      split_on path_sep a @ [d, ''..''] @ split_on path_sep b"
    using cut [of a "d @ ''/../'' @ b"] cut [of d "''../'' @ b"] cut [of "''..''" b] by simp
  then have "normalize_path_text (a @ ''/'' @ d @ ''/../'' @ b) = normalize_path_text (a @ ''/'' @ b)"
    using assms cut [of a b] by (simp add: normalize_path_text_def push_segment_def clean_segment_def)
  moreover have "normalize_path_text (normalize_path_text p) = normalize_path_text p"
    using ws by (simp add: normalize_clean_join)
  moreover have "normalize_path_text p = [] \<or>
      list_all clean_segment (split_on path_sep (normalize_path_text p))"
    using ws split_normalized [of ws] by (cases "ws = []") (simp_all add: list_all_iff)
  ultimately show ?thesis by blast
qed

theorem normalize_path_text_canonical_witness:
  "normalize_path_text ''a/docs/../secrets/x'' = ''a/secrets/x''"
  using normalize_path_text_canonical [of "''docs''" "[]" "''a''" "''secrets/x''"]
  by (simp add: clean_segment_def path_sep_def backslash_def normalize_path_text_def push_segment_def)

text \<open>cutting a compound command: every segment is trimmed, non-empty and free of shell
  separators; a command behind a separator gets its own segments; a command without
  separators is its own single segment.\<close>

theorem split_command_segments_correct:
  assumes "hard_sep c" and "\<not> is_compound_command s"
  shows "list_all (\<lambda>w. w \<noteq> [] \<and> trim w = w \<and> \<not> is_compound_command w) (split_command_segments t) \<and>
    split_command_segments (a @ c # b) = split_command_segments a @ split_command_segments b \<and>
    split_command_segments s = (if blank s then [] else [trim s])"
proof -
  have clean: "\<not> is_compound_command (trim w)" if "w \<in> set (segment_loop [] t [])" for w
    using segment_loop_clean [of "[]" t "[]"] that separators_in_sublist [OF sublist_trim [of w]]
    by (auto simp: is_compound_iff)
  show ?thesis
    using clean assms segment_loop_hard [of c "[]" a b "[]"] segment_loop_whole [of s "[]" "[]"]
    by (auto simp: split_command_segments_def list_all_iff is_compound_iff blank_def)
qed

theorem split_command_segments_correct_witness:
  "split_command_segments ''ls; curl x'' = split_command_segments ''ls'' @ split_command_segments '' curl x''
   \<and> split_command_segments ''ls'' = [''ls'']"
  using split_command_segments_correct [of "CHR '';''" "''ls''" "''ls''" "''ls''" "'' curl x''"]
  by (simp add: hard_sep_def newline_def carriage_return_def is_compound_iff opener_def soft_sep_def
      blank_def trim_def trim_start_def trim_end_def is_ws_def char_code_def)

definition scoped_text :: "rule_scope \<Rightarrow> string \<Rightarrow> string" where
  "scoped_text sc t = (if sc = File then normalize_path_text t else t)"

lemma matches_text_wild:
  "\<not> r_exact r \<Longrightarrow> matches_text r t =
     wildcard_match (scoped_text (r_scope r) (r_pattern r)) (scoped_text (r_scope r) t)"
  by (simp add: matches_text_def scoped_text_def)

lemma find_open: "find_str ''('' s = Some n \<Longrightarrow> \<exists>a b. s = a @ CHR ''('' # b \<and> length a = n"
proof (induction s arbitrary: n)
  case (Cons c s)
  show ?case
  proof (cases "c = CHR ''(''")
    case True
    with Cons.prems show ?thesis by (intro exI [of _ "[]"] exI [of _ s]) auto
  next
    case False
    with Cons.prems obtain m where "n = Suc m" "find_str ''('' s = Some m" by auto
    with Cons.IH [of m] obtain a b where "s = a @ CHR ''('' # b" "length a = m" by auto
    with \<open>n = Suc m\<close> show ?thesis by (intro exI [of _ "c # a"] exI [of _ b]) auto
  qed
qed simp

text \<open>rules round-trip: what parses prints back as the trimmed entry with a non-empty
  wildcard pattern, and every wildcard rule with a pattern parses from its own display.\<close>

theorem rule_parse_display:
  assumes "rule_parse entry = Inr r" and "r_pattern q \<noteq> []" and "\<not> r_exact q"
  shows "rule_display r = trim entry \<and> r_pattern r \<noteq> [] \<and> \<not> r_exact r \<and>
    rule_parse (rule_display q) = Inr q"
proof -
  from assms(1) obtain n body where n: "find_str ''('' (trim entry) = Some n"
    and body: "strip_suffix (trim entry) '')'' = Some body" and le: "n + 1 \<le> length body"
    by (auto simp: rule_parse_def Let_def split: option.splits if_splits)
  from find_open [OF n] obtain a b where ab: "trim entry = a @ CHR ''('' # b" "length a = n"
    by blast
  from body obtain c where c: "trim entry = c @ '')''" "body = c"
    by (auto simp: strip_suffix_def suffix_def split: if_splits)
  from ab c obtain b' where b: "b = b' @ '')''" and c': "c = a @ ''('' @ b'"
    by (cases b rule: rev_cases) auto
  have cut: "take n (trim entry) = a" "drop (n + 1) body = b'"
    using ab c c' by simp_all
  then have one: "rule_display r = trim entry \<and> r_pattern r \<noteq> [] \<and> \<not> r_exact r"
    using assms(1) n body le ab b
    by (auto simp: rule_parse_def rule_display_def Let_def split: if_splits)
  have "rule_parse (rule_display q) = Inr q"
  proof (cases q)
    case (fields sc pat ex)
    have "rev (pat @ '')'') \<noteq> []" and "\<not> is_ws (CHR '')'')" "\<not> is_ws (CHR ''B'')" "\<not> is_ws (CHR ''F'')"
      by (simp_all add: is_ws_def char_code_def)
    then have "trim (rule_display q) = rule_display q"
      using fields by (cases sc) (simp_all add: rule_display_def trim_def trim_start_def trim_end_def)
    then show ?thesis
      using fields assms(2,3)
      by (cases sc) (simp_all add: rule_parse_def rule_display_def strip_suffix_def suffix_def)
  qed
  with one show ?thesis by blast
qed

theorem rule_parse_display_witness:
  "rule_display \<lparr>r_scope = Bash, r_pattern = ''git *'', r_exact = False\<rparr> = trim '' Bash(git *) ''"
proof -
  have "rule_parse '' Bash(git *) '' = Inr \<lparr>r_scope = Bash, r_pattern = ''git *'', r_exact = False\<rparr>"
    by code_simp
  then show ?thesis
    using rule_parse_display [of "'' Bash(git *) ''" _ "\<lparr>r_scope = File, r_pattern = ''a'', r_exact = False\<rparr>"]
    by simp
qed

text \<open>The dead-rule test is right for a ban pattern without \<open>?\<close>: on texts without a literal
  \<open>*\<close>, whatever the covered rule hits, the ban hits too.\<close>

theorem is_covered_by_sound:
  assumes "is_covered_by r ban" and "\<not> r_exact ban"
    and "any_char \<notin> set (scoped_text (r_scope ban) (r_pattern ban))"
    and "star_char \<notin> set (scoped_text (r_scope ban) t)" and "matches_text r t"
  shows "matches_text ban t"
proof (cases "r_exact r")
  case True
  with assms show ?thesis
    by (cases "r_scope r") (auto simp: matches_text_def is_covered_by_def Let_def split: if_splits)
next
  case False
  have "glob (scoped_text (r_scope ban) (r_pattern ban)) (scoped_text (r_scope ban) (r_pattern r))"
    using assms(1,2) by (simp add: is_covered_by_def matches_text_wild wildcard_match_sound)
  moreover have "glob (scoped_text (r_scope ban) (r_pattern r)) (scoped_text (r_scope ban) t)"
    using assms(1,5) False by (simp add: is_covered_by_def matches_text_wild wildcard_match_sound)
  ultimately have "glob (scoped_text (r_scope ban) (r_pattern ban)) (scoped_text (r_scope ban) t)"
    using assms(3) glob_trans by blast
  with assms(2,4) show ?thesis
    by (simp add: matches_text_wild wildcard_match_complete)
qed

theorem is_covered_by_sound_witness:
  "matches_text \<lparr>r_scope = Bash, r_pattern = ''git *'', r_exact = False\<rparr> ''git push -f''"
proof -
  have "is_covered_by \<lparr>r_scope = Bash, r_pattern = ''git push *'', r_exact = False\<rparr>
      \<lparr>r_scope = Bash, r_pattern = ''git *'', r_exact = False\<rparr>"
    and "matches_text \<lparr>r_scope = Bash, r_pattern = ''git push *'', r_exact = False\<rparr> ''git push -f''"
    by code_simp+
  from is_covered_by_sound [OF this(1) _ _ _ this(2)] show ?thesis
    by (simp add: scoped_text_def)
qed

text \<open>Without those provisos it over-reports: a one-character ban "covers" the rule \<open>*\<close>.\<close>

lemma is_covered_by_over_reports:
  "is_covered_by \<lparr>r_scope = Bash, r_pattern = ''*'', r_exact = False\<rparr>
     \<lparr>r_scope = Bash, r_pattern = ''?'', r_exact = False\<rparr> \<and>
   matches_text \<lparr>r_scope = Bash, r_pattern = ''*'', r_exact = False\<rparr> ''ls'' \<and>
   \<not> matches_text \<lparr>r_scope = Bash, r_pattern = ''?'', r_exact = False\<rparr> ''ls''"
  by code_simp

end
