(* ===== verification/Command_Risk.thy ===== *)
theory Command_Risk
  imports Sandbox_Rules
begin

text \<open>
  The dangerous-command screen of \<open>crates/capabilities/sandbox/src/risk.rs\<close> over the command
  texts \<open>crates/capabilities/sandbox/src/bash.rs\<close> collects from a syntax tree. The tree comes
  from the tree-sitter parser, which is a parameter: \<open>parse s\<close> is the root with its
  \<open>has_error\<close> flag, or \<open>None\<close>.
\<close>

section \<open>Syntax trees\<close>

datatype syntax_node = Node (node_kind: string) (node_text: string) (node_children: "syntax_node list")

type_synonym parser = "string \<Rightarrow> (syntax_node \<times> bool) option"

definition MAX_PARSE_BYTES :: nat where
  "MAX_PARSE_BYTES = 64 * 1024"

definition bare_command_text :: "syntax_node \<Rightarrow> string option" where
  "bare_command_text node =
     (let words = map (trim \<circ> node_text)
        (filter (\<lambda>child. node_kind child \<noteq> ''variable_assignment'' \<and> node_kind child \<noteq> ''comment''
                         \<and> trim (node_text child) \<noteq> []) (node_children node))
      in if words = [] then None else Some (join '' '' words))"

text \<open>What one command node contributes, given the segments collected before it.\<close>

definition push_command_node :: "syntax_node \<Rightarrow> string list \<Rightarrow> string list" where
  "push_command_node node segments =
     (let t = trim (node_text node);
          full = (if t = [] then None else Some t);
          segments' = (case full of Some text \<Rightarrow> segments @ [text] | None \<Rightarrow> segments)
      in case bare_command_text node of
           Some text \<Rightarrow>
             (if full \<noteq> Some text \<and> text \<notin> set segments' then segments' @ [text] else segments')
         | None \<Rightarrow> segments')"

definition push_heredoc_body :: "syntax_node \<Rightarrow> string list \<Rightarrow> string list" where
  "push_heredoc_body node segments =
     segments @ filter (\<lambda>s. s \<noteq> []) (map trim (split_command_segments (node_text node)))"

definition visit_node :: "syntax_node \<Rightarrow> string list \<Rightarrow> string list" where
  "visit_node node segments =
     (let s1 = (if node_kind node = ''command'' then push_command_node node segments else segments)
      in if node_kind node = ''heredoc_body'' then push_heredoc_body node s1 else s1)"

fun collect_command_nodes :: "syntax_node \<Rightarrow> string list \<Rightarrow> string list"
  and collect_siblings :: "syntax_node list \<Rightarrow> string list \<Rightarrow> string list" where
  "collect_command_nodes (Node kind text children) segments =
     collect_siblings children (visit_node (Node kind text children) segments)"
| "collect_siblings [] segments = segments"
| "collect_siblings (n # ns) segments = collect_siblings ns (collect_command_nodes n segments)"

definition parsed_command_segments :: "parser \<Rightarrow> string \<Rightarrow> string list option" where
  "parsed_command_segments parse command =
     (if byte_len command > MAX_PARSE_BYTES then None
      else (case parse command of
              None \<Rightarrow> None
            | Some (root, has_error) \<Rightarrow>
                if has_error then None else Some (collect_command_nodes root [])))"

text \<open>\<open>command_segments\<close> of \<open>lib.rs\<close>: the tree when it can be trusted, the cutter otherwise.\<close>

definition command_segments :: "parser \<Rightarrow> string \<Rightarrow> string list" where
  "command_segments parse command =
     (case parsed_command_segments parse command of
        Some segments \<Rightarrow> segments
      | None \<Rightarrow> split_command_segments command)"

section \<open>The screen\<close>

definition tokens :: "string \<Rightarrow> string list" where
  "tokens segment =
     map (\<lambda>t. to_lower (filter (\<lambda>c. c \<noteq> CHR 0x22 \<and> c \<noteq> quote_char) t)) (split_whitespace segment)"

definition program_name :: "string \<Rightarrow> string" where
  "program_name word =
     (let base = last (split_on path_sep word)
      in case strip_suffix base ''.exe'' of Some b \<Rightarrow> b | None \<Rightarrow> base)"

text \<open>One flag of the scan in \<open>recursive_and_force\<close>; the state is (recursive, force).\<close>

definition scan_flag :: "bool \<times> bool \<Rightarrow> string \<Rightarrow> bool \<times> bool" where
  "scan_flag st flag = (case st of (recursive, force) \<Rightarrow>
     if flag = ''--recursive'' then (True, force)
     else if flag = ''--force'' then (recursive, True)
     else case strip_prefix flag ''-'' of
       Some short \<Rightarrow>
         if starts_with flag ''--'' then (recursive, force)
         else (recursive \<or> CHR ''r'' \<in> set short, force \<or> CHR ''f'' \<in> set short)
     | None \<Rightarrow> (recursive, force))"

definition recursive_and_force :: "string list \<Rightarrow> bool" where
  "recursive_and_force flags =
     (let (recursive, force) = foldl scan_flag (False, False) flags in recursive \<and> force)"

definition PROTECTED_ROOTS :: "string list" where
  "PROTECTED_ROOTS =
     [''/'', ''/*'', ''/etc'', ''/usr'', ''/var'', ''/boot'', ''/bin'', ''/sbin'', ''/lib'',
      ''/lib64'', ''/opt'', ''/dev'', ''/proc'', ''/sys'', ''/home'', ''~'', ''~/*'', ''$home'']"

definition protected_drive_root :: "string \<Rightarrow> bool" where
  "protected_drive_root operand =
     (let lower = to_lower (trim_end_matches path_sep operand)
      in (byte_len lower = 2 \<and> length lower = 2 \<and> lower ! 1 = CHR '':'') \<or>
         lower = ''c:'' @ [backslash] @ ''windows'' \<or> lower = ''c:/windows'')"

definition SHELL_CONSUMERS :: "string list" where
  "SHELL_CONSUMERS =
     [''sh'', ''bash'', ''zsh'', ''ksh'', ''dash'', ''powershell'', ''pwsh'', ''iex'']"

definition MAX_SHELL_NESTING :: nat where
  "MAX_SHELL_NESTING = 8"

text \<open>The text after every pipe, in order (\<open>match_indices('|')\<close>).\<close>

fun after_pipes :: "string \<Rightarrow> string list" where
  "after_pipes [] = []"
| "after_pipes (c # cs) = (if c = CHR ''|'' then cs # after_pipes cs else after_pipes cs)"

definition pipe_consumer :: "string \<Rightarrow> string" where
  "pipe_consumer rest =
     (let word = (case split_whitespace rest of [] \<Rightarrow> [] | w # _ \<Rightarrow> w)
      in program_name (trim_end_matches
           (\<lambda>c. c \<in> {CHR '';'', CHR ''&'', CHR ''|'', CHR ''('', CHR '')''}) word))"

definition PRODUCERS :: "string list" where
  "PRODUCERS = [''curl'', ''wget'', ''iwr'', ''irm'', ''invoke-webrequest'', ''invoke-restmethod'']"

definition piped_download :: "string \<Rightarrow> string \<Rightarrow> string option" where
  "piped_download lower producer =
     (case find_str producer lower of
        None \<Rightarrow> None
      | Some pos \<Rightarrow> find_map (\<lambda>rest.
          let consumer = pipe_consumer rest
          in if consumer \<in> set SHELL_CONSUMERS \<or> consumer = ''sudo''
             then Some ''a network download is piped into a shell'' else None)
          (after_pipes (drop pos lower)))"

definition textual_reason :: "string \<Rightarrow> string option" where
  "textual_reason command =
     (let collapsed = join '' '' (split_whitespace command); lower = to_lower collapsed
      in case find_map (piped_download lower) PRODUCERS of
           Some r \<Rightarrow> Some r
         | None \<Rightarrow>
             if contains (filter (\<lambda>c. c \<noteq> CHR '' '') collapsed) '':(){:|:&};:''
             then Some ''a fork bomb'' else None)"

definition is_script_flag :: "string \<Rightarrow> string \<Rightarrow> bool" where
  "is_script_flag shell token =
     (if shell \<in> {''sh'', ''bash'', ''dash'', ''zsh'', ''ksh'', ''ash''}
      then starts_with token ''-'' \<and> \<not> starts_with token ''--'' \<and> CHR ''c'' \<in> set token \<and>
           list_all is_lower (drop 1 token)
      else if shell = ''cmd'' then token = ''/c''
      else if shell \<in> {''powershell'', ''pwsh''} then token = ''-command''
      else False)"

fun shell_script_arg :: "string \<Rightarrow> string list \<Rightarrow> string option" where
  "shell_script_arg shell [] = None"
| "shell_script_arg shell (t # ts) =
     (if is_script_flag shell t then Some (join '' '' ts) else shell_script_arg shell ts)"

definition WRAPPERS :: "string list" where
  "WRAPPERS = [''sudo'', ''doas'', ''env'', ''nohup'', ''nice'', ''command'']"

function peel_wrappers :: "string list \<Rightarrow> string list" where
  "peel_wrappers [] = []"
| "peel_wrappers (w # ts) =
     (if w \<in> set WRAPPERS then
        peel_wrappers (if w = ''env''
          then dropWhile (\<lambda>t. CHR ''='' \<in> set t \<and> \<not> starts_with t ''-'') ts else ts)
      else w # ts)"
  by pat_completeness auto
termination
  by (relation "measure length") (auto simp: le_imp_less_Suc length_dropWhile_le)

definition dd_target :: "string \<Rightarrow> string option" where
  "dd_target flag =
     (case strip_prefix flag ''of='' of
        None \<Rightarrow> None
      | Some target \<Rightarrow>
          if starts_with target ''/dev/'' \<and> target \<notin> {''/dev/null'', ''/dev/stdout'', ''/dev/stderr''}
          then Some ''dd writes to a block device'' else None)"

definition protected_operand :: "string \<Rightarrow> bool" where
  "protected_operand o' \<longleftrightarrow>
     \<not> starts_with o' ''-'' \<and> (o' \<in> set PROTECTED_ROOTS \<or> protected_drive_root o')"

definition rm_reason :: "string list \<Rightarrow> string option" where
  "rm_reason rest =
     (if recursive_and_force (filter (\<lambda>t. starts_with t ''-'') rest) \<and> list_ex protected_operand rest
      then Some ''rm -rf targets a system root'' else None)"

definition remove_item_reason :: "string list \<Rightarrow> string option" where
  "remove_item_reason rest =
     (let recursive = list_ex (\<lambda>t. t = ''-recurse'' \<or> t = ''-r'') rest;
          force = list_ex (\<lambda>t. t = ''-force'' \<or> t = ''-f'') rest
      in if recursive \<and> force \<and> list_ex protected_operand rest
         then Some ''Remove-Item -Recurse -Force targets a system root'' else None)"

text \<open>The table of \<open>segment_reason\<close>, by program name.\<close>

definition table_reason :: "string \<Rightarrow> string list \<Rightarrow> string option" where
  "table_reason bare rest =
     (if bare = ''dd'' then find_map dd_target rest
      else if starts_with bare ''mkfs'' then Some ''mkfs builds a filesystem''
      else if bare = ''wipefs'' then Some ''wipefs erases filesystem signatures''
      else if bare \<in> {''fdisk'', ''sfdisk'', ''cfdisk'', ''gdisk'', ''parted'', ''diskpart''}
      then Some ''a partition editor was invoked''
      else if bare \<in> {''shutdown'', ''poweroff'', ''halt'', ''reboot''}
      then Some ''a power-control command''
      else if bare = ''systemctl'' then
        (case rest of
           action # _ \<Rightarrow>
             if action \<in> {''poweroff'', ''halt'', ''reboot'', ''suspend'', ''hibernate''}
             then Some ''systemctl power action'' else None
         | [] \<Rightarrow> None)
      else if bare = ''rm'' then rm_reason rest
      else if bare = ''remove-item'' then remove_item_reason rest
      else None)"

text \<open>\<open>segment_reason\<close>; \<open>screen\<close> is the whole-command screen one nesting level deeper.\<close>

definition segment_reason :: "(string \<Rightarrow> string option) \<Rightarrow> string \<Rightarrow> string option" where
  "segment_reason screen segment =
     (case peel_wrappers (tokens segment) of
        [] \<Rightarrow> None
      | cmd # rest \<Rightarrow>
          let bare = program_name cmd
          in case shell_script_arg bare rest of
               Some script \<Rightarrow> screen script
             | None \<Rightarrow> table_reason bare rest)"

definition fallback_reason :: "string \<Rightarrow> string option" where
  "fallback_reason command =
     (let lower = to_lower command
      in if list_ex (contains lower)
           [''mkfs'', ''wipefs'', ''diskpart'', ''shutdown'', ''poweroff'', ''reboot'', ''halt'', ''fdisk'']
         then Some ''a destructive system command was recognized''
         else if contains lower ''of=/dev/sd'' \<or> contains lower ''of=/dev/nvme'' \<or>
                 contains lower ''of=/dev/hd''
         then Some ''dd writes to a block device''
         else None)"

function dangerous_reason_nested :: "parser \<Rightarrow> string \<Rightarrow> nat \<Rightarrow> string option" where
  "dangerous_reason_nested parse command depth =
     (if depth > MAX_SHELL_NESTING then Some ''a shell wrapper nests beyond the screening depth''
      else case textual_reason command of
        Some reason \<Rightarrow> Some reason
      | None \<Rightarrow>
          (case parsed_command_segments parse command of
             Some segments \<Rightarrow>
               find_map (segment_reason (\<lambda>script. dangerous_reason_nested parse script (depth + 1))) segments
           | None \<Rightarrow> fallback_reason command))"
  by pat_completeness auto
termination
  by (relation "measure (\<lambda>(_, _, depth). Suc MAX_SHELL_NESTING - depth)") auto

declare dangerous_reason_nested.simps [simp del]

definition dangerous_reason :: "parser \<Rightarrow> string \<Rightarrow> string option" where
  "dangerous_reason parse command = dangerous_reason_nested parse command 0"

section \<open>What the walk collects\<close>

fun subnodes :: "syntax_node \<Rightarrow> syntax_node list"
  and subnodes_all :: "syntax_node list \<Rightarrow> syntax_node list" where
  "subnodes (Node k t cs) = Node k t cs # subnodes_all cs"
| "subnodes_all [] = []"
| "subnodes_all (n # ns) = subnodes n @ subnodes_all ns"

lemma visit_node_mono: "set segs \<subseteq> set (visit_node n segs)"
  by (auto simp: visit_node_def push_command_node_def push_heredoc_body_def Let_def
      split: option.splits)

lemma collect_mono:
  "set segs \<subseteq> set (collect_command_nodes n segs)"
  "set segs \<subseteq> set (collect_siblings ns segs)"
  by (induction n segs and ns segs rule: collect_command_nodes_collect_siblings.induct)
    (use visit_node_mono in fastforce)+

text \<open>What a node itself puts among the segments.\<close>

definition contributed :: "syntax_node \<Rightarrow> string set" where
  "contributed n =
     (if node_kind n = ''command'' then
        {t. (t = trim (node_text n) \<and> t \<noteq> []) \<or> bare_command_text n = Some t} else {}) \<union>
     (if node_kind n = ''heredoc_body'' then set (split_command_segments (node_text n)) else {})"

lemma split_segments_trimmed:
  "filter (\<lambda>s. s \<noteq> []) (map trim (split_command_segments t)) = split_command_segments t"
proof -
  have "filter P (map f (filter P (map f xs))) = filter P (map f xs)" if "\<And>x. f (f x) = f x"
    for P and f :: "string \<Rightarrow> string" and xs
    by (induction xs) (auto simp: that)
  then show ?thesis by (simp add: split_command_segments_def)
qed

lemma push_heredoc_body_eq:
  "push_heredoc_body n segs = segs @ split_command_segments (node_text n)"
  by (simp add: push_heredoc_body_def split_segments_trimmed)

lemma push_command_node_contributes:
  "{t. (t = trim (node_text n) \<and> t \<noteq> []) \<or> bare_command_text n = Some t}
     \<subseteq> set (push_command_node n segs)"
  by (auto simp: push_command_node_def Let_def split: option.splits if_splits)

lemma visit_node_contributes: "contributed n \<subseteq> set (visit_node n segs)"
  using push_command_node_contributes [of n segs] push_command_node_contributes [of n "segs"]
  by (auto simp: contributed_def visit_node_def push_heredoc_body_eq)

lemma collect_contributes:
  "m \<in> set (subnodes n) \<Longrightarrow> contributed m \<subseteq> set (collect_command_nodes n segs)"
  "m \<in> set (subnodes_all ns) \<Longrightarrow> contributed m \<subseteq> set (collect_siblings ns segs)"
proof (induction n segs and ns segs rule: collect_command_nodes_collect_siblings.induct)
  case (1 k t cs segs)
  then show ?case
    using visit_node_contributes [of "Node k t cs" segs]
      collect_mono(2) [of "visit_node (Node k t cs) segs" cs] by auto
next
  case (3 n ns segs)
  then show ?case
    using collect_mono(2) [of "collect_command_nodes n segs" ns] by auto
qed simp_all

section \<open>The screen does not depend on disguises\<close>

lemma split_on_cons_sep: "p c \<Longrightarrow> split_on p (c # s) = [] # split_on p s"
  by simp

lemma tokens_prefix_word:
  assumes "w \<noteq> []" and "list_all (\<lambda>c. is_lower c) w"
  shows "tokens (w @ '' '' @ s) = w # tokens s"
proof -
  have plain: "\<not> is_ws c \<and> c \<noteq> CHR 0x22 \<and> c \<noteq> quote_char \<and> lower_char c = c" if "c \<in> set w" for c
  proof -
    have "97 \<le> char_code c" using assms(2) that by (auto simp: list_all_iff is_lower_def Let_def)
    then show ?thesis
      by (auto simp: is_ws_def lower_char_def is_upper_def quote_char_def char_code_def Let_def)
  qed
  have "split_on is_ws (w @ '' '' @ s) = w # split_on is_ws s"
    using split_on_append [of w is_ws "CHR '' ''" s] plain by (simp add: is_ws_def char_code_def)
  moreover have "to_lower (filter (\<lambda>c. c \<noteq> CHR 0x22 \<and> c \<noteq> quote_char) w) = w"
    using plain by (simp add: to_lower_def map_idI)
  ultimately show ?thesis
    using assms(1) by (simp add: tokens_def split_whitespace_def)
qed

lemma scan_flag_fst: "fst (foldl scan_flag (r, f) flags) \<longleftrightarrow>
    r \<or> (\<exists>x \<in> set flags. fst (scan_flag (False, False) x))"
proof (induction flags arbitrary: r f)
  case (Cons x flags)
  obtain r' f' where eq: "scan_flag (r, f) x = (r', f')" by (cases "scan_flag (r, f) x")
  then have "r' \<longleftrightarrow> r \<or> fst (scan_flag (False, False) x)"
    by (auto simp: scan_flag_def split: if_splits option.splits)
  with Cons eq show ?case by auto
qed simp

lemma scan_flag_snd: "snd (foldl scan_flag (r, f) flags) \<longleftrightarrow>
    f \<or> (\<exists>x \<in> set flags. snd (scan_flag (False, False) x))"
proof (induction flags arbitrary: r f)
  case (Cons x flags)
  obtain r' f' where eq: "scan_flag (r, f) x = (r', f')" by (cases "scan_flag (r, f) x")
  then have "f' \<longleftrightarrow> f \<or> snd (scan_flag (False, False) x)"
    by (auto simp: scan_flag_def split: if_splits option.splits)
  with Cons eq show ?case by auto
qed simp

lemma recursive_and_force_iff:
  "recursive_and_force flags \<longleftrightarrow>
     (\<exists>x \<in> set flags. fst (scan_flag (False, False) x)) \<and>
     (\<exists>x \<in> set flags. snd (scan_flag (False, False) x))"
  using scan_flag_fst [of False False flags] scan_flag_snd [of False False flags]
  by (auto simp: recursive_and_force_def split: prod.splits)

section \<open>Properties\<close>

text \<open>nothing the syntax tree names escapes the rules: every command node contributes its
  own text and its assignment-stripped text, and every here-document body its cut
  segments, however deep the node lies.\<close>

theorem walk_collects_every_command:
  assumes "parsed_command_segments parse command = Some segments"
  shows "\<exists>root. parse command = Some (root, False) \<and>
    (\<forall>m \<in> set (subnodes root). contributed m \<subseteq> set segments)"
  using assms collect_contributes(1)
  by (fastforce simp: parsed_command_segments_def split: if_splits option.splits)

definition demo_tree :: syntax_node where
  "demo_tree = Node ''program'' ''echo $(curl x)''
     [Node ''command'' ''echo $(curl x)''
        [Node ''command_name'' ''echo'' [],
         Node ''command_substitution'' ''$(curl x)''
           [Node ''command'' ''curl x'' [Node ''command_name'' ''curl'' [], Node ''word'' ''x'' []]]]]"

theorem walk_collects_every_command_witness:
  "''curl x'' \<in> set (command_segments (\<lambda>_. Some (demo_tree, False)) ''echo $(curl x)'')"
proof -
  let ?parse = "\<lambda>_::string. Some (demo_tree, False)"
  have "parsed_command_segments ?parse ''echo $(curl x)'' =
      Some [''echo $(curl x)'', ''curl x'']"
    by code_simp
  moreover have "Node ''command'' ''curl x'' [Node ''command_name'' ''curl'' [], Node ''word'' ''x'' []]
      \<in> set (subnodes demo_tree)"
    by (simp add: demo_tree_def)
  ultimately have "contributed (Node ''command'' ''curl x''
      [Node ''command_name'' ''curl'' [], Node ''word'' ''x'' []]) \<subseteq> set [''echo $(curl x)'', ''curl x'']"
    using walk_collects_every_command [of ?parse "''echo $(curl x)''" "[''echo $(curl x)'', ''curl x'']"]
    by auto
  then show ?thesis
    by (simp add: command_segments_def \<open>parsed_command_segments ?parse ''echo $(curl x)'' = _\<close>)
qed

definition SCRIPT_SHELLS :: "string list" where
  "SCRIPT_SHELLS = [''sh'', ''bash'', ''dash'', ''zsh'', ''ksh'', ''ash'']"

lemma script_shells:
  "list_all (\<lambda>sh. program_name sh = sh \<and> sh \<notin> set WRAPPERS \<and> is_script_flag sh ''-c'') SCRIPT_SHELLS"
  by code_simp

text \<open>disguises do not change the verdict: a wrapper word in front of a segment is peeled,
  a shell handed a script with \<open>-c\<close> is judged by its script, and past the nesting bound the
  answer is never a pass.\<close>

theorem segment_screen_sees_through:
  assumes "w \<in> {''sudo'', ''doas'', ''nohup'', ''nice'', ''command''}"
    and "sh \<in> set SCRIPT_SHELLS"
    and "MAX_SHELL_NESTING < depth"
  shows "segment_reason screen (w @ '' '' @ s) = segment_reason screen s \<and>
    segment_reason screen (sh @ '' -c '' @ s) = screen (join '' '' (tokens s)) \<and>
    dangerous_reason_nested parse command depth \<noteq> None"
proof -
  have "segment_reason screen (w @ '' '' @ s) = segment_reason screen s"
    using assms(1) tokens_prefix_word [of w s]
    by (auto simp: segment_reason_def WRAPPERS_def is_lower_def char_code_def)
  moreover have "tokens (''-c '' @ s) = ''-c'' # tokens s"
    by (simp add: tokens_def split_whitespace_def is_ws_def char_code_def to_lower_def lower_char_def
        is_upper_def quote_char_def)
  then have "tokens (sh @ '' -c '' @ s) = sh # ''-c'' # tokens s"
    using assms(2) tokens_prefix_word [of sh "''-c '' @ s"]
    by (auto simp: is_lower_def char_code_def SCRIPT_SHELLS_def)
  then have "segment_reason screen (sh @ '' -c '' @ s) = screen (join '' '' (tokens s))"
    using script_shells assms(2) by (simp add: segment_reason_def list_all_iff)
  moreover have "dangerous_reason_nested parse command depth \<noteq> None"
    using assms(3) by (subst dangerous_reason_nested.simps) simp
  ultimately show ?thesis by blast
qed

theorem segment_screen_sees_through_witness:
  "segment_reason (\<lambda>_. None) ''sudo reboot'' = Some ''a power-control command''"
proof -
  have "segment_reason (\<lambda>_. None) ''sudo reboot'' = segment_reason (\<lambda>_. None) ''reboot''"
    using segment_screen_sees_through [of "''sudo''" "''sh''" 9 "\<lambda>_. None" "''reboot''"]
    by (simp add: MAX_SHELL_NESTING_def SCRIPT_SHELLS_def)
  also have "\<dots> = Some ''a power-control command''" by code_simp
  finally show ?thesis .
qed

text \<open>The delete screens judge the argument list as a whole: any reordering or repetition of
  flags and operands gets the same verdict.\<close>

theorem delete_screen_order_free:
  assumes "set rest = set rest'"
  shows "rm_reason rest = rm_reason rest' \<and> remove_item_reason rest = remove_item_reason rest'"
proof -
  have "list_ex P rest = list_ex P rest'" for P
    using assms by (auto simp: list_ex_iff)
  then show ?thesis
    using assms by (simp add: rm_reason_def remove_item_reason_def recursive_and_force_iff)
qed

theorem delete_screen_order_free_witness:
  "rm_reason [''x'', ''-rf'', ''/''] = Some ''rm -rf targets a system root''"
proof -
  have "rm_reason [''x'', ''-rf'', ''/''] = rm_reason [''-rf'', ''/'', ''x'']"
    using delete_screen_order_free [of "[''x'', ''-rf'', ''/'']" "[''-rf'', ''/'', ''x'']"] by auto
  also have "\<dots> = Some ''rm -rf targets a system root''" by code_simp
  finally show ?thesis .
qed

end
