(* ===== verification/Sandbox_Policy.thy ===== *)
theory Sandbox_Policy
  imports Command_Risk
begin

text \<open>
  The verdicts of \<open>crates/capabilities/sandbox/src/lib.rs\<close> (\<open>Sandbox::decide\<close>,
  \<open>allow_always\<close>) and the adapter \<open>crates/operations/bootstrap/src/policy_adapter.rs\<close> that
  hands them to the run loop. What the host answers (the parser, path resolution, JSON
  rendering) is the record \<open>policy_env\<close>.
\<close>

record policy_env =
  env_parse :: parser
  env_is_absolute :: "string \<Rightarrow> bool"
  env_cwd :: "string option"
  env_path_join :: "string \<Rightarrow> string \<Rightarrow> string"
  env_canonicalize :: "string \<Rightarrow> string option"
  env_render :: "json \<Rightarrow> string"

definition DETAIL_MAX_CHARS :: nat where
  "DETAIL_MAX_CHARS = 2000"

section \<open>Inputs the steps read\<close>

definition resolved_for_sensitive_check :: "policy_env \<Rightarrow> string \<Rightarrow> string" where
  "resolved_for_sensitive_check env path =
     (let candidate =
        (if env_is_absolute env path then path
         else case env_cwd env of Some cwd \<Rightarrow> env_path_join env cwd path | None \<Rightarrow> path)
      in case env_canonicalize env candidate of Some p \<Rightarrow> p | None \<Rightarrow> path)"

definition server_command_text :: "json \<Rightarrow> string option" where
  "server_command_text input =
     (case json_str_at ''server_command'' input of
        None \<Rightarrow> None
      | Some raw \<Rightarrow> let command = trim raw in if command = [] then None else Some command)"

definition env_file :: "string \<Rightarrow> bool" where
  "env_file file \<longleftrightarrow>
     file = ''.env'' \<or> file = ''.envrc'' \<or>
     (case strip_prefix file ''.env.'' of
        Some rest \<Rightarrow> rest \<notin> {''example'', ''sample'', ''template''} | None \<Rightarrow> False) \<or>
     (ends_with file ''.env'' \<and> file \<notin> {''example.env'', ''sample.env'', ''template.env''})"

definition ssh_key_file :: "string \<Rightarrow> bool" where
  "ssh_key_file file \<longleftrightarrow>
     list_ex (\<lambda>key. file = key \<or>
       (case strip_prefix file key of
          Some (c # _) \<Rightarrow> c = CHR ''.'' \<or> c = CHR ''-'' \<or> c = CHR ''_'' | _ \<Rightarrow> False))
       [''id_rsa'', ''id_ed25519'', ''id_ecdsa'']"

definition cloud_store :: "string list \<Rightarrow> bool" where
  "cloud_store segments \<longleftrightarrow>
     list_ex (\<lambda>w. w \<in> {(''.aws'', ''credentials''), (''.gcp'', ''credentials''), (''.config'', ''gcloud'')})
       (zip segments (tl segments))"

definition sensitive_credential_reason :: "string \<Rightarrow> string option" where
  "sensitive_credential_reason path =
     (let normalized = map (\<lambda>c. if c = backslash then CHR ''/'' else c) path;
          lower = to_lower normalized;
          segments = filter (\<lambda>s. s \<noteq> []) (split_on (\<lambda>c. c = CHR ''/'') lower)
      in if segments = [] then None
         else let file = last segments
              in if env_file file then Some ''environment files usually hold secrets''
                 else if ssh_key_file file then Some ''SSH private keys''
                 else if cloud_store segments then Some ''cloud provider credential stores''
                 else None)"

section \<open>Details shown with an ask\<close>

definition DETAIL_DIFF_LINES :: nat where
  "DETAIL_DIFF_LINES = 24"

definition diff_lines_into :: "string list \<Rightarrow> string list \<Rightarrow> char \<Rightarrow> nat \<Rightarrow> string list" where
  "diff_lines_into out lines sign budget =
     (let shown = min (length lines) budget
      in out @ map (\<lambda>line. sign # line) (take shown lines) @
         (if length lines > shown
          then [[ellipsis] @ '' ('' @ [sign] @ show_nat (length lines - shown) @ '' more lines)'']
          else []))"

definition or_default :: "string \<Rightarrow> string option \<Rightarrow> string" where
  "or_default d v = (case v of Some s \<Rightarrow> s | None \<Rightarrow> d)"

definition write_detail_rows :: "json \<Rightarrow> string list" where
  "write_detail_rows input =
     (let path = or_default ''?'' (json_str_at ''path'' input);
          content = or_default [] (json_str_at ''content'' input)
      in diff_lines_into [''write: '' @ path] (str_lines content) (CHR ''+'') (DETAIL_DIFF_LINES - 1))"

definition edit_detail_rows :: "json \<Rightarrow> string list" where
  "edit_detail_rows input =
     (let path = or_default ''?'' (json_str_at ''path'' input);
          old = or_default [] (json_str_at ''old_string'' input);
          new = or_default [] (json_str_at ''new_string'' input);
          budget = DETAIL_DIFF_LINES - 1;
          half = max (budget div 2) 1;
          out = diff_lines_into [''edit: '' @ path] (str_lines old) (CHR ''-'') half;
          used = length out - 1
      in diff_lines_into out (str_lines new) (CHR ''+'') (budget - used))"

definition ask_detail :: "policy_env \<Rightarrow> string \<Rightarrow> json \<Rightarrow> string" where
  "ask_detail env tool input =
     (let detail =
        (if tool = ''write'' then join [newline] (write_detail_rows input)
         else if tool = ''edit'' then join [newline] (edit_detail_rows input)
         else
           let field = (case json_get ''command'' input of
                          Some v \<Rightarrow> Some v | None \<Rightarrow> json_get ''path'' input);
               target = (case Option.bind field json_as_str of
                           Some t \<Rightarrow> t | None \<Rightarrow> env_render env input)
           in tool @ '': '' @ target)
      in if length detail \<le> DETAIL_MAX_CHARS then detail
         else take (DETAIL_MAX_CHARS - 1) detail @ [ellipsis])"

section \<open>Verdicts and permission state\<close>

datatype verdict =
    Allow
  | Ask approval_kind string
  | Question string "string list"
  | Deny string

record sandbox =
  sb_mode :: permission_mode
  sb_allow :: "rule list"
  sb_deny :: "rule list"

definition sandbox_new ::
    "permission_mode \<Rightarrow> string list \<Rightarrow> string list \<Rightarrow> (rule_error, sandbox) result" where
  "sandbox_new mode allow deny =
     (case map_result rule_parse allow of
        Inl e \<Rightarrow> Inl e
      | Inr a \<Rightarrow> (case map_result rule_parse deny of
          Inl e \<Rightarrow> Inl e
        | Inr d \<Rightarrow> Inr \<lparr>sb_mode = mode, sb_allow = a, sb_deny = d\<rparr>))"

definition matches_any_segment :: "policy_env \<Rightarrow> rule \<Rightarrow> json \<Rightarrow> bool" where
  "matches_any_segment env r input \<longleftrightarrow>
     r_scope r = Bash \<and>
     (case json_str_at ''command'' input of
        Some command \<Rightarrow> list_ex (matches_text r) (command_segments (env_parse env) command)
      | None \<Rightarrow> False)"

definition deny_hit :: "policy_env \<Rightarrow> sandbox \<Rightarrow> json \<Rightarrow> verdict option" where
  "deny_hit env sb input =
     find_map (\<lambda>r. if rule_matches r input \<or> matches_any_segment env r input
                   then Some (Deny (''denied by permission rule: '' @ rule_display r)) else None)
       (sb_deny sb)"

text \<open>An exact session rule of the scope that names one of the texts.\<close>

definition exact_allows :: "sandbox \<Rightarrow> rule_scope \<Rightarrow> string list \<Rightarrow> bool" where
  "exact_allows sb scope texts \<longleftrightarrow>
     list_ex (\<lambda>r. r_scope r = scope \<and> r_exact r \<and> list_ex (matches_text r) texts) (sb_allow sb)"

definition allow_always :: "sandbox \<Rightarrow> json \<Rightarrow> rule option \<times> sandbox" where
  "allow_always sb input =
     (let derived =
        (case json_str_at ''command'' input of
           Some (c # cs) \<Rightarrow> Some (Bash, c # cs)
         | _ \<Rightarrow> (case json_str_at ''path'' input of
             Some path \<Rightarrow> Some (File, normalize_path_text path) | None \<Rightarrow> None))
      in case derived of
           None \<Rightarrow> (None, sb)
         | Some (scope, text) \<Rightarrow>
             if text = [] then (None, sb)
             else let r = rule_exact scope text
                  in (Some r, sb\<lparr>sb_allow := sb_allow sb @ [r]\<rparr>))"

section \<open>The steps of a decision\<close>

record policy_call =
  pc_tool :: string
  pc_input :: json
  pc_read_only :: bool
  pc_destructive :: bool
  pc_kind :: tool_kind

definition step_deny :: "policy_env \<Rightarrow> sandbox \<Rightarrow> policy_call \<Rightarrow> verdict option" where
  "step_deny env sb c = deny_hit env sb (pc_input c)"

definition step_server_deny :: "policy_env \<Rightarrow> sandbox \<Rightarrow> policy_call \<Rightarrow> verdict option" where
  "step_server_deny env sb c =
     (case server_command_text (pc_input c) of
        Some command \<Rightarrow> deny_hit env sb (JObj [(''command'', JStr command)])
      | None \<Rightarrow> None)"

definition step_sensitive :: "policy_env \<Rightarrow> sandbox \<Rightarrow> policy_call \<Rightarrow> verdict option" where
  "step_sensitive env sb c =
     (case json_str_at ''path'' (pc_input c) of
        None \<Rightarrow> None
      | Some path \<Rightarrow>
          if pc_kind c = Shell then None
          else
            let resolved = resolved_for_sensitive_check env path
            in case sensitive_credential_reason resolved of
                 None \<Rightarrow> None
               | Some reason \<Rightarrow>
                   if exact_allows sb File [path, resolved] then None
                   else Some (Ask WriteApproval
                     (path @ '' looks like a sensitive credential file ('' @ reason @
                      ''); approve to let the agent access it'')))"

definition step_dangerous :: "policy_env \<Rightarrow> sandbox \<Rightarrow> policy_call \<Rightarrow> verdict option" where
  "step_dangerous env sb c =
     (if sb_mode sb = Plan then None
      else case json_str_at ''command'' (pc_input c) of
        None \<Rightarrow> None
      | Some command \<Rightarrow>
          (case dangerous_reason (env_parse env) command of
             None \<Rightarrow> None
           | Some reason \<Rightarrow>
               if exact_allows sb Bash [command] then None
               else Some (Ask ExecApproval
                 (''the command was flagged as dangerous ('' @ reason @
                  ''); approve to run it anyway''))))"

definition allow_rule_hit :: "sandbox \<Rightarrow> policy_call \<Rightarrow> bool" where
  "allow_rule_hit sb c =
     (let compound_bash = (case json_str_at ''command'' (pc_input c) of
            Some command \<Rightarrow> is_compound_command command | None \<Rightarrow> False)
      in list_ex (\<lambda>r. (r_exact r \<or> \<not> compound_bash) \<and> rule_matches r (pc_input c) \<and>
                      scope_allows_tool (r_scope r) (pc_kind c)) (sb_allow sb))"

definition step_allow :: "sandbox \<Rightarrow> policy_call \<Rightarrow> verdict option" where
  "step_allow sb c = (if allow_rule_hit sb c then Some Allow else None)"

definition plan_approve :: "policy_call \<Rightarrow> bool" where
  "plan_approve c \<longleftrightarrow>
     pc_kind c = SessionState \<and> json_str_at ''action'' (pc_input c) = Some ''approve''"

definition step_session_state :: "policy_env \<Rightarrow> policy_call \<Rightarrow> verdict option" where
  "step_session_state env c =
     (if pc_kind c = SessionState \<and> \<not> plan_approve c then Some Allow
      else if plan_approve c then Some (Ask WriteApproval (ask_detail env (pc_tool c) (pc_input c)))
      else None)"

fun question_options :: "json list \<Rightarrow> string list option" where
  "question_options [] = Some []"
| "question_options (item # items) =
     (case json_as_str item of
        None \<Rightarrow> None
      | Some raw \<Rightarrow>
          let text = trim raw
          in if text = [] then None
             else map_option (\<lambda>rest. text # rest) (question_options items))"

definition question_verdict :: "json \<Rightarrow> verdict option" where
  "question_verdict input =
     (case json_str_at ''question'' input of
        None \<Rightarrow> None
      | Some raw \<Rightarrow>
          let question = trim raw;
              items = (case json_get ''options'' input of Some (JArr items) \<Rightarrow> items | _ \<Rightarrow> [])
          in if question = [] then None
             else (case question_options items of
                     None \<Rightarrow> None
                   | Some options \<Rightarrow>
                       if length options > 4 then None else Some (Question question options)))"

definition is_user_question :: "string \<Rightarrow> bool" where
  "is_user_question tool \<longleftrightarrow> tool = ''ask_user''"

definition step_question :: "policy_call \<Rightarrow> verdict option" where
  "step_question c = (if is_user_question (pc_tool c) then question_verdict (pc_input c) else None)"

definition step_server :: "policy_env \<Rightarrow> sandbox \<Rightarrow> policy_call \<Rightarrow> verdict option" where
  "step_server env sb c =
     (case server_command_text (pc_input c) of
        None \<Rightarrow> None
      | Some command \<Rightarrow>
          let by_mode = (case sb_mode sb of
                Plan \<Rightarrow> Some (Deny (''plan mode: spawning `'' @ command @
                          ''` is command execution, not a read-only lookup''))
              | Wave \<Rightarrow> None
              | Auto \<Rightarrow> Some (Ask ExecApproval (''spawn language server `'' @ command @ ''`'')))
          in case dangerous_reason (env_parse env) command of
               None \<Rightarrow> by_mode
             | Some reason \<Rightarrow>
                 if exact_allows sb Bash [command] then by_mode
                 else if sb_mode sb = Plan then
                   Some (Deny (''plan mode: language-server command was flagged as dangerous ('' @
                               reason @ '')''))
                 else Some (Ask ExecApproval
                   (''spawn language server `'' @ command @ ''` was flagged as dangerous ('' @ reason @
                    ''); approve to run it'')))"

definition approval_kind_of :: "tool_kind \<Rightarrow> approval_kind" where
  "approval_kind_of kind = (if kind = Shell then ExecApproval else WriteApproval)"

definition mode_default :: "policy_env \<Rightarrow> sandbox \<Rightarrow> policy_call \<Rightarrow> verdict" where
  "mode_default env sb c =
     (if sb_mode sb = Plan \<and> (\<not> pc_read_only c \<or> pc_destructive c) then
        Deny (''plan mode: only read-only tools are allowed; `'' @ pc_tool c @
              ''` was blocked (no changes were made)'')
      else if sb_mode sb = Wave then Allow
      else if pc_read_only c \<and> \<not> pc_destructive c then Allow
      else if pc_kind c = FileEdit \<and> \<not> pc_destructive c then Allow
      else if pc_kind c = Present \<and> \<not> pc_destructive c then Allow
      else Ask (approval_kind_of (pc_kind c)) (ask_detail env (pc_tool c) (pc_input c)))"

text \<open>The early returns of \<open>decide\<close>, in order.\<close>

definition decide_steps :: "policy_env \<Rightarrow> sandbox \<Rightarrow> policy_call \<Rightarrow> verdict option list" where
  "decide_steps env sb c =
     [step_deny env sb c, step_server_deny env sb c, step_sensitive env sb c,
      step_dangerous env sb c, step_allow sb c, step_session_state env c, step_question c,
      step_server env sb c]"

definition decide :: "policy_env \<Rightarrow> sandbox \<Rightarrow> policy_call \<Rightarrow> verdict" where
  "decide env sb c =
     (case find_map (\<lambda>v. v) (decide_steps env sb c) of
        Some v \<Rightarrow> v
      | None \<Rightarrow> mode_default env sb c)"

section \<open>The adapter of the run loop\<close>

datatype ask_kind = AskExec | AskWrite

datatype policy_verdict =
    PAllow
  | PAsk ask_kind string
  | PQuestion string "string list"
  | PDeny string

definition APPROVAL_DETAIL_TRUNCATION :: nat where
  "APPROVAL_DETAIL_TRUNCATION = 2000"

definition set_permission_mode :: "sandbox \<Rightarrow> string \<Rightarrow> bool \<times> sandbox" where
  "set_permission_mode sb mode =
     (case mode_parse mode of
        Some parsed \<Rightarrow> (True, sb\<lparr>sb_mode := parsed\<rparr>)
      | None \<Rightarrow> (False, sb))"

fun translate_verdict :: "verdict \<Rightarrow> policy_verdict" where
  "translate_verdict Allow = PAllow"
| "translate_verdict (Ask kind detail) =
     PAsk (case kind of ExecApproval \<Rightarrow> AskExec | WriteApproval \<Rightarrow> AskWrite)
       (truncate_text detail APPROVAL_DETAIL_TRUNCATION)"
| "translate_verdict (Question question options) =
     PQuestion (truncate_text question APPROVAL_DETAIL_TRUNCATION) options"
| "translate_verdict (Deny reason) = PDeny reason"

text \<open>The registry answers a tool's (read-only, destructive, kind).\<close>

type_synonym tool_attributes = "string \<Rightarrow> (bool \<times> bool \<times> tool_kind) option"

definition adapter_call :: "tool_attributes \<Rightarrow> string \<Rightarrow> json \<Rightarrow> policy_call" where
  "adapter_call registry name input =
     (case registry name of
        Some (ro, d, k) \<Rightarrow> \<lparr>pc_tool = name, pc_input = input, pc_read_only = ro,
                            pc_destructive = d, pc_kind = k\<rparr>
      | None \<Rightarrow> \<lparr>pc_tool = name, pc_input = input, pc_read_only = False,
                 pc_destructive = True, pc_kind = OtherKind\<rparr>)"

definition adapter_decide ::
    "policy_env \<Rightarrow> tool_attributes \<Rightarrow> sandbox \<Rightarrow> string \<Rightarrow> json \<Rightarrow> policy_verdict" where
  "adapter_decide env registry sb name input =
     translate_verdict (decide env sb (adapter_call registry name input))"

text \<open>\<open>remember_always\<close>: the rule joins the session table and goes to the grant log, if any.\<close>

definition remember_always ::
    "bool \<Rightarrow> string \<Rightarrow> json \<Rightarrow> sandbox \<times> (string \<times> rule) list \<Rightarrow> sandbox \<times> (string \<times> rule) list" where
  "remember_always has_sink name input st =
     (case st of (sb, recorded) \<Rightarrow>
        (case allow_always sb input of
           (None, _) \<Rightarrow> (sb, recorded)
         | (Some r, sb') \<Rightarrow> (sb', if has_sink then recorded @ [(name, r)] else recorded)))"

section \<open>Facts about the steps\<close>

lemma find_map_id_Cons:
  "find_map (\<lambda>v. v) (x # xs) = (case x of Some y \<Rightarrow> Some y | None \<Rightarrow> find_map (\<lambda>v. v) xs)"
  by simp

lemma deny_hit_Deny: "deny_hit env sb input = Some v \<Longrightarrow> \<exists>r \<in> set (sb_deny sb). v = Deny (''denied by permission rule: '' @ rule_display r)"
  unfolding deny_hit_def by (auto dest!: find_map_SomeD split: if_splits)

lemma deny_hit_None_iff:
  "deny_hit env sb input = None \<longleftrightarrow>
     (\<forall>r \<in> set (sb_deny sb). \<not> rule_matches r input \<and> \<not> matches_any_segment env r input)"
  by (simp add: deny_hit_def find_map_None_iff)

lemma step_deny_kind: "step_deny env sb c \<noteq> Some Allow"
  by (auto simp: step_deny_def dest: deny_hit_Deny)

lemma step_server_deny_kind: "step_server_deny env sb c \<noteq> Some Allow"
  by (auto simp: step_server_deny_def dest: deny_hit_Deny split: option.splits)

lemma step_sensitive_kind: "step_sensitive env sb c \<noteq> Some Allow"
  by (auto simp: step_sensitive_def Let_def split: option.splits)

lemma step_dangerous_kind: "step_dangerous env sb c \<noteq> Some Allow"
  by (auto simp: step_dangerous_def split: option.splits)

lemma step_question_kind: "step_question c \<noteq> Some Allow"
  by (auto simp: step_question_def question_verdict_def Let_def split: option.splits)

lemma step_server_kind: "step_server env sb c \<noteq> Some Allow"
  by (auto simp: step_server_def Let_def split: option.splits permission_mode.splits)

lemmas never_allow_steps =
  step_deny_kind step_server_deny_kind step_sensitive_kind step_dangerous_kind
  step_question_kind step_server_kind

text \<open>A verdict comes from the first step with an opinion.\<close>

lemma decide_None_steps:
  "decide env sb c =
     (case step_deny env sb c of Some v \<Rightarrow> v | None \<Rightarrow>
      case step_server_deny env sb c of Some v \<Rightarrow> v | None \<Rightarrow>
      case step_sensitive env sb c of Some v \<Rightarrow> v | None \<Rightarrow>
      case step_dangerous env sb c of Some v \<Rightarrow> v | None \<Rightarrow>
      case step_allow sb c of Some v \<Rightarrow> v | None \<Rightarrow>
      case step_session_state env c of Some v \<Rightarrow> v | None \<Rightarrow>
      case step_question c of Some v \<Rightarrow> v | None \<Rightarrow>
      case step_server env sb c of Some v \<Rightarrow> v | None \<Rightarrow> mode_default env sb c)"
  by (simp add: decide_def decide_steps_def split: option.split)

lemma decide_Allow_cases:
  assumes "decide env sb c = Allow"
  shows "step_deny env sb c = None" "step_server_deny env sb c = None"
    "step_sensitive env sb c = None" "step_dangerous env sb c = None"
    "allow_rule_hit sb c \<or> (pc_kind c = SessionState \<and> \<not> plan_approve c) \<or>
     (step_server env sb c = None \<and> mode_default env sb c = Allow)"
  using assms never_allow_steps
  by (auto simp: decide_None_steps step_allow_def step_session_state_def
      split: option.splits if_splits)

lemma matches_text_exact_self: "matches_text (rule_exact sc t) t"
  by (simp add: matches_text_def rule_exact_def)

lemma matches_text_exact_normalized: "matches_text (rule_exact File (normalize_path_text t)) t"
proof -
  have "normalize_path_text (normalize_path_text t) = normalize_path_text t"
    using normalized_segments [of t] normalize_clean_join by metis
  then show ?thesis by (simp add: matches_text_def rule_exact_def)
qed

lemma exact_allows_append:
  "exact_allows (sb\<lparr>sb_allow := sb_allow sb @ [r]\<rparr>) sc ts \<longleftrightarrow>
     exact_allows sb sc ts \<or> (r_scope r = sc \<and> r_exact r \<and> list_ex (matches_text r) ts)"
  by (auto simp: exact_allows_def)

lemma deny_hit_allow_frame [frame_simps]:
  "deny_hit env (sb\<lparr>sb_allow := a\<rparr>) input = deny_hit env sb input"
  by (simp add: deny_hit_def)

lemma deny_steps_allow_frame [frame_simps]:
  "step_deny env (sb\<lparr>sb_allow := a\<rparr>) c = step_deny env sb c"
  "step_server_deny env (sb\<lparr>sb_allow := a\<rparr>) c = step_server_deny env sb c"
  by (simp_all add: step_deny_def step_server_deny_def frame_simps split: option.splits)

section \<open>Properties\<close>

text \<open>C3: deny rules come first in every mode: when a deny rule hits the call (whole, by a
  segment of a compound command, or by its language-server program), the verdict is that
  rule's denial whatever the mode and the allow rules are.\<close>

theorem deny_first:
  assumes "r \<in> set (sb_deny sb)"
    and "rule_matches r (pc_input c) \<or> matches_any_segment env r (pc_input c) \<or>
         (\<exists>p. server_command_text (pc_input c) = Some p \<and>
              (rule_matches r (JObj [(''command'', JStr p)]) \<or>
               matches_any_segment env r (JObj [(''command'', JStr p)])))"
  shows "\<exists>q \<in> set (sb_deny sb).
    \<forall>m a. decide env (sb\<lparr>sb_mode := m, sb_allow := a\<rparr>) c =
      Deny (''denied by permission rule: '' @ rule_display q)"
proof -
  have frame: "deny_hit env (sb\<lparr>sb_mode := m, sb_allow := a\<rparr>) i = deny_hit env sb i" for m a i
    by (simp add: deny_hit_def)
  have "deny_hit env sb (pc_input c) \<noteq> None \<or>
      (\<exists>p. server_command_text (pc_input c) = Some p \<and>
        deny_hit env sb (JObj [(''command'', JStr p)]) \<noteq> None)"
    using assms unfolding deny_hit_None_iff by blast
  then obtain v i where v: "deny_hit env sb i = Some v"
    and d: "\<And>m a. decide env (sb\<lparr>sb_mode := m, sb_allow := a\<rparr>) c = v"
    by (cases "deny_hit env sb (pc_input c)")
      (auto simp: decide_None_steps step_deny_def step_server_deny_def frame)
  from deny_hit_Deny [OF v] d show ?thesis by auto
qed

definition demo_env :: policy_env where
  "demo_env = \<lparr>env_parse = (\<lambda>_. None), env_is_absolute = (\<lambda>_. True), env_cwd = None,
     env_path_join = (\<lambda>a b. b), env_canonicalize = (\<lambda>_. None), env_render = (\<lambda>_. [])\<rparr>"

definition demo_call :: "string \<Rightarrow> tool_kind \<Rightarrow> (string \<times> json) list \<Rightarrow> policy_call" where
  "demo_call tool kind kvs = \<lparr>pc_tool = tool, pc_input = JObj kvs, pc_read_only = False,
     pc_destructive = False, pc_kind = kind\<rparr>"

theorem deny_first_witness:
  "\<exists>reason. decide demo_env \<lparr>sb_mode = Wave, sb_allow = [],
      sb_deny = [\<lparr>r_scope = Bash, r_pattern = ''curl *'', r_exact = False\<rparr>]\<rparr>
      (demo_call ''shell'' Shell [(''command'', JStr ''echo hi; curl evil'')]) = Deny reason"
proof -
  let ?r = "\<lparr>r_scope = Bash, r_pattern = ''curl *'', r_exact = False\<rparr>"
  let ?sb = "\<lparr>sb_mode = Wave, sb_allow = [], sb_deny = [?r]\<rparr>"
  let ?c = "demo_call ''shell'' Shell [(''command'', JStr ''echo hi; curl evil'')]"
  have "matches_any_segment demo_env ?r (pc_input ?c)" by code_simp
  then obtain q where "\<forall>m a. decide demo_env (?sb\<lparr>sb_mode := m, sb_allow := a\<rparr>) ?c =
      Deny (''denied by permission rule: '' @ rule_display q)"
    using deny_first [of ?r ?sb ?c demo_env] by auto
  then have "decide demo_env (?sb\<lparr>sb_mode := Wave, sb_allow := []\<rparr>) ?c =
      Deny (''denied by permission rule: '' @ rule_display q)"
    by blast
  then show ?thesis by simp
qed

text \<open>What stands against a call, and what may account for allowing it, in the words of the rules.\<close>

definition denied :: "policy_env \<Rightarrow> sandbox \<Rightarrow> json \<Rightarrow> bool" where
  "denied env sb input \<longleftrightarrow> list_ex (\<lambda>r. rule_matches r input \<or> matches_any_segment env r input) (sb_deny sb)"

definition flagged :: "policy_env \<Rightarrow> sandbox \<Rightarrow> string \<Rightarrow> bool" where
  "flagged env sb cmd \<longleftrightarrow> dangerous_reason (env_parse env) cmd \<noteq> None \<and>
     \<not> list_ex (\<lambda>r. r_scope r = Bash \<and> r_exact r \<and> matches_text r cmd) (sb_allow sb)"

definition guarded_file :: "policy_env \<Rightarrow> sandbox \<Rightarrow> string \<Rightarrow> bool" where
  "guarded_file env sb path \<longleftrightarrow>
     (let target = resolved_for_sensitive_check env path
      in sensitive_credential_reason target \<noteq> None \<and>
         \<not> list_ex (\<lambda>r. r_scope r = File \<and> r_exact r \<and> (matches_text r path \<or> matches_text r target)) (sb_allow sb))"

definition allowed_by_rule :: "sandbox \<Rightarrow> policy_call \<Rightarrow> bool" where
  "allowed_by_rule sb c \<longleftrightarrow>
     list_ex (\<lambda>r. rule_matches r (pc_input c) \<and> scope_allows_tool (r_scope r) (pc_kind c) \<and>
       (r_exact r \<or> (case json_str_at ''command'' (pc_input c) of Some cmd \<Rightarrow> \<not> is_compound_command cmd | None \<Rightarrow> True)))
     (sb_allow sb)"

lemma deny_hit_denied: "deny_hit env sb input = None \<longleftrightarrow> \<not> denied env sb input"
  by (auto simp: deny_hit_None_iff denied_def list_ex_iff)

lemma exact_allows_flagged:
  "dangerous_reason (env_parse env) cmd = Some reason \<Longrightarrow> exact_allows sb Bash [cmd] \<longleftrightarrow> \<not> flagged env sb cmd"
  by (simp add: flagged_def exact_allows_def)

lemma exact_allows_guarded:
  "sensitive_credential_reason (resolved_for_sensitive_check env path) = Some reason \<Longrightarrow>
   exact_allows sb File [path, resolved_for_sensitive_check env path] \<longleftrightarrow> \<not> guarded_file env sb path"
  by (simp add: guarded_file_def exact_allows_def Let_def)

lemma step_sensitive_None:
  "step_sensitive env sb c = None \<longleftrightarrow>
     (case json_str_at ''path'' (pc_input c) of Some path \<Rightarrow> pc_kind c = Shell \<or> \<not> guarded_file env sb path | None \<Rightarrow> True)"
  by (cases "json_str_at ''path'' (pc_input c)")
     (auto simp: step_sensitive_def Let_def exact_allows_guarded guarded_file_def split: option.splits)

lemma step_dangerous_None:
  "step_dangerous env sb c = None \<longleftrightarrow>
     (case json_str_at ''command'' (pc_input c) of Some cmd \<Rightarrow> sb_mode sb = Plan \<or> \<not> flagged env sb cmd | None \<Rightarrow> True)"
  by (cases "json_str_at ''command'' (pc_input c)")
     (auto simp: step_dangerous_def exact_allows_flagged flagged_def split: option.splits)

lemma step_server_None:
  "step_server env sb c = None \<longleftrightarrow>
     (case server_command_text (pc_input c) of Some cmd \<Rightarrow> sb_mode sb = Wave \<and> \<not> flagged env sb cmd | None \<Rightarrow> True)"
  by (cases "server_command_text (pc_input c)"; cases "sb_mode sb")
     (auto simp: step_server_def Let_def exact_allows_flagged flagged_def split: option.splits)

lemma step_server_deny_None:
  "step_server_deny env sb c = None \<longleftrightarrow>
     (case server_command_text (pc_input c) of Some cmd \<Rightarrow> \<not> denied env sb (JObj [(''command'', JStr cmd)]) | None \<Rightarrow> True)"
  by (simp add: step_server_deny_def deny_hit_denied split: option.split)

lemma allow_rule_hit_rule: "allow_rule_hit sb c \<longleftrightarrow> allowed_by_rule sb c"
  by (auto simp: allow_rule_hit_def allowed_by_rule_def Let_def list_ex_iff split: option.splits)

lemma mode_default_Allow:
  "mode_default env sb c = Allow \<longleftrightarrow>
     (case sb_mode sb of
        Plan \<Rightarrow> pc_read_only c \<and> \<not> pc_destructive c
      | Auto \<Rightarrow> \<not> pc_destructive c \<and> (pc_read_only c \<or> pc_kind c = FileEdit \<or> pc_kind c = Present)
      | Wave \<Rightarrow> True)"
  by (cases "sb_mode sb") (auto simp: mode_default_def)

text \<open>C6: exactly when a call is allowed. No deny rule hits its input or the language server it would
  start; it names no credential file, unless it is a shell call or an exact rule of the session names the
  file; its command is not flagged dangerous, unless the mode is plan or an exact rule names it; and an
  allow rule for its kind accounts for it, or it is a session-state call other than the approval of a
  plan, or it is neither that nor a question, starts no server but an unflagged one in wave mode, and
  the mode lets its class pass.\<close>

theorem allow_is_justified:
  "decide env sb c = Allow \<longleftrightarrow>
     \<not> denied env sb (pc_input c) \<and>
     (case server_command_text (pc_input c) of Some cmd \<Rightarrow> \<not> denied env sb (JObj [(''command'', JStr cmd)]) | None \<Rightarrow> True) \<and>
     (case json_str_at ''path'' (pc_input c) of Some path \<Rightarrow> pc_kind c = Shell \<or> \<not> guarded_file env sb path | None \<Rightarrow> True) \<and>
     (case json_str_at ''command'' (pc_input c) of Some cmd \<Rightarrow> sb_mode sb = Plan \<or> \<not> flagged env sb cmd | None \<Rightarrow> True) \<and>
     (allowed_by_rule sb c \<or> (pc_kind c = SessionState \<and> \<not> plan_approve c) \<or>
      \<not> plan_approve c \<and> \<not> (pc_tool c = ''ask_user'' \<and> question_verdict (pc_input c) \<noteq> None) \<and>
      (case server_command_text (pc_input c) of Some cmd \<Rightarrow> sb_mode sb = Wave \<and> \<not> flagged env sb cmd | None \<Rightarrow> True) \<and>
      (case sb_mode sb of
         Plan \<Rightarrow> pc_read_only c \<and> \<not> pc_destructive c
       | Auto \<Rightarrow> \<not> pc_destructive c \<and> (pc_read_only c \<or> pc_kind c = FileEdit \<or> pc_kind c = Present)
       | Wave \<Rightarrow> True))"
proof -
  have q: "step_question c = None \<longleftrightarrow> \<not> (pc_tool c = ''ask_user'' \<and> question_verdict (pc_input c) \<noteq> None)"
    by (auto simp: step_question_def is_user_question_def)
  have s: "step_session_state env c = None \<longleftrightarrow> pc_kind c \<noteq> SessionState"
    "step_session_state env c = Some Allow \<longleftrightarrow> pc_kind c = SessionState \<and> \<not> plan_approve c"
    by (auto simp: step_session_state_def plan_approve_def)
  have "decide env sb c = Allow \<longleftrightarrow>
      step_deny env sb c = None \<and> step_server_deny env sb c = None \<and> step_sensitive env sb c = None \<and>
      step_dangerous env sb c = None \<and>
      (allow_rule_hit sb c \<or> step_session_state env c = Some Allow \<or>
       step_session_state env c = None \<and> step_question c = None \<and> step_server env sb c = None \<and> mode_default env sb c = Allow)"
    using never_allow_steps by (auto simp: decide_None_steps step_allow_def split: option.splits)
  moreover have "plan_approve c \<Longrightarrow> pc_kind c = SessionState" by (simp add: plan_approve_def)
  ultimately show ?thesis
    by (simp only: step_sensitive_None step_dangerous_None step_server_None step_server_deny_None
        allow_rule_hit_rule mode_default_Allow q s step_deny_def deny_hit_denied) blast
qed

text \<open>The guard against dangerous commands is skipped in plan mode, and an allow rule is read before the
  mode: what auto and wave mode ask about, plan mode allows.\<close>

definition reboot_sandbox :: "permission_mode \<Rightarrow> sandbox" where
  "reboot_sandbox m = \<lparr>sb_mode = m, sb_allow = [\<lparr>r_scope = Bash, r_pattern = ''reboot'', r_exact = False\<rparr>], sb_deny = []\<rparr>"

definition reboot_call :: policy_call where
  "reboot_call = demo_call ''shell'' Shell [(''command'', JStr ''reboot'')]"

lemma reboot_dangerous: "dangerous_reason (\<lambda>_. None) ''reboot'' \<noteq> None"
  by code_simp

lemma plan_allows_what_auto_asks:
  "decide demo_env (reboot_sandbox Plan) reboot_call = Allow \<and>
   decide demo_env (reboot_sandbox Auto) reboot_call \<noteq> Allow \<and> decide demo_env (reboot_sandbox Wave) reboot_call \<noteq> Allow"
proof -
  have flag: "flagged demo_env (reboot_sandbox m) ''reboot''" for m
    using reboot_dangerous by (simp add: flagged_def demo_env_def reboot_sandbox_def)
  have cmd: "json_str_at ''command'' (pc_input reboot_call) = Some ''reboot''" by code_simp
  have no: "decide demo_env (reboot_sandbox m) reboot_call = Allow \<Longrightarrow> m = Plan" for m
    using decide_Allow_cases(4) [of demo_env "reboot_sandbox m" reboot_call] flag [of m]
    by (simp add: step_dangerous_None cmd) (simp add: reboot_sandbox_def)
  have "decide demo_env (reboot_sandbox Plan) reboot_call = Allow" by code_simp
  with no [of Auto] no [of Wave] show ?thesis by auto
qed

theorem allow_is_justified_witness:
  "decide demo_env \<lparr>sb_mode = Auto, sb_allow = [\<lparr>r_scope = Bash, r_pattern = ''git *'', r_exact = False\<rparr>], sb_deny = []\<rparr>
     (demo_call ''shell'' Shell [(''command'', JStr ''git log'')]) = Allow"
  unfolding allow_is_justified by code_simp

text \<open>an "always allow" sticks: after it derives a rule from a shell call's command (or from a
  file edit's path when the call carries no command), the same call is allowed on every
  later decision that no deny rule stops, in every mode and whatever the call's flags.\<close>

theorem allow_always_sticks:
  assumes "allow_always sb (pc_input c) = (Some r, sb')"
    and "step_deny env sb c = None" and "step_server_deny env sb c = None"
    and "(json_str_at ''command'' (pc_input c) \<noteq> None \<and> pc_kind c = Shell \<and> r_scope r = Bash) \<or>
         (json_str_at ''command'' (pc_input c) = None \<and> pc_kind c = FileEdit)"
  shows "decide env (sb'\<lparr>sb_mode := m\<rparr>) c = Allow \<and> sb_deny sb' = sb_deny sb"
proof -
  define t where "t = sb'\<lparr>sb_mode := m\<rparr>"
  obtain scope body where r: "r = rule_exact scope body" and sb': "sb' = sb\<lparr>sb_allow := sb_allow sb @ [r]\<rparr>"
    using assms(1) by (auto simp: allow_always_def Let_def split: option.splits prod.splits list.splits if_splits)
  have deny: "step_deny env t c = None" "step_server_deny env t c = None"
    using assms(2,3) by (simp_all add: t_def sb' step_deny_def step_server_deny_def deny_hit_def split: option.splits)
  have ex: "exact_allows t sc ts" if "scope = sc" "list_ex (matches_text r) ts" for sc ts
    using that by (auto simp: exact_allows_def t_def sb' r rule_exact_def)
  have hit: "allow_rule_hit t c" if "rule_matches r (pc_input c)" "scope_allows_tool scope (pc_kind c)"
    using that by (auto simp: allow_rule_hit_def t_def sb' r rule_exact_def Let_def)
  consider (shell) cmd where "json_str_at ''command'' (pc_input c) = Some cmd" "pc_kind c = Shell"
      "scope = Bash" "body = cmd"
    | (edit) path where "json_str_at ''command'' (pc_input c) = None" "pc_kind c = FileEdit"
      "json_str_at ''path'' (pc_input c) = Some path" "scope = File" "body = normalize_path_text path"
    using assms(1,4) r
    by (auto simp: allow_always_def Let_def rule_exact_def
        split: option.splits prod.splits list.splits if_splits)
  then have "step_sensitive env t c = None \<and> step_dangerous env t c = None \<and> allow_rule_hit t c"
  proof cases
    case shell
    have "matches_text r cmd" using shell r matches_text_exact_self by simp
    with shell have "rule_matches r (pc_input c)" and "exact_allows t Bash [cmd]"
      using ex [of Bash "[cmd]"] by (simp_all add: rule_matches_def r rule_exact_def)
    with shell hit show ?thesis
      by (auto simp: step_sensitive_def step_dangerous_def split: option.splits)
  next
    case edit
    have "matches_text r path" using edit r matches_text_exact_normalized by simp
    with edit have "rule_matches r (pc_input c)" and "exact_allows t File [path, x]" for x
      using ex [of File "[path, x]"] by (simp_all add: rule_matches_def r rule_exact_def)
    with edit hit show ?thesis
      by (auto simp: step_sensitive_def step_dangerous_def Let_def split: option.splits)
  qed
  with deny have "decide env t c = Allow"
    by (simp add: decide_None_steps step_allow_def)
  then show ?thesis by (simp add: t_def sb')
qed

theorem allow_always_sticks_witness:
  "decide demo_env (snd (allow_always \<lparr>sb_mode = Auto, sb_allow = [], sb_deny = []\<rparr>
       (JObj [(''command'', JStr ''sudo reboot'')])))
     (demo_call ''shell'' Shell [(''command'', JStr ''sudo reboot'')]) = Allow"
proof -
  let ?sb = "\<lparr>sb_mode = Auto, sb_allow = [], sb_deny = []\<rparr>"
  let ?c = "demo_call ''shell'' Shell [(''command'', JStr ''sudo reboot'')]"
  let ?r = "rule_exact Bash ''sudo reboot''"
  have 1: "allow_always ?sb (pc_input ?c) = (Some ?r, ?sb\<lparr>sb_allow := [?r]\<rparr>)"
    by (simp add: allow_always_def demo_call_def json_str_at_def Let_def)
  have "decide demo_env (?sb\<lparr>sb_allow := [?r]\<rparr>\<lparr>sb_mode := Auto\<rparr>) ?c = Allow"
    using allow_always_sticks [OF 1, of demo_env Auto]
    by (simp add: step_deny_def step_server_deny_def deny_hit_def demo_call_def json_str_at_def
        server_command_text_def rule_exact_def)
  then show ?thesis
    using 1 by (simp add: demo_call_def)
qed

end
