(* ===== verification/Run_Types.thy ===== *)
theory Run_Types
  imports Conversation Sandbox_Policy
begin

text \<open>
  The vocabulary of the run loop \<open>crates/runtime/runner/src/lib.rs\<close>: tool calls, results,
  samples, resolutions, wire events (\<open>crates/foundation/wire/src/lib.rs\<close>), the counters of one
  turn, the mid-turn inbox, the queued slots and the run-scoped tables.
\<close>

section \<open>Calls, results, samples\<close>

record tool_call =
  tc_id :: string
  tc_name :: string
  tc_input :: json

record tool_result =
  tr_id :: string
  tr_content :: string
  tr_is_error :: bool

datatype hook_point =
  PreToolUse | PostToolUse | PromptSubmit | SessionStart | SessionEnd | Stop | PreCompact | PostCompact

record hook_report =
  hr_allow :: bool
  hr_message :: string
  hr_context :: string

record tool_ref =
  tf_name :: string
  tf_description :: string

record sample_request =
  sr_system :: string
  sr_messages :: "history_entry list"
  sr_tools :: "tool_ref list"
  sr_output_cap :: nat
  sr_notes :: "string list"

record sample_response =
  sp_blocks :: "block list"
  sp_input_tokens :: "nat option"
  sp_output_tokens :: "nat option"
  sp_cache_read :: nat
  sp_cache_creation :: nat
  sp_truncated :: bool

datatype sample_error = PromptTooLong | Transport string | Timeout

datatype sample_delta = DeltaText string | DeltaThinking string

datatype approval_resolution = AllowOnce | AllowAlways | DenyWith string | ApprovalInterrupted

datatype question_resolution = Answered string | Unavailable string | QuestionInterrupted

record compacted =
  cp_summary :: string
  cp_summary_tokens :: nat
  cp_tail :: "history_entry list"

datatype stop_reason = Completed | Interrupted | MaxToolRounds | RepeatBreaker | StopError string

fun sample_error_text :: "sample_error \<Rightarrow> string" where
  "sample_error_text PromptTooLong = ''prompt exceeds context window''"
| "sample_error_text (Transport s) = ''model transport failed: '' @ s"
| "sample_error_text Timeout = ''model sampling timed out''"

fun trigger_name :: "compact_trigger \<Rightarrow> string" where
  "trigger_name TAuto = ''auto''"
| "trigger_name TBlocking = ''blocking''"
| "trigger_name TReactive = ''reactive''"
| "trigger_name (TManual _) = ''manual''"
| "trigger_name TModel = ''model''"

section \<open>Wire events\<close>

datatype tool_outcome =
  Executed | Denied | Refused | HookBlocked | SurfaceBlocked | OutcomeInterrupted | NotDispatched |
  Duplicate | OutcomeAnswered | AskUnavailable | Missing

record preview =
  pv_text :: string
  pv_truncated :: bool

datatype event =
    TurnStarted string
  | AgentMessageDelta string
  | AgentThinkingDelta string
  | AgentMessageComplete string
  | ToolCallBegin string string json
  | ToolCallEnd string bool preview tool_outcome nat
  | ApprovalRequested string ask_kind string
  | QuestionRequested string string "string list"
  | TokenCount nat nat nat nat nat nat
  | CompactStarted string
  | CompactCompleted nat
  | Warning string
  | ErrorEvent string bool string
  | TurnCompleted bool

definition TOOL_OUTPUT_PREVIEW_BYTES :: nat where
  "TOOL_OUTPUT_PREVIEW_BYTES = 4096"

text \<open>The longest prefix of at most \<open>n\<close> bytes that ends between characters.\<close>

fun take_bytes :: "nat \<Rightarrow> string \<Rightarrow> string" where
  "take_bytes n [] = []"
| "take_bytes n (c # cs) =
     (let w = (if is_ascii c then 1 else 3) in if w \<le> n then c # take_bytes (n - w) cs else [])"

definition preview_head :: "string \<Rightarrow> nat \<Rightarrow> preview" where
  "preview_head content max_bytes =
     (if byte_len content \<le> max_bytes then \<lparr>pv_text = content, pv_truncated = False\<rparr>
      else \<lparr>pv_text = take_bytes max_bytes content, pv_truncated = True\<rparr>)"

definition wrap_system_reminder :: "string \<Rightarrow> string" where
  "wrap_system_reminder t = ''<system-reminder>'' @ [newline] @ t @ [newline] @ ''</system-reminder>''"

lemma take_bytes_bound: "byte_len (take_bytes n s) \<le> n"
  by (induction n s rule: take_bytes.induct) (auto simp: byte_len_def Let_def)

lemma preview_head_bound: "byte_len (pv_text (preview_head c n)) \<le> n"
  by (simp add: preview_head_def take_bytes_bound)

section \<open>Counters of one turn\<close>

record turn_state =
  ts_output :: nat
  ts_cache_read :: nat
  ts_cache_creation :: nat
  ts_rounds :: nat
  ts_rearms :: nat
  ts_streak :: nat
  ts_last_signature :: "string option"

definition turn_state_new :: turn_state where
  "turn_state_new = \<lparr>ts_output = 0, ts_cache_read = 0, ts_cache_creation = 0, ts_rounds = 0,
     ts_rearms = 0, ts_streak = 0, ts_last_signature = None\<rparr>"

definition add_output :: "nat \<Rightarrow> turn_state \<Rightarrow> turn_state" where
  "add_output n st = st\<lparr>ts_output := sat_add 64 (ts_output st) n\<rparr>"

definition bump_tool_round :: "turn_state \<Rightarrow> turn_state" where
  "bump_tool_round st = st\<lparr>ts_rounds := sat_add 32 (ts_rounds st) 1\<rparr>"

definition rounds_exhausted :: "turn_state \<Rightarrow> nat \<Rightarrow> bool" where
  "rounds_exhausted st m \<longleftrightarrow> m \<le> ts_rounds st"

definition note_call_signature :: "string \<Rightarrow> turn_state \<Rightarrow> nat \<times> turn_state" where
  "note_call_signature sig st =
     (let st' = (if ts_last_signature st = Some sig
                 then st\<lparr>ts_streak := sat_add 32 (ts_streak st) 1\<rparr>
                 else st\<lparr>ts_streak := 1, ts_last_signature := Some sig\<rparr>)
      in (ts_streak st', st'))"

section \<open>Inbox and slots\<close>

record inbox =
  ib_next_turn :: "string list"
  ib_next_step :: "string list"
  ib_injected :: "string list"

datatype steer_target = NextTurn | NextStep

fun inbox_steer :: "string \<Rightarrow> steer_target \<Rightarrow> inbox \<Rightarrow> inbox" where
  "inbox_steer t NextTurn ib = ib\<lparr>ib_next_turn := ib_next_turn ib @ [t]\<rparr>"
| "inbox_steer t NextStep ib = ib\<lparr>ib_next_step := ib_next_step ib @ [t]\<rparr>"

definition inbox_inject :: "string \<Rightarrow> inbox \<Rightarrow> inbox" where
  "inbox_inject t ib = ib\<lparr>ib_injected := ib_injected ib @ [t]\<rparr>"

definition inbox_cancel :: "bool \<Rightarrow> inbox \<Rightarrow> nat \<times> inbox" where
  "inbox_cancel keep_next_turn ib =
     (let dropped = length (ib_next_step ib) + length (ib_injected ib);
          ib' = ib\<lparr>ib_next_step := [], ib_injected := []\<rparr>
      in if keep_next_turn then (dropped, ib')
         else (dropped + length (ib_next_turn ib), ib'\<lparr>ib_next_turn := []\<rparr>))"

definition inbox_take_next_turn :: "inbox \<Rightarrow> string list \<times> inbox" where
  "inbox_take_next_turn ib = (ib_next_turn ib, ib\<lparr>ib_next_turn := []\<rparr>)"

definition inbox_take_next_step :: "inbox \<Rightarrow> string list \<times> inbox" where
  "inbox_take_next_step ib = (ib_next_step ib, ib\<lparr>ib_next_step := []\<rparr>)"

definition inbox_take_injected :: "inbox \<Rightarrow> string list \<times> inbox" where
  "inbox_take_injected ib = (ib_injected ib, ib\<lparr>ib_injected := []\<rparr>)"

text \<open>The loop's own entrances drop empty texts.\<close>

definition loop_steer :: "string \<Rightarrow> steer_target \<Rightarrow> inbox \<Rightarrow> inbox" where
  "loop_steer t target ib = (if t = [] then ib else inbox_steer t target ib)"

definition loop_inject :: "string \<Rightarrow> inbox \<Rightarrow> inbox" where
  "loop_inject t ib = (if t = [] then ib else inbox_inject t ib)"

type_synonym instruction = "string \<times> string"

text \<open>\<open>DirectoryInstructions\<close> and \<open>CompactionRequests\<close>: queue, then drain at the loop head.\<close>

definition instructions_offer :: "string \<Rightarrow> string \<Rightarrow> instruction list \<Rightarrow> instruction list" where
  "instructions_offer directory content pending = pending @ [(directory, content)]"

definition instructions_take_all :: "instruction list \<Rightarrow> instruction list \<times> instruction list" where
  "instructions_take_all pending = (pending, [])"

definition compaction_request :: "string \<Rightarrow> string list \<Rightarrow> string list" where
  "compaction_request reason pending = pending @ [reason]"

definition compaction_take_all :: "string list \<Rightarrow> string list \<times> string list" where
  "compaction_take_all pending = (pending, [])"

definition land_directory_instructions :: "instruction list \<Rightarrow> conversation \<Rightarrow> conversation" where
  "land_directory_instructions items conv =
     fold (\<lambda>(directory, content). push User (wrap_system_reminder
       (''Project instructions from '' @ directory @ '':'' @ [newline, newline] @ trim_end content)))
       items conv"

section \<open>Allowlists\<close>

type_synonym allowlist = "(string, string list) tbl"

definition allow_restrict :: "string \<Rightarrow> string list \<Rightarrow> allowlist \<Rightarrow> allowlist" where
  "allow_restrict run_id tools al = tbl_insert run_id tools al"

definition is_allowed :: "allowlist \<Rightarrow> string \<Rightarrow> string \<Rightarrow> bool" where
  "is_allowed al run_id tool =
     (case map_of al run_id of None \<Rightarrow> True | Some tools \<Rightarrow> tool \<in> set tools)"

definition allow_release :: "string \<Rightarrow> allowlist \<Rightarrow> allowlist" where
  "allow_release run_id al = tbl_remove run_id al"

text \<open>\<open>RunInterrupts\<close>: one single-use handle per run id; a handle is its flag here.\<close>

type_synonym interrupts = "(string, bool) tbl"

definition interrupts_register :: "string \<Rightarrow> bool \<Rightarrow> interrupts \<Rightarrow> interrupts" where
  "interrupts_register run_id handle ri = tbl_insert run_id handle ri"

definition interrupts_take :: "string \<Rightarrow> interrupts \<Rightarrow> bool option \<times> interrupts" where
  "interrupts_take run_id ri = (map_of ri run_id, tbl_remove run_id ri)"

definition interrupts_release :: "string \<Rightarrow> interrupts \<Rightarrow> interrupts" where
  "interrupts_release run_id ri = tbl_remove run_id ri"

definition turn_interrupt_triggered :: "bool \<Rightarrow> bool option \<Rightarrow> bool" where
  "turn_interrupt_triggered session run \<longleftrightarrow>
     session \<or> (case run of Some handle \<Rightarrow> handle | None \<Rightarrow> False)"

definition idempotency_key :: "string \<Rightarrow> string \<Rightarrow> string" where
  "idempotency_key run_id scope = run_id @ '':'' @ scope"

section \<open>Delivery\<close>

text \<open>A queue seen through one kind of operation: what an operation offers to it, and what it
  hands out. The law says nothing is lost, duplicated or reordered by one operation.\<close>

locale delivery =
  fixes step :: "'op \<Rightarrow> 's \<Rightarrow> 's"
    and offered :: "'op \<Rightarrow> 'a list"
    and handed :: "'op \<Rightarrow> 's \<Rightarrow> 'a list"
    and held :: "'s \<Rightarrow> 'a list"
  assumes step_law: "held s @ offered x = handed x s @ held (step x s)"
begin

fun handed_by :: "'op list \<Rightarrow> 's \<Rightarrow> 'a list" where
  "handed_by [] s = []"
| "handed_by (x # xs) s = handed x s @ handed_by xs (step x s)"

lemma run_law: "held s @ concat (map offered xs) = handed_by xs s @ held (fold step xs s)"
proof (induction xs arbitrary: s)
  case (Cons x xs)
  have "held s @ concat (map offered (x # xs)) = (held s @ offered x) @ concat (map offered xs)"
    by simp
  also have "\<dots> = handed x s @ (held (step x s) @ concat (map offered xs))"
    by (simp add: step_law)
  also have "\<dots> = handed_by (x # xs) s @ held (fold step (x # xs) s)"
    by (simp add: Cons.IH)
  finally show ?case .
qed simp

end

text \<open>The operations on one inbox, however steering, injection, cancellation and the loop's
  drains interleave.\<close>

datatype inbox_op = Steer string steer_target | Inject string | Cancel bool
  | TakeNextTurn | TakeNextStep | TakeInjected

fun inbox_step :: "inbox_op \<Rightarrow> inbox \<Rightarrow> inbox" where
  "inbox_step (Steer t target) ib = loop_steer t target ib"
| "inbox_step (Inject t) ib = loop_inject t ib"
| "inbox_step (Cancel keep) ib = snd (inbox_cancel keep ib)"
| "inbox_step TakeNextTurn ib = snd (inbox_take_next_turn ib)"
| "inbox_step TakeNextStep ib = snd (inbox_take_next_step ib)"
| "inbox_step TakeInjected ib = snd (inbox_take_injected ib)"

fun offered_to :: "steer_target option \<Rightarrow> inbox_op \<Rightarrow> string list" where
  "offered_to q (Steer t target) = (if q = Some target \<and> t \<noteq> [] then [t] else [])"
| "offered_to q (Inject t) = (if q = None \<and> t \<noteq> [] then [t] else [])"
| "offered_to q _ = []"

fun held_in :: "steer_target option \<Rightarrow> inbox \<Rightarrow> string list" where
  "held_in (Some NextTurn) ib = ib_next_turn ib"
| "held_in (Some NextStep) ib = ib_next_step ib"
| "held_in None ib = ib_injected ib"

text \<open>What an operation takes out of a queue: the drained texts, or the cancelled ones.\<close>

fun handed_from :: "steer_target option \<Rightarrow> inbox_op \<Rightarrow> inbox \<Rightarrow> string list" where
  "handed_from (Some NextTurn) TakeNextTurn ib = fst (inbox_take_next_turn ib)"
| "handed_from (Some NextStep) TakeNextStep ib = fst (inbox_take_next_step ib)"
| "handed_from None TakeInjected ib = fst (inbox_take_injected ib)"
| "handed_from (Some NextTurn) (Cancel keep) ib = (if keep then [] else ib_next_turn ib)"
| "handed_from (Some NextStep) (Cancel keep) ib = ib_next_step ib"
| "handed_from None (Cancel keep) ib = ib_injected ib"
| "handed_from _ _ ib = []"

lemmas inbox_defs = loop_steer_def loop_inject_def inbox_inject_def inbox_cancel_def
  inbox_take_next_turn_def inbox_take_next_step_def inbox_take_injected_def Let_def

lemma inbox_step_law:
  "held_in q ib @ offered_to q x = handed_from q x ib @ held_in q (inbox_step x ib)"
proof (cases x)
  case (Steer t target)
  then show ?thesis
    by (cases target; cases "(q, ib)" rule: held_in.cases) (auto simp: inbox_defs)
next
  case (Cancel keep)
  then show ?thesis
    by (cases "(q, ib)" rule: held_in.cases) (auto simp: inbox_defs)
qed (cases "(q, ib)" rule: held_in.cases; auto simp: inbox_defs)+

interpretation inbox_delivery: delivery inbox_step "offered_to q" "handed_from q" "held_in q" for q
  by unfold_locales (rule inbox_step_law)

datatype 'a slot_op = Offer 'a | TakeAll

interpretation instruction_slot: delivery
  "\<lambda>x s. case x of Offer (d, c) \<Rightarrow> instructions_offer d c s | TakeAll \<Rightarrow> snd (instructions_take_all s)"
  "\<lambda>x. case x of Offer i \<Rightarrow> [i] | TakeAll \<Rightarrow> []"
  "\<lambda>x s. case x of Offer i \<Rightarrow> [] | TakeAll \<Rightarrow> fst (instructions_take_all s)" "\<lambda>s. s"
  by unfold_locales
    (auto simp: instructions_offer_def instructions_take_all_def split: slot_op.split)

interpretation compaction_slot: delivery
  "\<lambda>x s. case x of Offer r \<Rightarrow> compaction_request r s | TakeAll \<Rightarrow> snd (compaction_take_all s)"
  "\<lambda>x. case x of Offer r \<Rightarrow> [r] | TakeAll \<Rightarrow> []"
  "\<lambda>x s. case x of Offer r \<Rightarrow> [] | TakeAll \<Rightarrow> fst (compaction_take_all s)" "\<lambda>s. s"
  by unfold_locales
    (auto simp: compaction_request_def compaction_take_all_def split: slot_op.split)

section \<open>Properties\<close>

text \<open>What a run of inbox operations takes out of one queue, in order.\<close>

fun handed_over :: "steer_target option \<Rightarrow> inbox_op list \<Rightarrow> inbox \<Rightarrow> string list" where
  "handed_over q [] ib = []"
| "handed_over q (x # xs) ib = handed_from q x ib @ handed_over q xs (inbox_step x ib)"

lemma handed_over_eq: "handed_over q xs ib = inbox_delivery.handed_by q xs ib"
  by (induction xs arbitrary: ib) simp_all

text \<open>steering is delivered once and in order: however steers, injections, cancellations and
  drains interleave, what a queue held and was offered is, in order, what was drained from it
  or cancelled, then what it still holds; and a cancellation counts exactly what it drops.\<close>

theorem inbox_delivers_once_in_order:
  "held_in q ib @ concat (map (offered_to q) xs) =
     handed_over q xs ib @ held_in q (fold inbox_step xs ib) \<and>
   fst (inbox_cancel keep ib) =
     length (handed_from (Some NextTurn) (Cancel keep) ib) +
     length (handed_from (Some NextStep) (Cancel keep) ib) +
     length (handed_from None (Cancel keep) ib)"
  by (simp add: handed_over_eq inbox_delivery.run_law) (simp add: inbox_cancel_def Let_def)

end
