(* ===== verification/Run_Dispatch.thy ===== *)
theory Run_Dispatch
  imports Run_Types "HOL-Library.Multiset"
begin

text \<open>
  Tool dispatch of \<open>crates/runtime/runner/src/lib.rs\<close>: \<open>execute_calls\<close> in its phases (begin
  events, collapse of duplicate ids, allowlist and pre-tool hooks, policy, the concurrent
  read-only batch, the serial queue with approvals and questions, end events in declaration
  order), and the settlements of batches that are never dispatched.
\<close>

section \<open>Seams and runtime state\<close>

text \<open>A seam is a function that reads and changes an abstract world, so an answer may depend on
  anything and anything may happen between two calls. The runtime state pairs the world with
  the emitted events, the conversation, the private instruction slot of a child turn, and a
  trace of the policy, approval and tool-body calls the loop made.\<close>

record 'w seams =
  sm_execute :: "tool_call \<Rightarrow> 'w \<Rightarrow> tool_result \<times> 'w"
  sm_note_tool_call :: "tool_call \<Rightarrow> instruction list \<Rightarrow> 'w \<Rightarrow> instruction list \<times> 'w"
  sm_read_only :: "string \<Rightarrow> bool"
  sm_destructive :: "string \<Rightarrow> bool"
  sm_available_tools :: "'w \<Rightarrow> tool_ref list"
  sm_note_compacted :: "'w \<Rightarrow> 'w"
  sm_decide :: "tool_call \<Rightarrow> 'w \<Rightarrow> policy_verdict \<times> 'w"
  sm_remember :: "tool_call \<Rightarrow> 'w \<Rightarrow> 'w"
  sm_hook :: "hook_point \<Rightarrow> string \<Rightarrow> 'w \<Rightarrow> hook_report \<times> 'w"
  sm_hook_tool :: "hook_point \<Rightarrow> string \<Rightarrow> json \<Rightarrow> string option \<Rightarrow> 'w \<Rightarrow> hook_report \<times> 'w"
  sm_sample :: "sample_request \<Rightarrow> 'w \<Rightarrow>
     (sample_delta list \<times> (sample_error, sample_response) result) \<times> 'w"
  sm_context_window :: "'w \<Rightarrow> nat option"
  sm_current_model :: "'w \<Rightarrow> string option"
  sm_approve :: "string \<Rightarrow> ask_kind \<Rightarrow> string \<Rightarrow> 'w \<Rightarrow> approval_resolution \<times> 'w"
  sm_ask :: "string \<Rightarrow> string \<Rightarrow> string list \<Rightarrow> 'w \<Rightarrow> question_resolution \<times> 'w"
  sm_clear_stale :: "'w \<Rightarrow> 'w"
  sm_unfinished :: "'w \<Rightarrow> nat"
  sm_plan_reminder :: "'w \<Rightarrow> string"
  sm_goal_open :: "'w \<Rightarrow> bool"
  sm_goal_reminder :: "string \<Rightarrow> 'w \<Rightarrow> string"
  sm_compact :: "history_entry list \<Rightarrow> compact_trigger \<Rightarrow> 'w \<Rightarrow> (string, compacted) result \<times> 'w"
  sm_interrupted :: "'w \<Rightarrow> bool \<times> 'w"
  sm_reset_interrupt :: "'w \<Rightarrow> 'w"
  sm_take_run_interrupt :: "string \<Rightarrow> 'w \<Rightarrow> bool \<times> 'w"
  sm_inbox :: "'w \<Rightarrow> inbox"
  sm_put_inbox :: "inbox \<Rightarrow> 'w \<Rightarrow> 'w"
  sm_requests :: "'w \<Rightarrow> string list option"
  sm_clear_requests :: "'w \<Rightarrow> 'w"
  sm_instructions :: "'w \<Rightarrow> instruction list option"
  sm_clear_instructions :: "'w \<Rightarrow> 'w"
  sm_allowlist :: "'w \<Rightarrow> allowlist"
  sm_clock_ms :: "'w \<Rightarrow> nat \<times> 'w"
  sm_clock_secs :: "'w \<Rightarrow> nat \<times> 'w"
  sm_date :: "'w \<Rightarrow> string"
  sm_completion_order :: "tool_call list \<Rightarrow> 'w \<Rightarrow> tool_call list \<times> 'w"
  sm_render :: "json \<Rightarrow> string"

text \<open>What the loop asked of the policy and approval seams and which bodies it ran.\<close>

datatype seam_call =
    Decided tool_call policy_verdict
  | Resolved tool_call approval_resolution
  | Ran tool_call

record 'w rt =
  rt_world :: 'w
  rt_events :: "event list"
  rt_conv :: conversation
  rt_child_slot :: "instruction list option"
  rt_trace :: "seam_call list"

definition emit :: "event \<Rightarrow> 'w rt \<Rightarrow> 'w rt" where
  "emit e s = s\<lparr>rt_events := rt_events s @ [e]\<rparr>"

definition trace :: "seam_call \<Rightarrow> 'w rt \<Rightarrow> 'w rt" where
  "trace t s = s\<lparr>rt_trace := rt_trace s @ [t]\<rparr>"

definition on_world :: "('w \<Rightarrow> 'a \<times> 'w) \<Rightarrow> 'w rt \<Rightarrow> 'a \<times> 'w rt" where
  "on_world f s = (case f (rt_world s) of (a, w) \<Rightarrow> (a, s\<lparr>rt_world := w\<rparr>))"

definition on_conv :: "(conversation \<Rightarrow> conversation) \<Rightarrow> 'w rt \<Rightarrow> 'w rt" where
  "on_conv f s = s\<lparr>rt_conv := f (rt_conv s)\<rparr>"

definition warn_nonempty :: "string \<Rightarrow> 'w rt \<Rightarrow> 'w rt" where
  "warn_nonempty msg s = (if msg = [] then s else emit (Warning msg) s)"

section \<open>One batch\<close>

datatype serial_call =
    Direct tool_call
  | Approval tool_call ask_kind string
  | Questioned tool_call string "string list"

record 'w batch =
  b_rt :: "'w rt"
  b_kinds :: "(string, tool_outcome) tbl"
  b_ran_ms :: "(string, nat) tbl"
  b_blocked :: "(string, tool_result) tbl"
  b_results :: "(string, tool_result) tbl"
  b_contexts :: "string list"
  b_live :: "tool_call list"
  b_parallel :: "tool_call list"
  b_serial :: "serial_call list"

definition batch_start :: "'w rt \<Rightarrow> 'w batch" where
  "batch_start s = \<lparr>b_rt = s, b_kinds = [], b_ran_ms = [], b_blocked = [], b_results = [],
     b_contexts = [], b_live = [], b_parallel = [], b_serial = []\<rparr>"

definition emit_begins :: "tool_call list \<Rightarrow> 'w rt \<Rightarrow> 'w rt" where
  "emit_begins calls s = fold (\<lambda>c. emit (ToolCallBegin (tc_id c) (tc_name c) (tc_input c))) calls s"

text \<open>First occurrences in order, and the shared refusal of each repeated id.\<close>

fun first_calls :: "string list \<Rightarrow> tool_call list \<Rightarrow> tool_call list" where
  "first_calls seen [] = []"
| "first_calls seen (c # cs) =
     (if tc_id c \<in> set seen then first_calls seen cs else c # first_calls (tc_id c # seen) cs)"

definition duplicate_result :: "string \<Rightarrow> tool_result" where
  "duplicate_result i = \<lparr>tr_id = i,
     tr_content = ''duplicate tool call id '' @ debug_str i @
       '': first occurrence runs, this one is refused without executing'',
     tr_is_error = True\<rparr>"

fun dupe_table :: "string list \<Rightarrow> (string, tool_result) tbl \<Rightarrow> tool_call list \<Rightarrow> (string, tool_result) tbl" where
  "dupe_table seen dupes [] = dupes"
| "dupe_table seen dupes (c # cs) =
     (if tc_id c \<notin> set seen then dupe_table (tc_id c # seen) dupes cs
      else if map_of dupes (tc_id c) = None
      then dupe_table seen (tbl_insert (tc_id c) (duplicate_result (tc_id c)) dupes) cs
      else dupe_table seen dupes cs)"

definition error_result :: "tool_call \<Rightarrow> string \<Rightarrow> tool_result" where
  "error_result c content = \<lparr>tr_id = tc_id c, tr_content = content, tr_is_error = True\<rparr>"

definition result_of :: "tool_call \<Rightarrow> tool_result \<Rightarrow> tool_result" where
  "result_of c out = \<lparr>tr_id = tc_id c, tr_content = tr_content out, tr_is_error = tr_is_error out\<rparr>"

definition interrupted_result :: "tool_call \<Rightarrow> tool_result" where
  "interrupted_result c = error_result c ''interrupted by user''"

text \<open>A call closed without running: its outcome and its result.\<close>

definition close_call :: "tool_call \<Rightarrow> tool_outcome \<Rightarrow> tool_result \<Rightarrow> 'w batch \<Rightarrow> 'w batch" where
  "close_call c kind r b = b\<lparr>b_kinds := tbl_insert (tc_id c) kind (b_kinds b),
                             b_results := tbl_insert (tc_id c) r (b_results b)\<rparr>"

definition block_call :: "tool_call \<Rightarrow> tool_outcome \<Rightarrow> tool_result \<Rightarrow> 'w batch \<Rightarrow> 'w batch" where
  "block_call c kind r b = b\<lparr>b_kinds := tbl_insert (tc_id c) kind (b_kinds b),
                             b_blocked := tbl_insert (tc_id c) r (b_blocked b)\<rparr>"

text \<open>Allowlist, then the pre-tool hook.\<close>

definition admit_call :: "'w seams \<Rightarrow> string \<Rightarrow> tool_call \<Rightarrow> 'w batch \<Rightarrow> 'w batch" where
  "admit_call sm run_id c b =
     (if \<not> is_allowed (sm_allowlist sm (rt_world (b_rt b))) run_id (tc_name c) then
        block_call c SurfaceBlocked
          (error_result c (''tool '' @ debug_str (tc_name c) @
             '' is not in this run'' @ [quote_char] @ ''s allowed tools'')) b
      else
        (case on_world (sm_hook_tool sm PreToolUse (tc_name c) (tc_input c) None) (b_rt b) of
           (report, s) \<Rightarrow>
             let b1 = b\<lparr>b_rt := warn_nonempty (hr_message report) s,
                        b_contexts := b_contexts b @
                          (if hr_context report = [] then []
                           else [''[hook:pre-tool-use '' @ tc_name c @ ''] '' @ hr_context report])\<rparr>
             in if hr_allow report then b1\<lparr>b_live := b_live b1 @ [c]\<rparr>
                else block_call c HookBlocked
                  (error_result c (''blocked by PreToolUse hook: '' @ hr_message report)) b1))"

text \<open>The policy verdict decides the lane.\<close>

definition route_call :: "'w seams \<Rightarrow> tool_call \<Rightarrow> 'w batch \<Rightarrow> 'w batch" where
  "route_call sm c b =
     (case on_world (sm_decide sm c) (b_rt b) of
        (verdict, s) \<Rightarrow>
          let b1 = b\<lparr>b_rt := trace (Decided c verdict) s\<rparr>
          in case verdict of
               PAllow \<Rightarrow>
                 if sm_read_only sm (tc_name c) \<and> \<not> sm_destructive sm (tc_name c)
                 then b1\<lparr>b_parallel := b_parallel b1 @ [c]\<rparr>
                 else b1\<lparr>b_serial := b_serial b1 @ [Direct c]\<rparr>
             | PDeny reason \<Rightarrow> close_call c Denied (error_result c reason) b1
             | PAsk kind detail \<Rightarrow>
                 b1\<lparr>b_rt := emit (ApprovalRequested (tc_id c) kind detail) (b_rt b1),
                    b_serial := b_serial b1 @ [Approval c kind detail]\<rparr>
             | PQuestion question options \<Rightarrow>
                 b1\<lparr>b_rt := emit (QuestionRequested (tc_id c) question options) (b_rt b1),
                    b_serial := b_serial b1 @ [Questioned c question options]\<rparr>)"

text \<open>\<open>run_tool\<close> with its clock readings.\<close>

definition run_body :: "'w seams \<Rightarrow> tool_call \<Rightarrow> 'w rt \<Rightarrow> (tool_result \<times> nat) \<times> 'w rt" where
  "run_body sm c s =
     (case on_world (sm_clock_ms sm) s of (t0, s0) \<Rightarrow>
        let s1 = (case rt_child_slot s0 of
                    None \<Rightarrow> s0
                  | Some slot \<Rightarrow>
                      (case on_world (sm_note_tool_call sm c slot) s0 of
                         (slot', s0') \<Rightarrow> s0'\<lparr>rt_child_slot := Some slot'\<rparr>))
        in case on_world (sm_execute sm c) (trace (Ran c) s1) of (out, s2) \<Rightarrow>
             (case on_world (sm_clock_ms sm) s2 of (t1, s3) \<Rightarrow> ((out, t1 - t0), s3)))"

definition post_tool :: "'w seams \<Rightarrow> tool_call \<Rightarrow> tool_result \<Rightarrow> 'w batch \<Rightarrow> 'w batch" where
  "post_tool sm c out b =
     (case on_world (sm_hook_tool sm PostToolUse (tc_name c) (tc_input c) (Some (tr_content out))) (b_rt b) of
        (report, s) \<Rightarrow>
          b\<lparr>b_rt := warn_nonempty (hr_message report) s,
            b_contexts := b_contexts b @
              (if hr_context report = [] then []
               else [''[hook:post-tool-use '' @ tc_name c @ ''] '' @ hr_context report])\<rparr>)"

definition finish_call :: "'w seams \<Rightarrow> tool_call \<Rightarrow> tool_result \<Rightarrow> nat \<Rightarrow> 'w batch \<Rightarrow> 'w batch" where
  "finish_call sm c out ms b =
     (let b1 = b\<lparr>b_ran_ms := tbl_insert (tc_id c) ms (b_ran_ms b)\<rparr>;
          b2 = post_tool sm c out b1
      in b2\<lparr>b_results := tbl_insert (tc_id c) (result_of c out) (b_results b2)\<rparr>)"

text \<open>The concurrent batch: the world picks the order in which the bodies complete; anything
  that is not a reordering of the batch is read as declaration order.\<close>

fun reorders :: "'a list \<Rightarrow> 'a list \<Rightarrow> bool" where
  "reorders [] ys = (ys = [])"
| "reorders (x # xs) ys = (x \<in> set ys \<and> reorders xs (remove1 x ys))"

lemma reorders_mset: "reorders xs ys \<longleftrightarrow> mset xs = mset ys"
proof (induction xs arbitrary: ys)
  case (Cons x xs)
  have "mset (x # xs) = mset ys \<longleftrightarrow> x \<in> set ys \<and> mset xs = mset ys - {#x#}"
    by (metis add_mset_remove_trivial insert_DiffM mset.simps(2) set_mset_mset union_single_eq_member
        add_mset_add_single union_commute)
  with Cons show ?case by simp
qed simp

definition completion_order :: "'w seams \<Rightarrow> tool_call list \<Rightarrow> 'w rt \<Rightarrow> tool_call list \<times> 'w rt" where
  "completion_order sm calls s =
     (case on_world (sm_completion_order sm calls) s of
        (picked, s') \<Rightarrow> (if reorders picked calls then picked else calls, s'))"

fun run_concurrent ::
    "'w seams \<Rightarrow> tool_call list \<Rightarrow> 'w rt \<Rightarrow> (tool_call \<times> tool_result \<times> nat) list \<times> 'w rt" where
  "run_concurrent sm [] s = ([], s)"
| "run_concurrent sm (c # cs) s =
     (case run_body sm c s of ((out, ms), s1) \<Rightarrow>
        (case run_concurrent sm cs s1 of (rest, s2) \<Rightarrow> ((c, out, ms) # rest, s2)))"

definition run_parallel :: "'w seams \<Rightarrow> 'w batch \<Rightarrow> 'w batch" where
  "run_parallel sm b =
     (case completion_order sm (b_parallel b) (b_rt b) of (order, s) \<Rightarrow>
        (case run_concurrent sm order s of (outs, s') \<Rightarrow>
           fold (\<lambda>(c, out, ms). finish_call sm c out ms) outs (b\<lparr>b_rt := s'\<rparr>)))"

text \<open>The execution arm of the serial queue, after approval.\<close>

definition run_approved :: "'w seams \<Rightarrow> tool_call \<Rightarrow> 'w batch \<Rightarrow> 'w batch" where
  "run_approved sm c b =
     (case on_world (sm_interrupted sm) (b_rt b) of (stopped, s) \<Rightarrow>
        if stopped then close_call c OutcomeInterrupted (interrupted_result c) (b\<lparr>b_rt := s\<rparr>)
        else (case run_body sm c s of ((out, ms), s') \<Rightarrow> finish_call sm c out ms (b\<lparr>b_rt := s'\<rparr>)))"

definition answer_result :: "tool_call \<Rightarrow> string \<Rightarrow> tool_result" where
  "answer_result c t = \<lparr>tr_id = tc_id c,
     tr_content = (if blank t then ''the user dismissed the question without answering'' else t),
     tr_is_error = False\<rparr>"

fun serve_serial :: "'w seams \<Rightarrow> serial_call \<Rightarrow> 'w batch \<Rightarrow> 'w batch" where
  "serve_serial sm (Direct c) b = run_approved sm c b"
| "serve_serial sm (Approval c kind detail) b =
     (case on_world (sm_approve sm (tc_id c) kind detail) (b_rt b) of (res, s) \<Rightarrow>
        let b1 = b\<lparr>b_rt := trace (Resolved c res) s\<rparr>
        in case res of
             AllowOnce \<Rightarrow> run_approved sm c b1
           | AllowAlways \<Rightarrow>
               run_approved sm c (b1\<lparr>b_rt := (b_rt b1)\<lparr>rt_world := sm_remember sm c (rt_world (b_rt b1))\<rparr>\<rparr>)
           | DenyWith reason \<Rightarrow> close_call c Refused (error_result c reason) b1
           | ApprovalInterrupted \<Rightarrow> close_call c OutcomeInterrupted (interrupted_result c) b1)"
| "serve_serial sm (Questioned c question options) b =
     (case on_world (sm_ask sm (tc_id c) question options) (b_rt b) of (res, s) \<Rightarrow>
        let b1 = b\<lparr>b_rt := s\<rparr>
        in case res of
             Answered t \<Rightarrow> close_call c OutcomeAnswered (answer_result c t) b1
           | Unavailable reason \<Rightarrow> close_call c AskUnavailable (error_result c reason) b1
           | QuestionInterrupted \<Rightarrow> close_call c OutcomeInterrupted (interrupted_result c) b1)"

definition emit_end :: "tool_result \<Rightarrow> tool_outcome \<Rightarrow> nat \<Rightarrow> 'w rt \<Rightarrow> 'w rt" where
  "emit_end r outcome ms s =
     emit (ToolCallEnd (tr_id r) (tr_is_error r)
             (preview_head (tr_content r) TOOL_OUTPUT_PREVIEW_BYTES) outcome ms) s"

definition tbl_or :: "'v \<Rightarrow> ('k, 'v) tbl \<Rightarrow> 'k \<Rightarrow> 'v" where
  "tbl_or d t k = (case map_of t k of Some v \<Rightarrow> v | None \<Rightarrow> d)"

text \<open>One declared call of the closing pass: its slot, and the tables without it.\<close>

definition claim_slot ::
    "(string, tool_result) tbl \<Rightarrow> tool_call \<Rightarrow> 'w batch \<Rightarrow> (tool_result \<times> tool_outcome) \<times> 'w batch" where
  "claim_slot dupes c b =
     (case map_of (b_results b) (tc_id c) of
        Some r \<Rightarrow>
          ((r, tbl_or Executed (b_kinds b) (tc_id c)),
           b\<lparr>b_results := tbl_remove (tc_id c) (b_results b), b_kinds := tbl_remove (tc_id c) (b_kinds b)\<rparr>)
      | None \<Rightarrow>
          (case map_of dupes (tc_id c) of
             Some r \<Rightarrow> ((r, Duplicate), b)
           | None \<Rightarrow> ((error_result c ''internal error: missing tool result slot'', Missing), b)))"

fun end_calls ::
    "(string, tool_result) tbl \<Rightarrow> tool_call list \<Rightarrow> 'w batch \<Rightarrow> tool_result list \<times> 'w batch" where
  "end_calls dupes [] b = ([], b)"
| "end_calls dupes (c # cs) b =
     (case claim_slot dupes c b of ((r, outcome), b1) \<Rightarrow>
        let b2 = b1\<lparr>b_rt := emit_end r outcome (tbl_or 0 (b_ran_ms b1) (tc_id c)) (b_rt b1),
                    b_ran_ms := tbl_remove (tc_id c) (b_ran_ms b1)\<rparr>
        in case end_calls dupes cs b2 of (rs, b3) \<Rightarrow> (r # rs, b3))"

definition merge_blocked :: "'w batch \<Rightarrow> 'w batch" where
  "merge_blocked b = b\<lparr>b_results := fold (\<lambda>(k, r). tbl_insert k r) (b_blocked b) (b_results b)\<rparr>"

text \<open>The batch up to the closing pass.\<close>

definition dispatch_batch :: "'w seams \<Rightarrow> string \<Rightarrow> tool_call list \<Rightarrow> 'w rt \<Rightarrow> 'w batch" where
  "dispatch_batch sm run_id calls s =
     (let b0 = batch_start (emit_begins calls s);
          b1 = fold (admit_call sm run_id) (first_calls [] calls) b0;
          b2 = fold (route_call sm) (b_live b1) b1;
          b3 = run_parallel sm b2
      in fold (serve_serial sm) (b_serial b3) b3)"

definition execute_calls ::
    "'w seams \<Rightarrow> string \<Rightarrow> tool_call list \<Rightarrow> 'w rt \<Rightarrow> (tool_result list \<times> string list) \<times> 'w rt" where
  "execute_calls sm run_id calls s =
     (let b4 = merge_blocked (dispatch_batch sm run_id calls s)
      in case end_calls (dupe_table [] [] calls) calls b4 of
           (ordered, b5) \<Rightarrow> ((ordered, b_contexts b5), b_rt b5))"

section \<open>Batches that are never dispatched\<close>

definition result_blocks :: "tool_result list \<Rightarrow> nat \<Rightarrow> block list" where
  "result_blocks results now =
     map (\<lambda>r. ToolResult (tr_id r) (tr_content r) (tr_is_error r) (Some now)) results"

definition emit_undispatched_pairs ::
    "tool_call list \<Rightarrow> tool_result list \<Rightarrow> tool_outcome \<Rightarrow> 'w rt \<Rightarrow> 'w rt" where
  "emit_undispatched_pairs calls results outcome s =
     fold (\<lambda>(c, r). emit_end r outcome 0) (zip calls results) (emit_begins calls s)"

text \<open>Results join the history as one user entry stamped with the wall clock.\<close>

definition push_results :: "'w seams \<Rightarrow> tool_result list \<Rightarrow> 'w rt \<Rightarrow> 'w rt" where
  "push_results sm results s =
     (case on_world (sm_clock_secs sm) s of
        (now, s') \<Rightarrow> on_conv (push_blocks User (result_blocks results now)) s')"

definition close_undispatched ::
    "'w seams \<Rightarrow> tool_call list \<Rightarrow> (tool_call \<Rightarrow> tool_result) \<Rightarrow> tool_outcome \<Rightarrow> 'w rt \<Rightarrow> 'w rt" where
  "close_undispatched sm calls f outcome s =
     emit_undispatched_pairs calls (map f calls) outcome (push_results sm (map f calls) s)"

section \<open>What a step leaves alone\<close>

lemma emit_simps [simp]:
  "rt_events (emit e s) = rt_events s @ [e]" "rt_trace (emit e s) = rt_trace s"
  "rt_conv (emit e s) = rt_conv s" "rt_world (emit e s) = rt_world s"
  "rt_child_slot (emit e s) = rt_child_slot s"
  by (simp_all add: emit_def)

lemma trace_simps [simp]:
  "rt_events (trace t s) = rt_events s" "rt_trace (trace t s) = rt_trace s @ [t]"
  "rt_conv (trace t s) = rt_conv s" "rt_world (trace t s) = rt_world s"
  "rt_child_slot (trace t s) = rt_child_slot s"
  by (simp_all add: trace_def)

lemma on_conv_simps [simp]:
  "rt_events (on_conv f s) = rt_events s" "rt_trace (on_conv f s) = rt_trace s"
  "rt_conv (on_conv f s) = f (rt_conv s)" "rt_world (on_conv f s) = rt_world s"
  "rt_child_slot (on_conv f s) = rt_child_slot s"
  by (simp_all add: on_conv_def)

lemma on_world_frame:
  "on_world f s = (a, s') \<Longrightarrow>
     rt_events s' = rt_events s \<and> rt_trace s' = rt_trace s \<and> rt_conv s' = rt_conv s \<and>
     rt_child_slot s' = rt_child_slot s"
  by (auto simp: on_world_def split: prod.splits)

lemma on_world_snd [simp]:
  "rt_events (snd (on_world f s)) = rt_events s" "rt_trace (snd (on_world f s)) = rt_trace s"
  "rt_conv (snd (on_world f s)) = rt_conv s" "rt_child_slot (snd (on_world f s)) = rt_child_slot s"
  by (simp_all add: on_world_def split_beta)

lemma warn_nonempty_simps [simp]:
  "rt_events (warn_nonempty m s) = rt_events s @ (if m = [] then [] else [Warning m])"
  "rt_trace (warn_nonempty m s) = rt_trace s" "rt_conv (warn_nonempty m s) = rt_conv s"
  "rt_child_slot (warn_nonempty m s) = rt_child_slot s"
  by (simp_all add: warn_nonempty_def)

lemma run_body_frame:
  "run_body sm c s = (r, s') \<Longrightarrow>
     rt_events s' = rt_events s \<and> rt_trace s' = rt_trace s @ [Ran c] \<and> rt_conv s' = rt_conv s \<and>
     (rt_child_slot s' = None \<longleftrightarrow> rt_child_slot s = None)"
  by (auto simp: run_body_def Let_def split: prod.splits option.splits dest!: on_world_frame)

section \<open>The batch invariant\<close>

fun mid_event :: "event \<Rightarrow> bool" where
  "mid_event (Warning _) = True"
| "mid_event (ApprovalRequested _ _ _) = True"
| "mid_event (QuestionRequested _ _ _) = True"
| "mid_event _ = False"

definition authorized :: "seam_call list \<Rightarrow> tool_call \<Rightarrow> bool" where
  "authorized t c \<longleftrightarrow> Decided c PAllow \<in> set t \<or> Resolved c AllowOnce \<in> set t \<or> Resolved c AllowAlways \<in> set t"

text \<open>Every body in the trace runs after the policy or the user allowed that very call.\<close>

fun disciplined_from :: "seam_call list \<Rightarrow> seam_call list \<Rightarrow> bool" where
  "disciplined_from seen [] = True"
| "disciplined_from seen (x # xs) =
     ((case x of Ran c \<Rightarrow> authorized seen c | _ \<Rightarrow> True) \<and> disciplined_from (seen @ [x]) xs)"

definition disciplined :: "seam_call list \<Rightarrow> bool" where
  "disciplined t = disciplined_from [] t"

definition ran_calls :: "seam_call list \<Rightarrow> tool_call list" where
  "ran_calls t = List.map_filter (\<lambda>x. case x of Ran c \<Rightarrow> Some c | _ \<Rightarrow> None) t"

fun direct_ok :: "seam_call list \<Rightarrow> serial_call \<Rightarrow> bool" where
  "direct_ok t (Direct c) = authorized t c"
| "direct_ok t _ = True"

fun serial_target :: "serial_call \<Rightarrow> tool_call" where
  "serial_target (Direct c) = c"
| "serial_target (Approval c _ _) = c"
| "serial_target (Questioned c _ _) = c"

definition slots_ok :: "(string, tool_result) tbl \<Rightarrow> bool" where
  "slots_ok t \<longleftrightarrow> (\<forall>(k, r) \<in> set t. tr_id r = k)"

definition kinds_ok :: "(string, tool_outcome) tbl \<Rightarrow> bool" where
  "kinds_ok t \<longleftrightarrow> (\<forall>k kd. map_of t k = Some kd \<longrightarrow> kd \<notin> {Executed, Duplicate, Missing})"

record frame0 =
  f_trace :: "seam_call list"
  f_events :: "event list"
  f_conv :: conversation
  f_calls :: "tool_call list"

definition batch_inv :: "frame0 \<Rightarrow> string set \<Rightarrow> tool_call list \<Rightarrow> 'w batch \<Rightarrow> bool" where
  "batch_inv f ids pend b \<longleftrightarrow>
     (\<exists>t es. rt_trace (b_rt b) = f_trace f @ t \<and> rt_events (b_rt b) = f_events f @ es \<and>
        list_all mid_event es \<and> disciplined t \<and>
        distinct (map tc_id (ran_calls t) @ map tc_id pend) \<and>
        set (ran_calls t) \<union> set pend \<subseteq> set (f_calls f) \<and>
        list_all (authorized t) (b_parallel b) \<and> list_all (direct_ok t) (b_serial b) \<and>
        set (tbl_keys (b_results b)) \<union> set (tbl_keys (b_blocked b)) \<subseteq>
          set (tbl_keys (b_kinds b)) \<union> tc_id ` set (ran_calls t)) \<and>
     rt_conv (b_rt b) = f_conv f \<and> slots_ok (b_results b) \<and> slots_ok (b_blocked b) \<and>
     kinds_ok (b_kinds b) \<and>
     ids \<subseteq> set (tbl_keys (b_results b)) \<union> set (tbl_keys (b_blocked b)) \<union> tc_id ` set pend"

lemma disciplined_from_append:
  "disciplined_from seen (xs @ ys) = (disciplined_from seen xs \<and> disciplined_from (seen @ xs) ys)"
  by (induction seen xs rule: disciplined_from.induct) auto

lemma disciplined_snoc:
  "disciplined (t @ [x]) \<longleftrightarrow> disciplined t \<and> (\<forall>c. x = Ran c \<longrightarrow> authorized t c)"
  by (auto simp: disciplined_def disciplined_from_append split: seam_call.splits)

lemma ran_calls_snoc [simp]:
  "ran_calls (t @ [Ran c]) = ran_calls t @ [c]" "ran_calls (t @ [Decided c v]) = ran_calls t"
  "ran_calls (t @ [Resolved c r]) = ran_calls t" "ran_calls [] = []"
  by (simp_all add: ran_calls_def map_filter_append List.map_filter_simps)

lemma authorized_snoc: "authorized t c \<Longrightarrow> authorized (t @ [x]) c"
  by (auto simp: authorized_def)

lemma authorized_now:
  "authorized (t @ [Decided c PAllow]) c" "authorized (t @ [Resolved c AllowOnce]) c"
  "authorized (t @ [Resolved c AllowAlways]) c"
  by (simp_all add: authorized_def)

lemma list_all_authorized_snoc:
  "list_all (authorized t) cs \<Longrightarrow> list_all (authorized (t @ [x])) cs"
  by (auto simp: list_all_iff authorized_snoc)

lemma direct_ok_snoc: "direct_ok t sc \<Longrightarrow> direct_ok (t @ [x]) sc"
  by (cases sc) (auto simp: authorized_snoc)

lemma list_all_direct_snoc:
  "list_all (direct_ok t) cs \<Longrightarrow> list_all (direct_ok (t @ [x])) cs"
  by (auto simp: list_all_iff direct_ok_snoc)

lemma slots_ok_Cons [simp]: "slots_ok ((k, r) # t) \<longleftrightarrow> tr_id r = k \<and> slots_ok t"
  by (simp add: slots_ok_def)

lemma slots_ok_insert [simp]: "slots_ok t \<Longrightarrow> tr_id r = k \<Longrightarrow> slots_ok (tbl_insert k r t)"
  by (induction k r t rule: tbl_insert.induct) (simp_all add: slots_ok_def)

lemma slots_ok_remove [simp]: "slots_ok t \<Longrightarrow> slots_ok (tbl_remove k t)"
  by (auto simp: slots_ok_def tbl_remove_def)

lemma slots_ok_lookup: "slots_ok t \<Longrightarrow> map_of t k = Some r \<Longrightarrow> tr_id r = k"
  by (auto simp: slots_ok_def dest: map_of_SomeD)

lemma kinds_ok_remove [simp]: "kinds_ok t \<Longrightarrow> kinds_ok (tbl_remove k t)"
  by (auto simp: kinds_ok_def)

lemma kinds_ok_insert [simp]:
  "kinds_ok t \<Longrightarrow> kd \<notin> {Executed, Duplicate, Missing} \<Longrightarrow> kinds_ok (tbl_insert k kd t)"
  by (auto simp: kinds_ok_def)

lemma result_ids [simp]:
  "tr_id (error_result c m) = tc_id c" "tr_id (result_of c r) = tc_id c"
  "tr_id (interrupted_result c) = tc_id c" "tr_id (answer_result c m) = tc_id c"
  "tr_id (duplicate_result i) = i"
  by (simp_all add: error_result_def result_of_def interrupted_result_def answer_result_def
      duplicate_result_def)

lemma batch_inv_reorder:
  assumes "batch_inv f ids pend b" and "mset pend = mset pend'"
  shows "batch_inv f ids pend' b"
proof -
  have "set pend' = set pend" using assms(2) by (metis set_mset_mset)
  moreover have "mset (map tc_id pend') = mset (map tc_id pend)"
    using assms(2) by simp
  then have "distinct (map tc_id pend') = distinct (map tc_id pend)"
    and "set (map tc_id pend') = set (map tc_id pend)"
    by (metis mset_eq_imp_distinct_iff, metis set_mset_mset)
  ultimately show ?thesis
    using assms(1) by (simp add: batch_inv_def)
qed

text \<open>Three ways a batch moves on: quiet changes of the runtime, a call closed without running,
  a call that ran.\<close>

lemma batch_inv_quiet:
  assumes "batch_inv f ids pend b"
    and "rt_trace (b_rt b') = rt_trace (b_rt b)" and "rt_conv (b_rt b') = rt_conv (b_rt b)"
    and "rt_events (b_rt b') = rt_events (b_rt b) @ es" and "list_all mid_event es"
    and "b_kinds b' = b_kinds b" "b_blocked b' = b_blocked b" "b_results b' = b_results b"
    and "b_parallel b' = b_parallel b" "b_serial b' = b_serial b"
  shows "batch_inv f ids pend b'"
  using assms unfolding batch_inv_def by (auto simp: list_all_append)

lemma batch_inv_noted:
  assumes "batch_inv f ids pend b"
    and "rt_trace (b_rt b') = rt_trace (b_rt b) @ [x]" and "\<forall>c. x \<noteq> Ran c"
    and "rt_conv (b_rt b') = rt_conv (b_rt b)" and "rt_events (b_rt b') = rt_events (b_rt b)"
    and "b_kinds b' = b_kinds b" "b_blocked b' = b_blocked b" "b_results b' = b_results b"
    and "b_parallel b' = b_parallel b" "b_serial b' = b_serial b"
  shows "batch_inv f ids pend b'"
proof -
  have "ran_calls (t @ [x]) = ran_calls t" for t
    using assms(3) by (cases x) auto
  with assms show ?thesis
    unfolding batch_inv_def
    by (elim conjE exE, intro conjI)
      (rule_tac x = "t @ [x]" in exI, auto simp: disciplined_snoc list_all_authorized_snoc list_all_direct_snoc)
qed

lemma batch_inv_close:
  assumes "batch_inv f ids (c # pend) b" and "kd \<notin> {Executed, Duplicate, Missing}" and "tr_id r = tc_id c"
  shows "batch_inv f ids pend (close_call c kd r b)" and "batch_inv f ids pend (block_call c kd r b)"
  using assms unfolding batch_inv_def close_call_def block_call_def by auto

text \<open>The part of the trace this batch added.\<close>

definition own_trace :: "frame0 \<Rightarrow> 'w rt \<Rightarrow> seam_call list" where
  "own_trace f s = drop (length (f_trace f)) (rt_trace s)"

lemma own_trace_eq [simp]: "rt_trace s = f_trace f @ t \<Longrightarrow> own_trace f s = t"
  by (simp add: own_trace_def)

lemma batch_inv_weaken: "batch_inv f ids pend b \<Longrightarrow> ids' \<subseteq> ids \<Longrightarrow> batch_inv f ids' pend b"
  by (auto simp: batch_inv_def)

lemma body_inv:
  assumes "batch_inv f ids (c # pend) b" and "authorized (own_trace f (b_rt b)) c"
    and "run_body sm c (b_rt b) = (r, s')"
  shows "batch_inv f (ids - {tc_id c}) pend (b\<lparr>b_rt := s'\<rparr>) \<and>
    own_trace f s' = own_trace f (b_rt b) @ [Ran c]"
proof -
  note fr = run_body_frame [OF assms(3)]
  from assms(1) obtain t es where t: "rt_trace (b_rt b) = f_trace f @ t"
    and es: "rt_events (b_rt b) = f_events f @ es" and rest: "list_all mid_event es" "disciplined t"
      "distinct (map tc_id (ran_calls t) @ map tc_id (c # pend))"
      "set (ran_calls t) \<union> set (c # pend) \<subseteq> set (f_calls f)"
      "list_all (authorized t) (b_parallel b)" "list_all (direct_ok t) (b_serial b)"
      "set (tbl_keys (b_results b)) \<union> set (tbl_keys (b_blocked b)) \<subseteq>
         set (tbl_keys (b_kinds b)) \<union> tc_id ` set (ran_calls t)"
    by (auto simp: batch_inv_def)
  have "authorized t c" using assms(2) t by simp
  with rest have "disciplined (t @ [Ran c])"
    "distinct (map tc_id (ran_calls (t @ [Ran c])) @ map tc_id pend)"
    "set (ran_calls (t @ [Ran c])) \<union> set pend \<subseteq> set (f_calls f)"
    "list_all (authorized (t @ [Ran c])) (b_parallel b)" "list_all (direct_ok (t @ [Ran c])) (b_serial b)"
    "set (tbl_keys (b_results b)) \<union> set (tbl_keys (b_blocked b)) \<subseteq>
         set (tbl_keys (b_kinds b)) \<union> tc_id ` set (ran_calls (t @ [Ran c]))"
    by (auto simp: disciplined_snoc list_all_authorized_snoc list_all_direct_snoc)
  moreover have "rt_trace s' = f_trace f @ (t @ [Ran c])" "rt_events s' = f_events f @ es"
    using fr t es by simp_all
  ultimately have "batch_inv f (ids - {tc_id c}) pend (b\<lparr>b_rt := s'\<rparr>)"
    using assms(1) rest(1) fr unfolding batch_inv_def by auto
  then show ?thesis using t fr by simp
qed

lemma finish_inv:
  assumes "batch_inv f ids pend b" and "Ran c \<in> set (own_trace f (b_rt b))"
  shows "batch_inv f (insert (tc_id c) ids) pend (finish_call sm c out ms b) \<and>
    own_trace f (b_rt (finish_call sm c out ms b)) = own_trace f (b_rt b) \<and>
    b_serial (finish_call sm c out ms b) = b_serial b"
proof -
  obtain report s where h: "on_world (sm_hook_tool sm PostToolUse (tc_name c) (tc_input c)
      (Some (tr_content out))) (b_rt b) = (report, s)"
    by (cases "on_world (sm_hook_tool sm PostToolUse (tc_name c) (tc_input c)
      (Some (tr_content out))) (b_rt b)")
  note fr = on_world_frame [OF h]
  define b1 where "b1 = post_tool sm c out (b\<lparr>b_ran_ms := tbl_insert (tc_id c) ms (b_ran_ms b)\<rparr>)"
  have b1: "b_rt b1 = warn_nonempty (hr_message report) s" "b_kinds b1 = b_kinds b"
    "b_blocked b1 = b_blocked b" "b_results b1 = b_results b" "b_parallel b1 = b_parallel b"
    "b_serial b1 = b_serial b"
    by (simp_all add: b1_def post_tool_def h)
  have inv1: "batch_inv f ids pend b1"
    by (rule batch_inv_quiet [OF assms(1), where es = "if hr_message report = [] then [] else [Warning (hr_message report)]"])
      (simp_all add: b1 fr)
  have own: "own_trace f (b_rt b1) = own_trace f (b_rt b)"
    by (simp add: b1 own_trace_def fr)
  note ser = b1(6)
  have "c \<in> set (ran_calls (own_trace f (b_rt b)))"
    using assms(2) by (force simp: ran_calls_def List.map_filter_def)
  then have "batch_inv f (insert (tc_id c) ids) pend
      (b1\<lparr>b_results := tbl_insert (tc_id c) (result_of c out) (b_results b1)\<rparr>)"
    using inv1 own unfolding batch_inv_def by auto
  then show ?thesis
    using own ser by (simp add: finish_call_def b1_def Let_def)
qed

lemma admit_call_inv:
  assumes "batch_inv f ids (c # pend) b"
  shows "\<exists>add. (add = [] \<or> add = [c]) \<and> b_live (admit_call sm run_id c b) = b_live b @ add \<and>
    b_parallel (admit_call sm run_id c b) = b_parallel b \<and> b_serial (admit_call sm run_id c b) = b_serial b \<and>
    batch_inv f ids (add @ pend) (admit_call sm run_id c b)"
proof (cases "is_allowed (sm_allowlist sm (rt_world (b_rt b))) run_id (tc_name c)")
  case False
  with batch_inv_close(2) [OF assms, of SurfaceBlocked] show ?thesis
    by (auto simp: admit_call_def block_call_def)
next
  case True
  obtain report s where h: "on_world (sm_hook_tool sm PreToolUse (tc_name c) (tc_input c) None) (b_rt b) = (report, s)"
    by (cases "on_world (sm_hook_tool sm PreToolUse (tc_name c) (tc_input c) None) (b_rt b)")
  note fr = on_world_frame [OF h]
  define b1 where "b1 = b\<lparr>b_rt := warn_nonempty (hr_message report) s,
      b_contexts := b_contexts b @ (if hr_context report = [] then []
        else [''[hook:pre-tool-use '' @ tc_name c @ ''] '' @ hr_context report])\<rparr>"
  have inv1: "batch_inv f ids (c # pend) b1"
    by (rule batch_inv_quiet [OF assms, where es = "if hr_message report = [] then [] else [Warning (hr_message report)]"])
      (auto simp: b1_def fr)
  have eq: "admit_call sm run_id c b = (if hr_allow report then b1\<lparr>b_live := b_live b1 @ [c]\<rparr>
      else block_call c HookBlocked (error_result c (''blocked by PreToolUse hook: '' @ hr_message report)) b1)"
    using True by (simp add: admit_call_def h b1_def Let_def)
  show ?thesis
  proof (cases "hr_allow report")
    case allow: True
    have "batch_inv f ids ([c] @ pend) (b1\<lparr>b_live := b_live b1 @ [c]\<rparr>)"
      by (rule batch_inv_quiet [where b = b1 and es = "[]"]) (simp_all add: inv1)
    then show ?thesis using allow by (auto simp: eq b1_def)
  next
    case False
    with batch_inv_close(2) [OF inv1, of HookBlocked] show ?thesis
      by (auto simp: eq block_call_def b1_def)
  qed
qed

lemma admit_all_inv:
  "batch_inv f ids (b_live b @ cs) b \<Longrightarrow> b_parallel b = [] \<Longrightarrow> b_serial b = [] \<Longrightarrow>
     let b' = fold (admit_call sm run_id) cs b
     in batch_inv f ids (b_live b') b' \<and> b_parallel b' = [] \<and> b_serial b' = [] \<and>
        set (b_live b') \<subseteq> set (b_live b) \<union> set cs"
proof (induction cs arbitrary: b)
  case Nil
  then show ?case by simp
next
  case (Cons c cs)
  have "batch_inv f ids (c # b_live b @ cs) b"
    by (rule batch_inv_reorder [OF Cons.prems(1)]) simp
  from admit_call_inv [OF this, of sm run_id] obtain add where add: "add = [] \<or> add = [c]"
    and live: "b_live (admit_call sm run_id c b) = b_live b @ add"
    and rest: "b_parallel (admit_call sm run_id c b) = []" "b_serial (admit_call sm run_id c b) = []"
    and inv: "batch_inv f ids (add @ b_live b @ cs) (admit_call sm run_id c b)"
    using Cons.prems by auto
  have "batch_inv f ids (b_live (admit_call sm run_id c b) @ cs) (admit_call sm run_id c b)"
    by (rule batch_inv_reorder [OF inv]) (simp add: live)
  from Cons.IH [OF this rest] live add show ?case
    by (auto simp: Let_def)
qed

definition queued :: "'w batch \<Rightarrow> tool_call list" where
  "queued b = b_parallel b @ map serial_target (b_serial b)"

lemma route_call_inv:
  assumes "batch_inv f ids (c # pend) b"
  shows "\<exists>add. (add = [] \<or> add = [c]) \<and>
    mset (queued (route_call sm c b)) = mset (queued b) + mset add \<and>
    batch_inv f ids (add @ pend) (route_call sm c b)"
proof -
  obtain v s where h: "on_world (sm_decide sm c) (b_rt b) = (v, s)"
    by (cases "on_world (sm_decide sm c) (b_rt b)")
  note fr = on_world_frame [OF h]
  define b1 where "b1 = b\<lparr>b_rt := trace (Decided c v) s\<rparr>"
  have inv1: "batch_inv f ids (c # pend) b1"
    by (rule batch_inv_noted [OF assms, where x = "Decided c v"]) (simp_all add: b1_def fr)
  have q1: "queued b1 = queued b" by (simp add: queued_def b1_def)
  show ?thesis
  proof (cases v)
    case PAllow
    have auth: "authorized t c" if "rt_trace (b_rt b1) = f_trace f @ t" for t
    proof -
      from assms obtain t0 where "rt_trace (b_rt b) = f_trace f @ t0"
        by (auto simp: batch_inv_def)
      with that have "t = t0 @ [Decided c PAllow]"
        by (simp add: b1_def fr PAllow)
      then show ?thesis by (simp add: authorized_now)
    qed
    have "batch_inv f ids (c # pend) (b1\<lparr>b_parallel := b_parallel b1 @ [c]\<rparr>)"
      and "batch_inv f ids (c # pend) (b1\<lparr>b_serial := b_serial b1 @ [Direct c]\<rparr>)"
      using inv1 auth unfolding batch_inv_def by auto
    then show ?thesis
      using PAllow q1 by (auto simp: route_call_def h b1_def queued_def Let_def)
  next
    case (PDeny reason)
    have "batch_inv f ids pend (close_call c Denied (error_result c reason) b1)"
      by (rule batch_inv_close(1) [OF inv1]) simp_all
    then show ?thesis
      using PDeny q1 by (auto simp: route_call_def h b1_def close_call_def queued_def)
  next
    case (PAsk kind detail)
    define b2 where "b2 = b1\<lparr>b_rt := emit (ApprovalRequested (tc_id c) kind detail) (b_rt b1)\<rparr>"
    have "batch_inv f ids (c # pend) b2"
      by (rule batch_inv_quiet [OF inv1, where es = "[ApprovalRequested (tc_id c) kind detail]"])
        (simp_all add: b2_def)
    then have "batch_inv f ids (c # pend) (b2\<lparr>b_serial := b_serial b2 @ [Approval c kind detail]\<rparr>)"
      unfolding batch_inv_def by auto
    then show ?thesis
      using PAsk q1 by (auto simp: route_call_def h b1_def b2_def queued_def Let_def)
  next
    case (PQuestion q opts)
    define b2 where "b2 = b1\<lparr>b_rt := emit (QuestionRequested (tc_id c) q opts) (b_rt b1)\<rparr>"
    have "batch_inv f ids (c # pend) b2"
      by (rule batch_inv_quiet [OF inv1, where es = "[QuestionRequested (tc_id c) q opts]"])
        (simp_all add: b2_def)
    then have "batch_inv f ids (c # pend) (b2\<lparr>b_serial := b_serial b2 @ [Questioned c q opts]\<rparr>)"
      unfolding batch_inv_def by auto
    then show ?thesis
      using PQuestion q1 by (auto simp: route_call_def h b1_def b2_def queued_def Let_def)
  qed
qed

lemma route_all_inv:
  "batch_inv f ids (queued b @ cs) b \<Longrightarrow>
     let b' = fold (route_call sm) cs b in batch_inv f ids (queued b') b'"
proof (induction cs arbitrary: b)
  case Nil
  then show ?case by simp
next
  case (Cons c cs)
  have "batch_inv f ids (c # queued b @ cs) b"
    by (rule batch_inv_reorder [OF Cons.prems]) simp
  from route_call_inv [OF this, of sm] obtain add where
    "mset (queued (route_call sm c b)) = mset (queued b) + mset add"
    and inv: "batch_inv f ids (add @ queued b @ cs) (route_call sm c b)"
    by auto
  then have "batch_inv f ids (queued (route_call sm c b) @ cs) (route_call sm c b)"
    by (intro batch_inv_reorder [OF inv]) simp
  from Cons.IH [OF this] show ?case by simp
qed

lemma run_concurrent_inv:
  "batch_inv f ids (cs @ pend) b \<Longrightarrow> list_all (authorized (own_trace f (b_rt b))) cs \<Longrightarrow>
   run_concurrent sm cs (b_rt b) = (outs, s') \<Longrightarrow>
     batch_inv f (ids - tc_id ` set cs) pend (b\<lparr>b_rt := s'\<rparr>) \<and> map fst outs = cs \<and>
     own_trace f s' = own_trace f (b_rt b) @ map Ran cs"
proof (induction cs arbitrary: b ids outs s')
  case Nil
  then have "s' = b_rt b" and "outs = []" by simp_all
  moreover have "b\<lparr>b_rt := b_rt b\<rparr> = b" by simp
  ultimately show ?case using Nil by simp
next
  case (Cons c cs)
  obtain r s1 where body: "run_body sm c (b_rt b) = (r, s1)"
    by (cases "run_body sm c (b_rt b)")
  obtain rest where rest: "run_concurrent sm cs s1 = (rest, s')" and outs: "map fst outs = c # map fst rest"
    using Cons.prems(3) body by (auto split: prod.splits)
  have inv0: "batch_inv f ids (c # (cs @ pend)) b"
    using Cons.prems(1) by simp
  have step: "batch_inv f (ids - {tc_id c}) (cs @ pend) (b\<lparr>b_rt := s1\<rparr>)"
      "own_trace f s1 = own_trace f (b_rt b) @ [Ran c]"
    using body_inv [OF inv0 _ body] Cons.prems(2) by simp_all
  have "batch_inv f (ids - {tc_id c} - tc_id ` set cs) pend (b\<lparr>b_rt := s1\<rparr>\<lparr>b_rt := s'\<rparr>) \<and>
      map fst rest = cs \<and> own_trace f s' = own_trace f s1 @ map Ran cs"
    using Cons.IH [OF step(1), of rest s'] Cons.prems(2) rest step(2)
    by (simp add: list_all_authorized_snoc)
  moreover have "ids - {tc_id c} - tc_id ` set cs = ids - tc_id ` set (c # cs)" by auto
  ultimately show ?case
    using step(2) outs by simp
qed

lemma finish_all_inv:
  "batch_inv f ids pend b \<Longrightarrow> \<forall>x \<in> set outs. Ran (fst x) \<in> set (own_trace f (b_rt b)) \<Longrightarrow>
     let b' = fold (\<lambda>(c, out, ms). finish_call sm c out ms) outs b
     in batch_inv f (ids \<union> tc_id ` fst ` set outs) pend b' \<and> b_serial b' = b_serial b"
proof (induction outs arbitrary: b ids)
  case (Cons x outs)
  obtain c out ms where x: "x = (c, out, ms)" by (cases x)
  have "Ran c \<in> set (own_trace f (b_rt b))"
    using Cons.prems(2) x by simp
  note fin = finish_inv [OF Cons.prems(1) this, of sm out ms]
  have "\<forall>y \<in> set outs. Ran (fst y) \<in> set (own_trace f (b_rt (finish_call sm c out ms b)))"
    using Cons.prems(2) fin by simp
  from Cons.IH [OF conjunct1 [OF fin] this] show ?case
    using fin x by (simp add: Let_def insert_commute Un_commute)
qed simp

lemma run_parallel_inv:
  assumes "batch_inv f ids (queued b) b"
  shows "batch_inv f ids (map serial_target (b_serial b)) (run_parallel sm b) \<and>
    b_serial (run_parallel sm b) = b_serial b"
proof -
  obtain picked s where h: "on_world (sm_completion_order sm (b_parallel b)) (b_rt b) = (picked, s)"
    by (cases "on_world (sm_completion_order sm (b_parallel b)) (b_rt b)")
  define order where "order = (if reorders picked (b_parallel b) then picked else b_parallel b)"
  have perm: "mset order = mset (b_parallel b)" by (simp add: order_def reorders_mset)
  then have set_order: "set order = set (b_parallel b)" by (metis set_mset_mset)
  obtain outs s' where run: "run_concurrent sm order s = (outs, s')"
    by (cases "run_concurrent sm order s")
  define b1 where "b1 = b\<lparr>b_rt := s\<rparr>"
  have inv1: "batch_inv f ids (order @ map serial_target (b_serial b)) b1"
  proof -
    have "batch_inv f ids (queued b) b1"
      by (rule batch_inv_quiet [OF assms, where es = "[]"]) (simp_all add: b1_def on_world_frame [OF h])
    then show ?thesis
      by (rule batch_inv_reorder) (simp add: queued_def perm)
  qed
  have "list_all (authorized (own_trace f (b_rt b1))) order"
    using inv1 set_order by (auto simp: batch_inv_def b1_def list_all_iff)
  with run_concurrent_inv [OF inv1, of sm outs s'] run
  have conc: "batch_inv f (ids - tc_id ` set order) (map serial_target (b_serial b)) (b\<lparr>b_rt := s'\<rparr>)"
    "map fst outs = order" "own_trace f s' = own_trace f s @ map Ran order"
    by (simp_all add: b1_def)
  have fsts: "fst ` set outs = set order"
    using conc(2) by (metis set_map)
  have "\<forall>x \<in> set outs. Ran (fst x) \<in> set (own_trace f (b_rt (b\<lparr>b_rt := s'\<rparr>)))"
  proof
    fix x assume "x \<in> set outs"
    then have "fst x \<in> set order" using fsts by blast
    then show "Ran (fst x) \<in> set (own_trace f (b_rt (b\<lparr>b_rt := s'\<rparr>)))"
      using conc(3) by simp
  qed
  from finish_all_inv [OF conc(1) this, of sm]
  have "batch_inv f (ids - tc_id ` set order \<union> tc_id ` fst ` set outs) (map serial_target (b_serial b))
      (run_parallel sm b) \<and> b_serial (run_parallel sm b) = b_serial b"
    using h run by (simp add: run_parallel_def completion_order_def order_def Let_def)
  then show ?thesis
    using fsts by (auto intro: batch_inv_weaken)
qed

lemma run_approved_inv:
  assumes "batch_inv f ids (c # pend) b" and "authorized (own_trace f (b_rt b)) c"
  shows "batch_inv f ids pend (run_approved sm c b) \<and> b_serial (run_approved sm c b) = b_serial b"
proof -
  obtain stopped s where h: "on_world (sm_interrupted sm) (b_rt b) = (stopped, s)"
    by (cases "on_world (sm_interrupted sm) (b_rt b)")
  note fr = on_world_frame [OF h]
  have inv1: "batch_inv f ids (c # pend) (b\<lparr>b_rt := s\<rparr>)"
    by (rule batch_inv_quiet [OF assms(1), where es = "[]"]) (simp_all add: fr)
  show ?thesis
  proof (cases stopped)
    case True
    with batch_inv_close(1) [OF inv1, of OutcomeInterrupted "interrupted_result c"] show ?thesis
      by (simp add: run_approved_def h close_call_def)
  next
    case False
    obtain out ms s' where body: "run_body sm c s = ((out, ms), s')"
      by (metis surj_pair)
    have "authorized (own_trace f (b_rt (b\<lparr>b_rt := s\<rparr>))) c"
      using assms(2) fr by (simp add: own_trace_def)
    with body_inv [OF inv1 _ , of sm "(out, ms)" s'] body
    have "batch_inv f (ids - {tc_id c}) pend (b\<lparr>b_rt := s'\<rparr>)"
      and "Ran c \<in> set (own_trace f (b_rt (b\<lparr>b_rt := s'\<rparr>)))"
      by simp_all
    from finish_inv [OF this, of sm out ms] False body show ?thesis
      by (auto simp: run_approved_def h intro: batch_inv_weaken)
  qed
qed

lemma serve_serial_inv:
  assumes "batch_inv f ids (serial_target item # pend) b" and "direct_ok (own_trace f (b_rt b)) item"
  shows "batch_inv f ids pend (serve_serial sm item b) \<and> b_serial (serve_serial sm item b) = b_serial b"
proof (cases item)
  case (Direct c)
  with assms show ?thesis using run_approved_inv [of f ids c pend b sm] by simp
next
  case (Approval c kind detail)
  obtain res s where h: "on_world (sm_approve sm (tc_id c) kind detail) (b_rt b) = (res, s)"
    by (cases "on_world (sm_approve sm (tc_id c) kind detail) (b_rt b)")
  note fr = on_world_frame [OF h]
  define b1 where "b1 = b\<lparr>b_rt := trace (Resolved c res) s\<rparr>"
  define b2 where "b2 = b1\<lparr>b_rt := (b_rt b1)\<lparr>rt_world := sm_remember sm c (rt_world (b_rt b1))\<rparr>\<rparr>"
  have inv: "batch_inv f ids (c # pend) b"
    using assms(1) Approval by simp
  have inv1: "batch_inv f ids (c # pend) b1"
    by (rule batch_inv_noted [OF inv, where x = "Resolved c res"]) (simp_all add: b1_def fr)
  have inv2: "batch_inv f ids (c # pend) b2"
    by (rule batch_inv_quiet [OF inv1, where es = "[]"]) (simp_all add: b2_def)
  from inv obtain t where t: "rt_trace (b_rt b) = f_trace f @ t"
    by (auto simp: batch_inv_def)
  have own: "own_trace f (b_rt b1) = t @ [Resolved c res]" "own_trace f (b_rt b2) = t @ [Resolved c res]"
    using t fr by (simp_all add: b1_def b2_def)
  show ?thesis
  proof (cases res)
    case AllowOnce
    with run_approved_inv [OF inv1, of sm] own show ?thesis
      by (auto simp: Approval h b1_def authorized_now)
  next
    case AllowAlways
    have "batch_inv f ids pend (run_approved sm c b2) \<and> b_serial (run_approved sm c b2) = b_serial b2"
      using run_approved_inv [OF inv2, of sm] own AllowAlways by (simp add: authorized_now)
    then show ?thesis
      by (simp add: Approval h AllowAlways b2_def b1_def)
  next
    case (DenyWith reason)
    with batch_inv_close(1) [OF inv1, of Refused "error_result c reason"] show ?thesis
      by (simp add: Approval h b1_def close_call_def)
  next
    case ApprovalInterrupted
    with batch_inv_close(1) [OF inv1, of OutcomeInterrupted "interrupted_result c"] show ?thesis
      by (simp add: Approval h b1_def close_call_def)
  qed
next
  case (Questioned c question options)
  obtain res s where h: "on_world (sm_ask sm (tc_id c) question options) (b_rt b) = (res, s)"
    by (cases "on_world (sm_ask sm (tc_id c) question options) (b_rt b)")
  have inv: "batch_inv f ids (c # pend) b"
    using assms(1) Questioned by simp
  have inv1: "batch_inv f ids (c # pend) (b\<lparr>b_rt := s\<rparr>)"
    by (rule batch_inv_quiet [OF inv, where es = "[]"]) (simp_all add: on_world_frame [OF h])
  show ?thesis
    using batch_inv_close(1) [OF inv1, of OutcomeAnswered]
      batch_inv_close(1) [OF inv1, of AskUnavailable] batch_inv_close(1) [OF inv1, of OutcomeInterrupted]
    by (cases res) (simp_all add: Questioned h close_call_def)
qed

lemma serve_all_inv:
  "batch_inv f ids (map serial_target items) b \<Longrightarrow> set items \<subseteq> set (b_serial b) \<Longrightarrow>
     batch_inv f ids [] (fold (serve_serial sm) items b)"
proof (induction items arbitrary: b)
  case (Cons item items)
  have "direct_ok (own_trace f (b_rt b)) item"
    using Cons.prems by (auto simp: batch_inv_def list_all_iff)
  from serve_serial_inv [OF _ this, of ids "map serial_target items" sm] Cons.prems
  have "batch_inv f ids (map serial_target items) (serve_serial sm item b) \<and>
      b_serial (serve_serial sm item b) = b_serial b"
    by simp
  with Cons show ?case by simp
qed simp

lemma first_calls_ids:
  "tc_id ` set (first_calls seen cs) = tc_id ` set cs - set seen"
  "distinct (map tc_id (first_calls seen cs))" "set (first_calls seen cs) \<subseteq> set cs"
  by (induction seen cs rule: first_calls.induct) auto

lemma emit_begins_simps [simp]:
  "rt_events (emit_begins cs s) = rt_events s @ map (\<lambda>c. ToolCallBegin (tc_id c) (tc_name c) (tc_input c)) cs"
  "rt_trace (emit_begins cs s) = rt_trace s" "rt_conv (emit_begins cs s) = rt_conv s"
  "rt_world (emit_begins cs s) = rt_world s" "rt_child_slot (emit_begins cs s) = rt_child_slot s"
  by (induction cs arbitrary: s) (simp_all add: emit_begins_def)

definition dispatch_frame :: "tool_call list \<Rightarrow> 'w rt \<Rightarrow> frame0" where
  "dispatch_frame calls s = \<lparr>f_trace = rt_trace s,
     f_events = rt_events s @ map (\<lambda>c. ToolCallBegin (tc_id c) (tc_name c) (tc_input c)) calls,
     f_conv = rt_conv s, f_calls = calls\<rparr>"

lemma dispatch_batch_inv:
  "batch_inv (dispatch_frame calls s) (tc_id ` set calls) [] (dispatch_batch sm run_id calls s)"
proof -
  let ?f = "dispatch_frame calls s" and ?ids = "tc_id ` set calls"
  define b0 where "b0 = batch_start (emit_begins calls s)"
  define b1 where "b1 = fold (admit_call sm run_id) (first_calls [] calls) b0"
  define b2 where "b2 = fold (route_call sm) (b_live b1) b1"
  define b3 where "b3 = run_parallel sm b2"
  have "batch_inv ?f ?ids (b_live b0 @ first_calls [] calls) b0"
    using first_calls_ids [of "[]" calls]
    by (auto simp: batch_inv_def b0_def batch_start_def dispatch_frame_def disciplined_def
        slots_ok_def kinds_ok_def)
  from admit_all_inv [OF this, of sm run_id]
  have "batch_inv ?f ?ids (b_live b1) b1" and "b_parallel b1 = []" "b_serial b1 = []"
    by (simp_all add: b0_def b1_def batch_start_def Let_def)
  then have "batch_inv ?f ?ids (queued b2) b2"
    using route_all_inv [of ?f ?ids b1 "b_live b1" sm] by (simp add: queued_def b2_def Let_def)
  from run_parallel_inv [OF this, of sm]
  have "batch_inv ?f ?ids (map serial_target (b_serial b3)) b3"
    by (simp add: b3_def)
  then have "batch_inv ?f ?ids [] (fold (serve_serial sm) (b_serial b3) b3)"
    by (rule serve_all_inv) simp
  then show ?thesis
    by (simp add: dispatch_batch_def b0_def b1_def b2_def b3_def Let_def)
qed

lemma merge_blocked_fields [simp]:
  "b_rt (merge_blocked b) = b_rt b" "b_kinds (merge_blocked b) = b_kinds b"
  "b_ran_ms (merge_blocked b) = b_ran_ms b" "b_contexts (merge_blocked b) = b_contexts b"
  by (simp_all add: merge_blocked_def)

lemma fold_tbl_insert_keys:
  "set (tbl_keys (fold (\<lambda>(k, r). tbl_insert k r) t t0)) = set (tbl_keys t) \<union> set (tbl_keys t0)"
  by (induction t arbitrary: t0) auto

lemma fold_tbl_insert_slots:
  "slots_ok t0 \<Longrightarrow> slots_ok t \<Longrightarrow> slots_ok (fold (\<lambda>(k, r). tbl_insert k r) t t0)"
proof (induction t arbitrary: t0)
  case (Cons kr t)
  obtain k r where "kr = (k, r)" by (cases kr)
  with Cons.prems have "slots_ok (tbl_insert k r t0)" and "slots_ok t"
    by simp_all
  with Cons.IH \<open>kr = (k, r)\<close> show ?case by simp
qed simp

section \<open>The closing pass\<close>

fun repeated :: "'a list \<Rightarrow> 'a set" where
  "repeated [] = {}"
| "repeated (x # xs) = (if x \<in> set xs then {x} else {}) \<union> repeated xs"

lemma dupe_table_keys:
  "set (tbl_keys (dupe_table seen d cs)) =
     set (tbl_keys d) \<union> (set seen \<inter> tc_id ` set cs) \<union> repeated (map tc_id cs)"
proof (induction seen d cs rule: dupe_table.induct)
  case (2 seen d c cs)
  consider "tc_id c \<notin> set seen" | "tc_id c \<in> set seen" "map_of d (tc_id c) = None"
    | "tc_id c \<in> set seen" "map_of d (tc_id c) \<noteq> None"
    by blast
  then show ?case
  proof cases
    case 3
    then have "tc_id c \<in> set (tbl_keys d)" by (auto simp: set_tbl_keys)
    with 3 2 show ?thesis by auto
  qed (use 2 in auto)
qed simp

lemma dupe_table_slots: "slots_ok d \<Longrightarrow> slots_ok (dupe_table seen d cs)"
  by (induction seen d cs rule: dupe_table.induct) simp_all

definition end_matches :: "string set \<Rightarrow> tool_result \<Rightarrow> event \<Rightarrow> bool" where
  "end_matches rids r e \<longleftrightarrow>
     (\<exists>outcome ms. e = ToolCallEnd (tr_id r) (tr_is_error r)
         (preview_head (tr_content r) TOOL_OUTPUT_PREVIEW_BYTES) outcome ms \<and>
       outcome \<noteq> Missing \<and> (outcome = Executed \<longrightarrow> tr_id r \<in> rids))"

lemma claim_slot_spec:
  assumes "claim_slot dupes c b = ((r, outcome), b1)"
    and "slots_ok (b_results b)" "slots_ok dupes" "kinds_ok (b_kinds b)"
    and "set (tbl_keys (b_results b)) \<subseteq> set (tbl_keys (b_kinds b)) \<union> rids"
    and "tc_id c \<in> set (tbl_keys (b_results b)) \<union> set (tbl_keys dupes)"
  shows "tr_id r = tc_id c" "outcome \<noteq> Missing" "outcome = Executed \<Longrightarrow> tc_id c \<in> rids"
    "slots_ok (b_results b1)" "kinds_ok (b_kinds b1)"
    "set (tbl_keys (b_results b1)) \<subseteq> set (tbl_keys (b_kinds b1)) \<union> rids"
    "set (tbl_keys (b_results b1)) = set (tbl_keys (b_results b)) - {tc_id c}"
    "b_rt b1 = b_rt b" "b_contexts b1 = b_contexts b"
proof -
  have "tr_id r = tc_id c \<and> outcome \<noteq> Missing \<and> (outcome = Executed \<longrightarrow> tc_id c \<in> rids) \<and>
    slots_ok (b_results b1) \<and> kinds_ok (b_kinds b1) \<and>
    set (tbl_keys (b_results b1)) \<subseteq> set (tbl_keys (b_kinds b1)) \<union> rids \<and>
    set (tbl_keys (b_results b1)) = set (tbl_keys (b_results b)) - {tc_id c} \<and>
    b_rt b1 = b_rt b \<and> b_contexts b1 = b_contexts b"
  proof (cases "map_of (b_results b) (tc_id c)")
    case None
    then have out: "tc_id c \<notin> set (tbl_keys (b_results b))" by (simp add: set_tbl_keys domIff)
    with assms(6) obtain q where q: "map_of dupes (tc_id c) = Some q"
      by (auto simp: set_tbl_keys)
    with None out assms(1-5) show ?thesis
      by (auto simp: claim_slot_def dest: slots_ok_lookup)
  next
    case (Some q)
    then have "tc_id c \<in> set (tbl_keys (b_results b))" by (auto simp: set_tbl_keys)
    with assms(5) have kr: "tc_id c \<in> set (tbl_keys (b_kinds b)) \<or> tc_id c \<in> rids" by blast
    have keys: "set (tbl_keys (tbl_remove k t)) = set (tbl_keys t) - {k}" for k and t :: "(string, 'v) tbl"
      by (auto simp: set_tbl_keys)
    have b1: "b1 = b\<lparr>b_results := tbl_remove (tc_id c) (b_results b), b_kinds := tbl_remove (tc_id c) (b_kinds b)\<rparr>"
      and r: "r = q" "outcome = tbl_or Executed (b_kinds b) (tc_id c)"
      using assms(1) Some by (auto simp: claim_slot_def)
    have "outcome \<noteq> Missing \<and> (outcome = Executed \<longrightarrow> tc_id c \<in> rids)"
      using kr assms(4) r(2) by (auto simp: tbl_or_def kinds_ok_def set_tbl_keys split: option.splits)
    moreover have "tr_id r = tc_id c"
      using Some assms(2) r(1) slots_ok_lookup by blast
    moreover have "set (tbl_keys (b_results b)) - {tc_id c} \<subseteq> (set (tbl_keys (b_kinds b)) - {tc_id c}) \<union> rids"
      using assms(5) by blast
    ultimately show ?thesis
      using assms(2,4) by (simp add: b1 keys)
  qed
  then show "tr_id r = tc_id c" "outcome \<noteq> Missing" "outcome = Executed \<Longrightarrow> tc_id c \<in> rids"
    "slots_ok (b_results b1)" "kinds_ok (b_kinds b1)"
    "set (tbl_keys (b_results b1)) \<subseteq> set (tbl_keys (b_kinds b1)) \<union> rids"
    "set (tbl_keys (b_results b1)) = set (tbl_keys (b_results b)) - {tc_id c}"
    "b_rt b1 = b_rt b" "b_contexts b1 = b_contexts b"
    by blast+
qed

lemma end_calls_spec:
  assumes "end_calls dupes cs b = (rs, b')"
    and "slots_ok (b_results b)" "slots_ok dupes" "kinds_ok (b_kinds b)"
    and "set (tbl_keys (b_results b)) \<subseteq> set (tbl_keys (b_kinds b)) \<union> rids"
    and "tc_id ` set cs \<subseteq> set (tbl_keys (b_results b)) \<union> set (tbl_keys dupes)"
    and "repeated (map tc_id cs) \<subseteq> set (tbl_keys dupes)"
  shows "map tr_id rs = map tc_id cs \<and> rt_trace (b_rt b') = rt_trace (b_rt b) \<and>
    rt_conv (b_rt b') = rt_conv (b_rt b) \<and> b_contexts b' = b_contexts b \<and>
    (\<exists>ends. rt_events (b_rt b') = rt_events (b_rt b) @ ends \<and> list_all2 (end_matches rids) rs ends)"
  using assms
proof (induction cs arbitrary: b rs b')
  case Nil
  then show ?case by simp
next
  case (Cons c cs)
  obtain r outcome b1 where cl: "claim_slot dupes c b = ((r, outcome), b1)"
    by (metis surj_pair)
  define b2 where "b2 = b1\<lparr>b_rt := emit_end r outcome (tbl_or 0 (b_ran_ms b1) (tc_id c)) (b_rt b1),
      b_ran_ms := tbl_remove (tc_id c) (b_ran_ms b1)\<rparr>"
  obtain rs' where rest: "end_calls dupes cs b2 = (rs', b')" and rs: "rs = r # rs'"
    using Cons.prems(1) cl by (auto simp: b2_def Let_def split: prod.splits)
  have "tc_id c \<in> set (tbl_keys (b_results b)) \<union> set (tbl_keys dupes)"
    using Cons.prems(6) by simp
  note cs = claim_slot_spec [OF cl Cons.prems(2-5) this]
  have later: "tc_id ` set cs \<subseteq> set (tbl_keys (b_results b2)) \<union> set (tbl_keys dupes)"
  proof
    fix i assume i: "i \<in> tc_id ` set cs"
    show "i \<in> set (tbl_keys (b_results b2)) \<union> set (tbl_keys dupes)"
    proof (cases "i = tc_id c")
      case True
      with i Cons.prems(7) show ?thesis by auto
    next
      case False
      have "i \<in> set (tbl_keys (b_results b)) \<union> set (tbl_keys dupes)"
        using i Cons.prems(6) by auto
      with False cs(7) show ?thesis by (simp add: b2_def)
    qed
  qed
  have rep: "repeated (map tc_id cs) \<subseteq> set (tbl_keys dupes)"
    using Cons.prems(7) by simp
  have "map tr_id rs' = map tc_id cs \<and> rt_trace (b_rt b') = rt_trace (b_rt b2) \<and>
    rt_conv (b_rt b') = rt_conv (b_rt b2) \<and> b_contexts b' = b_contexts b2 \<and>
    (\<exists>ends. rt_events (b_rt b') = rt_events (b_rt b2) @ ends \<and> list_all2 (end_matches rids) rs' ends)"
    by (rule Cons.IH [OF rest _ Cons.prems(3) _ _ later rep]) (use cs in \<open>simp_all add: b2_def\<close>)
  then obtain ends where tl: "map tr_id rs' = map tc_id cs" "rt_trace (b_rt b') = rt_trace (b_rt b2)"
    "rt_conv (b_rt b') = rt_conv (b_rt b2)" "b_contexts b' = b_contexts b2"
    "rt_events (b_rt b') = rt_events (b_rt b2) @ ends" "list_all2 (end_matches rids) rs' ends"
    by blast
  have "rt_events (b_rt b2) = rt_events (b_rt b) @
      [ToolCallEnd (tr_id r) (tr_is_error r) (preview_head (tr_content r) TOOL_OUTPUT_PREVIEW_BYTES)
         outcome (tbl_or 0 (b_ran_ms b1) (tc_id c))]"
    by (simp add: b2_def emit_end_def cs)
  moreover have "end_matches rids r (ToolCallEnd (tr_id r) (tr_is_error r)
      (preview_head (tr_content r) TOOL_OUTPUT_PREVIEW_BYTES) outcome (tbl_or 0 (b_ran_ms b1) (tc_id c)))"
    using cs by (simp add: end_matches_def)
  ultimately show ?case
    using tl cs by (auto simp: rs b2_def emit_end_def)
qed

section \<open>Properties\<close>

lemma dispatch_facts:
  assumes "execute_calls sm run_id calls s = ((results, contexts), s')"
  shows "\<exists>t mid ends. map tr_id results = map tc_id calls \<and> rt_conv s' = rt_conv s \<and>
    rt_events s' = rt_events s @ map (\<lambda>c. ToolCallBegin (tc_id c) (tc_name c) (tc_input c)) calls @ mid @ ends \<and>
    list_all mid_event mid \<and> list_all2 (end_matches (tc_id ` set (ran_calls t))) results ends \<and>
    rt_trace s' = rt_trace s @ t \<and> disciplined t \<and> distinct (map tc_id (ran_calls t)) \<and>
    set (ran_calls t) \<subseteq> set calls"
proof -
  define b where "b = dispatch_batch sm run_id calls s"
  have inv: "batch_inv (dispatch_frame calls s) (tc_id ` set calls) [] b"
    unfolding b_def by (rule dispatch_batch_inv)
  then obtain t es where t: "rt_trace (b_rt b) = rt_trace s @ t"
    and es: "rt_events (b_rt b) = rt_events s @ map (\<lambda>c. ToolCallBegin (tc_id c) (tc_name c) (tc_input c)) calls @ es"
    and mid: "list_all mid_event es" "disciplined t" "distinct (map tc_id (ran_calls t))"
      "set (ran_calls t) \<subseteq> set calls"
    and closed: "set (tbl_keys (b_results b)) \<union> set (tbl_keys (b_blocked b)) \<subseteq>
         set (tbl_keys (b_kinds b)) \<union> tc_id ` set (ran_calls t)"
    by (auto simp: batch_inv_def dispatch_frame_def)
  obtain b' where ends: "end_calls (dupe_table [] [] calls) calls (merge_blocked b) = (results, b')"
    and s': "s' = b_rt b'"
    using assms by (auto simp: execute_calls_def b_def Let_def split: prod.splits)
  have "map tr_id results = map tc_id calls \<and> rt_trace (b_rt b') = rt_trace (b_rt (merge_blocked b)) \<and>
    rt_conv (b_rt b') = rt_conv (b_rt (merge_blocked b)) \<and> b_contexts b' = b_contexts (merge_blocked b) \<and>
    (\<exists>ends. rt_events (b_rt b') = rt_events (b_rt (merge_blocked b)) @ ends \<and>
      list_all2 (end_matches (tc_id ` set (ran_calls t))) results ends)"
  proof (rule end_calls_spec [OF ends])
    show "slots_ok (b_results (merge_blocked b))"
      using inv by (simp add: merge_blocked_def batch_inv_def fold_tbl_insert_slots)
    show "slots_ok (dupe_table [] [] calls)"
      by (rule dupe_table_slots) (simp add: slots_ok_def)
    show "kinds_ok (b_kinds (merge_blocked b))"
      using inv by (simp add: batch_inv_def)
    show "set (tbl_keys (b_results (merge_blocked b))) \<subseteq>
        set (tbl_keys (b_kinds (merge_blocked b))) \<union> tc_id ` set (ran_calls t)"
      using closed by (auto simp: merge_blocked_def fold_tbl_insert_keys)
    show "tc_id ` set calls \<subseteq> set (tbl_keys (b_results (merge_blocked b))) \<union>
        set (tbl_keys (dupe_table [] [] calls))"
      using inv by (auto simp: batch_inv_def merge_blocked_def fold_tbl_insert_keys)
    show "repeated (map tc_id calls) \<subseteq> set (tbl_keys (dupe_table [] [] calls))"
      by (simp add: dupe_table_keys)
  qed
  moreover have "rt_conv (b_rt b) = rt_conv s"
    using inv by (simp add: batch_inv_def dispatch_frame_def)
  ultimately show ?thesis
    using t es mid s' by auto
qed

text \<open>C4: every declared call is announced and settled exactly once, in declaration order: the
  batch emits all begin events first and all end events last, the results carry the declared
  ids in order (duplicates included), no slot is ever missing, and an end event says
  \<open>executed\<close> only when a body with that id ran; the conversation is not touched.\<close>

theorem execute_calls_pairs_every_call:
  "case execute_calls sm run_id calls s of ((results, contexts), s') \<Rightarrow>
     map tr_id results = map tc_id calls \<and> rt_conv s' = rt_conv s \<and>
     (\<exists>t mid ends. rt_trace s' = rt_trace s @ t \<and>
        rt_events s' = rt_events s @
          map (\<lambda>c. ToolCallBegin (tc_id c) (tc_name c) (tc_input c)) calls @ mid @ ends \<and>
        list_all mid_event mid \<and>
        list_all2 (end_matches (tc_id ` set (ran_calls t))) results ends)"
proof -
  obtain results contexts s' where eq: "execute_calls sm run_id calls s = ((results, contexts), s')"
    by (metis surj_pair)
  from dispatch_facts [OF eq] show ?thesis unfolding eq prod.case by blast
qed

text \<open>C2: no body runs unasked: in one dispatch every tool body runs after the policy allowed
  that very call or the user approved it, only declared calls run, and no call id runs
  twice, whatever the seams answer.\<close>

theorem bodies_run_only_when_allowed:
  "case execute_calls sm run_id calls s of (out, s') \<Rightarrow>
     \<exists>t. rt_trace s' = rt_trace s @ t \<and> disciplined t \<and>
       distinct (map tc_id (ran_calls t)) \<and> set (ran_calls t) \<subseteq> set calls"
proof -
  obtain results contexts s' where eq: "execute_calls sm run_id calls s = ((results, contexts), s')"
    by (metis surj_pair)
  from dispatch_facts [OF eq] show ?thesis unfolding eq prod.case by blast
qed

end
