(* ===== verification/Run_Loop.thy ===== *)
theory Run_Loop
  imports Run_Dispatch
begin

text \<open>
  The turn state machine of \<open>crates/runtime/runner/src/lib.rs\<close>: \<open>run_turn\<close> as one iteration
  \<open>turn_step\<close> (its stages in the order of the code, each ending the turn, restarting the loop
  head, or going on) and the loop over it, with compaction, settlement, the budget and round
  gates, the sample notes and the three pre-dispatch exits.
\<close>

section \<open>Configuration and locals\<close>

definition MAX_REACTIVE_COMPACTS :: nat where "MAX_REACTIVE_COMPACTS = 3"
definition MAX_MODEL_COMPACTS :: nat where "MAX_MODEL_COMPACTS = 4"
definition MODEL_COMPACT_MIN_USED_PCT :: nat where "MODEL_COMPACT_MIN_USED_PCT = 50"
definition MAX_CONTINUATIONS :: nat where "MAX_CONTINUATIONS = 2"
definition MAX_PLAN_NUDGES :: nat where "MAX_PLAN_NUDGES = 3"
definition MAX_GOAL_CONTINUATIONS :: nat where "MAX_GOAL_CONTINUATIONS = 8"
definition MAX_GOAL_REARMS :: nat where "MAX_GOAL_REARMS = 7"
definition MAX_STOP_BLOCKS :: nat where "MAX_STOP_BLOCKS = 3"
definition MAX_REPEAT_STREAK :: nat where "MAX_REPEAT_STREAK = 12"
definition MAX_WIRE_IMAGES :: nat where "MAX_WIRE_IMAGES = 2"

definition REPEAT_REMINDER_AT :: "nat list" where
  "REPEAT_REMINDER_AT = [3, 5, 8]"

definition CONTINUATION_PROMPT :: string where
  "CONTINUATION_PROMPT = ''Output token limit reached. Continue exactly where you left off.''"

record run_config =
  cf_model_name :: string
  cf_context_window :: nat
  cf_max_output_tokens :: nat
  cf_max_tool_rounds :: nat
  cf_max_continuations :: nat
  cf_max_plan_nudges :: nat
  cf_max_goal_continuations :: nat
  cf_max_goal_rearms :: nat
  cf_max_stop_blocks :: nat
  cf_max_reactive_compacts :: nat
  cf_max_repeat_streak :: nat
  cf_max_wire_images :: nat
  cf_max_model_compacts :: nat

record user_image =
  ui_id :: "string option"
  ui_mime :: string
  ui_base64 :: string

record turn_input =
  ti_run_id :: string
  ti_text :: string
  ti_images :: "user_image list"
  ti_system :: string

record estimate_cache =
  ec_entries :: nat
  ec_tokens :: nat

text \<open>The locals of \<open>run_turn\<close>; the last group is set anew by each iteration.\<close>

record 'w turn =
  tn_rt :: "'w rt"
  tn_owns :: bool
  tn_warned :: bool
  tn_compacted :: bool
  tn_continuations :: nat
  tn_nudges :: nat
  tn_goal_continuations :: nat
  tn_stop_blocks :: nat
  tn_reactive :: nat
  tn_state :: turn_state
  tn_last_input :: "nat option"
  tn_last_output :: "nat option"
  tn_cache :: estimate_cache
  tn_grants :: nat
  tn_window :: nat
  tn_used :: nat
  tn_estimated :: bool
  tn_applied :: nat
  tn_denials :: "string list"

datatype 'w flow =
    Finish stop_reason "'w turn"
  | Again "'w turn"
  | Go "'w turn"

fun and_then :: "'w flow \<Rightarrow> ('w turn \<Rightarrow> 'w flow) \<Rightarrow> 'w flow" where
  "and_then (Go t) f = f t"
| "and_then x f = x"

definition with_rt :: "('w rt \<Rightarrow> 'w rt) \<Rightarrow> 'w turn \<Rightarrow> 'w turn" where
  "with_rt f t = t\<lparr>tn_rt := f (tn_rt t)\<rparr>"

definition ask_world :: "('w \<Rightarrow> 'a \<times> 'w) \<Rightarrow> 'w turn \<Rightarrow> 'a \<times> 'w turn" where
  "ask_world f t = (case on_world f (tn_rt t) of (a, s) \<Rightarrow> (a, t\<lparr>tn_rt := s\<rparr>))"

definition warn :: "string \<Rightarrow> 'w turn \<Rightarrow> 'w turn" where
  "warn m t = with_rt (emit (Warning m)) t"

definition say :: "string \<Rightarrow> 'w turn \<Rightarrow> 'w turn" where
  "say m t = with_rt (on_conv (push User m)) t"

section \<open>Helpers of the loop\<close>

definition repeat_level :: "nat \<Rightarrow> nat" where
  "repeat_level streak = length (filter (\<lambda>at. at \<le> streak) REPEAT_REMINDER_AT)"

definition repeat_note :: "nat \<Rightarrow> string option" where
  "repeat_note streak =
     (let level = repeat_level streak; n = show_nat streak
      in if level = 0 then None
         else Some (wrap_system_reminder
           (if level - 1 = 0 then
              ''The same tool call has now been issued '' @ n @ '' times in a row. Run the cheapest test that could disprove your current approach, or state why no such test exists.''
            else if level - 1 = 1 then
              ''The same tool call has been issued '' @ n @ '' times in a row and is not making progress. Either try a materially different approach, or tell the user precisely which information or decision you need to proceed.''
            else
              ''The same tool call has been issued '' @ n @ '' times in a row. Stop repeating it: deliver your best answer from the evidence already gathered and list what remains uncertain.'')))"

definition repeat_handoff :: "nat \<Rightarrow> string" where
  "repeat_handoff streak =
     ''The turn was stopped by the repeat breaker: the same tool call was issued '' @ show_nat streak @
     '' times in a row, so it was not executed again. Reply in text covering the current blocker, what each attempt established, and what you need to continue.''"

definition tool_call_signature :: "(json \<Rightarrow> string) \<Rightarrow> tool_call list \<Rightarrow> string" where
  "tool_call_signature render calls =
     join '' | '' (map (\<lambda>c. tc_name c @ '' '' @ render (tc_input c)) calls)"

definition round_ceiling :: "run_config \<Rightarrow> turn_state \<Rightarrow> nat" where
  "round_ceiling cfg st = sat_mul 32 (cf_max_tool_rounds cfg) (ts_rearms st + 1)"

definition budget_line :: "run_config \<Rightarrow> nat \<Rightarrow> nat \<Rightarrow> turn_state \<Rightarrow> nat \<Rightarrow> string" where
  "budget_line cfg used window st continuations =
     ''Budget: '' @ show_nat used @ '' of '' @ show_nat window @ '' context tokens used; tool round '' @
     show_nat (ts_rounds st) @ '' of '' @ show_nat (round_ceiling cfg st) @ '' (ceiling re-armed '' @
     show_nat (ts_rearms st) @ '' of '' @ show_nat (cf_max_goal_rearms cfg) @ ''); goal continuation '' @
     show_nat continuations @ '' of '' @ show_nat (cf_max_goal_continuations cfg) @ ''.''"

definition effective_window :: "'w seams \<Rightarrow> run_config \<Rightarrow> 'w \<Rightarrow> nat" where
  "effective_window sm cfg w =
     (case sm_context_window sm w of Some n \<Rightarrow> n | None \<Rightarrow> cf_context_window cfg)"

definition serving_model :: "'w seams \<Rightarrow> run_config \<Rightarrow> 'w \<Rightarrow> string" where
  "serving_model sm cfg w =
     (case sm_current_model sm w of Some m \<Rightarrow> m | None \<Rightarrow> cf_model_name cfg)"

definition sample_notes ::
    "'w seams \<Rightarrow> run_config \<Rightarrow> 'w \<Rightarrow> nat \<Rightarrow> nat \<Rightarrow> bool \<Rightarrow> nat \<Rightarrow> string list \<Rightarrow> string list" where
  "sample_notes sm cfg w used window estimated repeat_streak denials =
     [wrap_system_reminder (''Model: '' @ serving_model sm cfg w @ '' (context window: '' @
        show_nat window @ '' tokens); today: '' @ sm_date sm w)] @
     (if window = 0 then []
      else let pct = sat_mul 64 used 100 div window;
               figure = show_nat pct @ ''% ('' @ show_nat used @ ''/'' @ show_nat window @ '' tokens''
           in [wrap_system_reminder
                 (if estimated then ''Context usage: ~'' @ figure @ '', estimated)''
                  else ''Context usage: '' @ figure @ '')'')]) @
     (case repeat_note repeat_streak of Some t \<Rightarrow> [t] | None \<Rightarrow> []) @
     map wrap_system_reminder denials"

definition review_model_compact ::
    "run_config \<Rightarrow> nat \<Rightarrow> nat \<Rightarrow> nat \<Rightarrow> bool \<Rightarrow> (string, unit) result" where
  "review_model_compact cfg granted_before used window compacted =
     (if cf_max_model_compacts cfg \<le> granted_before then
        Inl (''model compaction limit reached ('' @ show_nat granted_before @ ''/'' @
             show_nat (cf_max_model_compacts cfg) @ '')'')
      else if compacted then Inl ''context was already compacted this turn''
      else if window = 0 then Inl ''context window is zero''
      else let pct = sat_mul 64 used 100 div window
           in if pct < MODEL_COMPACT_MIN_USED_PCT then
                Inl (''context is only '' @ show_nat pct @ ''% used ('' @ show_nat used @ ''/'' @
                     show_nat window @ '' tokens); compaction needs at least '' @
                     show_nat MODEL_COMPACT_MIN_USED_PCT @ ''%'')
              else Inr ())"

text \<open>The image projection of one request.\<close>

fun is_image :: "block \<Rightarrow> bool" where
  "is_image (Image _ _ _) = True"
| "is_image _ = False"

definition image_placeholder :: "nat \<Rightarrow> block \<Rightarrow> block" where
  "image_placeholder keep b =
     (case b of
        Image i mime _ \<Rightarrow> Text (''[image '' @ mime @
          (case i of Some label \<Rightarrow> '': '' @ label | None \<Rightarrow> []) @
          '' omitted from this request: only the newest '' @ show_nat keep @
          '' image(s) are sent to save context]'')
      | _ \<Rightarrow> b)"

fun project_blocks :: "nat \<Rightarrow> nat \<Rightarrow> nat \<Rightarrow> block list \<Rightarrow> block list \<times> nat" where
  "project_blocks tot keep seen [] = ([], seen)"
| "project_blocks tot keep seen (b # bs) =
     (if is_image b then
        (case project_blocks tot keep (seen + 1) bs of (rest, n) \<Rightarrow>
           ((if tot - (seen + 1) < keep then b else image_placeholder keep b) # rest, n))
      else (case project_blocks tot keep seen bs of (rest, n) \<Rightarrow> (b # rest, n)))"

fun project_entries :: "nat \<Rightarrow> nat \<Rightarrow> nat \<Rightarrow> history_entry list \<Rightarrow> history_entry list" where
  "project_entries tot keep seen [] = []"
| "project_entries tot keep seen (e # es) =
     (case project_blocks tot keep seen (he_blocks e) of (bs, seen') \<Rightarrow>
        e\<lparr>he_blocks := bs\<rparr> # project_entries tot keep seen' es)"

definition project_images :: "history_entry list \<Rightarrow> nat \<Rightarrow> history_entry list" where
  "project_images es keep =
     (if keep = 0 then es
      else project_entries (length (filter is_image (all_blocks es))) keep 0 es)"

definition estimate_step ::
    "(json \<Rightarrow> string) \<Rightarrow> history_entry list \<Rightarrow> estimate_cache \<Rightarrow> nat \<times> estimate_cache" where
  "estimate_step render es ec =
     (let ec0 = (if length es < ec_entries ec then \<lparr>ec_entries = 0, ec_tokens = 0\<rparr> else ec);
          tokens = ec_tokens ec0 +
            sum_list (map (estimate_entry_tokens render) (drop (ec_entries ec0) es))
      in (tokens, \<lparr>ec_entries = length es, ec_tokens = tokens\<rparr>))"

section \<open>Settlement and compaction\<close>

definition settle :: "'w turn \<Rightarrow> 'w turn" where
  "settle t =
     (case tn_last_input t of
        None \<Rightarrow> t
      | Some input \<Rightarrow>
          let st = tn_state t; last = (case tn_last_output t of Some n \<Rightarrow> n | None \<Rightarrow> 0)
          in with_rt (emit (TokenCount input (ts_output st) (ts_cache_read st) (ts_cache_creation st)
                (tn_window t) (sat_add 64 input last)))
              (with_rt (on_conv (settle_usage \<lparr>u_input = input, u_output = ts_output st,
                 u_last_output = last, u_cache_read = ts_cache_read st,
                 u_cache_creation = ts_cache_creation st\<rparr>)) t))"

text \<open>Every regular exit: settle, complete the turn, stop.\<close>

definition finish_turn :: "bool \<Rightarrow> stop_reason \<Rightarrow> 'w turn \<Rightarrow> 'w flow" where
  "finish_turn interrupted reason t =
     Finish reason (with_rt (emit (TurnCompleted interrupted)) (settle t))"

text \<open>A failing exit settles, reports the error, then completes the turn.\<close>

definition fail_turn :: "string \<Rightarrow> string \<Rightarrow> string \<Rightarrow> 'w turn \<Rightarrow> 'w flow" where
  "fail_turn message code reason t =
     Finish (StopError reason)
       (with_rt (emit (TurnCompleted False)) (with_rt (emit (ErrorEvent message False code)) (settle t)))"

definition run_hook_warn :: "'w seams \<Rightarrow> hook_point \<Rightarrow> 'w rt \<Rightarrow> 'w rt" where
  "run_hook_warn sm point s =
     (case on_world (sm_hook sm point []) s of (report, s') \<Rightarrow> warn_nonempty (hr_message report) s')"

definition do_compact :: "'w seams \<Rightarrow> compact_trigger \<Rightarrow> 'w rt \<Rightarrow> string option \<times> 'w rt" where
  "do_compact sm trigger s =
     (let s1 = emit (CompactStarted (trigger_name trigger)) (run_hook_warn sm PreCompact s)
      in case on_world (sm_compact sm (cv_entries (rt_conv s1)) trigger) s1 of
           (Inl cause, s2) \<Rightarrow> (Some (''compaction failed: '' @ cause), s2)
         | (Inr done, s2) \<Rightarrow>
             let replacement = \<lparr>he_role = User, he_blocks = [Text (cp_summary done)]\<rparr> # cp_tail done;
                 tail_tokens = sum_list (map (estimate_entry_tokens (sm_render sm)) (cp_tail done));
                 s3 = on_conv (\<lambda>c. settle_usage
                        (usage_default\<lparr>u_input := cp_summary_tokens done + tail_tokens + CONTEXT_OVERHEAD_TOKENS\<rparr>)
                        (replace_history replacement c)) s2;
                 s4 = emit (CompactCompleted (cp_summary_tokens done)) s3;
                 s5 = s4\<lparr>rt_world := sm_note_compacted sm (rt_world s4)\<rparr>
             in (None, run_hook_warn sm PostCompact s5))"

text \<open>Outside a turn: one hook point, and the idle \<open>/compact\<close>.\<close>

definition run_hook_point :: "'w seams \<Rightarrow> hook_point \<Rightarrow> string \<Rightarrow> 'w rt \<Rightarrow> bool \<times> 'w rt" where
  "run_hook_point sm point payload s =
     (case on_world (sm_hook sm point payload) s of
        (report, s') \<Rightarrow> (hr_allow report, warn_nonempty (hr_message report) s'))"

definition compact_now :: "'w seams \<Rightarrow> compact_trigger \<Rightarrow> 'w rt \<Rightarrow> string option \<times> 'w rt" where
  "compact_now sm trigger s = do_compact sm trigger s"

definition compact_turn :: "'w seams \<Rightarrow> compact_trigger \<Rightarrow> 'w turn \<Rightarrow> string option \<times> 'w turn" where
  "compact_turn sm trigger t =
     (case do_compact sm trigger (tn_rt t) of (r, s) \<Rightarrow> (r, t\<lparr>tn_rt := s\<rparr>))"

section \<open>The stages of one iteration\<close>

text \<open>Checkpoint 1: an interrupt at the loop head.\<close>

definition stage_head :: "'w seams \<Rightarrow> run_config \<Rightarrow> 'w turn \<Rightarrow> 'w flow" where
  "stage_head sm cfg t0 =
     (let t = t0\<lparr>tn_window := effective_window sm cfg (rt_world (tn_rt t0)), tn_applied := 0,
                 tn_denials := []\<rparr>
      in case ask_world (sm_interrupted sm) t of
           (stopped, t1) \<Rightarrow> if stopped then finish_turn True Interrupted t1 else Go t1)"

text \<open>Next-turn steering, then the discovered directory instructions.\<close>

definition put_inbox :: "'w seams \<Rightarrow> inbox \<Rightarrow> 'w turn \<Rightarrow> 'w turn" where
  "put_inbox sm ib t = with_rt (\<lambda>s. s\<lparr>rt_world := sm_put_inbox sm ib (rt_world s)\<rparr>) t"

definition apply_steered :: "string list \<Rightarrow> 'w turn \<Rightarrow> 'w turn" where
  "apply_steered texts t = (fold say texts t)\<lparr>tn_applied := tn_applied t + length texts\<rparr>"

definition stage_steer_head :: "'w seams \<Rightarrow> 'w turn \<Rightarrow> 'w flow" where
  "stage_steer_head sm t =
     (let t1 = (if tn_owns t then
                  (case inbox_take_next_turn (sm_inbox sm (rt_world (tn_rt t))) of
                     (texts, ib) \<Rightarrow> apply_steered texts (put_inbox sm ib t))
                else t)
      in Go (case rt_child_slot (tn_rt t1) of
               Some items \<Rightarrow>
                 with_rt (\<lambda>s. (on_conv (land_directory_instructions items) s)\<lparr>rt_child_slot := Some []\<rparr>) t1
             | None \<Rightarrow>
                 (case sm_instructions sm (rt_world (tn_rt t1)) of
                    None \<Rightarrow> t1
                  | Some items \<Rightarrow>
                      with_rt (\<lambda>s. on_conv (land_directory_instructions items)
                        (s\<lparr>rt_world := sm_clear_instructions sm (rt_world s)\<rparr>)) t1)))"

text \<open>The context-use figure of this iteration.\<close>

definition stage_used :: "'w seams \<Rightarrow> 'w turn \<Rightarrow> 'w flow" where
  "stage_used sm t =
     (let carry = cv_usage (rt_conv (tn_rt t));
          estimated = (tn_last_input t = None \<and> u_input carry = 0)
      in Go (case tn_last_input t of
               Some input \<Rightarrow>
                 t\<lparr>tn_estimated := estimated,
                   tn_used := sat_add 64 input (case tn_last_output t of Some n \<Rightarrow> n | None \<Rightarrow> 0)\<rparr>
             | None \<Rightarrow>
                 if u_input carry > 0 then
                   t\<lparr>tn_estimated := estimated, tn_used := sat_add 64 (u_input carry) (u_last_output carry)\<rparr>
                 else (case estimate_step (sm_render sm) (cv_entries (rt_conv (tn_rt t))) (tn_cache t) of
                   (n, ec) \<Rightarrow>
                     t\<lparr>tn_estimated := estimated, tn_cache := ec,
                       tn_used := n + CONTEXT_OVERHEAD_TOKENS\<rparr>)))"

definition goal_nudge :: "'w seams \<Rightarrow> run_config \<Rightarrow> 'w turn \<Rightarrow> 'w turn" where
  "goal_nudge sm cfg t =
     say (sm_goal_reminder sm
       (budget_line cfg (tn_used t) (tn_window t) (tn_state t) (tn_goal_continuations t))
       (rt_world (tn_rt t))) t"

text \<open>The round ceiling, re-armed while the goal is open.\<close>

definition stage_ceiling :: "'w seams \<Rightarrow> run_config \<Rightarrow> 'w turn \<Rightarrow> 'w flow" where
  "stage_ceiling sm cfg t =
     (let ceiling = round_ceiling cfg (tn_state t)
      in if rounds_exhausted (tn_state t) ceiling then
           if sm_goal_open sm (rt_world (tn_rt t)) \<and> ts_rearms (tn_state t) < cf_max_goal_rearms cfg then
             let t1 = t\<lparr>tn_state := (tn_state t)\<lparr>ts_rearms := ts_rearms (tn_state t) + 1\<rparr>\<rparr>
             in Again (goal_nudge sm cfg (warn
                  (''tool round limit reached with the session goal open; re-arming the ceiling ('' @
                   show_nat (ts_rearms (tn_state t1)) @ ''/'' @ show_nat (cf_max_goal_rearms cfg) @ '')'') t1))
           else finish_turn False MaxToolRounds (warn
                  (''tool round limit reached ('' @ show_nat ceiling @
                   ''); stopping this turn '' @ [em_dash] @
                   '' set max_tool_rounds in ~/.wavecode/config.toml to run longer'') t)
         else Go t)"

text \<open>The budget check with its once-per-turn warning and compaction.\<close>

definition stage_budget :: "'w seams \<Rightarrow> 'w turn \<Rightarrow> 'w flow" where
  "stage_budget sm t =
     (let remaining = tn_window t - tn_used t;
          figure = show_nat (tn_used t) @ ''/'' @ show_nat (tn_window t);
          compact = (\<lambda>trigger.
            (case compact_turn sm trigger (t\<lparr>tn_compacted := True\<rparr>) of
               (None, t1) \<Rightarrow> Again t1
             | (Some cause, t1) \<Rightarrow>
                 if trigger = TBlocking
                 then fail_turn cause ''compact.failed'' ''blocking compaction failed'' t1
                 else Go (warn (''auto compaction failed, continuing: '' @ cause) t1)));
          low = (\<lambda>trigger.
            if tn_compacted t then
              Go (if tn_warned t then t
                  else warn (''context still near limit after compaction: '' @ figure @ '' tokens'')
                         (t\<lparr>tn_warned := True\<rparr>))
            else compact trigger)
      in case check_budget remaining of
           BudgetOk \<Rightarrow> Go t
         | BudgetWarn \<Rightarrow>
             Go (if tn_warned t then t
                 else warn (''context near limit: '' @ figure @ '' tokens used'') (t\<lparr>tn_warned := True\<rparr>))
         | AutoCompact \<Rightarrow> low TAuto
         | BudgetBlocking \<Rightarrow> low TBlocking)"

text \<open>Model-requested compactions: the first grant of a batch supersedes the rest.\<close>

fun review_requests ::
    "'w seams \<Rightarrow> run_config \<Rightarrow> bool \<Rightarrow> string list \<Rightarrow> 'w turn \<Rightarrow> bool \<times> 'w turn" where
  "review_requests sm cfg granted [] t = (granted, t)"
| "review_requests sm cfg granted (reason # rest) t =
     (let deny = (\<lambda>m t. t\<lparr>tn_denials := tn_denials t @ [m]\<rparr>)
      in if granted then
           review_requests sm cfg True rest (deny
             (''compaction request denied: superseded by an earlier granted request in this batch ('' @
              reason @ '')'') t)
         else (case review_model_compact cfg (tn_grants t) (tn_used t) (tn_window t) (tn_compacted t) of
             Inl why \<Rightarrow> review_requests sm cfg False rest (deny (''compaction request denied: '' @ why) t)
           | Inr _ \<Rightarrow>
               (case compact_turn sm TModel t of
                  (None, t1) \<Rightarrow>
                    review_requests sm cfg True rest
                      (t1\<lparr>tn_grants := tn_grants t1 + 1, tn_compacted := True\<rparr>)
                | (Some cause, t1) \<Rightarrow>
                    review_requests sm cfg False rest
                      (deny (''compaction request denied: '' @ cause) t1))))"

definition stage_requests :: "'w seams \<Rightarrow> run_config \<Rightarrow> 'w turn \<Rightarrow> 'w flow" where
  "stage_requests sm cfg t =
     (case (if tn_owns t then sm_requests sm (rt_world (tn_rt t)) else None) of
        None \<Rightarrow> Go t
      | Some reasons \<Rightarrow>
          let t1 = with_rt (\<lambda>s. s\<lparr>rt_world := sm_clear_requests sm (rt_world s)\<rparr>) t
          in (case review_requests sm cfg False reasons t1 of
                (granted, t2) \<Rightarrow>
                  let t3 = (if tn_denials t2 = [] then t2 else warn (join ''; '' (tn_denials t2)) t2)
                  in if granted then Again t3 else Go t3))"

text \<open>Pre-sample steering and injections.\<close>

definition stage_steer_sample :: "'w seams \<Rightarrow> 'w turn \<Rightarrow> 'w flow" where
  "stage_steer_sample sm t =
     (let t1 = (if tn_owns t then
                  (case inbox_take_next_step (sm_inbox sm (rt_world (tn_rt t))) of (steps, ib1) \<Rightarrow>
                     (case inbox_take_injected ib1 of (injected, ib2) \<Rightarrow>
                        apply_steered (steps @ injected) (put_inbox sm ib2 t)))
                else t)
      in Go (if tn_applied t1 > 0
             then warn (''applied '' @ show_nat (tn_applied t1) @ '' steered message(s)'') t1 else t1))"

definition build_request :: "'w seams \<Rightarrow> run_config \<Rightarrow> turn_input \<Rightarrow> 'w turn \<Rightarrow> sample_request" where
  "build_request sm cfg inp t =
     (let w = rt_world (tn_rt t)
      in \<lparr>sr_system = ti_system inp,
          sr_messages = project_images (cv_entries (rt_conv (tn_rt t))) (cf_max_wire_images cfg),
          sr_tools = filter (\<lambda>tool. is_allowed (sm_allowlist sm w) (ti_run_id inp) (tf_name tool))
                       (sm_available_tools sm w),
          sr_output_cap = cf_max_output_tokens cfg,
          sr_notes = sample_notes sm cfg w (tn_used t) (tn_window t) (tn_estimated t)
                       (ts_streak (tn_state t)) (tn_denials t)\<rparr>)"

fun delta_event :: "sample_delta \<Rightarrow> event" where
  "delta_event (DeltaText s) = AgentMessageDelta s"
| "delta_event (DeltaThinking s) = AgentThinkingDelta s"

fun error_code :: "sample_error \<Rightarrow> string" where
  "error_code Timeout = ''provider.timeout''"
| "error_code PromptTooLong = ''context.overflow''"
| "error_code (Transport _) = ''provider.error''"

text \<open>A failed sample: a reactive compaction restarts the loop head, anything else ends the turn.\<close>

definition sample_failed :: "'w seams \<Rightarrow> run_config \<Rightarrow> sample_error \<Rightarrow> 'w turn \<Rightarrow> 'w flow" where
  "sample_failed sm cfg err t =
     (if err = PromptTooLong then
        let t1 = t\<lparr>tn_reactive := tn_reactive t + 1\<rparr>
        in if cf_max_reactive_compacts cfg \<le> tn_reactive t1 then
             fail_turn (''prompt exceeds context window after '' @
               show_nat (cf_max_reactive_compacts cfg) @ '' compactions'')
               ''context.overflow'' ''prompt too long'' t1
           else (case compact_turn sm TReactive t1 of
                   (None, t2) \<Rightarrow> Again t2
                 | (Some cause, t2) \<Rightarrow> fail_turn cause ''compact.failed'' ''reactive compaction failed'' t2)
      else fail_turn (sample_error_text err) (error_code err) (sample_error_text err) t)"

text \<open>The books of a successful sample, and the assistant entry.\<close>

fun block_call_of :: "block \<Rightarrow> tool_call option" where
  "block_call_of (ToolUse i n inp) = Some \<lparr>tc_id = i, tc_name = n, tc_input = inp\<rparr>"
| "block_call_of _ = None"

fun block_prose :: "block \<Rightarrow> string" where
  "block_prose (Text s) = s"
| "block_prose _ = []"

fun kept_block :: "block \<Rightarrow> bool" where
  "kept_block (ToolResult _ _ _ _) = False"
| "kept_block _ = True"

definition absorb_usage :: "sample_response \<Rightarrow> 'w turn \<Rightarrow> 'w turn" where
  "absorb_usage resp t =
     (let st0 = tn_state t;
          st1 = (case sp_output_tokens resp of Some n \<Rightarrow> add_output n st0 | None \<Rightarrow> st0);
          t1 = t\<lparr>tn_reactive := 0, tn_last_input := sp_input_tokens resp,
                 tn_last_output := sp_output_tokens resp\<rparr>;
          t2 = (if sp_input_tokens resp = None
                then warn ''provider returned no token usage for this sample'' t1 else t1)
      in t2\<lparr>tn_state := st1\<lparr>ts_cache_read := sat_add 64 (ts_cache_read st1) (sp_cache_read resp),
                            ts_cache_creation := sat_add 64 (ts_cache_creation st1) (sp_cache_creation resp)\<rparr>\<rparr>)"

definition absorb_blocks :: "sample_response \<Rightarrow> 'w turn \<Rightarrow> 'w turn" where
  "absorb_blocks resp t =
     (let blocks = filter kept_block (sp_blocks resp);
          t1 = (if blocks = [] then t else with_rt (on_conv (push_blocks Assistant blocks)) t)
      in with_rt (emit (AgentMessageComplete (concat (map block_prose (sp_blocks resp))))) t1)"

definition response_calls :: "sample_response \<Rightarrow> tool_call list" where
  "response_calls resp = List.map_filter block_call_of (sp_blocks resp)"

text \<open>No calls: continue a truncated answer, nudge the plan, steer the goal, heed the stop hook,
  or end the turn.\<close>

definition stage_stop_hook :: "'w seams \<Rightarrow> run_config \<Rightarrow> 'w turn \<Rightarrow> 'w flow" where
  "stage_stop_hook sm cfg t =
     (case ask_world (sm_hook sm Stop []) t of
        (report, t1) \<Rightarrow>
          if \<not> hr_allow report \<and> tn_stop_blocks t1 < cf_max_stop_blocks cfg then
            let t2 = t1\<lparr>tn_stop_blocks := tn_stop_blocks t1 + 1\<rparr>;
                reason = (if hr_message report = [] then ''(hook gave no reason)'' else hr_message report)
            in Again (say (''A Stop hook blocked turn completion:'' @ [newline] @ reason) (warn
                 (''Stop hook blocked turn completion ('' @ show_nat (tn_stop_blocks t2) @ ''/'' @
                  show_nat (cf_max_stop_blocks cfg) @ '')'') t2))
          else finish_turn False Completed
            (if hr_allow report \<and> hr_message report \<noteq> [] then warn (hr_message report) t1 else t1))"

definition stage_no_calls :: "'w seams \<Rightarrow> run_config \<Rightarrow> sample_response \<Rightarrow> 'w turn \<Rightarrow> 'w flow" where
  "stage_no_calls sm cfg resp t =
     (let w = rt_world (tn_rt t); unfinished = sm_unfinished sm w
      in if sp_truncated resp \<and> tn_continuations t < cf_max_continuations cfg then
           let t1 = t\<lparr>tn_continuations := tn_continuations t + 1\<rparr>
           in Again (say CONTINUATION_PROMPT (warn
                (''output truncated at max_tokens; continuing ('' @ show_nat (tn_continuations t1) @ ''/'' @
                 show_nat (cf_max_continuations cfg) @ '')'') t1))
         else if unfinished > 0 \<and> tn_nudges t < cf_max_plan_nudges cfg then
           let t1 = t\<lparr>tn_nudges := tn_nudges t + 1\<rparr>
           in Again (say (sm_plan_reminder sm w) (warn
                (''plan has '' @ show_nat unfinished @ '' unfinished items; reminding the model'') t1))
         else if sm_goal_open sm w \<and> tn_goal_continuations t < cf_max_goal_continuations cfg then
           let t1 = t\<lparr>tn_goal_continuations := tn_goal_continuations t + 1\<rparr>
           in Again (goal_nudge sm cfg (warn
                (''session goal still open; continuing ('' @ show_nat (tn_goal_continuations t1) @ ''/'' @
                 show_nat (cf_max_goal_continuations cfg) @ '')'') t1))
         else stage_stop_hook sm cfg t)"

text \<open>The three exits of a batch that is not dispatched.\<close>

definition close_batch ::
    "'w seams \<Rightarrow> tool_call list \<Rightarrow> (tool_call \<Rightarrow> tool_result) \<Rightarrow> tool_outcome \<Rightarrow> 'w turn \<Rightarrow> 'w turn" where
  "close_batch sm calls f outcome t = with_rt (close_undispatched sm calls f outcome) t"

definition settle_interrupted_turn :: "'w seams \<Rightarrow> tool_call list \<Rightarrow> 'w turn \<Rightarrow> 'w flow" where
  "settle_interrupted_turn sm calls t =
     finish_turn True Interrupted (close_batch sm calls interrupted_result OutcomeInterrupted t)"

definition truncated_result :: "tool_call \<Rightarrow> tool_result" where
  "truncated_result c = error_result c
     ''the response hit the output limit before this tool call was fully transmitted; its arguments may be truncated, so it was not executed. Re-issue the tool call with complete arguments.''"

definition refuse_truncated_batch :: "'w seams \<Rightarrow> run_config \<Rightarrow> tool_call list \<Rightarrow> 'w turn \<Rightarrow> 'w flow" where
  "refuse_truncated_batch sm cfg calls t =
     (let t1 = close_batch sm calls truncated_result NotDispatched t
      in if tn_continuations t1 < cf_max_continuations cfg then
           let t2 = t1\<lparr>tn_continuations := tn_continuations t1 + 1\<rparr>
           in Again (warn (''output truncated mid-tool-call; failing the batch and continuing ('' @
                show_nat (tn_continuations t2) @ ''/'' @ show_nat (cf_max_continuations cfg) @ '')'') t2)
         else finish_turn False Completed t1)"

definition refuse_repeat_streak :: "'w seams \<Rightarrow> tool_call list \<Rightarrow> nat \<Rightarrow> 'w turn \<Rightarrow> 'w flow" where
  "refuse_repeat_streak sm calls streak t =
     finish_turn False RepeatBreaker
       (close_batch sm calls (\<lambda>c. error_result c (repeat_handoff streak)) NotDispatched
         (warn (''same tool call repeated '' @ show_nat streak @
                '' times; stopping the turn for a text handoff'') t))"

text \<open>Dispatch of a batch, its results and the hook contexts in history, one more round.\<close>

definition dispatch_round :: "'w seams \<Rightarrow> turn_input \<Rightarrow> tool_call list \<Rightarrow> 'w turn \<Rightarrow> 'w flow" where
  "dispatch_round sm inp calls t =
     (case execute_calls sm (ti_run_id inp) calls (tn_rt t) of ((results, contexts), s) \<Rightarrow>
        let t1 = t\<lparr>tn_rt := push_results sm results s\<rparr>;
            t2 = (if contexts = [] then t1 else say (join [newline, newline] contexts) t1)
        in Again (t2\<lparr>tn_state := bump_tool_round (tn_state t2)\<rparr>))"

definition repeat_warning :: "run_config \<Rightarrow> nat \<Rightarrow> 'w turn \<Rightarrow> 'w turn" where
  "repeat_warning cfg streak t =
     (if REPEAT_REMINDER_AT ! 0 \<le> streak then
        warn (''same tool call repeated '' @ show_nat streak @
              '' times; the repeat note rides this sample'' @ [quote_char] @ ''s notes ('' @
              show_nat (repeat_level streak) @ ''/'' @ show_nat (cf_max_repeat_streak cfg) @ '')'') t
      else t)"

definition stage_calls ::
    "'w seams \<Rightarrow> run_config \<Rightarrow> turn_input \<Rightarrow> sample_response \<Rightarrow> tool_call list \<Rightarrow> 'w turn \<Rightarrow> 'w flow" where
  "stage_calls sm cfg inp resp calls t =
     (case ask_world (sm_interrupted sm) t of
        (stopped, t1) \<Rightarrow>
          if stopped then settle_interrupted_turn sm calls t1
          else if sp_truncated resp then refuse_truncated_batch sm cfg calls t1
          else if cf_max_repeat_streak cfg = 0 then dispatch_round sm inp calls t1
          else (case note_call_signature (tool_call_signature (sm_render sm) calls) (tn_state t1) of
                  (streak, st) \<Rightarrow>
                    let t2 = t1\<lparr>tn_state := st\<rparr>
                    in if cf_max_repeat_streak cfg \<le> streak then refuse_repeat_streak sm calls streak t2
                       else dispatch_round sm inp calls (repeat_warning cfg streak t2)))"

text \<open>One sample and what follows from it.\<close>

definition stage_sample :: "'w seams \<Rightarrow> run_config \<Rightarrow> turn_input \<Rightarrow> 'w turn \<Rightarrow> 'w flow" where
  "stage_sample sm cfg inp t =
     (case ask_world (sm_sample sm (build_request sm cfg inp t)) t of
        ((deltas, outcome), t1) \<Rightarrow>
          let t2 = with_rt (fold emit (map delta_event deltas)) t1
          in case outcome of
               Inl err \<Rightarrow> sample_failed sm cfg err t2
             | Inr resp \<Rightarrow>
                 let t3 = absorb_blocks resp (absorb_usage resp t2); calls = response_calls resp
                 in if calls = [] then stage_no_calls sm cfg resp t3
                    else stage_calls sm cfg inp resp calls t3)"

definition turn_step :: "'w seams \<Rightarrow> run_config \<Rightarrow> turn_input \<Rightarrow> 'w turn \<Rightarrow> 'w flow" where
  "turn_step sm cfg inp t =
     and_then (and_then (and_then (and_then (and_then (and_then (and_then
       (stage_head sm cfg t)
       (stage_steer_head sm))
       (stage_used sm))
       (stage_ceiling sm cfg))
       (stage_budget sm))
       (stage_requests sm cfg))
       (stage_steer_sample sm))
       (stage_sample sm cfg inp)"

section \<open>Progress\<close>

text \<open>What one turn can still spend. The round budget counts every re-armed ceiling.\<close>

definition round_budget :: "run_config \<Rightarrow> turn_state \<Rightarrow> nat" where
  "round_budget cfg st = cf_max_tool_rounds cfg * (max (ts_rearms st) (cf_max_goal_rearms cfg) + 1)"

definition spend_left :: "run_config \<Rightarrow> 'w turn \<Rightarrow> nat" where
  "spend_left cfg t =
     (round_budget cfg (tn_state t) - ts_rounds (tn_state t)) +
     (cf_max_goal_rearms cfg - ts_rearms (tn_state t)) +
     (cf_max_continuations cfg - tn_continuations t) +
     (cf_max_plan_nudges cfg - tn_nudges t) +
     (cf_max_goal_continuations cfg - tn_goal_continuations t) +
     (cf_max_stop_blocks cfg - tn_stop_blocks t) +
     (if tn_compacted t then 0 else 1)"

definition turn_order :: "run_config \<Rightarrow> ('w turn \<times> 'w turn) set" where
  "turn_order cfg = measures [spend_left cfg, \<lambda>t. cf_max_reactive_compacts cfg - tn_reactive t]"

text \<open>The counters the measure reads.\<close>

definition counters :: "'w turn \<Rightarrow> turn_state \<times> nat \<times> nat \<times> nat \<times> nat \<times> bool \<times> nat" where
  "counters t = (tn_state t, tn_continuations t, tn_nudges t, tn_goal_continuations t,
     tn_stop_blocks t, tn_compacted t, tn_reactive t)"

lemma spend_left_counters:
  "counters t = counters t' \<Longrightarrow> spend_left cfg t = spend_left cfg t' \<and> tn_reactive t = tn_reactive t'"
  by (simp add: counters_def spend_left_def)

lemma counters_frame [frame_simps]:
  "counters (with_rt f t) = counters t" "counters (warn m t) = counters t" "counters (say m t) = counters t"
  "counters (settle t) = counters t" "counters (put_inbox sm ib t) = counters t"
  "counters (goal_nudge sm cfg t) = counters t" "counters (close_batch sm cs g kd t) = counters t"
  by (simp_all add: counters_def with_rt_def warn_def say_def settle_def put_inbox_def goal_nudge_def
      close_batch_def Let_def split: option.split)

lemma counters_updates [frame_simps]:
  "counters (t\<lparr>tn_warned := b\<rparr>) = counters t" "counters (t\<lparr>tn_applied := n\<rparr>) = counters t"
  "counters (t\<lparr>tn_denials := ds\<rparr>) = counters t" "counters (t\<lparr>tn_rt := s\<rparr>) = counters t"
  "counters (t\<lparr>tn_grants := n\<rparr>) = counters t" "counters (t\<lparr>tn_used := n\<rparr>) = counters t"
  "counters (t\<lparr>tn_window := n\<rparr>) = counters t" "counters (t\<lparr>tn_cache := ec\<rparr>) = counters t"
  by (simp_all add: counters_def)

lemma counters_fold_say [frame_simps]: "counters (fold say ms t) = counters t"
  by (induction ms arbitrary: t) (simp_all add: frame_simps)

lemma counters_ask_world: "ask_world f t = (a, t') \<Longrightarrow> counters t' = counters t"
  by (auto simp: ask_world_def counters_def split: prod.splits)

lemma counters_compact: "compact_turn sm trigger t = (r, t') \<Longrightarrow> counters t' = counters t"
  by (auto simp: compact_turn_def counters_def split: prod.splits)

lemma counters_fields:
  "counters t = counters t' \<longleftrightarrow>
     tn_state t = tn_state t' \<and> tn_continuations t = tn_continuations t' \<and> tn_nudges t = tn_nudges t' \<and>
     tn_goal_continuations t = tn_goal_continuations t' \<and> tn_stop_blocks t = tn_stop_blocks t' \<and>
     tn_compacted t = tn_compacted t' \<and> tn_reactive t = tn_reactive t'"
  by (auto simp: counters_def)

definition spends :: "run_config \<Rightarrow> 'w turn \<Rightarrow> 'w turn \<Rightarrow> bool" where
  "spends cfg t' t \<longleftrightarrow> (t', t) \<in> turn_order cfg"

definition keeps :: "run_config \<Rightarrow> 'w turn \<Rightarrow> 'w turn \<Rightarrow> bool" where
  "keeps cfg t' t \<longleftrightarrow> tn_state t' = tn_state t \<and>
     (spend_left cfg t' < spend_left cfg t \<or>
      (spend_left cfg t' = spend_left cfg t \<and> tn_reactive t' = tn_reactive t))"

fun stage_ok :: "run_config \<Rightarrow> 'w turn \<Rightarrow> 'w flow \<Rightarrow> bool" where
  "stage_ok cfg t (Go t') = keeps cfg t' t"
| "stage_ok cfg t (Again t') = spends cfg t' t"
| "stage_ok cfg t (Finish r t') = True"

lemma spends_iff:
  "spends cfg t' t \<longleftrightarrow> spend_left cfg t' < spend_left cfg t \<or>
     (spend_left cfg t' = spend_left cfg t \<and>
      cf_max_reactive_compacts cfg - tn_reactive t' < cf_max_reactive_compacts cfg - tn_reactive t)"
  by (simp add: spends_def turn_order_def)

lemma keeps_counters: "counters t' = counters t \<Longrightarrow> keeps cfg t' t"
  using spend_left_counters [of t' t cfg] by (simp add: keeps_def counters_fields)

lemma keeps_trans: "keeps cfg t3 t2 \<Longrightarrow> keeps cfg t2 t1 \<Longrightarrow> keeps cfg t3 t1"
  by (auto simp: keeps_def)

lemma spends_keeps: "spends cfg t3 t2 \<Longrightarrow> keeps cfg t2 t1 \<Longrightarrow> spends cfg t3 t1"
  by (auto simp: keeps_def spends_iff)

lemma spends_counters: "counters t' = counters t'' \<Longrightarrow> spends cfg t'' t \<Longrightarrow> spends cfg t' t"
  using spend_left_counters [of t' t'' cfg] by (auto simp: spends_iff)

lemma stage_ok_then:
  assumes "stage_ok cfg t x" and "\<And>t'. x = Go t' \<Longrightarrow> stage_ok cfg t' (f t')"
  shows "stage_ok cfg t (and_then x f)"
proof (cases x)
  case (Go t')
  with assms have "keeps cfg t' t" and "stage_ok cfg t' (f t')" by simp_all
  with Go show ?thesis
    by (cases "f t'") (auto intro: keeps_trans spends_keeps)
qed (use assms in simp_all)

lemma stage_ok_finish [simp]:
  "stage_ok cfg t (finish_turn i r t1)" "stage_ok cfg t (fail_turn m c rs t1)"
  by (simp_all add: finish_turn_def fail_turn_def)

lemma stage_head_ok: "stage_ok cfg t (stage_head sm cfg t)"
proof -
  let ?t = "t\<lparr>tn_window := effective_window sm cfg (rt_world (tn_rt t)), tn_applied := 0, tn_denials := []\<rparr>"
  obtain stopped t1 where h: "ask_world (sm_interrupted sm) ?t = (stopped, t1)"
    by (cases "ask_world (sm_interrupted sm) ?t")
  have "counters t1 = counters t"
    using counters_ask_world [OF h] by (simp add: counters_def)
  then show ?thesis
    by (simp add: stage_head_def h Let_def keeps_counters)
qed

lemma counters_apply_steered [frame_simps]: "counters (apply_steered ms t) = counters t"
proof -
  have "counters (u\<lparr>tn_applied := n\<rparr>) = counters u" for u :: "'a turn" and n
    by (simp add: counters_def)
  then show ?thesis by (simp add: apply_steered_def frame_simps)
qed

lemma stage_steer_head_ok: "stage_ok cfg t (stage_steer_head sm t)"
  by (auto simp: stage_steer_head_def frame_simps inbox_take_next_turn_def Let_def
      split: option.split intro!: keeps_counters)

lemma stage_used_ok: "stage_ok cfg t (stage_used sm t)"
  by (auto simp: stage_used_def Let_def counters_def split: option.split prod.split intro!: keeps_counters)

lemma stage_steer_sample_ok: "stage_ok cfg t (stage_steer_sample sm t)"
  by (auto simp: stage_steer_sample_def frame_simps inbox_take_next_step_def inbox_take_injected_def
      Let_def intro!: keeps_counters)

lemma stage_ceiling_ok:
  "stage_ok cfg t (stage_ceiling sm cfg t)"
  "stage_ceiling sm cfg t = Go t' \<Longrightarrow> ts_rounds (tn_state t') < round_ceiling cfg (tn_state t')"
proof -
  have "spends cfg t' t" if t': "t' = t\<lparr>tn_state := (tn_state t)\<lparr>ts_rearms := ts_rearms (tn_state t) + 1\<rparr>\<rparr>"
    and lt: "ts_rearms (tn_state t) < cf_max_goal_rearms cfg" for t'
  proof -
    have same: "tn_continuations t' = tn_continuations t" "tn_nudges t' = tn_nudges t"
      "tn_goal_continuations t' = tn_goal_continuations t" "tn_stop_blocks t' = tn_stop_blocks t"
      "tn_compacted t' = tn_compacted t" "ts_rounds (tn_state t') = ts_rounds (tn_state t)"
      "round_budget cfg (tn_state t') = round_budget cfg (tn_state t)"
      using lt by (simp_all add: t' round_budget_def max_def)
    have "cf_max_goal_rearms cfg - ts_rearms (tn_state t') < cf_max_goal_rearms cfg - ts_rearms (tn_state t)"
      using lt by (simp add: t' diff_less_mono2)
    then show ?thesis
      unfolding spends_iff spend_left_def same by linarith
  qed
  then show "stage_ok cfg t (stage_ceiling sm cfg t)"
    by (auto simp: stage_ceiling_def frame_simps Let_def intro: keeps_counters spends_counters)
  show "stage_ceiling sm cfg t = Go t' \<Longrightarrow> ts_rounds (tn_state t') < round_ceiling cfg (tn_state t')"
    by (auto simp: stage_ceiling_def rounds_exhausted_def finish_turn_def Let_def split: if_splits)
qed

lemma spend_compacted:
  "\<not> tn_compacted t \<Longrightarrow> counters t' = counters (t\<lparr>tn_compacted := True\<rparr>) \<Longrightarrow>
     spend_left cfg t' < spend_left cfg t \<and> tn_state t' = tn_state t"
  by (simp add: spend_left_def counters_fields)

lemma warn_spend [simp]:
  "spend_left cfg (warn m t) = spend_left cfg t" "tn_state (warn m t) = tn_state t"
  "tn_reactive (warn m t) = tn_reactive t"
  by (simp_all add: warn_def with_rt_def spend_left_def)

lemma budget_compact_ok:
  assumes "\<not> tn_compacted t"
  shows "stage_ok cfg t (case compact_turn sm trigger (t\<lparr>tn_compacted := True\<rparr>) of
      (None, t1) \<Rightarrow> Again t1
    | (Some cause, t1) \<Rightarrow>
        if trigger = TBlocking then fail_turn cause code why t1 else Go (warn (pre @ cause) t1))"
proof -
  obtain r t1 where h: "compact_turn sm trigger (t\<lparr>tn_compacted := True\<rparr>) = (r, t1)"
    by (cases "compact_turn sm trigger (t\<lparr>tn_compacted := True\<rparr>)")
  have "spend_left cfg t1 < spend_left cfg t \<and> tn_state t1 = tn_state t"
    using spend_compacted [OF assms counters_compact [OF h]] .
  then show ?thesis
    by (cases r) (simp_all add: h spends_iff keeps_def)
qed

lemma stage_budget_ok: "stage_ok cfg t (stage_budget sm t)"
proof -
  have warned: "keeps cfg (warn m (t\<lparr>tn_warned := True\<rparr>)) t" for m
    by (rule keeps_counters) (simp add: frame_simps)
  have same: "keeps cfg t t"
    by (rule keeps_counters) simp
  show ?thesis
    using budget_compact_ok [where t = t and trigger = TAuto] budget_compact_ok [where t = t and trigger = TBlocking]
    by (cases "check_budget (tn_window t - tn_used t)"; cases "tn_compacted t")
      (simp_all add: stage_budget_def Let_def warned same)
qed

lemma review_requests_ok:
  "review_requests sm cfg granted reasons t = (g, t') \<Longrightarrow> (granted \<longrightarrow> tn_compacted t) \<Longrightarrow>
     tn_state t' = tn_state t \<and>
     (counters t' = counters t \<and> g = granted \<or>
      g \<and> \<not> tn_compacted t \<and> counters t' = counters (t\<lparr>tn_compacted := True\<rparr>))"
proof (induction sm cfg granted reasons t arbitrary: g t' rule: review_requests.induct)
  case (1 sm cfg granted t)
  then show ?case by simp
next
  case (2 sm cfg granted reason rest t)
  have denied: "tn_compacted (t\<lparr>tn_denials := d\<rparr>) = tn_compacted t"
    "tn_state (t\<lparr>tn_denials := d\<rparr>) = tn_state t" for t :: "'a turn" and d
    by simp_all
  have again: "counters u = counters v \<Longrightarrow>
      counters (u\<lparr>tn_compacted := True\<rparr>) = counters (v\<lparr>tn_compacted := True\<rparr>) \<and>
      tn_compacted u = tn_compacted v \<and> tn_state u = tn_state v" for u v :: "'a turn"
    by (simp add: counters_fields)
  show ?case
  proof (cases granted)
    case True
    from 2(1) [OF refl True, of g t'] 2(5,6) True show ?thesis
      by (simp add: Let_def frame_simps)
  next
    case False
    show ?thesis
    proof (cases "review_model_compact cfg (tn_grants t) (tn_used t) (tn_window t) (tn_compacted t)")
      case (Inl why)
      define t1 where "t1 = t\<lparr>tn_denials := tn_denials t @ [''compaction request denied: '' @ why]\<rparr>"
      have "counters t1 = counters t" by (simp add: t1_def frame_simps)
      with 2(2) [OF refl False Inl, of g t'] 2(5) False Inl again [of t1 t] show ?thesis
        by (simp add: Let_def t1_def)
    next
      case (Inr u)
      then have nc: "\<not> tn_compacted t"
        by (auto simp: review_model_compact_def split: if_splits)
      obtain r t1 where c: "compact_turn sm TModel t = (r, t1)"
        by (cases "compact_turn sm TModel t")
      note ct = counters_compact [OF c]
      show ?thesis
      proof (cases r)
        case None
        define t2 where "t2 = t1\<lparr>tn_grants := tn_grants t1 + 1, tn_compacted := True\<rparr>"
        have t2: "counters t2 = counters (t\<lparr>tn_compacted := True\<rparr>)" "tn_compacted t2" "tn_state t2 = tn_state t"
          using ct by (simp_all add: t2_def counters_fields)
        from c None have c': "compact_turn sm TModel t = (None, t1)" by simp
        have "review_requests sm cfg True rest t2 = (g, t')"
          using 2(5) False Inr c None by (simp add: t2_def Let_def)
        with 2(3) [OF refl False Inr c'[symmetric] refl, of g t'] t2 nc show ?thesis
          by (simp add: t2_def)
      next
        case (Some cause)
        define t2 where "t2 = t1\<lparr>tn_denials := tn_denials t1 @ [''compaction request denied: '' @ cause]\<rparr>"
        have t2: "counters t2 = counters t" using ct by (simp add: t2_def frame_simps)
        from c Some have c': "compact_turn sm TModel t = (Some cause, t1)" by simp
        have "review_requests sm cfg False rest t2 = (g, t')"
          using 2(5) False Inr c Some by (simp add: t2_def Let_def)
        with 2(4) [OF refl False Inr c'[symmetric] refl, of g t'] t2 again [OF t2] False show ?thesis
          by (simp add: t2_def)
      qed
    qed
  qed
qed

lemma stage_requests_ok: "stage_ok cfg t (stage_requests sm cfg t)"
proof (cases "if tn_owns t then sm_requests sm (rt_world (tn_rt t)) else None")
  case None
  then show ?thesis by (simp add: stage_requests_def keeps_counters)
next
  case (Some reasons)
  define t1 where "t1 = with_rt (\<lambda>s. s\<lparr>rt_world := sm_clear_requests sm (rt_world s)\<rparr>) t"
  obtain g t2 where r: "review_requests sm cfg False reasons t1 = (g, t2)"
    by (cases "review_requests sm cfg False reasons t1")
  define t3 where "t3 = (if tn_denials t2 = [] then t2 else warn (join ''; '' (tn_denials t2)) t2)"
  have t1: "counters t1 = counters t" by (simp add: t1_def frame_simps)
  have t3: "counters t3 = counters t2" by (simp add: t3_def frame_simps)
  have eq: "stage_requests sm cfg t = (if g then Again t3 else Go t3)"
    by (simp add: stage_requests_def Some t1_def [symmetric] r t3_def Let_def)
  show ?thesis
  proof (cases g)
    case True
    with review_requests_ok [OF r] have "\<not> tn_compacted t1" "counters t2 = counters (t1\<lparr>tn_compacted := True\<rparr>)"
      by auto
    then have "\<not> tn_compacted t" "counters t3 = counters (t\<lparr>tn_compacted := True\<rparr>)"
      using t1 t3 by (simp_all add: counters_fields)
    from spend_compacted [OF this] show ?thesis
      using True eq by (simp add: spends_iff)
  next
    case False
    with review_requests_ok [OF r] have "counters t3 = counters t"
      using t1 t3 by auto
    then show ?thesis using False eq by (simp add: keeps_counters)
  qed
qed

lemma sample_failed_ok: "stage_ok cfg t (sample_failed sm cfg err t)"
proof -
  define t1 where "t1 = t\<lparr>tn_reactive := tn_reactive t + 1\<rparr>"
  obtain r t2 where c: "compact_turn sm TReactive t1 = (r, t2)"
    by (cases "compact_turn sm TReactive t1")
  have "spends cfg t1 t" if "\<not> cf_max_reactive_compacts cfg \<le> tn_reactive t1"
    using that by (simp add: spends_iff t1_def spend_left_def)
  then have "spends cfg t2 t" if "\<not> cf_max_reactive_compacts cfg \<le> tn_reactive t1"
    using that spends_counters [OF counters_compact [OF c]] by blast
  then show ?thesis
    using c by (auto simp: sample_failed_def t1_def Let_def split: option.split)
qed

text \<open>A successful sample resets the reactive counter, so from here on every restart must spend.\<close>

fun restart_spends :: "run_config \<Rightarrow> 'w turn \<Rightarrow> 'w flow \<Rightarrow> bool" where
  "restart_spends cfg t (Again t') \<longleftrightarrow> spend_left cfg t' < spend_left cfg t"
| "restart_spends cfg t (Go t') \<longleftrightarrow> False"
| "restart_spends cfg t (Finish r t') \<longleftrightarrow> True"

lemma restart_finish [simp]:
  "restart_spends cfg t (finish_turn i r t1)" "restart_spends cfg t (fail_turn m c rs t1)"
  by (simp_all add: finish_turn_def fail_turn_def)

lemma spend_left_frame: "counters t' = counters t'' \<Longrightarrow> spend_left cfg t' = spend_left cfg t''"
  using spend_left_counters by blast

text \<open>One allowance shrinks, the others do not grow.\<close>

definition allowances :: "run_config \<Rightarrow> 'w turn \<Rightarrow> nat list" where
  "allowances cfg t =
     [round_budget cfg (tn_state t) - ts_rounds (tn_state t),
      cf_max_goal_rearms cfg - ts_rearms (tn_state t),
      cf_max_continuations cfg - tn_continuations t,
      cf_max_plan_nudges cfg - tn_nudges t,
      cf_max_goal_continuations cfg - tn_goal_continuations t,
      cf_max_stop_blocks cfg - tn_stop_blocks t,
      if tn_compacted t then 0 else 1]"

lemma spend_left_sum: "spend_left cfg t = sum_list (allowances cfg t)"
  by (simp add: spend_left_def allowances_def)

lemma sum_list_less:
  "list_all2 (\<le>) xs ys \<Longrightarrow> xs \<noteq> ys \<Longrightarrow> sum_list xs < sum_list (ys :: nat list)"
proof (induction rule: list_all2_induct)
  case (Cons x xs y ys)
  have "sum_list xs \<le> sum_list ys"
    using Cons.IH by (cases "xs = ys") auto
  with Cons show ?case by (cases "xs = ys") auto
qed simp

lemma spend_left_less:
  "list_all2 (\<le>) (allowances cfg t') (allowances cfg t) \<Longrightarrow> allowances cfg t' \<noteq> allowances cfg t \<Longrightarrow>
     spend_left cfg t' < spend_left cfg t"
  by (simp add: spend_left_sum sum_list_less)

lemma spend_steps:
  "tn_continuations t < cf_max_continuations cfg \<Longrightarrow>
     spend_left cfg (t\<lparr>tn_continuations := tn_continuations t + 1\<rparr>) < spend_left cfg t"
  "tn_nudges t < cf_max_plan_nudges cfg \<Longrightarrow>
     spend_left cfg (t\<lparr>tn_nudges := tn_nudges t + 1\<rparr>) < spend_left cfg t"
  "tn_goal_continuations t < cf_max_goal_continuations cfg \<Longrightarrow>
     spend_left cfg (t\<lparr>tn_goal_continuations := tn_goal_continuations t + 1\<rparr>) < spend_left cfg t"
  "tn_stop_blocks t < cf_max_stop_blocks cfg \<Longrightarrow>
     spend_left cfg (t\<lparr>tn_stop_blocks := tn_stop_blocks t + 1\<rparr>) < spend_left cfg t"
  by (rule spend_left_less; simp add: allowances_def)+

lemma spend_left_say:
  "spend_left cfg (say m t) = spend_left cfg t" "spend_left cfg (goal_nudge sm cfg' t) = spend_left cfg t"
  by (rule spend_left_frame, simp add: frame_simps)+

lemma stage_stop_hook_ok: "restart_spends cfg t (stage_stop_hook sm cfg t)"
proof -
  obtain report t1 where h: "ask_world (sm_hook sm Stop []) t = (report, t1)"
    by (cases "ask_world (sm_hook sm Stop []) t")
  have t1: "spend_left cfg t1 = spend_left cfg t"
    using counters_ask_world [OF h] by (rule spend_left_frame)
  have "tn_stop_blocks t1 < cf_max_stop_blocks cfg \<Longrightarrow>
     spend_left cfg (t1\<lparr>tn_stop_blocks := tn_stop_blocks t1 + 1\<rparr>) < spend_left cfg t"
    using spend_steps(4) [of t1 cfg] t1 by simp
  then show ?thesis
    by (simp add: stage_stop_hook_def h Let_def spend_left_say)
qed

lemma stage_no_calls_ok: "restart_spends cfg t (stage_no_calls sm cfg resp t)"
  using spend_steps(1-3) [of t cfg] stage_stop_hook_ok [of cfg t sm]
  by (simp add: stage_no_calls_def Let_def spend_left_say)

definition rounds_open :: "run_config \<Rightarrow> 'w turn \<Rightarrow> bool" where
  "rounds_open cfg t \<longleftrightarrow> ts_rounds (tn_state t) < round_ceiling cfg (tn_state t)"

lemma round_spent:
  assumes "rounds_open cfg t"
  shows "spend_left cfg (t\<lparr>tn_state := bump_tool_round (tn_state t)\<rparr>) < spend_left cfg t"
proof -
  let ?st = "tn_state t"
  have lt: "ts_rounds ?st < cf_max_tool_rounds cfg * (ts_rearms ?st + 1)" "ts_rounds ?st < max_of 32"
    using assms by (auto simp: rounds_open_def round_ceiling_def sat_mul_def)
  have "ts_rounds (bump_tool_round ?st) = ts_rounds ?st + 1"
    using lt(2) by (simp add: bump_tool_round_def sat_add_def)
  moreover have "ts_rounds ?st < round_budget cfg ?st"
    using lt(1) unfolding round_budget_def
    by (meson add_le_mono1 max.cobounded1 mult_le_mono2 order_less_le_trans)
  moreover have "round_budget cfg (bump_tool_round ?st) = round_budget cfg ?st"
    "ts_rearms (bump_tool_round ?st) = ts_rearms ?st"
    by (simp_all add: round_budget_def bump_tool_round_def)
  ultimately show ?thesis
    by (intro spend_left_less) (simp_all add: allowances_def)
qed

lemma spend_left_state_frame:
  "ts_rounds st = ts_rounds (tn_state t) \<Longrightarrow> ts_rearms st = ts_rearms (tn_state t) \<Longrightarrow>
     spend_left cfg (t\<lparr>tn_state := st\<rparr>) = spend_left cfg t \<and>
     (rounds_open cfg (t\<lparr>tn_state := st\<rparr>) = rounds_open cfg t)"
  by (simp add: spend_left_def round_budget_def rounds_open_def round_ceiling_def)

lemma rounds_open_frame: "counters t' = counters t \<Longrightarrow> rounds_open cfg t' = rounds_open cfg t"
  by (simp add: rounds_open_def counters_fields)

lemma dispatch_round_ok:
  assumes "rounds_open cfg t"
  shows "restart_spends cfg t (dispatch_round sm inp calls t)"
proof -
  obtain results contexts s where h: "execute_calls sm (ti_run_id inp) calls (tn_rt t) = ((results, contexts), s)"
    by (metis surj_pair)
  define t2 where "t2 = (if contexts = [] then t\<lparr>tn_rt := push_results sm results s\<rparr>
      else say (join [newline, newline] contexts) (t\<lparr>tn_rt := push_results sm results s\<rparr>))"
  have "counters t2 = counters t" by (simp add: t2_def frame_simps)
  then have "rounds_open cfg t2" and "spend_left cfg t2 = spend_left cfg t"
    using assms rounds_open_frame spend_left_frame by blast+
  with round_spent [of cfg t2] show ?thesis
    by (simp add: dispatch_round_def h t2_def Let_def)
qed

lemma refuse_truncated_ok: "restart_spends cfg t (refuse_truncated_batch sm cfg calls t)"
proof -
  define t1 where "t1 = close_batch sm calls truncated_result NotDispatched t"
  have "counters t1 = counters t" by (simp add: t1_def frame_simps)
  then have "spend_left cfg t1 = spend_left cfg t" by (rule spend_left_frame)
  with spend_steps(1) [of t1 cfg] show ?thesis
    by (simp add: refuse_truncated_batch_def t1_def [symmetric] Let_def)
qed

lemma stage_calls_ok:
  assumes "rounds_open cfg t"
  shows "restart_spends cfg t (stage_calls sm cfg inp resp calls t)"
proof -
  obtain stopped t1 where h: "ask_world (sm_interrupted sm) t = (stopped, t1)"
    by (cases "ask_world (sm_interrupted sm) t")
  have t1: "rounds_open cfg t1" "spend_left cfg t1 = spend_left cfg t"
    using assms counters_ask_world [OF h] rounds_open_frame spend_left_frame by blast+
  obtain streak st where n: "note_call_signature (tool_call_signature (sm_render sm) calls) (tn_state t1) = (streak, st)"
    by (cases "note_call_signature (tool_call_signature (sm_render sm) calls) (tn_state t1)")
  then have "ts_rounds st = ts_rounds (tn_state t1)" "ts_rearms st = ts_rearms (tn_state t1)"
    by (auto simp: note_call_signature_def Let_def)
  note st = spend_left_state_frame [OF this, of cfg]
  define t2 where "t2 = repeat_warning cfg streak (t1\<lparr>tn_state := st\<rparr>)"
  have "counters t2 = counters (t1\<lparr>tn_state := st\<rparr>)"
    by (simp add: t2_def repeat_warning_def frame_simps)
  then have t2: "rounds_open cfg t2" "spend_left cfg t2 = spend_left cfg t"
    using st t1 rounds_open_frame spend_left_frame by (metis, metis)
  have tr: "restart_spends cfg t (refuse_truncated_batch sm cfg calls t1)"
    using refuse_truncated_ok [of cfg t1 sm calls] t1(2)
    by (cases "refuse_truncated_batch sm cfg calls t1") simp_all
  have dr: "restart_spends cfg t (dispatch_round sm inp calls u)"
    if "rounds_open cfg u" "spend_left cfg u = spend_left cfg t" for u
    using dispatch_round_ok [OF that(1), of sm inp calls] that(2)
    by (cases "dispatch_round sm inp calls u") simp_all
  show ?thesis
    using tr dr [OF t1] dr [OF t2]
    by (simp add: stage_calls_def h n settle_interrupted_turn_def refuse_repeat_streak_def t2_def Let_def)
qed

lemma counters_with_rt_emits: "counters (with_rt f t) = counters t"
  by (simp add: frame_simps)

lemma absorb_ok:
  assumes "rounds_open cfg t"
  shows "rounds_open cfg (absorb_blocks resp (absorb_usage resp t)) \<and>
    spend_left cfg (absorb_blocks resp (absorb_usage resp t)) = spend_left cfg t"
proof -
  define u where "u = absorb_usage resp t"
  have "tn_continuations u = tn_continuations t" "tn_nudges u = tn_nudges t"
    "tn_goal_continuations u = tn_goal_continuations t" "tn_stop_blocks u = tn_stop_blocks t"
    "tn_compacted u = tn_compacted t" "ts_rounds (tn_state u) = ts_rounds (tn_state t)"
    "ts_rearms (tn_state u) = ts_rearms (tn_state t)"
    by (simp_all add: u_def absorb_usage_def Let_def warn_def with_rt_def add_output_def split: option.split)
  then have "rounds_open cfg u" "spend_left cfg u = spend_left cfg t"
    using assms by (simp_all add: rounds_open_def round_ceiling_def spend_left_def round_budget_def)
  moreover have "counters (absorb_blocks resp u) = counters u"
    by (simp add: absorb_blocks_def Let_def frame_simps)
  ultimately show ?thesis
    unfolding u_def using rounds_open_frame spend_left_frame by metis
qed

lemma stage_sample_ok:
  assumes "rounds_open cfg t"
  shows "stage_ok cfg t (stage_sample sm cfg inp t) \<and> (\<forall>t'. stage_sample sm cfg inp t \<noteq> Go t')"
proof -
  obtain deltas outcome t1 where h: "ask_world (sm_sample sm (build_request sm cfg inp t)) t = ((deltas, outcome), t1)"
    by (metis surj_pair)
  define t2 where "t2 = with_rt (fold emit (map delta_event deltas)) t1"
  have c2: "counters t2 = counters t"
    using counters_ask_world [OF h] by (simp add: t2_def frame_simps)
  have k2: "keeps cfg t2 t" and o2: "rounds_open cfg t2" and l2: "spend_left cfg t2 = spend_left cfg t"
    using c2 assms keeps_counters rounds_open_frame spend_left_frame by blast+
  show ?thesis
  proof (cases outcome)
    case (Inl err)
    have "stage_sample sm cfg inp t = sample_failed sm cfg err t2"
      by (simp add: stage_sample_def h Inl t2_def Let_def)
    moreover have "\<forall>t'. sample_failed sm cfg err t2 \<noteq> Go t'"
      by (auto simp: sample_failed_def fail_turn_def Let_def split: prod.split option.split)
    ultimately show ?thesis
      using sample_failed_ok [of cfg t2 sm err] k2
      by (cases "sample_failed sm cfg err t2") (auto intro: spends_keeps)
  next
    case (Inr resp)
    define t3 where "t3 = absorb_blocks resp (absorb_usage resp t2)"
    have t3: "rounds_open cfg t3" "spend_left cfg t3 = spend_left cfg t"
      using absorb_ok [OF o2, of resp] l2 by (simp_all add: t3_def)
    have "stage_sample sm cfg inp t = (if response_calls resp = [] then stage_no_calls sm cfg resp t3
        else stage_calls sm cfg inp resp (response_calls resp) t3)"
      by (simp add: stage_sample_def h Inr t2_def t3_def Let_def)
    then have "restart_spends cfg t3 (stage_sample sm cfg inp t)"
      using stage_no_calls_ok [of cfg t3 sm resp] stage_calls_ok [OF t3(1), of sm inp resp "response_calls resp"]
      by (simp split: if_split)
    then show ?thesis
      using t3(2) by (cases "stage_sample sm cfg inp t") (auto simp: spends_iff)
  qed
qed

text \<open>Every stage up to the sample leaves the counters of the round gate alone.\<close>

lemma rounds_open_keeps: "keeps cfg t' t \<Longrightarrow> rounds_open cfg t \<Longrightarrow> rounds_open cfg t'"
  by (simp add: keeps_def rounds_open_def)

lemma and_then_Go: "and_then x f = Go t \<Longrightarrow> \<exists>u. x = Go u \<and> f u = Go t"
  by (cases x) auto

lemma turn_step_ok:
  "stage_ok cfg t (turn_step sm cfg inp t) \<and> (\<forall>t'. turn_step sm cfg inp t \<noteq> Go t')"
proof -
  define x4 where "x4 = and_then (and_then (and_then (stage_head sm cfg t) (stage_steer_head sm))
      (stage_used sm)) (stage_ceiling sm cfg)"
  have ok4: "stage_ok cfg t x4"
    unfolding x4_def
    by (intro stage_ok_then stage_head_ok stage_steer_head_ok stage_used_ok stage_ceiling_ok)
  have open4: "rounds_open cfg u" if x: "x4 = Go u" for u
    using and_then_Go [OF x [unfolded x4_def]] stage_ceiling_ok(2) unfolding rounds_open_def by blast
  define x7 where "x7 = and_then (and_then (and_then x4 (stage_budget sm)) (stage_requests sm cfg)) (stage_steer_sample sm)"
  have ok7: "stage_ok cfg t x7"
    unfolding x7_def
    by (intro stage_ok_then ok4 stage_budget_ok stage_requests_ok stage_steer_sample_ok)
  have open7: "rounds_open cfg u" if x: "x7 = Go u" for u
  proof -
    from x obtain a b c where abc: "x4 = Go a" "stage_budget sm a = Go b" "stage_requests sm cfg b = Go c"
      "stage_steer_sample sm c = Go u"
      unfolding x7_def by (meson and_then_Go)
    have "keeps cfg b a" "keeps cfg c b" "keeps cfg u c"
      using abc stage_budget_ok [of cfg a sm] stage_requests_ok [of cfg b sm] stage_steer_sample_ok [of cfg c sm]
      by simp_all
    with open4 [OF abc(1)] show ?thesis using rounds_open_keeps by blast
  qed
  have eq: "turn_step sm cfg inp t = and_then x7 (stage_sample sm cfg inp)"
    by (simp add: turn_step_def x7_def x4_def)
  have "stage_ok cfg t (and_then x7 (stage_sample sm cfg inp))"
    by (rule stage_ok_then [OF ok7]) (use stage_sample_ok open7 in blast)
  moreover have "and_then x7 (stage_sample sm cfg inp) \<noteq> Go t'" for t'
    using and_then_Go stage_sample_ok open7 by blast
  ultimately show ?thesis unfolding eq by blast
qed

section \<open>The loop\<close>

function run_loop :: "'w seams \<Rightarrow> run_config \<Rightarrow> turn_input \<Rightarrow> 'w turn \<Rightarrow> stop_reason \<times> 'w turn" where
  "run_loop sm cfg inp t =
     (case turn_step sm cfg inp t of
        Finish reason t' \<Rightarrow> (reason, t')
      | Again t' \<Rightarrow> run_loop sm cfg inp t'
      | Go t' \<Rightarrow> (Completed, t'))"
  by pat_completeness auto
termination
proof (relation "measures [\<lambda>(sm, cfg, inp, t). spend_left cfg t,
    \<lambda>(sm, cfg, inp, t). cf_max_reactive_compacts cfg - tn_reactive t]")
  fix sm cfg inp and t t' :: "'w turn"
  assume "turn_step sm cfg inp t = Again t'"
  with turn_step_ok [of cfg t sm inp] have "spends cfg t' t" by simp
  then show "((sm, cfg, inp, t'), (sm, cfg, inp, t)) \<in> measures [\<lambda>(sm, cfg, inp, t). spend_left cfg t,
    \<lambda>(sm, cfg, inp, t). cf_max_reactive_compacts cfg - tn_reactive t]"
    by (auto simp: spends_iff)
qed simp

declare run_loop.simps [simp del]

definition user_blocks :: "turn_input \<Rightarrow> block list" where
  "user_blocks inp =
     Text (ti_text inp) # map (\<lambda>i. Image (ui_id i) (ui_mime i) (ui_base64 i)) (ti_images inp)"

definition fresh_turn :: "bool \<Rightarrow> nat \<Rightarrow> 'w rt \<Rightarrow> 'w turn" where
  "fresh_turn owns grants s =
     \<lparr>tn_rt = s\<lparr>rt_child_slot := (if owns then None else Some [])\<rparr>, tn_owns = owns, tn_warned = False,
      tn_compacted = False, tn_continuations = 0, tn_nudges = 0, tn_goal_continuations = 0,
      tn_stop_blocks = 0, tn_reactive = 0, tn_state = turn_state_new, tn_last_input = None,
      tn_last_output = None, tn_cache = \<lparr>ec_entries = 0, ec_tokens = 0\<rparr>, tn_grants = grants,
      tn_window = 0, tn_used = 0, tn_estimated = False, tn_applied = 0, tn_denials = []\<rparr>"

text \<open>\<open>run_turn\<close>: the run-scoped interrupt, admission, the user entry, then the loop.\<close>

definition start_session :: "'w seams \<Rightarrow> bool \<Rightarrow> 'w rt \<Rightarrow> 'w rt" where
  "start_session sm owns s =
     (if owns then s\<lparr>rt_world := sm_reset_interrupt sm (sm_clear_stale sm (rt_world s))\<rparr> else s)"

definition admit_input :: "'w seams \<Rightarrow> run_config \<Rightarrow> turn_input \<Rightarrow> 'w rt \<Rightarrow> 'w rt" where
  "admit_input sm cfg inp s =
     (let s1 = on_conv (if ti_images inp = [] then push User (ti_text inp)
                        else push_blocks User (user_blocks inp)) s
      in emit (TurnStarted (serving_model sm cfg (rt_world s1))) s1)"

definition run_turn ::
    "'w seams \<Rightarrow> run_config \<Rightarrow> turn_input \<Rightarrow> nat \<Rightarrow> 'w rt \<Rightarrow> stop_reason \<times> 'w rt \<times> nat" where
  "run_turn sm cfg inp grants s =
     (case on_world (sm_take_run_interrupt sm (ti_run_id inp)) s of (child, s0) \<Rightarrow>
        let owns = \<not> child
        in case on_world (sm_hook sm PromptSubmit (ti_text inp)) (start_session sm owns s0) of
             (admission, s2) \<Rightarrow>
               if \<not> hr_allow admission then
                 (Completed,
                  emit (TurnCompleted False) (emit (ErrorEvent (hr_message admission) True ''hook.blocked'') s2),
                  grants)
               else
                 (case run_loop sm cfg inp (fresh_turn owns grants
                         (admit_input sm cfg inp (warn_nonempty (hr_message admission) s2))) of
                    (reason, t) \<Rightarrow> (reason, tn_rt t, tn_grants t)))"

section \<open>Runs end, and how\<close>

lemma run_loop_last:
  assumes "run_loop sm cfg inp t = (r, t')" and "P t"
    and "\<And>t t'. P t \<Longrightarrow> turn_step sm cfg inp t = Again t' \<Longrightarrow> P t'"
  shows "\<exists>t0. P t0 \<and> turn_step sm cfg inp t0 = Finish r t'"
  using assms
proof (induction sm cfg inp t rule: run_loop.induct)
  case (1 sm cfg inp t)
  show ?case
  proof (cases "turn_step sm cfg inp t")
    case (Finish r0 t0)
    with 1 show ?thesis by (auto simp: run_loop.simps [of sm cfg inp t])
  next
    case (Again t1)
    with 1 show ?thesis by (simp add: run_loop.simps [of sm cfg inp t])
  next
    case (Go t1)
    with turn_step_ok [of cfg t sm inp] show ?thesis by simp
  qed
qed

text \<open>The loop cut off after a number of iterations.\<close>

fun run_bounded ::
    "nat \<Rightarrow> 'w seams \<Rightarrow> run_config \<Rightarrow> turn_input \<Rightarrow> 'w turn \<Rightarrow> (stop_reason \<times> 'w turn) option" where
  "run_bounded 0 sm cfg inp t = None"
| "run_bounded (Suc n) sm cfg inp t =
     (case turn_step sm cfg inp t of
        Finish reason t' \<Rightarrow> Some (reason, t')
      | Again t' \<Rightarrow> run_bounded n sm cfg inp t'
      | Go t' \<Rightarrow> Some (Completed, t'))"

definition steps_left :: "run_config \<Rightarrow> 'w turn \<Rightarrow> nat" where
  "steps_left cfg t =
     spend_left cfg t * (cf_max_reactive_compacts cfg + 1) + (cf_max_reactive_compacts cfg - tn_reactive t)"

lemma steps_left_decrease: "spends cfg t' t \<Longrightarrow> steps_left cfg t' < steps_left cfg t"
proof -
  assume "spends cfg t' t"
  then consider "spend_left cfg t' < spend_left cfg t"
    | "spend_left cfg t' = spend_left cfg t"
      "cf_max_reactive_compacts cfg - tn_reactive t' < cf_max_reactive_compacts cfg - tn_reactive t"
    by (auto simp: spends_iff)
  then show ?thesis
  proof cases
    case 1
    let ?R = "cf_max_reactive_compacts cfg"
    have "(spend_left cfg t' + 1) * (?R + 1) \<le> spend_left cfg t * (?R + 1)"
      using 1 by (intro mult_le_mono1) simp
    then show ?thesis
      unfolding steps_left_def by (simp add: algebra_simps)
  qed (simp add: steps_left_def)
qed

lemma run_bounded_enough:
  "steps_left cfg t < n \<Longrightarrow> run_bounded n sm cfg inp t = Some (run_loop sm cfg inp t)"
proof (induction n arbitrary: t)
  case (Suc n)
  show ?case
  proof (cases "turn_step sm cfg inp t")
    case (Again t')
    with turn_step_ok [of cfg t sm inp] have "steps_left cfg t' < steps_left cfg t"
      by (simp add: steps_left_decrease)
    with Suc Again show ?thesis by (simp add: run_loop.simps [of sm cfg inp t])
  qed (simp_all add: run_loop.simps [of sm cfg inp t])
qed simp

section \<open>The loop invariant: quiet events, paired history\<close>

fun loop_event :: "event \<Rightarrow> bool" where
  "loop_event (TurnCompleted _) = False"
| "loop_event (TurnStarted _) = False"
| "loop_event _ = True"

definition entry_uses :: "history_entry \<Rightarrow> string list" where
  "entry_uses e = List.map_filter use_id (he_blocks e)"

definition entry_results :: "history_entry \<Rightarrow> string list" where
  "entry_results e = List.map_filter result_id (he_blocks e)"

text \<open>Every entry with tool calls is followed at once by the results of exactly those calls.\<close>

fun paired :: "history_entry list \<Rightarrow> bool" where
  "paired [] = True"
| "paired (e # es) =
     ((entry_uses e = [] \<or> (case es of [] \<Rightarrow> False | r # _ \<Rightarrow> entry_results r = entry_uses e)) \<and> paired es)"

lemma paired_append: "paired a \<Longrightarrow> paired b \<Longrightarrow> paired (a @ b)"
proof (induction a rule: paired.induct)
  case (2 e es)
  then show ?case by (cases es) auto
qed simp

lemma paired_snoc: "paired es \<Longrightarrow> entry_uses e = [] \<Longrightarrow> paired (es @ [e])"
  by (rule paired_append) simp_all

lemma paired_snoc2:
  "paired es \<Longrightarrow> entry_results r = entry_uses a \<Longrightarrow> entry_uses r = [] \<Longrightarrow> paired (es @ [a, r])"
  by (rule paired_append) simp_all

definition rt_inv :: "event list \<Rightarrow> 'w rt \<Rightarrow> bool" where
  "rt_inv ev0 s \<longleftrightarrow> (\<exists>es. rt_events s = ev0 @ es \<and> list_all loop_event es) \<and>
     paired (cv_entries (rt_conv s))"

text \<open>The contract of a compactor: the tail it keeps carries no open calls.\<close>

definition compactor_ok :: "'w seams \<Rightarrow> bool" where
  "compactor_ok sm \<longleftrightarrow>
     (\<forall>es trigger w done w'. sm_compact sm es trigger w = (Inr done, w') \<longrightarrow> paired (cp_tail done))"

lemma rt_inv_emit [inv_intros]: "rt_inv ev0 s \<Longrightarrow> loop_event e \<Longrightarrow> rt_inv ev0 (emit e s)"
  by (auto simp: rt_inv_def)

lemma rt_inv_emits: "rt_inv ev0 s \<Longrightarrow> list_all loop_event es \<Longrightarrow> rt_inv ev0 (fold emit es s)"
  by (induction es arbitrary: s) (auto intro: rt_inv_emit)

lemma entry_uses_text [simp]: "entry_uses \<lparr>he_role = r, he_blocks = [Text m]\<rparr> = []"
  by (simp add: entry_uses_def List.map_filter_simps)

lemma rt_inv_push [inv_intros]: "rt_inv ev0 s \<Longrightarrow> rt_inv ev0 (on_conv (push User m) s)"
  by (simp add: rt_inv_def paired_snoc)

lemma rt_inv_world [inv_intros]: "rt_inv ev0 s \<Longrightarrow> rt_inv ev0 (s\<lparr>rt_world := w\<rparr>)"
  by (simp add: rt_inv_def)

lemma rt_inv_slot [inv_intros]: "rt_inv ev0 s \<Longrightarrow> rt_inv ev0 (s\<lparr>rt_child_slot := c\<rparr>)"
  by (simp add: rt_inv_def)

lemma rt_inv_settle [inv_intros]: "rt_inv ev0 s \<Longrightarrow> rt_inv ev0 (on_conv (settle_usage u) s)"
  by (simp add: rt_inv_def)

lemma rt_inv_warn [inv_intros]: "rt_inv ev0 s \<Longrightarrow> rt_inv ev0 (warn_nonempty m s)"
  by (simp add: warn_nonempty_def rt_inv_emit)

lemma rt_inv_on_world: "on_world f s = (a, s') \<Longrightarrow> rt_inv ev0 s \<Longrightarrow> rt_inv ev0 s'"
  by (auto simp: on_world_def rt_inv_def split: prod.splits)

lemma rt_inv_hook [inv_intros]: "rt_inv ev0 s \<Longrightarrow> rt_inv ev0 (run_hook_warn sm point s)"
  by (auto simp: run_hook_warn_def split: prod.split intro!: rt_inv_warn elim: rt_inv_on_world)

lemma rt_inv_land [inv_intros]:
  "rt_inv ev0 s \<Longrightarrow> rt_inv ev0 (on_conv (land_directory_instructions items) s)"
proof (induction items arbitrary: s)
  case Nil
  then show ?case by (simp add: land_directory_instructions_def on_conv_def)
next
  case (Cons item items)
  obtain d c where item: "item = (d, c)" by (cases item)
  define m where "m = wrap_system_reminder
     (''Project instructions from '' @ d @ '':'' @ [newline, newline] @ trim_end c)"
  have "on_conv (land_directory_instructions (item # items)) s =
      on_conv (land_directory_instructions items) (on_conv (push User m) s)"
    by (simp add: item m_def land_directory_instructions_def on_conv_def)
  with Cons.IH [OF rt_inv_push [OF Cons.prems]] show ?case by simp
qed

lemma rt_inv_compact:
  assumes "compactor_ok sm" and "rt_inv ev0 s" and "do_compact sm trigger s = (r, s')"
  shows "rt_inv ev0 s'"
proof -
  define s1 where "s1 = emit (CompactStarted (trigger_name trigger)) (run_hook_warn sm PreCompact s)"
  have s1: "rt_inv ev0 s1"
    unfolding s1_def by (intro inv_intros assms) simp
  obtain x s2 where h: "on_world (sm_compact sm (cv_entries (rt_conv s1)) trigger) s1 = (x, s2)"
    by (cases "on_world (sm_compact sm (cv_entries (rt_conv s1)) trigger) s1")
  have s2: "rt_inv ev0 s2" by (rule rt_inv_on_world [OF h s1])
  show ?thesis
  proof (cases x)
    case (Inl cause)
    with assms(3) h s2 show ?thesis by (simp add: do_compact_def s1_def [symmetric] Let_def)
  next
    case (Inr cpt)
    have tail: "paired (cp_tail cpt)"
    proof -
      have "\<exists>w'. sm_compact sm (cv_entries (rt_conv s1)) trigger (rt_world s1) = (Inr cpt, w')"
        using h Inr by (auto simp: on_world_def split: prod.splits)
      then show ?thesis
        using assms(1) unfolding compactor_ok_def by blast
    qed
    define s3 where "s3 = on_conv (\<lambda>c. settle_usage
        (usage_default\<lparr>u_input := cp_summary_tokens cpt +
          sum_list (map (estimate_entry_tokens (sm_render sm)) (cp_tail cpt)) + CONTEXT_OVERHEAD_TOKENS\<rparr>)
        (replace_history (\<lparr>he_role = User, he_blocks = [Text (cp_summary cpt)]\<rparr> # cp_tail cpt) c)) s2"
    have "rt_inv ev0 s3"
      using s2 tail by (simp add: rt_inv_def s3_def)
    moreover have "s' = run_hook_warn sm PostCompact
        ((emit (CompactCompleted (cp_summary_tokens cpt)) s3)\<lparr>rt_world :=
           sm_note_compacted sm (rt_world (emit (CompactCompleted (cp_summary_tokens cpt)) s3))\<rparr>)"
      using assms(3) h Inr by (simp add: do_compact_def s1_def [symmetric] s3_def Let_def)
    ultimately show ?thesis
      by (auto intro!: inv_intros)
  qed
qed

section \<open>Every stage keeps the invariant\<close>

fun flow_ok :: "event list \<Rightarrow> 'w flow \<Rightarrow> bool" where
  "flow_ok ev0 (Go t) = rt_inv ev0 (tn_rt t)"
| "flow_ok ev0 (Again t) = rt_inv ev0 (tn_rt t)"
| "flow_ok ev0 (Finish r t) =
     (\<exists>s b. tn_rt t = emit (TurnCompleted b) s \<and> rt_inv ev0 s)"

lemma flow_ok_then:
  "flow_ok ev0 x \<Longrightarrow> (\<And>t. rt_inv ev0 (tn_rt t) \<Longrightarrow> flow_ok ev0 (f t)) \<Longrightarrow> flow_ok ev0 (and_then x f)"
  by (cases x) auto

lemma tn_rt_simps [simp]:
  "tn_rt (with_rt f t) = f (tn_rt t)" "tn_rt (warn m t) = emit (Warning m) (tn_rt t)"
  "tn_rt (say m t) = on_conv (push User m) (tn_rt t)"
  by (simp_all add: with_rt_def warn_def say_def)

lemma inv_ask_world: "ask_world f t = (a, t') \<Longrightarrow> rt_inv ev0 (tn_rt t) \<Longrightarrow> rt_inv ev0 (tn_rt t')"
  by (auto simp: ask_world_def split: prod.splits elim: rt_inv_on_world)

lemma inv_compact_turn:
  "compactor_ok sm \<Longrightarrow> compact_turn sm trigger t = (r, t') \<Longrightarrow> rt_inv ev0 (tn_rt t) \<Longrightarrow> rt_inv ev0 (tn_rt t')"
  by (auto simp: compact_turn_def split: prod.splits elim: rt_inv_compact)

lemma inv_settle [inv_intros]: "rt_inv ev0 (tn_rt t) \<Longrightarrow> rt_inv ev0 (tn_rt (settle t))"
  by (auto simp: settle_def Let_def split: option.split intro!: inv_intros)

lemma flow_ok_finish [inv_intros]:
  "rt_inv ev0 (tn_rt t) \<Longrightarrow> flow_ok ev0 (finish_turn i r t)"
  "rt_inv ev0 (tn_rt t) \<Longrightarrow> flow_ok ev0 (fail_turn m c rs t)"
  by (auto simp: finish_turn_def fail_turn_def intro!: exI inv_intros)

lemma inv_warn [inv_intros]: "rt_inv ev0 s \<Longrightarrow> rt_inv ev0 (emit (Warning m) s)"
  by (rule rt_inv_emit) simp_all

lemma inv_goal_nudge [inv_intros]: "rt_inv ev0 (tn_rt t) \<Longrightarrow> rt_inv ev0 (tn_rt (goal_nudge sm cfg t))"
  by (simp add: goal_nudge_def inv_intros)

lemma inv_put_inbox [inv_intros]: "rt_inv ev0 (tn_rt t) \<Longrightarrow> rt_inv ev0 (tn_rt (put_inbox sm ib t))"
  by (simp add: put_inbox_def inv_intros)

lemma inv_fold_say: "rt_inv ev0 (tn_rt t) \<Longrightarrow> rt_inv ev0 (tn_rt (fold say ms t))"
  by (induction ms arbitrary: t) (simp_all add: rt_inv_push)

lemma inv_apply_steered [inv_intros]: "rt_inv ev0 (tn_rt t) \<Longrightarrow> rt_inv ev0 (tn_rt (apply_steered ms t))"
  by (simp add: apply_steered_def inv_fold_say)

lemma flow_stage_head: "rt_inv ev0 (tn_rt t) \<Longrightarrow> flow_ok ev0 (stage_head sm cfg t)"
  by (auto simp: stage_head_def Let_def split: prod.split intro!: inv_intros intro: inv_ask_world)

lemma flow_stage_steer_head: "rt_inv ev0 (tn_rt t) \<Longrightarrow> flow_ok ev0 (stage_steer_head sm t)"
  by (auto simp: stage_steer_head_def inbox_take_next_turn_def Let_def split: option.split intro!: inv_intros)

lemma flow_stage_used: "rt_inv ev0 (tn_rt t) \<Longrightarrow> flow_ok ev0 (stage_used sm t)"
  by (auto simp: stage_used_def Let_def split: option.split prod.split)

lemma flow_stage_ceiling: "rt_inv ev0 (tn_rt t) \<Longrightarrow> flow_ok ev0 (stage_ceiling sm cfg t)"
  by (auto simp: stage_ceiling_def Let_def intro!: inv_intros)

lemma flow_stage_budget:
  assumes "compactor_ok sm" and "rt_inv ev0 (tn_rt t)"
  shows "flow_ok ev0 (stage_budget sm t)"
proof -
  have "flow_ok ev0 (case compact_turn sm trigger (t\<lparr>tn_compacted := True\<rparr>) of
      (None, t1) \<Rightarrow> Again t1
    | (Some cause, t1) \<Rightarrow>
        if trigger = TBlocking then fail_turn cause code why t1 else Go (warn (pre @ cause) t1))"
    for trigger code why pre
    using inv_compact_turn [OF assms(1), of trigger "t\<lparr>tn_compacted := True\<rparr>"] assms(2)
    by (auto split: prod.split option.split intro!: inv_intros)
  from this [of TAuto] this [of TBlocking] show ?thesis
    using assms(2)
    by (cases "check_budget (tn_window t - tn_used t)"; cases "tn_compacted t")
      (simp_all add: stage_budget_def Let_def inv_intros)
qed

lemma inv_review:
  "compactor_ok sm \<Longrightarrow> rt_inv ev0 (tn_rt t) \<Longrightarrow> review_requests sm cfg granted reasons t = (g, t') \<Longrightarrow>
     rt_inv ev0 (tn_rt t')"
proof (induction sm cfg granted reasons t arbitrary: g t' rule: review_requests.induct)
  case (2 sm cfg granted reason rest t)
  obtain r t1 where c: "compact_turn sm TModel t = (r, t1)"
    by (cases "compact_turn sm TModel t")
  have t1: "rt_inv ev0 (tn_rt t1)"
    using 2(5,6) c inv_compact_turn by blast
  show ?case
    using 2 c t1
    by (auto simp: Let_def split: if_splits sum.splits option.splits)
qed simp

lemma flow_stage_requests:
  assumes "compactor_ok sm" and "rt_inv ev0 (tn_rt t)"
  shows "flow_ok ev0 (stage_requests sm cfg t)"
proof (cases "if tn_owns t then sm_requests sm (rt_world (tn_rt t)) else None")
  case None
  with assms(2) show ?thesis by (simp add: stage_requests_def)
next
  case (Some reasons)
  define t1 where "t1 = with_rt (\<lambda>s. s\<lparr>rt_world := sm_clear_requests sm (rt_world s)\<rparr>) t"
  obtain g t2 where r: "review_requests sm cfg False reasons t1 = (g, t2)"
    by (cases "review_requests sm cfg False reasons t1")
  have "rt_inv ev0 (tn_rt t1)" using assms(2) by (simp add: t1_def inv_intros)
  from inv_review [OF assms(1) this r] have "rt_inv ev0 (tn_rt t2)" .
  then show ?thesis
    by (simp add: stage_requests_def Some t1_def [symmetric] r Let_def inv_intros)
qed

lemma flow_stage_steer_sample: "rt_inv ev0 (tn_rt t) \<Longrightarrow> flow_ok ev0 (stage_steer_sample sm t)"
  by (auto simp: stage_steer_sample_def inbox_take_next_step_def inbox_take_injected_def Let_def
      intro!: inv_intros)

lemma flow_sample_failed:
  assumes "compactor_ok sm" and "rt_inv ev0 (tn_rt t)"
  shows "flow_ok ev0 (sample_failed sm cfg err t)"
  using assms(2) inv_compact_turn [OF assms(1), of TReactive "t\<lparr>tn_reactive := tn_reactive t + 1\<rparr>" _ _ ev0]
  by (auto simp: sample_failed_def Let_def split: prod.split option.split intro!: inv_intros)

lemma flow_stage_stop_hook: "rt_inv ev0 (tn_rt t) \<Longrightarrow> flow_ok ev0 (stage_stop_hook sm cfg t)"
  by (auto simp: stage_stop_hook_def Let_def split: prod.split intro!: inv_intros intro: inv_ask_world)

lemma flow_stage_no_calls: "rt_inv ev0 (tn_rt t) \<Longrightarrow> flow_ok ev0 (stage_no_calls sm cfg resp t)"
  by (simp add: stage_no_calls_def Let_def inv_intros flow_stage_stop_hook)

text \<open>Between the assistant entry and the results of its calls.\<close>

definition rt_half :: "event list \<Rightarrow> string list \<Rightarrow> 'w rt \<Rightarrow> bool" where
  "rt_half ev0 ids s \<longleftrightarrow> (\<exists>es. rt_events s = ev0 @ es \<and> list_all loop_event es) \<and>
     (\<exists>es a. cv_entries (rt_conv s) = es @ [a] \<and> paired es \<and> entry_uses a = ids)"

lemma half_emit: "rt_half ev0 ids s \<Longrightarrow> loop_event e \<Longrightarrow> rt_half ev0 ids (emit e s)"
  by (auto simp: rt_half_def)

lemma half_on_world: "on_world f s = (a, s') \<Longrightarrow> rt_half ev0 ids s \<Longrightarrow> rt_half ev0 ids s'"
  by (auto simp: on_world_def rt_half_def split: prod.splits)

lemma half_ask_world: "ask_world f t = (a, t') \<Longrightarrow> rt_half ev0 ids (tn_rt t) \<Longrightarrow> rt_half ev0 ids (tn_rt t')"
  by (auto simp: ask_world_def split: prod.splits elim: half_on_world)

lemma result_blocks_ids:
  "List.map_filter use_id (result_blocks rs now) = []"
  "List.map_filter result_id (result_blocks rs now) = map tr_id rs"
  by (induction rs) (simp_all add: result_blocks_def List.map_filter_simps)

lemma half_push_results:
  assumes "rt_half ev0 (map tr_id results) s"
  shows "rt_inv ev0 (push_results sm results s)"
proof -
  obtain now s' where h: "on_world (sm_clock_secs sm) s = (now, s')"
    by (cases "on_world (sm_clock_secs sm) s")
  from half_on_world [OF h assms] obtain es a ex where
    "cv_entries (rt_conv s') = es @ [a]" "paired es" "entry_uses a = map tr_id results"
    "rt_events s' = ev0 @ ex" "list_all loop_event ex"
    by (auto simp: rt_half_def)
  then show ?thesis
    by (simp add: push_results_def h rt_inv_def entry_uses_def entry_results_def result_blocks_ids
        paired_snoc2)
qed

lemma inv_emit_begins: "rt_inv ev0 s \<Longrightarrow> rt_inv ev0 (emit_begins calls s)"
  by (auto simp: rt_inv_def list_all_iff)

lemma inv_emit_ends: "rt_inv ev0 s \<Longrightarrow> rt_inv ev0 (fold (\<lambda>(c, r). emit_end r kd 0) prs s)"
proof (induction prs arbitrary: s)
  case (Cons p prs)
  have "rt_inv ev0 (emit_end (snd p) kd 0 s)"
    using Cons.prems by (auto simp: emit_end_def intro!: rt_inv_emit)
  then show ?case using Cons.IH by (simp add: split_beta)
qed simp

lemma close_undispatched_inv:
  assumes "rt_half ev0 (map tc_id calls) s" and "\<And>c. tr_id (f c) = tc_id c"
  shows "rt_inv ev0 (close_undispatched sm calls f kd s)"
proof -
  have "map tr_id (map f calls) = map tc_id calls"
    using assms(2) by simp
  with assms(1) have "rt_inv ev0 (push_results sm (map f calls) s)"
    by (metis half_push_results)
  then show ?thesis
    by (simp add: close_undispatched_def emit_undispatched_pairs_def inv_emit_begins inv_emit_ends)
qed

lemma mid_loop_event: "mid_event e \<Longrightarrow> loop_event e"
  by (cases e) auto

lemma execute_calls_half:
  assumes "execute_calls sm run_id calls s = ((results, contexts), s')" and "rt_half ev0 ids s"
  shows "rt_half ev0 ids s' \<and> map tr_id results = map tc_id calls"
proof -
  from dispatch_facts [OF assms(1)] obtain t mid ends where
    ids: "map tr_id results = map tc_id calls" and conv: "rt_conv s' = rt_conv s"
    and ev: "rt_events s' = rt_events s @ map (\<lambda>c. ToolCallBegin (tc_id c) (tc_name c) (tc_input c)) calls @ mid @ ends"
    and mid: "list_all mid_event mid" and ends: "list_all2 (end_matches (tc_id ` set (ran_calls t))) results ends"
    by blast
  have "list_all loop_event ends"
    using ends by (induction rule: list_all2_induct) (auto simp: end_matches_def)
  moreover have "list_all loop_event mid"
    using mid by (auto simp: list_all_iff mid_loop_event)
  moreover have "list_all loop_event (map (\<lambda>c. ToolCallBegin (tc_id c) (tc_name c) (tc_input c)) calls)"
    by (simp add: list_all_iff)
  ultimately show ?thesis
    using assms(2) ids conv ev by (auto simp: rt_half_def)
qed

lemma flow_dispatch:
  assumes "rt_half ev0 (map tc_id calls) (tn_rt t)"
  shows "flow_ok ev0 (dispatch_round sm inp calls t)"
proof -
  obtain results contexts s where h: "execute_calls sm (ti_run_id inp) calls (tn_rt t) = ((results, contexts), s)"
    by (metis surj_pair)
  from execute_calls_half [OF h assms] have "rt_inv ev0 (push_results sm results s)"
    by (metis half_push_results)
  then show ?thesis
    by (auto simp: dispatch_round_def h Let_def intro!: inv_intros)
qed

lemma flow_stage_calls:
  assumes "rt_half ev0 (map tc_id calls) (tn_rt t)"
  shows "flow_ok ev0 (stage_calls sm cfg inp resp calls t)"
proof -
  obtain stopped t1 where h: "ask_world (sm_interrupted sm) t = (stopped, t1)"
    by (cases "ask_world (sm_interrupted sm) t")
  have h1: "rt_half ev0 (map tc_id calls) (tn_rt t1)"
    by (rule half_ask_world [OF h assms])
  have hw: "rt_half ev0 (map tc_id calls) (emit (Warning m) (tn_rt t1))" for m
    by (rule half_emit [OF h1]) simp
  have close: "rt_inv ev0 (tn_rt (close_batch sm calls f kd u))"
    if "rt_half ev0 (map tc_id calls) (tn_rt u)" "\<And>c. tr_id (f c) = tc_id c" for f kd u
    using close_undispatched_inv [OF that] by (simp add: close_batch_def)
  have "flow_ok ev0 (settle_interrupted_turn sm calls t1)"
    unfolding settle_interrupted_turn_def by (intro inv_intros close h1) simp
  moreover have "flow_ok ev0 (refuse_truncated_batch sm cfg calls t1)"
    using close [OF h1, of truncated_result NotDispatched]
    by (auto simp: refuse_truncated_batch_def truncated_result_def Let_def intro!: inv_intros)
  moreover have "flow_ok ev0 (refuse_repeat_streak sm calls streak (t1\<lparr>tn_state := st\<rparr>))" for streak st
    unfolding refuse_repeat_streak_def by (intro inv_intros close) (simp_all add: hw)
  moreover have "flow_ok ev0 (dispatch_round sm inp calls t1)"
    and "flow_ok ev0 (dispatch_round sm inp calls (repeat_warning cfg streak (t1\<lparr>tn_state := st\<rparr>)))" for streak st
    by (rule flow_dispatch, simp add: repeat_warning_def h1 hw)+
  ultimately show ?thesis
    by (simp add: stage_calls_def h Let_def split: prod.split)
qed

lemma response_uses:
  "List.map_filter use_id (filter kept_block bs) = map tc_id (List.map_filter block_call_of bs)"
proof (induction bs)
  case (Cons b bs)
  then show ?case by (cases b) (simp_all add: List.map_filter_simps)
qed (simp add: List.map_filter_simps)

lemma flow_stage_sample:
  assumes "compactor_ok sm" and "rt_inv ev0 (tn_rt t)"
  shows "flow_ok ev0 (stage_sample sm cfg inp t)"
proof -
  obtain deltas out t1 where h: "ask_world (sm_sample sm (build_request sm cfg inp t)) t = ((deltas, out), t1)"
    by (metis surj_pair)
  define t2 where "t2 = with_rt (fold emit (map delta_event deltas)) t1"
  have "list_all loop_event (map delta_event deltas)"
  proof (induction deltas)
    case (Cons d ds)
    then show ?case by (cases d) simp_all
  qed simp
  then have t2: "rt_inv ev0 (tn_rt t2)"
    using inv_ask_world [OF h assms(2)] by (simp add: t2_def rt_inv_emits)
  show ?thesis
  proof (cases out)
    case (Inl err)
    then show ?thesis
      using flow_sample_failed [OF assms(1) t2] by (simp add: stage_sample_def h t2_def Let_def)
  next
    case (Inr resp)
    define u where "u = absorb_usage resp t2"
    define t3 where "t3 = absorb_blocks resp u"
    have u: "rt_inv ev0 (tn_rt u)"
      using t2 by (simp add: u_def absorb_usage_def Let_def inv_intros)
    have eq: "stage_sample sm cfg inp t = (if response_calls resp = [] then stage_no_calls sm cfg resp t3
        else stage_calls sm cfg inp resp (response_calls resp) t3)"
      by (simp add: stage_sample_def h Inr t2_def u_def t3_def Let_def)
    let ?bs = "filter kept_block (sp_blocks resp)"
    have uses: "List.map_filter use_id ?bs = map tc_id (response_calls resp)"
      by (simp add: response_uses response_calls_def)
    show ?thesis
    proof (cases "response_calls resp = []")
      case True
      have "rt_inv ev0 (on_conv (push_blocks Assistant ?bs) (tn_rt u))"
        using u uses True by (simp add: rt_inv_def paired_snoc entry_uses_def)
      then have "rt_inv ev0 (tn_rt t3)"
        using u by (auto simp: t3_def absorb_blocks_def Let_def intro!: rt_inv_emit)
      then show ?thesis using True eq by (simp add: flow_stage_no_calls)
    next
      case False
      then have "?bs \<noteq> []" using uses by (auto simp: List.map_filter_simps)
      moreover have "rt_half ev0 (map tc_id (response_calls resp)) (on_conv (push_blocks Assistant ?bs) (tn_rt u))"
        using u uses by (auto simp: rt_half_def rt_inv_def entry_uses_def)
      ultimately have "rt_half ev0 (map tc_id (response_calls resp)) (tn_rt t3)"
        by (simp add: t3_def absorb_blocks_def Let_def half_emit)
      then show ?thesis using False eq by (simp add: flow_stage_calls)
    qed
  qed
qed

lemma flow_turn_step:
  assumes "compactor_ok sm" and "rt_inv ev0 (tn_rt t)"
  shows "flow_ok ev0 (turn_step sm cfg inp t)"
  unfolding turn_step_def
  by (intro flow_ok_then flow_stage_head flow_stage_steer_head flow_stage_used flow_stage_ceiling
      flow_stage_budget flow_stage_requests flow_stage_steer_sample flow_stage_sample assms)

lemma run_turn_shape:
  assumes "compactor_ok sm" and "paired (cv_entries (rt_conv s))"
    and "run_turn sm cfg inp grants s = (reason, s', grants')"
  shows "\<exists>es b. rt_events s' = rt_events s @ es @ [TurnCompleted b] \<and>
    list_all (\<lambda>e. \<forall>b. e \<noteq> TurnCompleted b) es \<and> paired (cv_entries (rt_conv s'))"
proof -
  obtain child s0 where h0: "on_world (sm_take_run_interrupt sm (ti_run_id inp)) s = (child, s0)"
    by (cases "on_world (sm_take_run_interrupt sm (ti_run_id inp)) s")
  define s1 where "s1 = start_session sm (\<not> child) s0"
  obtain adm s2 where h2: "on_world (sm_hook sm PromptSubmit (ti_text inp)) s1 = (adm, s2)"
    by (cases "on_world (sm_hook sm PromptSubmit (ti_text inp)) s1")
  have s2: "rt_events s2 = rt_events s" "rt_conv s2 = rt_conv s"
    using on_world_frame [OF h0] on_world_frame [OF h2] by (simp_all add: s1_def start_session_def)
  show ?thesis
  proof (cases "hr_allow adm")
    case False
    then show ?thesis
      using assms(2,3) s2 h0 h2 by (auto simp: run_turn_def s1_def [symmetric] Let_def)
  next
    case True
    define ws where "ws = (if hr_message adm = [] then [] else [Warning (hr_message adm)])"
    define s3 where "s3 = admit_input sm cfg inp (warn_nonempty (hr_message adm) s2)"
    obtain m where ev3: "rt_events s3 = rt_events s @ ws @ [TurnStarted m]"
      by (auto simp: s3_def admit_input_def Let_def s2 ws_def)
    have imgs: "List.map_filter use_id (map (\<lambda>i. Image (ui_id i) (ui_mime i) (ui_base64 i)) is) = []" for "is"
      by (induction "is") (simp_all add: List.map_filter_simps)
    have "entry_uses \<lparr>he_role = User, he_blocks = user_blocks inp\<rparr> = []"
      using imgs by (auto simp: entry_uses_def user_blocks_def List.map_filter_simps)
    then have "paired (cv_entries (rt_conv s3))"
      using assms(2) by (simp add: s3_def admit_input_def Let_def s2 paired_snoc)
    then have inv: "rt_inv (rt_events s3) (tn_rt (fresh_turn (\<not> child) grants s3))"
      by (simp add: fresh_turn_def rt_inv_def)
    obtain r t' where run: "run_loop sm cfg inp (fresh_turn (\<not> child) grants s3) = (r, t')"
      by (cases "run_loop sm cfg inp (fresh_turn (\<not> child) grants s3)")
    have "\<exists>t0. rt_inv (rt_events s3) (tn_rt t0) \<and> turn_step sm cfg inp t0 = Finish r t'"
    proof (rule run_loop_last [OF run, of "\<lambda>t. rt_inv (rt_events s3) (tn_rt t)"])
      fix t t1 assume "rt_inv (rt_events s3) (tn_rt t)" "turn_step sm cfg inp t = Again t1"
      with flow_turn_step [OF assms(1), of "rt_events s3" t cfg inp] show "rt_inv (rt_events s3) (tn_rt t1)"
        by simp
    qed (rule inv)
    then obtain t0 where "rt_inv (rt_events s3) (tn_rt t0)" "turn_step sm cfg inp t0 = Finish r t'"
      by blast
    with flow_turn_step [OF assms(1), of "rt_events s3" t0 cfg inp] obtain q b where
      q: "tn_rt t' = emit (TurnCompleted b) q" "rt_inv (rt_events s3) q"
      by auto
    then obtain es where es: "rt_events q = rt_events s3 @ es" "list_all loop_event es"
      and pr: "paired (cv_entries (rt_conv q))"
      by (auto simp: rt_inv_def)
    have "s' = tn_rt t'"
      using assms(3) h0 h2 True run by (simp add: run_turn_def s1_def [symmetric] s3_def Let_def)
    moreover have "list_all (\<lambda>e. \<forall>b. e \<noteq> TurnCompleted b) (ws @ [TurnStarted m] @ es)"
      using es(2) by (auto simp: list_all_iff ws_def)
    ultimately show ?thesis
      using q es ev3 pr by (intro exI [of _ "ws @ [TurnStarted m] @ es"] exI [of _ b]) simp
  qed
qed

section \<open>The image projection\<close>

definition images_of :: "block list \<Rightarrow> block list" where
  "images_of bs = filter is_image bs"

lemma placeholder_not_image [simp]: "\<not> is_image (image_placeholder keep b) \<longleftrightarrow> (case b of Image _ _ _ \<Rightarrow> True | _ \<Rightarrow> \<not> is_image b)"
  by (cases b) (simp_all add: image_placeholder_def)

lemma images_drop_Cons: "drop m (b # bs) = (if m = 0 then b # bs else drop (m - 1) bs)"
  by (cases m) simp_all

lemma project_blocks_facts:
  "project_blocks tot keep seen bs = (bs', n) \<Longrightarrow> 0 < keep \<Longrightarrow>
     n = seen + length (images_of bs) \<and>
     images_of bs' = drop (tot - keep - seen) (images_of bs) \<and>
     list_all2 (\<lambda>b b'. b' = b \<or> is_image b \<and> b' = image_placeholder keep b) bs bs'"
proof (induction tot keep seen bs arbitrary: bs' n rule: project_blocks.induct)
  case (2 tot keep seen b bs)
  have ph: "is_image b \<Longrightarrow> \<not> is_image (image_placeholder keep b)"
    by (cases b) simp_all
  have cond: "tot - (seen + 1) < keep \<longleftrightarrow> tot - keep - seen = 0"
    "tot - keep - (seen + 1) = tot - keep - seen - 1" using 2(4) by auto
  show ?case
  proof (cases "is_image b")
    case True
    obtain rest k where r: "project_blocks tot keep (seen + 1) bs = (rest, k)" by fastforce
    from 2(1) [OF True r 2(4)]
    have ih: "k = seen + 1 + length (images_of bs)" "images_of rest = drop (tot - keep - seen - 1) (images_of bs)"
      "list_all2 (\<lambda>b b'. b' = b \<or> is_image b \<and> b' = image_placeholder keep b) bs rest"
      by (simp_all add: cond(2))
    show ?thesis
    proof (cases "tot - (seen + 1) < keep")
      case lt: True
      with 2(3) True r have "bs' = b # rest" "n = k" by auto
      with ih True lt cond(1) show ?thesis by (simp add: images_of_def)
    next
      case ge: False
      with 2(3) True r have "bs' = image_placeholder keep b # rest" "n = k" by auto
      with ih True ge cond(1) ph [OF True] show ?thesis by (simp add: images_of_def images_drop_Cons)
    qed
  next
    case False
    obtain rest k where r: "project_blocks tot keep seen bs = (rest, k)" by fastforce
    from 2(2) [OF False r 2(4)] 2(3) False r show ?thesis
      by (auto simp: images_of_def)
  qed
qed (simp add: images_of_def)

lemma images_of_append: "images_of (a @ b) = images_of a @ images_of b"
  by (simp add: images_of_def)

lemma project_entries_facts:
  "0 < keep \<Longrightarrow>
     images_of (all_blocks (project_entries tot keep seen es)) =
       drop (tot - keep - seen) (images_of (all_blocks es)) \<and>
     list_all2 (\<lambda>b b'. b' = b \<or> is_image b \<and> b' = image_placeholder keep b)
       (all_blocks es) (all_blocks (project_entries tot keep seen es)) \<and>
     map he_role (project_entries tot keep seen es) = map he_role es"
proof (induction es arbitrary: seen)
  case (Cons e es)
  obtain bs n where b: "project_blocks tot keep seen (he_blocks e) = (bs, n)" by fastforce
  have all: "all_blocks (x # xs) = he_blocks x @ all_blocks xs" for x xs
    by (simp add: all_blocks_def)
  note f = project_blocks_facts [OF b Cons.prems] and g = Cons.IH [of n, OF Cons.prems]
  show ?case
    using f g by (auto simp: b all images_of_append list_all2_appendI add.assoc)
qed (simp add: all_blocks_def images_of_def)

text \<open>the request projection keeps the newest images and nothing else changes: the images left
  are the last \<open>keep\<close> of the history (all of them for \<open>keep = 0\<close>), every other block stays where
  it is, an older image becomes its text placeholder, and the entries keep their roles.\<close>

theorem project_images_keeps_newest:
  "images_of (all_blocks (project_images es keep)) =
     (if keep = 0 then images_of (all_blocks es)
      else drop (length (images_of (all_blocks es)) - keep) (images_of (all_blocks es))) \<and>
   list_all2 (\<lambda>b b'. b' = b \<or> is_image b \<and> b' = image_placeholder keep b)
     (all_blocks es) (all_blocks (project_images es keep)) \<and>
   map he_role (project_images es keep) = map he_role es"
proof (cases "keep = 0")
  case True
  then show ?thesis by (simp add: project_images_def list_all2_same)
next
  case False
  then have "0 < keep" by simp
  from project_entries_facts [OF this, of "length (filter is_image (all_blocks es))" 0 es] False
  show ?thesis
    by (simp add: project_images_def images_of_def)
qed

section \<open>The figure after a compaction\<close>

text \<open>The iteration after a mid-turn compaction still measures the prompt billed before it: the
  carry that \<open>do_compact\<close> settles is read only when the turn has no bill of its own.\<close>

lemma used_ignores_mid_turn_compaction:
  assumes "compact_turn sm trigger t = (None, t1)" and "tn_last_input t = Some n"
  shows "\<exists>t2. stage_used sm t1 = Go t2 \<and>
    tn_used t2 = sat_add 64 n (case tn_last_output t of Some k \<Rightarrow> k | None \<Rightarrow> 0)"
  using assms by (auto simp: compact_turn_def stage_used_def Let_def split: prod.splits)

section \<open>Properties\<close>

definition iteration_bound :: "run_config \<Rightarrow> nat" where
  "iteration_bound cfg =
     (cf_max_tool_rounds cfg * (cf_max_goal_rearms cfg + 1) + cf_max_goal_rearms cfg +
      cf_max_continuations cfg + cf_max_plan_nudges cfg + cf_max_goal_continuations cfg +
      cf_max_stop_blocks cfg + 2) * (cf_max_reactive_compacts cfg + 1)"

text \<open>C5: a turn ends, whatever the model, the tools, the hooks, the user and the compactor
  answer: its loop reaches a stop within a number of iterations fixed by the configuration.\<close>

theorem turn_terminates:
  "run_bounded (iteration_bound cfg) sm cfg inp (fresh_turn owns grants s) =
     Some (run_loop sm cfg inp (fresh_turn owns grants s))"
proof (rule run_bounded_enough)
  let ?R = "cf_max_reactive_compacts cfg" and ?t = "fresh_turn owns grants s"
  define L where "L = cf_max_tool_rounds cfg * (cf_max_goal_rearms cfg + 1) + cf_max_goal_rearms cfg +
      cf_max_continuations cfg + cf_max_plan_nudges cfg + cf_max_goal_continuations cfg +
      cf_max_stop_blocks cfg"
  have "spend_left cfg ?t = L + 1"
    by (simp add: spend_left_def fresh_turn_def round_budget_def turn_state_new_def L_def)
  then have "steps_left cfg ?t = (L + 1) * (?R + 1) + ?R"
    by (simp add: steps_left_def fresh_turn_def)
  also have "\<dots> < (L + 2) * (?R + 1)"
    by (simp add: algebra_simps)
  also have "(L + 2) * (?R + 1) = iteration_bound cfg"
    by (simp add: iteration_bound_def L_def)
  finally show "steps_left cfg ?t < iteration_bound cfg" .
qed

text \<open>C1: a turn completes exactly once and last: every run of \<open>run_turn\<close> appends events of which
  only the final one is \<open>TurnCompleted\<close>, and it leaves a history in which every entry with
  tool calls is followed at once by the results of exactly those calls, provided the history
  it starts from is so paired and the compactor keeps no open calls in its tail.\<close>

theorem turn_completes_once_and_stays_paired:
  assumes "compactor_ok sm" and "paired (cv_entries (rt_conv s))"
  shows "case run_turn sm cfg inp grants s of (reason, s', grants') \<Rightarrow>
    \<exists>es b. rt_events s' = rt_events s @ es @ [TurnCompleted b] \<and>
      list_all (\<lambda>e. \<forall>b. e \<noteq> TurnCompleted b) es \<and> paired (cv_entries (rt_conv s'))"
proof -
  obtain reason s' grants' where eq: "run_turn sm cfg inp grants s = (reason, s', grants')"
    by (metis surj_pair)
  from run_turn_shape [OF assms eq] show ?thesis unfolding eq prod.case by blast
qed

text \<open>The interface a compactor promises to the loop, and what the loop makes of it: whatever
  turns a session runs, and however the world moves between them, its history stays paired.\<close>

locale compactor =
  fixes compact :: "history_entry list \<Rightarrow> compact_trigger \<Rightarrow> 'w \<Rightarrow> (string, compacted) result \<times> 'w"
  assumes tail_paired: "compact es trigger w = (Inr c, w') \<Longrightarrow> paired (cp_tail c)"
begin

lemma seam_ok: "compactor_ok (sm\<lparr>sm_compact := compact\<rparr>)"
  unfolding compactor_ok_def using tail_paired by simp

lemma turn_keeps_paired:
  "paired (cv_entries (rt_conv s)) \<Longrightarrow> run_turn (sm\<lparr>sm_compact := compact\<rparr>) cfg inp grants s = (r, s', g) \<Longrightarrow>
     paired (cv_entries (rt_conv s'))"
  using run_turn_shape [OF seam_ok] by blast

end

text \<open>A session: turns in order, the world moving between them.\<close>

fun run_turns ::
    "'w seams \<Rightarrow> run_config \<Rightarrow> (turn_input \<times> ('w \<Rightarrow> 'w)) list \<Rightarrow> nat \<Rightarrow> 'w rt \<Rightarrow> 'w rt \<times> nat" where
  "run_turns sm cfg [] grants s = (s, grants)"
| "run_turns sm cfg ((inp, f) # rest) grants s =
     (case run_turn sm cfg inp grants (s\<lparr>rt_world := f (rt_world s)\<rparr>) of
        (reason, s', grants') \<Rightarrow> run_turns sm cfg rest grants' s')"

context compactor
begin

lemma session_keeps_paired:
  "paired (cv_entries (rt_conv s)) \<Longrightarrow>
     paired (cv_entries (rt_conv (fst (run_turns (sm\<lparr>sm_compact := compact\<rparr>) cfg turns grants s))))"
proof (induction turns arbitrary: grants s)
  case (Cons turn turns)
  obtain inp f where turn: "turn = (inp, f)" by (cases turn)
  obtain r s' g where h: "run_turn (sm\<lparr>sm_compact := compact\<rparr>) cfg inp grants (s\<lparr>rt_world := f (rt_world s)\<rparr>) = (r, s', g)"
    by (metis surj_pair)
  have "paired (cv_entries (rt_conv s'))"
    using turn_keeps_paired [OF _ h] Cons.prems by simp
  with Cons.IH h turn show ?case by simp
qed simp

end

text \<open>A scripted world: the state counts the samples taken, the first sample calls one tool, the
  second answers in text.\<close>

definition scripted_sample :: "sample_request \<Rightarrow> nat \<Rightarrow>
    (sample_delta list \<times> (sample_error, sample_response) result) \<times> nat" where
  "scripted_sample req n =
     (([DeltaText ''ok''],
       Inr \<lparr>sp_blocks = (if n = 0 then [ToolUse ''c1'' ''read'' JNull] else [Text ''all read'']),
            sp_input_tokens = Some 100, sp_output_tokens = Some 5, sp_cache_read = 0,
            sp_cache_creation = 0, sp_truncated = False\<rparr>), n + 1)"

definition quiet :: hook_report where
  "quiet = \<lparr>hr_allow = True, hr_message = [], hr_context = []\<rparr>"

definition scripted_seams :: "nat seams" where
  "scripted_seams =
     \<lparr>sm_execute = \<lambda>c n. (\<lparr>tr_id = tc_id c, tr_content = ''contents'', tr_is_error = False\<rparr>, n),
      sm_note_tool_call = \<lambda>c slot n. (slot, n), sm_read_only = \<lambda>t. True, sm_destructive = \<lambda>t. False,
      sm_available_tools = \<lambda>n. [], sm_note_compacted = \<lambda>n. n, sm_decide = \<lambda>c n. (PAllow, n),
      sm_remember = \<lambda>c n. n, sm_hook = \<lambda>h t n. (quiet, n), sm_hook_tool = \<lambda>h t j r n. (quiet, n),
      sm_sample = scripted_sample, sm_context_window = \<lambda>n. None, sm_current_model = \<lambda>n. None,
      sm_approve = \<lambda>i k d n. (AllowOnce, n), sm_ask = \<lambda>i q opts n. (Answered [], n),
      sm_clear_stale = \<lambda>n. n, sm_unfinished = \<lambda>n. 0, sm_plan_reminder = \<lambda>n. [],
      sm_goal_open = \<lambda>n. False, sm_goal_reminder = \<lambda>l n. [],
      sm_compact = \<lambda>es trigger n. (Inr \<lparr>cp_summary = ''summary'', cp_summary_tokens = 2, cp_tail = []\<rparr>, n),
      sm_interrupted = \<lambda>n. (False, n), sm_reset_interrupt = \<lambda>n. n,
      sm_take_run_interrupt = \<lambda>r n. (False, n),
      sm_inbox = \<lambda>n. \<lparr>ib_next_turn = [], ib_next_step = [], ib_injected = []\<rparr>, sm_put_inbox = \<lambda>ib n. n,
      sm_requests = \<lambda>n. None, sm_clear_requests = \<lambda>n. n, sm_instructions = \<lambda>n. None,
      sm_clear_instructions = \<lambda>n. n, sm_allowlist = \<lambda>n. [], sm_clock_ms = \<lambda>n. (0, n),
      sm_clock_secs = \<lambda>n. (0, n), sm_date = \<lambda>n. ''2026-01-01'',
      sm_completion_order = \<lambda>cs n. (cs, n), sm_render = \<lambda>j. []\<rparr>"

definition scripted_config :: run_config where
  "scripted_config = \<lparr>cf_model_name = ''m'', cf_context_window = 200000, cf_max_output_tokens = 4096,
     cf_max_tool_rounds = 10, cf_max_continuations = MAX_CONTINUATIONS,
     cf_max_plan_nudges = MAX_PLAN_NUDGES, cf_max_goal_continuations = MAX_GOAL_CONTINUATIONS,
     cf_max_goal_rearms = MAX_GOAL_REARMS, cf_max_stop_blocks = MAX_STOP_BLOCKS,
     cf_max_reactive_compacts = MAX_REACTIVE_COMPACTS, cf_max_repeat_streak = MAX_REPEAT_STREAK,
     cf_max_wire_images = MAX_WIRE_IMAGES, cf_max_model_compacts = MAX_MODEL_COMPACTS\<rparr>"

definition scripted_rt :: "nat rt" where
  "scripted_rt = \<lparr>rt_world = 0, rt_events = [], rt_conv = conv_new True, rt_child_slot = None, rt_trace = []\<rparr>"

definition scripted_input :: turn_input where
  "scripted_input = \<lparr>ti_run_id = ''r'', ti_text = ''read it'', ti_images = [], ti_system = []\<rparr>"

lemma scripted_compactor: "compactor_ok scripted_seams"
  by (simp add: compactor_ok_def scripted_seams_def)

theorem turn_completes_once_and_stays_paired_witness:
  "compactor_ok scripted_seams \<and> paired (cv_entries (rt_conv scripted_rt)) \<and>
   (case run_turn scripted_seams scripted_config scripted_input 0 scripted_rt of (reason, s', grants') \<Rightarrow>
      \<exists>es b. rt_events s' = rt_events scripted_rt @ es @ [TurnCompleted b] \<and>
        list_all (\<lambda>e. \<forall>b. e \<noteq> TurnCompleted b) es \<and> paired (cv_entries (rt_conv s')))"
proof -
  have p: "paired (cv_entries (rt_conv scripted_rt))"
    by (simp add: scripted_rt_def conv_new_def)
  show ?thesis
    by (intro conjI scripted_compactor p turn_completes_once_and_stays_paired)
qed

end
