(* ===== verification/Todo_List.thy ===== *)
theory Todo_List
  imports Run_Types
begin

text \<open>
  The session task list of \<open>crates/capabilities/tools/src/todo_tool.rs\<close> (statuses, the store, the
  \<open>todowrite\<close> tool with its checks, the numbered echo) and the plan tracker of
  \<open>crates/operations/bootstrap/src/plan_adapter.rs\<close> that steers the run loop with it.
\<close>

section \<open>Items\<close>

definition MAX_TODOS :: nat where "MAX_TODOS = 100"

datatype todo_status = TodoPending | TodoInProgress | TodoCompleted

definition todo_status_parse :: "string \<Rightarrow> todo_status option" where
  "todo_status_parse raw =
     (if raw = ''pending'' then Some TodoPending
      else if raw = ''in_progress'' then Some TodoInProgress
      else if raw = ''completed'' then Some TodoCompleted
      else None)"

fun todo_label :: "todo_status \<Rightarrow> string" where
  "todo_label TodoPending = ''pending''"
| "todo_label TodoInProgress = ''in_progress''"
| "todo_label TodoCompleted = ''completed''"

record todo_item =
  td_id :: string
  td_content :: string
  td_status :: todo_status

text \<open>The store is the list: \<open>write\<close> replaces it, \<open>snapshot\<close> reads it.\<close>

definition todo_write :: "todo_item list \<Rightarrow> todo_item list \<Rightarrow> todo_item list" where
  "todo_write items store = items"

definition todo_unfinished :: "todo_item list \<Rightarrow> nat \<times> nat" where
  "todo_unfinished store =
     (length (filter (\<lambda>i. td_status i = TodoPending) store),
      length (filter (\<lambda>i. td_status i = TodoInProgress) store))"

definition format_todos :: "todo_item list \<Rightarrow> string" where
  "format_todos items =
     (if items = [] then ''Task list is empty.''
      else join [newline]
        (map (\<lambda>i. td_id i @ ''. ['' @ todo_label (td_status i) @ ''] '' @ td_content i) items))"

section \<open>The tool\<close>

definition todo_at :: "nat \<Rightarrow> string \<Rightarrow> string" where
  "todo_at i why = ''todos['' @ show_nat i @ '']: '' @ why"

definition todo_parse_item :: "nat \<Rightarrow> json \<Rightarrow> (string, todo_item) result" where
  "todo_parse_item i raw =
     (case json_str_at ''content'' raw of
        None \<Rightarrow> Inl (todo_at i (''missing or invalid '' @ [quote_char] @ ''content'' @ [quote_char] @ '' (string required)''))
      | Some content \<Rightarrow>
          if blank content then Inl (todo_at i ([quote_char] @ ''content'' @ [quote_char] @ '' must not be empty''))
          else (case json_str_at ''status'' raw of
            None \<Rightarrow> Inl (todo_at i (''missing or invalid '' @ [quote_char] @ ''status'' @ [quote_char] @ '' (string required)''))
          | Some status_raw \<Rightarrow>
              (case todo_status_parse status_raw of
                 None \<Rightarrow> Inl (todo_at i (''invalid status '' @ debug_str status_raw @
                           '' (expected pending | in_progress | completed)''))
               | Some status \<Rightarrow>
                   Inr \<lparr>td_id = show_nat (i + 1), td_content = content, td_status = status\<rparr>)))"

fun todo_parse_from :: "nat \<Rightarrow> json list \<Rightarrow> (string, todo_item list) result" where
  "todo_parse_from i [] = Inr []"
| "todo_parse_from i (raw # rest) =
     (case todo_parse_item i raw of
        Inl e \<Rightarrow> Inl e
      | Inr item \<Rightarrow> (case todo_parse_from (i + 1) rest of Inl e \<Rightarrow> Inl e | Inr items \<Rightarrow> Inr (item # items)))"

fun json_as_array :: "json \<Rightarrow> json list option" where
  "json_as_array (JArr xs) = Some xs"
| "json_as_array _ = None"

text \<open>\<open>TodoWrite::execute\<close>: the output content, its error flag, and the list afterwards.\<close>

definition todo_execute :: "json \<Rightarrow> todo_item list \<Rightarrow> (string \<times> bool) \<times> todo_item list" where
  "todo_execute input store =
     (case Option.bind (json_get ''todos'' input) json_as_array of
        None \<Rightarrow> ((''missing or invalid parameter '' @ [quote_char] @ ''todos'' @ [quote_char] @ '' (array required)'', True), store)
      | Some todos \<Rightarrow>
          if MAX_TODOS < length todos then
            ((''too many todos: '' @ show_nat (length todos) @ '' (max '' @ show_nat MAX_TODOS @ '')'', True), store)
          else (case todo_parse_from 0 todos of
              Inl e \<Rightarrow> ((e, True), store)
            | Inr items \<Rightarrow>
                let store' = todo_write items store
                in ((''Task list updated:'' @ [newline] @ format_todos store', False), store')))"

section \<open>The plan tracker\<close>

definition plan_unfinished :: "todo_item list \<Rightarrow> nat" where
  "plan_unfinished store = (case todo_unfinished store of (pending, in_progress) \<Rightarrow> pending + in_progress)"

definition plan_reminder :: "todo_item list \<Rightarrow> string" where
  "plan_reminder store =
     wrap_system_reminder (''Plan has unfinished items; update the plan before finishing:'' @ [newline] @
       format_todos store)"

section \<open>Facts\<close>

text \<open>What the tool accepts: entries with non-blank content and a known status.\<close>

definition todo_valid :: "json \<Rightarrow> bool" where
  "todo_valid raw \<longleftrightarrow>
     (\<exists>content status. json_str_at ''content'' raw = Some content \<and> \<not> blank content \<and>
        json_str_at ''status'' raw = Some status \<and> status \<in> {''pending'', ''in_progress'', ''completed''})"

definition todo_reads :: "nat \<Rightarrow> json \<Rightarrow> todo_item \<Rightarrow> bool" where
  "todo_reads i raw item \<longleftrightarrow>
     td_id item = show_nat (i + 1) \<and> json_str_at ''content'' raw = Some (td_content item) \<and>
     json_str_at ''status'' raw = Some (todo_label (td_status item))"

lemma todo_label_parse [simp]: "todo_status_parse (todo_label s) = Some s"
  by (cases s) (simp_all add: todo_status_parse_def)

lemma todo_parse_label: "todo_status_parse raw = Some s \<Longrightarrow> raw = todo_label s"
  by (auto simp: todo_status_parse_def split: if_splits)

lemma todo_parse_item_ok: "is_ok (todo_parse_item i raw) \<longleftrightarrow> todo_valid raw"
  by (auto simp: todo_parse_item_def todo_valid_def todo_status_parse_def split: option.splits if_splits)

lemma todo_parse_item_reads: "todo_parse_item i raw = Inr item \<Longrightarrow> todo_reads i raw item"
  by (auto simp: todo_parse_item_def todo_reads_def dest: todo_parse_label split: option.splits if_splits)

lemma todo_parse_from_ok: "is_ok (todo_parse_from i raws) \<longleftrightarrow> list_all todo_valid raws"
proof (induction raws arbitrary: i)
  case (Cons raw raws)
  show ?case
    using Cons.IH [of "i + 1"] todo_parse_item_ok [of i raw]
    by (auto simp: is_ok_iff split: sum.splits)
qed simp

lemma todo_parse_from_reads:
  "todo_parse_from i raws = Inr items \<Longrightarrow>
     length items = length raws \<and> (\<forall>k < length raws. todo_reads (i + k) (raws ! k) (items ! k))"
proof (induction raws arbitrary: i items)
  case (Cons raw raws)
  then obtain item rest where p: "todo_parse_item i raw = Inr item" "todo_parse_from (i + 1) raws = Inr rest"
    and items: "items = item # rest"
    by (auto split: sum.splits)
  from Cons.IH [OF p(2)] todo_parse_item_reads [OF p(1)] show ?case
    by (auto simp: items nth_Cons split: nat.split)
qed simp

section \<open>Properties\<close>

text \<open>\<open>todowrite\<close> is all or nothing: it succeeds exactly on an array of at most 100 entries that
  all have content and a known status; then the list is those entries, in order, numbered from
  1; otherwise the call fails and the list is untouched.\<close>

theorem todo_write_all_or_nothing:
  "case todo_execute input store of ((content, is_error), store') \<Rightarrow>
     (case Option.bind (json_get ''todos'' input) json_as_array of
        Some todos \<Rightarrow>
          (if length todos \<le> MAX_TODOS \<and> list_all todo_valid todos
           then \<not> is_error \<and> length store' = length todos \<and>
             list_all (\<lambda>k. todo_reads k (todos ! k) (store' ! k)) [0..<length todos]
           else is_error \<and> store' = store)
      | None \<Rightarrow> is_error \<and> store' = store)"
proof (cases "Option.bind (json_get ''todos'' input) json_as_array")
  case (Some todos)
  show ?thesis
  proof (cases "todo_parse_from 0 todos")
    case (Inl e)
    with todo_parse_from_ok [of 0 todos] show ?thesis
      by (auto simp: todo_execute_def Some)
  next
    case (Inr items)
    with todo_parse_from_ok [of 0 todos] todo_parse_from_reads [OF Inr] show ?thesis
      by (auto simp: todo_execute_def Some Let_def todo_write_def list_all_iff)
  qed
qed (simp add: todo_execute_def)

end
