(* ===== verification/Context_Window.thy ===== *)
theory Context_Window
  imports Run_Loop Todo_List
begin

text \<open>
  The context pipeline of \<open>crates/capabilities/context/src/lib.rs\<close>: usage accounting, the three
  waterlines, compaction with its history repair \<open>normalize_history\<close> and the pairing check, and
  the cache-preserving eviction of old tool results; and its two adapters in
  \<open>crates/operations/bootstrap/src/\<close>, the compactor seam (\<open>compactor.rs\<close>) and the evicting gateway
  (\<open>evicting_gateway.rs\<close>). The summary model, the JSON rendering and the look at the children
  directory are parameters.
\<close>

section \<open>Provider messages\<close>

datatype msg_role = RUser | RAssistant

datatype content_block =
    CText string
  | CImage "string option" string string
  | CToolUse string string json
  | CToolResult string string bool
  | CThinking string "string option"

record message =
  mg_role :: msg_role
  mg_content :: "content_block list"

fun use_of :: "content_block \<Rightarrow> string option" where
  "use_of (CToolUse i _ _) = Some i"
| "use_of _ = None"

fun result_for :: "content_block \<Rightarrow> string option" where
  "result_for (CToolResult i _ _) = Some i"
| "result_for _ = None"

definition is_result :: "content_block \<Rightarrow> bool" where
  "is_result b \<longleftrightarrow> result_for b \<noteq> None"

section \<open>Accounting and waterlines\<close>

definition DEFAULT_CHARS_PER_TOKEN :: nat where "DEFAULT_CHARS_PER_TOKEN = 4"
definition SYSTEM_OVERHEAD_TOKENS :: nat where "SYSTEM_OVERHEAD_TOKENS = 2000"

definition count_ascii_split :: "string \<Rightarrow> nat \<times> nat \<Rightarrow> nat \<times> nat" where
  "count_ascii_split t c =
     (fst c + length (filter is_ascii t), snd c + length (filter (\<lambda>x. \<not> is_ascii x) t))"

fun block_texts :: "(json \<Rightarrow> string) \<Rightarrow> content_block \<Rightarrow> string list" where
  "block_texts render (CText t) = [t]"
| "block_texts render (CToolUse i name input) = [name, render input]"
| "block_texts render (CToolResult i content e) = [content]"
| "block_texts render (CImage i mime base64) = [base64]"
| "block_texts render (CThinking t s) = [t]"

definition message_texts :: "(json \<Rightarrow> string) \<Rightarrow> message list \<Rightarrow> string list" where
  "message_texts render ms = concat (map (\<lambda>m. concat (map (block_texts render) (mg_content m))) ms)"

definition estimate_messages :: "(json \<Rightarrow> string) \<Rightarrow> message list \<Rightarrow> nat \<Rightarrow> nat" where
  "estimate_messages render ms chars_per_token =
     (case fold count_ascii_split (message_texts render ms) (0, 0) of
        (ascii, non_ascii) \<Rightarrow> ascii div max chars_per_token 1 + non_ascii + 4 * length ms)"

record thresholds =
  th_warning :: nat
  th_auto_compact :: nat
  th_blocking :: nat

definition thresholds_default :: thresholds where
  "thresholds_default = \<lparr>th_warning = 20000, th_auto_compact = 13000, th_blocking = 3000\<rparr>"

datatype water_level = LOk | LWarning | LAutoCompact | LBlocking

definition thresholds_check :: "thresholds \<Rightarrow> nat \<Rightarrow> nat \<Rightarrow> water_level" where
  "thresholds_check th used window =
     (if used \<ge> window - th_blocking th then LBlocking
      else if used \<ge> window - th_auto_compact th then LAutoCompact
      else if used \<ge> window - th_warning th then LWarning
      else LOk)"

definition thresholds_validate :: "thresholds \<Rightarrow> (string, unit) result" where
  "thresholds_validate th =
     (if th_warning th < th_auto_compact th then
        Inl (''warning_margin ('' @ show_nat (th_warning th) @ '') < auto_compact_margin ('' @
             show_nat (th_auto_compact th) @ '')'')
      else if th_auto_compact th < th_blocking th then
        Inl (''auto_compact_margin ('' @ show_nat (th_auto_compact th) @ '') < blocking_margin ('' @
             show_nat (th_blocking th) @ '')'')
      else Inr ())"

definition DEFAULT_KEEP_RECENT :: nat where "DEFAULT_KEEP_RECENT = 10"
definition DEFAULT_SUMMARY_MAX_TOKENS :: nat where "DEFAULT_SUMMARY_MAX_TOKENS = 4096"

record context_config =
  cc_thresholds :: thresholds
  cc_keep_recent :: nat
  cc_summary_max_tokens :: nat
  cc_chars_per_token :: nat

definition context_config_default :: context_config where
  "context_config_default = \<lparr>cc_thresholds = thresholds_default, cc_keep_recent = DEFAULT_KEEP_RECENT,
     cc_summary_max_tokens = DEFAULT_SUMMARY_MAX_TOKENS, cc_chars_per_token = DEFAULT_CHARS_PER_TOKEN\<rparr>"

definition context_validate :: "context_config \<Rightarrow> (string, unit) result" where
  "context_validate cfg = thresholds_validate (cc_thresholds cfg)"

definition estimate_with_overhead :: "(json \<Rightarrow> string) \<Rightarrow> message list \<Rightarrow> context_config \<Rightarrow> nat" where
  "estimate_with_overhead render ms cfg =
     sat_add 64 (estimate_messages render ms (cc_chars_per_token cfg)) SYSTEM_OVERHEAD_TOKENS"

definition resolve_used_tokens ::
    "(json \<Rightarrow> string) \<Rightarrow> message list \<Rightarrow> nat option \<Rightarrow> context_config \<Rightarrow> nat" where
  "resolve_used_tokens render ms usage cfg =
     (case usage of Some input \<Rightarrow> input | None \<Rightarrow> estimate_with_overhead render ms cfg)"

section \<open>History repair\<close>

definition MISSING_RESULT_CONTENT :: string where
  "MISSING_RESULT_CONTENT = ''tool result unavailable (history normalized)''"

definition tool_use_ids :: "message \<Rightarrow> string list" where
  "tool_use_ids m = (if mg_role m = RAssistant then List.map_filter use_of (mg_content m) else [])"

definition matched_result :: "message option \<Rightarrow> string \<Rightarrow> content_block" where
  "matched_result nxt i =
     (case (case nxt of None \<Rightarrow> None | Some n \<Rightarrow> find (\<lambda>b. result_for b = Some i) (mg_content n)) of
        Some b \<Rightarrow> b
      | None \<Rightarrow> CToolResult i MISSING_RESULT_CONTENT True)"

definition rest_message :: "message \<Rightarrow> message list" where
  "rest_message n =
     (let rest = filter (\<lambda>b. \<not> is_result b) (mg_content n)
      in if rest = [] then [] else [\<lparr>mg_role = RUser, mg_content = rest\<rparr>])"

definition next_user :: "message list \<Rightarrow> message option" where
  "next_user ms = (case ms of n # _ \<Rightarrow> if mg_role n = RUser then Some n else None | [] \<Rightarrow> None)"

fun normalize_history :: "message list \<Rightarrow> message list" where
  "normalize_history [] = []"
| "normalize_history (m # ms) =
     (if mg_content m = [] then normalize_history ms
      else if tool_use_ids m \<noteq> [] then
        (let results = \<lparr>mg_role = RUser, mg_content = map (matched_result (next_user ms)) (tool_use_ids m)\<rparr>
         in case ms of
              n # ms' \<Rightarrow>
                if mg_role n = RUser then m # results # rest_message n @ normalize_history ms'
                else m # results # normalize_history (n # ms')
            | [] \<Rightarrow> m # results # normalize_history [])
      else if mg_role m = RUser \<and> (\<exists>b \<in> set (mg_content m). is_result b)
      then rest_message m @ normalize_history ms
      else m # normalize_history ms)"

text \<open>The pairing check: one violation text per unpaired block, with its message index.\<close>

definition assistant_ids :: "message option \<Rightarrow> string list" where
  "assistant_ids prev = (case prev of Some p \<Rightarrow> tool_use_ids p | None \<Rightarrow> [])"

definition message_violations :: "nat \<Rightarrow> message option \<Rightarrow> message \<Rightarrow> message list \<Rightarrow> string list" where
  "message_violations i prev m rest =
     (if mg_role m = RAssistant then
        List.map_filter (\<lambda>k.
          if (case next_user rest of Some n \<Rightarrow> \<exists>b \<in> set (mg_content n). result_for b = Some k | None \<Rightarrow> False)
          then None
          else Some (''message['' @ show_nat i @ ''] tool_use('' @ k @ '') has no paired tool_result''))
          (tool_use_ids m)
      else
        List.map_filter (\<lambda>b. case result_for b of
            Some k \<Rightarrow> if k \<in> set (assistant_ids prev) then None
                      else Some (''message['' @ show_nat i @ ''] tool_result('' @ k @ '') has no paired tool_use'')
          | None \<Rightarrow> None)
          (mg_content m))"

fun violations_from :: "nat \<Rightarrow> message option \<Rightarrow> message list \<Rightarrow> string list" where
  "violations_from i prev [] = []"
| "violations_from i prev (m # ms) = message_violations i prev m ms @ violations_from (i + 1) (Some m) ms"

definition find_pairing_violations :: "message list \<Rightarrow> string list" where
  "find_pairing_violations ms = violations_from 0 None ms"

section \<open>Compaction\<close>

definition SUMMARY_MESSAGE_PREFIX :: string where
  "SUMMARY_MESSAGE_PREFIX = ''[context compaction] earlier conversation compacted into the summary below:''"

record compact_outcome =
  co_messages :: "message list"
  co_summary :: string

definition compact_history ::
    "message list \<Rightarrow> (message list \<Rightarrow> nat \<Rightarrow> (string, string) result) \<Rightarrow> context_config \<Rightarrow>
     (string, compact_outcome) result" where
  "compact_history history summarize cfg =
     (case summarize history (cc_summary_max_tokens cfg) of
        Inl e \<Rightarrow> Inl e
      | Inr summary \<Rightarrow>
          let start = length history - cc_keep_recent cfg;
              messages = \<lparr>mg_role = RUser,
                 mg_content = [CText (SUMMARY_MESSAGE_PREFIX @ [newline, newline] @ summary)]\<rparr> # drop start history
          in Inr \<lparr>co_messages = normalize_history messages, co_summary = summary\<rparr>)"

text \<open>\<open>ModelSummary\<close>: one call of the model channel; a blank summary is an error. The standard
  instruction text is a parameter.\<close>

definition model_summary ::
    "string \<Rightarrow> string option \<Rightarrow> (message list \<Rightarrow> nat \<Rightarrow> (string, string list) result) \<Rightarrow>
     message list \<Rightarrow> nat \<Rightarrow> (string, string) result" where
  "model_summary instruction focus model history budget =
     (let text = instruction @ (case focus of
                   Some f \<Rightarrow> [newline, newline] @ ''Additional user focus for this summary: '' @ f
                 | None \<Rightarrow> []);
          messages = history @ [\<lparr>mg_role = RUser, mg_content = [CText text]\<rparr>]
      in case model messages (max budget 1) of
           Inl e \<Rightarrow> Inl (''summary model call failed: '' @ e)
         | Inr deltas \<Rightarrow>
             if blank (concat deltas) then Inl ''summary model produced no text''
             else Inr (concat deltas))"

section \<open>Eviction of old tool results\<close>

definition EVICTED_RESULT_MARKER_PREFIX :: string where
  "EVICTED_RESULT_MARKER_PREFIX = ''[evicted tool result''"

record eviction_config =
  ev_anchored_prefix :: nat
  ev_recent_window :: nat
  ev_soft_threshold :: nat
  ev_batch :: nat

definition eviction_config_default :: eviction_config where
  "eviction_config_default = \<lparr>ev_anchored_prefix = 4, ev_recent_window = DEFAULT_KEEP_RECENT,
     ev_soft_threshold = 100000, ev_batch = 12\<rparr>"

definition should_evict_tool_results :: "nat \<Rightarrow> eviction_config \<Rightarrow> bool" where
  "should_evict_tool_results used cfg \<longleftrightarrow> ev_soft_threshold cfg \<le> used"

fun name_entry :: "content_block \<Rightarrow> (string, string) tbl \<Rightarrow> (string, string) tbl" where
  "name_entry (CToolUse i name _) t = tbl_insert i name t"
| "name_entry _ t = t"

definition tool_use_names :: "message list \<Rightarrow> (string, string) tbl" where
  "tool_use_names ms =
     fold (\<lambda>m t. if mg_role m = RAssistant then fold name_entry (mg_content m) t else t) ms []"

definition evicted_result_stub :: "string \<Rightarrow> string option \<Rightarrow> string" where
  "evicted_result_stub i tool_name =
     EVICTED_RESULT_MARKER_PREFIX @
     (case tool_name of Some name \<Rightarrow> '' for '' @ name @ '' ('' @ i @ '')]'' | None \<Rightarrow> '' for '' @ i @ '']'')"

definition text_tokens :: "string \<Rightarrow> nat" where
  "text_tokens t =
     (case count_ascii_split t (0, 0) of (ascii, non_ascii) \<Rightarrow> ascii div max DEFAULT_CHARS_PER_TOKEN 1 + non_ascii)"

fun block_saving :: "(string, string) tbl \<Rightarrow> content_block \<Rightarrow> nat" where
  "block_saving names (CToolResult i content _) =
     text_tokens content - text_tokens (evicted_result_stub i (map_of names i))"
| "block_saving names _ = 0"

definition eviction_saving :: "message \<Rightarrow> (string, string) tbl \<Rightarrow> nat" where
  "eviction_saving m names =
     (if mg_role m \<noteq> RUser then 0 else sum_list (map (block_saving names) (mg_content m)))"

text \<open>The inner loop measures one batch, the outer loop stops once enough is freed.\<close>

function frontier_loop ::
    "message list \<Rightarrow> (string, string) tbl \<Rightarrow> nat \<Rightarrow> nat \<Rightarrow> nat \<Rightarrow> nat \<Rightarrow> nat \<Rightarrow> nat" where
  "frontier_loop history names step needed endi freed frontier =
     (if frontier < endi then
        (let group_end = min (frontier + max step 1) endi;
             freed' = freed + sum_list (map (\<lambda>i. eviction_saving (history ! i) names) [frontier..<group_end])
         in if needed \<le> freed' then group_end
            else frontier_loop history names step needed endi freed' group_end)
      else frontier)"
  by pat_completeness auto
termination
  by (relation "measure (\<lambda>(history, names, step, needed, endi, freed, frontier). endi - frontier)") auto

declare frontier_loop.simps [simp del]

definition eviction_frontier ::
    "(json \<Rightarrow> string) \<Rightarrow> message list \<Rightarrow> eviction_config \<Rightarrow> (string, string) tbl \<Rightarrow> nat \<Rightarrow> nat \<Rightarrow> nat" where
  "eviction_frontier render history cfg names start endi =
     (if endi \<le> start then start
      else let needed = estimate_messages render history DEFAULT_CHARS_PER_TOKEN - ev_soft_threshold cfg
           in if needed = 0 then start
              else frontier_loop history names (ev_batch cfg) needed endi 0 start)"

fun stub_block :: "(string, string) tbl \<Rightarrow> content_block \<Rightarrow> content_block" where
  "stub_block names (CToolResult i _ e) = CToolResult i (evicted_result_stub i (map_of names i)) e"
| "stub_block names b = b"

definition evict_message :: "(string, string) tbl \<Rightarrow> nat \<Rightarrow> nat \<Rightarrow> nat \<Rightarrow> message \<Rightarrow> message" where
  "evict_message names start limit i m =
     (if mg_role m = RUser \<and> start \<le> i \<and> i < limit \<and> (\<exists>b \<in> set (mg_content m). is_result b)
      then \<lparr>mg_role = mg_role m, mg_content = map (stub_block names) (mg_content m)\<rparr>
      else m)"

definition evict_old_tool_results ::
    "(json \<Rightarrow> string) \<Rightarrow> message list \<Rightarrow> eviction_config \<Rightarrow> message list" where
  "evict_old_tool_results render history cfg =
     (let endi = length history - ev_recent_window cfg; start = min (ev_anchored_prefix cfg) endi
      in if endi \<le> start then history
         else let names = tool_use_names history;
                  limit = eviction_frontier render history cfg names start endi
              in map (\<lambda>(i, m). evict_message names start limit i m) (enumerate 0 history))"

section \<open>The adapters\<close>

fun to_content_block :: "block \<Rightarrow> content_block" where
  "to_content_block (Text t) = CText t"
| "to_content_block (ToolUse i name input) = CToolUse i name input"
| "to_content_block (ToolResult i content is_error _) = CToolResult i content is_error"
| "to_content_block (Image i mime base64) = CImage i mime base64"
| "to_content_block (Thinking t signature) = CThinking t signature"

fun from_content_block :: "content_block \<Rightarrow> block" where
  "from_content_block (CText t) = Text t"
| "from_content_block (CImage i mime base64) = Image i mime base64"
| "from_content_block (CToolUse i name input) = ToolUse i name input"
| "from_content_block (CToolResult i content is_error) = ToolResult i content is_error None"
| "from_content_block (CThinking t signature) = Thinking t signature"

definition to_role :: "role \<Rightarrow> msg_role" where
  "to_role r = (if r = Assistant then RAssistant else RUser)"

definition from_role :: "msg_role \<Rightarrow> role" where
  "from_role r = (if r = RAssistant then Assistant else User)"

definition to_message :: "history_entry \<Rightarrow> message" where
  "to_message e = \<lparr>mg_role = to_role (he_role e), mg_content = map to_content_block (he_blocks e)\<rparr>"

definition from_message :: "message \<Rightarrow> history_entry" where
  "from_message m = \<lparr>he_role = from_role (mg_role m), he_blocks = map from_content_block (mg_content m)\<rparr>"

text \<open>The evicting gateway rewrites a request once its estimate crosses the soft threshold.\<close>

definition usage_split :: "(json \<Rightarrow> string) \<Rightarrow> sample_request \<Rightarrow> char_split" where
  "usage_split render req =
     fold (\<lambda>e sp. foldl split_add (split_add sp [newline]) (text_chunks render e)) (sr_messages req)
       (split_add split_zero (sr_system req))"

definition usage_estimate :: "(json \<Rightarrow> string) \<Rightarrow> sample_request \<Rightarrow> nat" where
  "usage_estimate render req = split_tokens (usage_split render req) + CONTEXT_OVERHEAD_TOKENS"

definition evicted :: "(json \<Rightarrow> string) \<Rightarrow> eviction_config \<Rightarrow> sample_request \<Rightarrow> sample_request" where
  "evicted render cfg req =
     (if \<not> should_evict_tool_results (usage_estimate render req) cfg then req
      else req\<lparr>sr_messages :=
        map from_message (evict_old_tool_results render (map to_message (sr_messages req)) cfg)\<rparr>)"

text \<open>The compactor seam. The footers: the journal with its children directory when that holds
  logs, and the task list when one is attached.\<close>

definition recovery_footer :: "string \<Rightarrow> string option \<Rightarrow> string" where
  "recovery_footer journal children =
     ''## Context Recovery'' @ [newline] @
     ''Earlier turns of this session are on disk in its turn journal:'' @ [newline] @ ''  '' @ journal @ [newline] @
     ''One JSON record per line in turn order (newest last); each record holds `input`, the full `history` of that turn with tool calls and results rendered as text, and the turn'' @ [quote_char] @
     ''s `outcome`. If you need exact command output, file contents, or error text from before this compaction, grep that file for a keyword, then read the matching line instead of guessing or re-running.'' @
     (case children of
        None \<Rightarrow> []
      | Some dir \<Rightarrow>
          [newline] @ ''Subagent (`task`) steps are NOT in this file: each child task logs its own turns under'' @
          [newline] @ ''  '' @ dir @ [newline] @
          ''(one `<child-id>.jsonl` per task), while a parent record keeps only the spawn call and the child'' @ [quote_char] @
          ''s returned summary. Check there for a task'' @ [quote_char] @ ''s exact steps.'')"

definition plan_footer :: "todo_item list \<Rightarrow> string option" where
  "plan_footer items =
     (if items = [] then None
      else Some (''## Live plan (attached from the task list at compaction time; authoritative over anything above)'' @
             [newline] @ format_todos items))"

record compactor_cfg =
  cm_journal :: "(string \<times> string option) option"
  cm_plans :: "todo_item list option"

definition finalize_summary :: "compactor_cfg \<Rightarrow> string \<Rightarrow> string" where
  "finalize_summary cm summary =
     summary @
     (case cm_journal cm of
        Some (journal, children) \<Rightarrow> [newline, newline] @ recovery_footer journal children
      | None \<Rightarrow> []) @
     (case cm_plans cm of
        Some items \<Rightarrow> (case plan_footer items of Some footer \<Rightarrow> [newline, newline] @ footer | None \<Rightarrow> [])
      | None \<Rightarrow> [])"

definition flatten_entry :: "(json \<Rightarrow> string) \<Rightarrow> history_entry \<Rightarrow> message" where
  "flatten_entry render e = \<lparr>mg_role = to_role (he_role e), mg_content = [CText (entry_text render e)]\<rparr>"

fun block_plain :: "(content_block \<Rightarrow> string) \<Rightarrow> content_block \<Rightarrow> string" where
  "block_plain debug (CText t) = t"
| "block_plain debug b = debug b"

definition tail_entry :: "(content_block \<Rightarrow> string) \<Rightarrow> message \<Rightarrow> history_entry" where
  "tail_entry debug m =
     \<lparr>he_role = from_role (mg_role m), he_blocks = [Text (join [newline] (map (block_plain debug) (mg_content m)))]\<rparr>"

fun focus_of :: "compact_trigger \<Rightarrow> string option" where
  "focus_of (TManual instruction) = instruction"
| "focus_of _ = None"

definition context_compact ::
    "(json \<Rightarrow> string) \<Rightarrow> (content_block \<Rightarrow> string) \<Rightarrow> string \<Rightarrow>
     (message list \<Rightarrow> nat \<Rightarrow> (string, string list) result) \<Rightarrow> compactor_cfg \<Rightarrow>
     history_entry list \<Rightarrow> compact_trigger \<Rightarrow> (string, compacted) result" where
  "context_compact render debug instruction model cm history trigger =
     (let messages = map (flatten_entry render) (filter (\<lambda>e. entry_text render e \<noteq> []) history)
      in case compact_history messages (model_summary instruction (focus_of trigger) model) context_config_default of
           Inl e \<Rightarrow> Inl e
         | Inr res \<Rightarrow>
             let summary = finalize_summary cm (co_summary res)
             in Inr \<lparr>cp_summary = summary, cp_summary_tokens = estimate_tokens summary,
                     cp_tail = map (tail_entry debug) (drop 1 (co_messages res))\<rparr>)"

section \<open>Facts about repair\<close>

lemma find_result: "find (\<lambda>b. result_for b = Some i) bs = Some b \<Longrightarrow> result_for b = Some i"
  by (induction bs) (auto split: if_splits)

lemma matched_result_for [simp]: "result_for (matched_result nxt i) = Some i"
  by (auto simp: matched_result_def split: option.splits dest: find_result)

lemma matched_is_result [simp]: "is_result (matched_result nxt i)"
  by (simp add: is_result_def)

lemma results_only [simp]:
  "filter (\<lambda>b. \<not> is_result b) (map (matched_result nxt) ids) = []"
  by (simp add: filter_empty_conv)

definition results_of :: "message list \<Rightarrow> message \<Rightarrow> message" where
  "results_of ms m = \<lparr>mg_role = RUser, mg_content = map (matched_result (next_user ms)) (tool_use_ids m)\<rparr>"

text \<open>The induction of the pass: skipped, batch with what it consumes, trimmed, kept.\<close>

lemma normalize_induct [case_names Nil Skip Batch Trim Keep]:
  assumes "P [] []"
    and skip: "\<And>m ms. mg_content m = [] \<Longrightarrow> P ms (normalize_history ms) \<Longrightarrow> P (m # ms) (normalize_history ms)"
    and batch: "\<And>m ms pre n tl. mg_content m \<noteq> [] \<Longrightarrow> tool_use_ids m \<noteq> [] \<Longrightarrow> P tl (normalize_history tl) \<Longrightarrow>
        (pre = [] \<and> tl = ms) \<or> (ms = n # tl \<and> mg_role n = RUser \<and> pre = rest_message n) \<Longrightarrow>
        P (m # ms) (m # results_of ms m # pre @ normalize_history tl)"
    and trim: "\<And>m ms. mg_role m = RUser \<Longrightarrow> P ms (normalize_history ms) \<Longrightarrow>
        P (m # ms) (rest_message m @ normalize_history ms)"
    and keep: "\<And>m ms. mg_content m \<noteq> [] \<Longrightarrow> tool_use_ids m = [] \<Longrightarrow>
        \<not> (mg_role m = RUser \<and> (\<exists>b \<in> set (mg_content m). is_result b)) \<Longrightarrow>
        P ms (normalize_history ms) \<Longrightarrow> P (m # ms) (m # normalize_history ms)"
  shows "P ms (normalize_history ms)"
proof (induction "length ms" arbitrary: ms rule: less_induct)
  case less
  show ?case
  proof (cases ms)
    case (Cons m rest)
    have ih: "P rest (normalize_history rest)" using less Cons by simp
    show ?thesis
    proof (cases "mg_content m = [] \<or> tool_use_ids m = []")
      case True
      then show ?thesis using Cons ih skip [of m rest] trim [of m rest] keep [of m rest] by auto
    next
      case False
      show ?thesis
      proof (cases rest)
        case Nil
        with False Cons batch [of m "[]" "[]" "[]"] \<open>P [] []\<close> show ?thesis
          by (simp add: results_of_def Let_def)
      next
        case (Cons n tl)
        have tl: "P tl (normalize_history tl)" using less \<open>ms = m # rest\<close> Cons by simp
        have eq: "normalize_history (m # n # tl) = m # results_of (n # tl) m #
            (if mg_role n = RUser then rest_message n @ normalize_history tl else normalize_history (n # tl))"
          using False by (subst normalize_history.simps(2)) (simp add: results_of_def Let_def del: normalize_history.simps(2))
        show ?thesis
        proof (cases "mg_role n = RUser")
          case True
          with False tl batch [of m tl "rest_message n" "n # tl" n] show ?thesis
            by (simp add: \<open>ms = m # rest\<close> Cons eq del: normalize_history.simps(2))
        next
          case notuser: False
          with False ih batch [of m rest "[]" rest] show ?thesis
            by (simp add: \<open>ms = m # rest\<close> Cons eq del: normalize_history.simps(2))
        qed
      qed
    qed
  qed (simp add: assms(1))
qed

lemma rest_message_user:
  "m \<in> set (rest_message n) \<Longrightarrow>
     mg_role m = RUser \<and> (\<forall>b \<in> set (mg_content m). \<not> is_result b) \<and> mg_content m \<noteq> []"
  by (auto simp: rest_message_def Let_def split: if_splits)

lemma plain_user_violations:
  "mg_role m = RUser \<Longrightarrow> \<forall>b \<in> set (mg_content m). \<not> is_result b \<Longrightarrow> message_violations i prev m rest = []"
  by (auto simp: message_violations_def is_result_def List.map_filter_def filter_empty_conv split: option.splits)

lemma rest_violations:
  "(\<And>i prev. violations_from i prev ms = []) \<Longrightarrow> violations_from i prev (rest_message n @ ms) = []"
  by (auto simp: rest_message_def Let_def plain_user_violations)

lemma batch_violations:
  assumes "tool_use_ids m \<noteq> []" and "\<And>i prev. violations_from i prev ms = []"
  shows "violations_from i prev (m # results_of xs m # ms) = []"
proof -
  have "mg_role m = RAssistant"
    using assms(1) by (auto simp: tool_use_ids_def split: if_splits)
  then show ?thesis
    using assms(2) by (auto simp: results_of_def message_violations_def next_user_def assistant_ids_def
        List.map_filter_def filter_empty_conv split: option.splits)
qed

lemma normalize_no_violations: "violations_from i prev (normalize_history ms) = []"
proof (induction arbitrary: i prev rule: normalize_induct)
  case (Batch m ms pre n tl)
  then have "violations_from i prev (pre @ normalize_history tl) = []" for i prev
    by (auto intro: rest_violations)
  with Batch(2) show ?case by (rule batch_violations)
next
  case (Keep m ms)
  have "message_violations i prev m (normalize_history ms) = []"
  proof (cases "mg_role m")
    case RUser
    with Keep show ?thesis by (intro plain_user_violations) auto
  qed (simp add: message_violations_def Keep List.map_filter_simps)
  with Keep show ?case by simp
qed (simp_all add: rest_violations)

definition plain_blocks :: "message list \<Rightarrow> content_block list" where
  "plain_blocks ms = filter (\<lambda>b. \<not> is_result b) (concat (map mg_content ms))"

lemma plain_blocks_simps [simp]:
  "plain_blocks [] = []" "plain_blocks (m # ms) = filter (\<lambda>b. \<not> is_result b) (mg_content m) @ plain_blocks ms"
  "plain_blocks (xs @ ms) = plain_blocks xs @ plain_blocks ms"
  "plain_blocks (rest_message n) = filter (\<lambda>b. \<not> is_result b) (mg_content n)"
  by (simp_all add: plain_blocks_def rest_message_def Let_def)

lemma normalize_plain_blocks: "plain_blocks (normalize_history ms) = plain_blocks ms"
  by (induction rule: normalize_induct) (auto simp: results_of_def)

lemma normalize_nonempty: "\<forall>m \<in> set (normalize_history ms). mg_content m \<noteq> []"
  by (induction rule: normalize_induct) (auto simp: results_of_def dest: rest_message_user)

lemma normalize_rest: "normalize_history (rest_message n @ ms) = rest_message n @ normalize_history ms"
  by (auto simp: rest_message_def Let_def tool_use_ids_def filter_empty_conv)

lemma find_matched:
  "i \<in> set ids \<Longrightarrow> find (\<lambda>b. result_for b = Some i) (map (matched_result nxt) ids) = Some (matched_result nxt i)"
  by (induction ids) auto

lemma rematch:
  "map (matched_result (Some \<lparr>mg_role = RUser, mg_content = map (matched_result nxt) ids\<rparr>)) ids =
     map (matched_result nxt) ids"
proof (rule map_cong [OF refl])
  fix i assume "i \<in> set ids"
  then show "matched_result (Some \<lparr>mg_role = RUser, mg_content = map (matched_result nxt) ids\<rparr>) i = matched_result nxt i"
    unfolding matched_result_def [of "Some _"] by (simp add: find_matched)
qed

lemma normalize_batch:
  assumes "mg_content m \<noteq> []" and "tool_use_ids m \<noteq> []"
  shows "normalize_history (m # results_of xs m # ms) = m # results_of xs m # normalize_history ms"
  using assms by (simp add: Let_def next_user_def results_of_def rematch rest_message_def)

lemma normalize_idempotent: "normalize_history (normalize_history ms) = normalize_history ms"
proof (induction rule: normalize_induct)
  case (Batch m ms pre n tl)
  then show ?case
    by (auto simp: normalize_batch normalize_rest simp del: normalize_history.simps)
next
  case (Keep m ms)
  then show ?case by auto
qed (simp_all add: normalize_rest)

section \<open>Facts about eviction\<close>

definition saved :: "message list \<Rightarrow> (string, string) tbl \<Rightarrow> nat \<Rightarrow> nat \<Rightarrow> nat" where
  "saved history names a b = sum_list (map (\<lambda>i. eviction_saving (history ! i) names) [a..<b])"

lemma saved_split: "a \<le> b \<Longrightarrow> b \<le> c \<Longrightarrow> saved h names a c = saved h names a b + saved h names b c"
  using upt_add_eq_append [of a b "c - b"] by (simp add: saved_def)

lemma frontier_loop_facts:
  assumes "frontier \<le> endi" and "r = frontier_loop h names step needed endi freed frontier"
  shows "frontier \<le> r \<and> r \<le> endi \<and> (r = endi \<or> needed \<le> freed + saved h names frontier r) \<and>
    (r = endi \<or> max step 1 dvd r - frontier) \<and>
    (\<forall>j. frontier < j \<and> j < r \<and> max step 1 dvd j - frontier \<longrightarrow> freed + saved h names frontier j < needed)"
  using assms(1) unfolding assms(2)
proof (induction h names step needed endi freed frontier rule: frontier_loop.induct)
  case (1 h names step needed endi freed frontier)
  define st where "st = max step 1"
  define g where "g = min (frontier + st) endi"
  show ?case
  proof (cases "frontier < endi")
    case False
    with 1 show ?thesis by (simp add: frontier_loop.simps)
  next
    case lt: True
    have "0 < st" by (simp add: st_def)
    then have g: "frontier < g" "g \<le> endi" using lt by (auto simp: g_def)
    have whole: "g = frontier + st" if "g < endi" using that by (auto simp: g_def min_def split: if_splits)
    have none: "\<not> (frontier < j \<and> j < g \<and> st dvd j - frontier)" for j
      using dvd_imp_le [of st "j - frontier"] by (auto simp: g_def)
    have step_dvd: "st dvd j - frontier \<longleftrightarrow> st dvd j - g" if "g \<le> j" "g < endi" for j
    proof -
      from whole [OF that(2)] that(1) have "j - frontier = (j - g) + st" by linarith
      then show ?thesis by (simp only: dvd_add_left_iff [OF dvd_refl])
    qed
    have split: "saved h names frontier j = saved h names frontier g + saved h names g j" if "g \<le> j" for j
      using saved_split [of frontier g j] g(1) that by simp
    have unfold: "frontier_loop h names step needed endi freed frontier =
      (if needed \<le> freed + saved h names frontier g then g
       else frontier_loop h names step needed endi (freed + saved h names frontier g) g)"
      using lt by (subst frontier_loop.simps) (simp add: Let_def saved_def g_def st_def)
    show ?thesis
    proof (cases "needed \<le> freed + saved h names frontier g")
      case True
      then show ?thesis
        unfolding unfold st_def [symmetric] using g whole none
        by (cases "g < endi") auto
    next
      case False
      define r where "r = frontier_loop h names step needed endi (freed + saved h names frontier g) g"
      have ih: "g \<le> r \<and> r \<le> endi \<and> (r = endi \<or> needed \<le> freed + saved h names frontier g + saved h names g r) \<and>
        (r = endi \<or> st dvd r - g) \<and>
        (\<forall>j. g < j \<and> j < r \<and> st dvd j - g \<longrightarrow> freed + saved h names frontier g + saved h names g j < needed)"
        using 1(1) [OF lt refl refl] False g(2) by (simp add: saved_def g_def st_def r_def)
      have "r = endi \<or> st dvd r - frontier"
        using ih step_dvd [of r] by linarith
      moreover have "freed + saved h names frontier j < needed"
        if j: "frontier < j" "j < r" "st dvd j - frontier" for j
      proof -
        from j none have le: "g \<le> j" by (meson not_less)
        with j(2) ih have "g < endi" by linarith
        with j(3) le have "st dvd j - g" by (simp add: step_dvd)
        with ih le j(2) have "j = g \<or> freed + saved h names frontier g + saved h names g j < needed"
          by (cases "j = g") simp_all
        then show ?thesis using split [OF le] False by auto
      qed
      moreover have "r = endi \<or> needed \<le> freed + saved h names frontier r"
        using ih split [of r] by auto
      moreover have "frontier \<le> r" "r \<le> endi" using ih g by linarith+
      ultimately show ?thesis unfolding unfold st_def [symmetric] using False r_def by auto
    qed
  qed
qed

definition same_shape :: "message \<Rightarrow> message \<Rightarrow> bool" where
  "same_shape m m' \<longleftrightarrow> mg_role m' = mg_role m \<and> map use_of (mg_content m') = map use_of (mg_content m) \<and>
     map result_for (mg_content m') = map result_for (mg_content m)"

lemma map_filter_via: "List.map_filter f xs = map the (filter (\<lambda>r. r \<noteq> None) (map f xs))"
  by (simp add: List.map_filter_def filter_map o_def)

lemma same_shape_ids: "same_shape m m' \<Longrightarrow> tool_use_ids m' = tool_use_ids m"
  unfolding same_shape_def tool_use_ids_def map_filter_via by simp

lemma same_shape_role: "same_shape m m' \<Longrightarrow> mg_role m' = mg_role m"
  by (simp add: same_shape_def)

lemma same_shape_results:
  "same_shape m m' \<Longrightarrow> (\<exists>b \<in> set (mg_content m'). result_for b = Some k) \<longleftrightarrow> (\<exists>b \<in> set (mg_content m). result_for b = Some k)"
proof -
  assume "same_shape m m'"
  then have "set (map result_for (mg_content m')) = set (map result_for (mg_content m))"
    by (simp add: same_shape_def)
  then have "Some k \<in> result_for ` set (mg_content m') \<longleftrightarrow> Some k \<in> result_for ` set (mg_content m)"
    by simp
  then show ?thesis by (auto simp: image_iff) (use eq_commute in metis)+
qed

lemma same_shape_violations:
  assumes "same_shape m m'" and "list_all2 same_shape ms ms'"
    and "assistant_ids prev' = assistant_ids prev"
  shows "message_violations i prev' m' ms' = message_violations i prev m ms"
proof -
  have nxt: "(case next_user ms' of Some n \<Rightarrow> \<exists>b \<in> set (mg_content n). result_for b = Some k | None \<Rightarrow> False) =
    (case next_user ms of Some n \<Rightarrow> \<exists>b \<in> set (mg_content n). result_for b = Some k | None \<Rightarrow> False)" for k
    using assms(2) by (cases rule: list.rel_cases) (auto simp: next_user_def same_shape_role same_shape_results)
  have res: "List.map_filter (\<lambda>b. h (result_for b)) (mg_content m') =
    List.map_filter (\<lambda>b. h (result_for b)) (mg_content m)" for h :: "string option \<Rightarrow> string option"
  proof -
    have by_results: "List.map_filter (\<lambda>b. h (result_for b)) bs = List.map_filter h (map result_for bs)" for bs
      by (simp add: List.map_filter_def filter_map o_def)
    show ?thesis
      using assms(1) by (simp add: by_results same_shape_def)
  qed
  show ?thesis
    unfolding message_violations_def same_shape_role [OF assms(1)] same_shape_ids [OF assms(1)] nxt assms(3)
    using res [of "case_option None (\<lambda>k. if k \<in> set (assistant_ids prev) then None
      else Some (''message['' @ show_nat i @ ''] tool_result('' @ k @ '') has no paired tool_use''))"]
    by simp
qed

lemma same_shape_all_violations:
  "list_all2 same_shape ms ms' \<Longrightarrow> assistant_ids prev' = assistant_ids prev \<Longrightarrow>
     violations_from i prev' ms' = violations_from i prev ms"
proof (induction arbitrary: i prev prev' rule: list_all2_induct)
  case (Cons m ms m' ms')
  have "assistant_ids (Some m') = assistant_ids (Some m)"
    using Cons by (simp add: assistant_ids_def same_shape_ids)
  with Cons same_shape_violations [of m m' ms ms' prev' prev i] show ?case by simp
qed simp

lemma stub_block_shape [simp]:
  "use_of (stub_block names b) = use_of b" "result_for (stub_block names b) = result_for b"
  by (cases b; simp)+

lemma evict_message_shape: "same_shape m (evict_message names start limit i m)"
  by (simp add: same_shape_def evict_message_def)

lemma list_all2_enumerate:
  "(\<And>i x. P x (f (i, x))) \<Longrightarrow> list_all2 P xs (map f (enumerate n xs))"
  by (induction xs arbitrary: n) simp_all

lemma evict_shapes: "list_all2 same_shape h (evict_old_tool_results render h cfg)"
proof -
  have "list_all2 same_shape h h"
    by (rule list_all2_refl) (simp add: same_shape_def)
  then show ?thesis
    by (auto simp: evict_old_tool_results_def Let_def intro!: list_all2_enumerate evict_message_shape)
qed

text \<open>A message after eviction: the same role, and every block kept or stubbed.\<close>

definition stubbed_at_most :: "(string, string) tbl \<Rightarrow> message \<Rightarrow> message \<Rightarrow> bool" where
  "stubbed_at_most names m m' \<longleftrightarrow> mg_role m' = mg_role m \<and>
     list_all2 (\<lambda>b b'. b' = b \<or> b' = stub_block names b) (mg_content m) (mg_content m')"

lemma evict_stubs:
  "list_all2 (stubbed_at_most (tool_use_names h)) h (evict_old_tool_results render h cfg)"
proof -
  let ?P = "stubbed_at_most (tool_use_names h)"
  have same: "?P m m" for m
    by (simp add: stubbed_at_most_def list_all2_same)
  have one: "?P m (evict_message (tool_use_names h) start limit i m)" for start limit i m
    using same by (auto simp: evict_message_def stubbed_at_most_def list_all2_conv_all_nth)
  show ?thesis
    by (auto simp: evict_old_tool_results_def Let_def list_all2_same same intro!: list_all2_enumerate one)
qed

lemma map_enumerate_take:
  "(\<And>i x. i < n + k \<Longrightarrow> f (i, x) = x) \<Longrightarrow> take k (map f (enumerate n xs)) = take k xs"
proof (induction xs arbitrary: n k)
  case (Cons x xs)
  show ?case
  proof (cases k)
    case (Suc k')
    with Cons.IH [of "Suc n" k'] Cons.prems show ?thesis by simp
  qed simp
qed simp

lemma map_enumerate_drop:
  "(\<And>i x. n + k \<le> i \<Longrightarrow> f (i, x) = x) \<Longrightarrow> drop k (map f (enumerate n xs)) = drop k xs"
proof (induction xs arbitrary: n k)
  case (Cons x xs)
  show ?case
  proof (cases k)
    case 0
    with Cons.prems have "f (n, x) = x" "map f (enumerate (Suc n) xs) = xs"
      using Cons.IH [of "Suc n" 0] by auto
    with 0 show ?thesis by simp
  next
    case (Suc k')
    with Cons.IH [of "Suc n" k'] Cons.prems show ?thesis by simp
  qed
qed simp

lemma eviction_frontier_le:
  "start \<le> endi \<Longrightarrow> eviction_frontier render h cfg names start endi \<le> endi"
  using frontier_loop_facts [OF _ refl, of start endi]
  by (auto simp: eviction_frontier_def Let_def)

section \<open>Facts about compaction\<close>

definition text_only :: "message \<Rightarrow> bool" where
  "text_only m \<longleftrightarrow> (\<exists>t. mg_content m = [CText t])"

lemma normalize_text_only: "list_all text_only ms \<Longrightarrow> normalize_history ms = ms"
  by (induction ms) (auto simp: text_only_def tool_use_ids_def is_result_def List.map_filter_simps)

lemma from_to_role [simp]: "from_role (to_role r) = r"
  by (cases r) (simp_all add: to_role_def from_role_def)

lemma paired_text_entries:
  "list_all (\<lambda>e. \<exists>t. he_blocks e = [Text t]) es \<Longrightarrow> paired es"
proof (induction es rule: rev_induct)
  case (snoc e es)
  then show ?case by (auto simp: paired_snoc entry_uses_def List.map_filter_simps)
qed simp

text \<open>The nonempty entries of a history as the compactor sees them, in text.\<close>

definition text_entries :: "(json \<Rightarrow> string) \<Rightarrow> history_entry list \<Rightarrow> history_entry list" where
  "text_entries render es =
     map (\<lambda>e. \<lparr>he_role = he_role e, he_blocks = [Text (entry_text render e)]\<rparr>)
       (filter (\<lambda>e. entry_text render e \<noteq> []) es)"

lemma last_entries: "drop (length (map f xs) - n) (map f xs) = map f (drop (length xs - n) xs)"
  by (simp add: drop_map)

lemma context_compact_tail:
  "context_compact render debug instruction model cm history trigger = Inr c \<Longrightarrow>
     cp_tail c = drop (length (text_entries render history) - DEFAULT_KEEP_RECENT) (text_entries render history)"
proof -
  assume c: "context_compact render debug instruction model cm history trigger = Inr c"
  define es where "es = filter (\<lambda>e. entry_text render e \<noteq> []) history"
  define ms where "ms = drop (length es - DEFAULT_KEEP_RECENT) (map (flatten_entry render) es)"
  have "list_all text_only ms"
    by (auto simp: ms_def list_all_iff text_only_def flatten_entry_def dest!: in_set_dropD)
  then have "normalize_history (\<lparr>mg_role = RUser, mg_content = [CText t]\<rparr> # ms) =
      \<lparr>mg_role = RUser, mg_content = [CText t]\<rparr> # ms" for t
    by (intro normalize_text_only) (simp add: text_only_def)
  with c have "cp_tail c = map (tail_entry debug) ms"
    by (auto simp: context_compact_def compact_history_def context_config_default_def es_def [symmetric] ms_def
        Let_def split: sum.splits)
  also have "\<dots> = map (\<lambda>e. \<lparr>he_role = he_role e, he_blocks = [Text (entry_text render e)]\<rparr>)
      (drop (length es - DEFAULT_KEEP_RECENT) es)"
    by (simp add: ms_def drop_map tail_entry_def flatten_entry_def)
  finally show ?thesis
    by (simp add: text_entries_def es_def [symmetric] drop_map)
qed

section \<open>The order of the waterlines\<close>

fun level_rank :: "water_level \<Rightarrow> nat" where
  "level_rank LOk = 0"
| "level_rank LWarning = 1"
| "level_rank LAutoCompact = 2"
| "level_rank LBlocking = 3"

lemma level_rank_inject: "level_rank a = level_rank b \<longleftrightarrow> a = b"
  by (cases a; cases b) simp_all

instantiation water_level :: linorder
begin

definition less_eq_water_level :: "water_level \<Rightarrow> water_level \<Rightarrow> bool" where
  "a \<le> b \<longleftrightarrow> level_rank a \<le> level_rank b"

definition less_water_level :: "water_level \<Rightarrow> water_level \<Rightarrow> bool" where
  "a < b \<longleftrightarrow> level_rank a < level_rank b"

instance
  by standard (auto simp: less_eq_water_level_def less_water_level_def level_rank_inject)

end

lemma check_mono: "used \<le> used' \<Longrightarrow> thresholds_check th used window \<le> thresholds_check th used' window"
  by (auto simp: thresholds_check_def less_eq_water_level_def)

text \<open>The level of the store's budget check.\<close>

fun level_of_budget :: "budget_level \<Rightarrow> water_level" where
  "level_of_budget BudgetOk = LOk"
| "level_of_budget BudgetWarn = LWarning"
| "level_of_budget AutoCompact = LAutoCompact"
| "level_of_budget BudgetBlocking = LBlocking"

section \<open>The compactor seam of the run loop\<close>

definition context_compactor ::
    "(json \<Rightarrow> string) \<Rightarrow> (content_block \<Rightarrow> string) \<Rightarrow> string \<Rightarrow>
     ('w \<Rightarrow> (message list \<Rightarrow> nat \<Rightarrow> (string, string list) result) \<times> compactor_cfg \<times> 'w) \<Rightarrow>
     history_entry list \<Rightarrow> compact_trigger \<Rightarrow> 'w \<Rightarrow> (string, compacted) result \<times> 'w" where
  "context_compactor render debug instruction host es trigger w =
     (case host w of (model, cm, w') \<Rightarrow> (context_compact render debug instruction model cm es trigger, w'))"

lemma context_compact_tail_paired:
  "context_compact render debug instruction model cm es trigger = Inr c \<Longrightarrow> paired (cp_tail c)"
  by (rule paired_text_entries)
    (auto simp: context_compact_tail text_entries_def list_all_iff dest!: in_set_dropD)

interpretation ctx: compactor "context_compactor render debug instruction host" for render debug instruction host
  by unfold_locales
    (auto simp: context_compactor_def split: prod.splits intro: context_compact_tail_paired)

section \<open>Properties\<close>

text \<open>C9: history repair restores the provider's pairing rules for any history: the pairing check
  finds nothing in its result, no message of the result is empty, every block that is not a
  tool result survives in order, and repairing twice changes nothing more.\<close>

theorem normalize_history_repairs:
  "find_pairing_violations (normalize_history h) = [] \<and>
   list_all (\<lambda>m. mg_content m \<noteq> []) (normalize_history h) \<and>
   plain_blocks (normalize_history h) = plain_blocks h \<and>
   normalize_history (normalize_history h) = normalize_history h"
  by (simp add: find_pairing_violations_def normalize_no_violations normalize_nonempty list_all_iff
      normalize_plain_blocks normalize_idempotent)

text \<open>The two budget gates agree: the waterlines of the context pipeline and the remaining-token
  check of the run loop give the same level for every usage and window.\<close>

theorem budget_gates_agree:
  "thresholds_check thresholds_default used window = level_of_budget (check_budget (window - used))"
  by (auto simp: thresholds_check_def thresholds_default_def check_budget_def BUDGET_BLOCKING_REMAINING_def
      BUDGET_AUTO_COMPACT_REMAINING_def BUDGET_WARN_REMAINING_def)

text \<open>With validated margins each waterline is exact: a level is reached as soon as the usage
  is within that level's margin of the window; and more usage never gives a lower level.\<close>

theorem waterlines_exact:
  assumes "thresholds_validate th = Inr ()"
  shows "(LWarning \<le> thresholds_check th used window \<longleftrightarrow> window - th_warning th \<le> used) \<and>
    (LAutoCompact \<le> thresholds_check th used window \<longleftrightarrow> window - th_auto_compact th \<le> used) \<and>
    (LBlocking \<le> thresholds_check th used window \<longleftrightarrow> window - th_blocking th \<le> used) \<and>
    thresholds_check th (max used used') window =
      max (thresholds_check th used window) (thresholds_check th used' window)"
proof -
  have order: "th_auto_compact th \<le> th_warning th" "th_blocking th \<le> th_auto_compact th"
    using assms by (auto simp: thresholds_validate_def split: if_splits)
  have "thresholds_check th (max used used') window =
      max (thresholds_check th used window) (thresholds_check th used' window)"
  proof (cases "used \<le> used'")
    case True
    with check_mono [OF True, of th window] show ?thesis by (simp only: max_absorb2)
  next
    case False
    then have "used' \<le> used" by simp
    with check_mono [OF this, of th window] show ?thesis by (simp only: max_absorb1)
  qed
  then show ?thesis
    using order by (auto simp: thresholds_check_def less_eq_water_level_def)
qed

theorem waterlines_exact_witness:
  "thresholds_validate thresholds_default = Inr () \<and>
   (LWarning \<le> thresholds_check thresholds_default 185000 200000 \<longleftrightarrow> 200000 - th_warning thresholds_default \<le> 185000) \<and>
   (LAutoCompact \<le> thresholds_check thresholds_default 185000 200000 \<longleftrightarrow> 200000 - th_auto_compact thresholds_default \<le> 185000) \<and>
   (LBlocking \<le> thresholds_check thresholds_default 185000 200000 \<longleftrightarrow> 200000 - th_blocking thresholds_default \<le> 185000) \<and>
   thresholds_check thresholds_default (max 185000 199000) 200000 =
     max (thresholds_check thresholds_default 185000 200000) (thresholds_check thresholds_default 199000 200000)"
proof -
  have v: "thresholds_validate thresholds_default = Inr ()"
    by (simp add: thresholds_validate_def thresholds_default_def)
  show ?thesis
    using v waterlines_exact [OF v, of 185000 200000 199000] by blast
qed

text \<open>eviction touches nothing but the payloads of old tool results: the anchored prefix and the
  recent window are untouched, every other block keeps its place and value, results keep their
  ids and flags, so the pairing check answers as before; and below the soft threshold the
  history passes unchanged.\<close>

theorem eviction_touches_only_old_results:
  "take (ev_anchored_prefix cfg) (evict_old_tool_results render h cfg) = take (ev_anchored_prefix cfg) h \<and>
   drop (length h - ev_recent_window cfg) (evict_old_tool_results render h cfg) =
     drop (length h - ev_recent_window cfg) h \<and>
   list_all2 (stubbed_at_most (tool_use_names h)) h (evict_old_tool_results render h cfg) \<and>
   find_pairing_violations (evict_old_tool_results render h cfg) = find_pairing_violations h \<and>
   (ev_soft_threshold cfg < estimate_messages render h DEFAULT_CHARS_PER_TOKEN \<or>
    evict_old_tool_results render h cfg = h)"
proof -
  define endi where "endi = length h - ev_recent_window cfg"
  define start where "start = min (ev_anchored_prefix cfg) endi"
  define names where "names = tool_use_names h"
  define limit where "limit = eviction_frontier render h cfg names start endi"
  have ev: "evict_old_tool_results render h cfg = (if endi \<le> start then h
      else map (\<lambda>(i, m). evict_message names start limit i m) (enumerate 0 h))"
    by (simp add: evict_old_tool_results_def endi_def start_def names_def limit_def Let_def)
  have "take (ev_anchored_prefix cfg) (evict_old_tool_results render h cfg) = take (ev_anchored_prefix cfg) h"
    unfolding ev by (auto simp: evict_message_def start_def intro!: map_enumerate_take)
  moreover have "limit \<le> endi"
    unfolding limit_def by (rule eviction_frontier_le) (simp add: start_def)
  then have "drop endi (evict_old_tool_results render h cfg) = drop endi h"
    unfolding ev by (auto simp: evict_message_def intro!: map_enumerate_drop)
  moreover have "evict_old_tool_results render h cfg = h"
    if "\<not> ev_soft_threshold cfg < estimate_messages render h DEFAULT_CHARS_PER_TOKEN"
  proof -
    from that have "limit = start" by (simp add: limit_def eviction_frontier_def)
    then have "\<And>i m. evict_message names start limit i m = m" by (auto simp: evict_message_def)
    then have "map (\<lambda>(i, m). evict_message names start limit i m) (enumerate 0 h) = h"
      using map_enumerate_drop [of 0 0 "\<lambda>(i, m). evict_message names start limit i m" h] by simp
    then show ?thesis by (simp add: ev)
  qed
  ultimately show ?thesis
    using evict_stubs [of h render cfg] same_shape_all_violations [OF evict_shapes [of h render cfg] refl, of 0 None]
    by (auto simp: endi_def find_pairing_violations_def)
qed

text \<open>Eviction is driven by demand: over the threshold the frontier stops at the first batch
  boundary where the stubs free at least the excess (or at the recent window), so no older
  boundary would have been enough.\<close>

theorem eviction_frontier_minimal:
  assumes "start < endi" and "ev_soft_threshold cfg < estimate_messages render h DEFAULT_CHARS_PER_TOKEN"
  shows "let limit = eviction_frontier render h cfg names start endi; step = max (ev_batch cfg) 1;
      excess = estimate_messages render h DEFAULT_CHARS_PER_TOKEN - ev_soft_threshold cfg
    in start \<le> limit \<and> limit \<le> endi \<and>
       (limit = endi \<or> step dvd limit - start \<and> excess \<le> saved h names start limit) \<and>
       list_all (\<lambda>j. saved h names start j < excess) (filter (\<lambda>j. step dvd j - start) [start + 1..<limit])"
  using assms frontier_loop_facts [of start endi _ h names "ev_batch cfg"
      "estimate_messages render h DEFAULT_CHARS_PER_TOKEN - ev_soft_threshold cfg" 0, OF _ refl]
  by (simp add: eviction_frontier_def Let_def list_all_iff Suc_le_eq) blast

definition payload :: "nat \<Rightarrow> message" where
  "payload n = \<lparr>mg_role = RUser, mg_content = [CToolResult ''c'' (replicate n (CHR ''x'')) False]\<rparr>"

definition sample_history :: "message list" where
  "sample_history = [payload 0, payload 80, payload 80]"

definition sample_eviction :: eviction_config where
  "sample_eviction = \<lparr>ev_anchored_prefix = 0, ev_recent_window = 0, ev_soft_threshold = 38, ev_batch = 1\<rparr>"

text \<open>A stub can be longer than what it replaces, so a second pass may reach further.\<close>

lemma eviction_not_idempotent:
  "evict_old_tool_results (\<lambda>_. []) (evict_old_tool_results (\<lambda>_. []) sample_history sample_eviction) sample_eviction
     \<noteq> evict_old_tool_results (\<lambda>_. []) sample_history sample_eviction"
  by code_simp

theorem eviction_frontier_minimal_witness:
  "(let limit = eviction_frontier (\<lambda>_. []) sample_history sample_eviction [] 0 3; step = max (ev_batch sample_eviction) 1;
      excess = estimate_messages (\<lambda>_. []) sample_history DEFAULT_CHARS_PER_TOKEN - ev_soft_threshold sample_eviction
    in 0 \<le> limit \<and> limit \<le> 3 \<and>
       (limit = 3 \<or> step dvd limit - 0 \<and> excess \<le> saved sample_history [] 0 limit) \<and>
       list_all (\<lambda>j. saved sample_history [] 0 j < excess) (filter (\<lambda>j. step dvd j - 0) [0 + 1..<limit]))"
proof (rule eviction_frontier_minimal)
  show "ev_soft_threshold sample_eviction < estimate_messages (\<lambda>_. []) sample_history DEFAULT_CHARS_PER_TOKEN"
    by code_simp
qed simp

text \<open>a compaction keeps the newest part of the conversation verbatim: the tail is exactly the
  last ten nonempty entries in their text view, whatever the model, the trigger and the footers.\<close>

theorem compaction_keeps_recent_text:
  "case context_compact render debug instruction model cm history trigger of
     Inl e \<Rightarrow> True
   | Inr c \<Rightarrow>
       cp_tail c = drop (length (text_entries render history) - DEFAULT_KEEP_RECENT) (text_entries render history) \<and>
       cp_summary_tokens c = estimate_tokens (cp_summary c) \<and> paired (cp_tail c)"
proof (cases "context_compact render debug instruction model cm history trigger")
  case (Inr c)
  then have "cp_summary_tokens c = estimate_tokens (cp_summary c)"
    by (auto simp: context_compact_def Let_def split: sum.splits)
  with Inr context_compact_tail [OF Inr] context_compact_tail_paired [OF Inr] show ?thesis by simp
qed simp

text \<open>C10: sessions on the shipped compactor stay well formed: from an empty conversation, after any
  turns with any answers of model, tools, user and hooks, every entry with tool calls is
  followed at once by their results.\<close>

theorem session_stays_paired:
  "paired (cv_entries (rt_conv (fst (run_turns
     (sm\<lparr>sm_compact := context_compactor render debug instruction host\<rparr>) cfg turns grants
     \<lparr>rt_world = w, rt_events = [], rt_conv = conv_new has_sink, rt_child_slot = None, rt_trace = []\<rparr>))))"
  by (rule ctx.session_keeps_paired) (simp add: conv_new_def)

end
