(* ===== verification/Session_Files.thy ===== *)
theory Session_Files
  imports Todo_List
begin

text \<open>
  Per-session state files of the durable goal and the reviewed plan
  (\<open>crates/state/goal/src/lib.rs\<close>, \<open>crates/state/goal/src/tool.rs\<close>, \<open>crates/state/plan/src/lib.rs\<close>,
  \<open>crates/state/plan/src/tool.rs\<close>): session-id validation, file paths, load and save, and the
  in-memory store with its resume file that the two tools share in shape.

  A disk maps paths to files. A file either parses to a state, or does not parse, or cannot be
  read; writing a state and reading it back gives the state (JSON serialization). The outcome of
  the write is a parameter.
\<close>

section \<open>Identifiers and paths\<close>

definition id_char :: "char \<Rightarrow> bool" where
  "id_char c \<longleftrightarrow> is_alnum c \<or> c = CHR ''-'' \<or> c = CHR ''_''"

definition session_id_ok :: "string \<Rightarrow> bool" where
  "session_id_ok i \<longleftrightarrow> \<not> (i = [] \<or> byte_len i > 128 \<or> \<not> list_all id_char i)"

definition path_join :: "string \<Rightarrow> string \<Rightarrow> string" where
  "path_join p n = (if p = [] then n else if last p = CHR ''/'' then p @ n else p @ ''/'' @ n)"

definition json_file :: "string \<Rightarrow> string \<Rightarrow> string" where
  "json_file root i = path_join root (i @ ''.json'')"

lemma path_join_inject [simp]: "path_join p a = path_join p b \<longleftrightarrow> a = b"
  by (simp add: path_join_def)

lemma json_file_inject [simp]: "json_file root a = json_file root b \<longleftrightarrow> a = b"
  by (simp add: json_file_def)

text \<open>A valid id names one file directly under the root.\<close>

lemma json_file_direct:
  assumes "session_id_ok i"
  shows "CHR ''/'' \<notin> set (i @ ''.json'') \<and> i \<noteq> ''..'' \<and> i \<noteq> ''.''"
proof -
  have "list_all id_char i" using assms by (simp add: session_id_ok_def)
  moreover have "\<not> id_char (CHR ''/'')" "\<not> id_char (CHR ''.'')"
    by (simp_all add: id_char_def is_alnum_def is_digit_def is_upper_def is_lower_def char_code_def)
  ultimately show ?thesis by (auto simp: list_all_iff)
qed

section \<open>Files\<close>

datatype 'a disk_file = Parses 'a | DoesNotParse string | Unreadable string

type_synonym 'a disk = "(string, 'a disk_file) tbl"

datatype file_error = FileInvalidId string | FileCorrupt string | FileIo string

definition validate_session_id :: "string \<Rightarrow> (file_error, unit) result" where
  "validate_session_id i = (if session_id_ok i then Inr () else Inl (FileInvalidId i))"

definition load_from_path :: "'a \<Rightarrow> string \<Rightarrow> 'a disk \<Rightarrow> (file_error, 'a) result" where
  "load_from_path fresh path disk =
     (case map_of disk path of
        None \<Rightarrow> Inr fresh
      | Some (Parses st) \<Rightarrow> Inr st
      | Some (DoesNotParse m) \<Rightarrow> Inl (FileCorrupt m)
      | Some (Unreadable m) \<Rightarrow> Inl (FileIo m))"

definition save_to_path :: "string option \<Rightarrow> 'a \<Rightarrow> string \<Rightarrow> 'a disk \<Rightarrow> (file_error, unit) result \<times> 'a disk" where
  "save_to_path fault st path disk =
     (case fault of
        Some m \<Rightarrow> (Inl (FileIo m), disk)
      | None \<Rightarrow> (Inr (), tbl_insert path (Parses st) disk))"

definition load_for_session ::
    "'a \<Rightarrow> (string \<Rightarrow> string) \<Rightarrow> string option \<Rightarrow> string \<Rightarrow> 'a disk \<Rightarrow> (file_error, 'a) result" where
  "load_for_session fresh root_for home i disk =
     (case home of
        None \<Rightarrow> Inr fresh
      | Some h \<Rightarrow>
          (case validate_session_id i of
             Inl e \<Rightarrow> Inl e
           | Inr _ \<Rightarrow> load_from_path fresh (json_file (root_for h) i) disk))"

definition save_for_session ::
    "string option \<Rightarrow> (string \<Rightarrow> string) \<Rightarrow> 'a \<Rightarrow> string option \<Rightarrow> string \<Rightarrow> 'a disk \<Rightarrow>
     (file_error, unit) result \<times> 'a disk" where
  "save_for_session fault root_for st home i disk =
     (case home of
        None \<Rightarrow> (Inr (), disk)
      | Some h \<Rightarrow>
          (case validate_session_id i of
             Inl e \<Rightarrow> (Inl e, disk)
           | Inr _ \<Rightarrow> save_to_path fault st (json_file (root_for h) i) disk))"

section \<open>The store behind a tool\<close>

text \<open>The in-memory state, its resume path, and the disk. The persist lock makes one transition and
  its write one step.\<close>

record 'a session_store =
  ss_state :: 'a
  ss_file :: "string option"
  ss_disk :: "'a disk"

definition store_new :: "(string \<Rightarrow> string) \<Rightarrow> 'a \<Rightarrow> string option \<Rightarrow> string \<Rightarrow> 'a disk \<Rightarrow> 'a session_store" where
  "store_new root_for st home i disk =
     \<lparr>ss_state = st,
      ss_file = (case home of Some h \<Rightarrow> if session_id_ok i then Some (json_file (root_for h) i) else None | None \<Rightarrow> None),
      ss_disk = disk\<rparr>"

definition persist :: "string option \<Rightarrow> 'a session_store \<Rightarrow> string option \<times> 'a session_store" where
  "persist fault ss =
     (case ss_file ss of
        None \<Rightarrow> (None, ss)
      | Some path \<Rightarrow>
          (case save_to_path fault (ss_state ss) path (ss_disk ss) of
             (Inl (FileIo m), d) \<Rightarrow> (Some m, ss\<lparr>ss_disk := d\<rparr>)
           | (_, d) \<Rightarrow> (None, ss\<lparr>ss_disk := d\<rparr>)))"

text \<open>\<open>apply_transition\<close>: a failing transition leaves everything alone, a succeeding one is
  rendered and persisted.\<close>

definition apply_transition ::
    "string \<Rightarrow> ('e \<Rightarrow> string) \<Rightarrow> ('a \<Rightarrow> string) \<Rightarrow> string \<Rightarrow> ('a \<Rightarrow> 'e option \<times> 'a) \<Rightarrow> string option \<Rightarrow>
     'a session_store \<Rightarrow> (string \<times> bool) \<times> 'a session_store" where
  "apply_transition noun show_error render action transition fault ss =
     (case transition (ss_state ss) of
        (Some e, st) \<Rightarrow> ((show_error e, True), ss\<lparr>ss_state := st\<rparr>)
      | (None, st) \<Rightarrow>
          (case persist fault (ss\<lparr>ss_state := st\<rparr>) of
             (None, ss') \<Rightarrow> ((render st, False), ss')
           | (Some reason, ss') \<Rightarrow>
               ((noun @ '' '' @ action @ '' applied but persistence failed: '' @ reason, True), ss')))"

text \<open>In step: what the resume file holds once a write succeeded.\<close>

definition on_disk :: "'a session_store \<Rightarrow> bool" where
  "on_disk ss \<longleftrightarrow> (case ss_file ss of None \<Rightarrow> True | Some path \<Rightarrow> map_of (ss_disk ss) path = Some (Parses (ss_state ss)))"

lemma persist_state: "persist fault ss = (r, ss') \<Longrightarrow> ss_state ss' = ss_state ss \<and> ss_file ss' = ss_file ss \<and> (r = None \<longrightarrow> on_disk ss')"
  by (auto simp: persist_def save_to_path_def on_disk_def split: option.splits)

lemma apply_transition_facts:
  assumes "apply_transition noun show_error render action transition fault ss = ((content, is_error), ss')"
    and "\<And>e st. transition (ss_state ss) = (Some e, st) \<Longrightarrow> st = ss_state ss"
  shows "ss_file ss' = ss_file ss \<and>
    (if is_error then ss_state ss' = ss_state ss \<and> ss' = ss \<or> fault \<noteq> None
     else on_disk ss' \<and> transition (ss_state ss) = (None, ss_state ss'))"
proof (cases "transition (ss_state ss)")
  case (Pair e st)
  show ?thesis
  proof (cases e)
    case (Some e')
    with assms Pair show ?thesis by (auto simp: apply_transition_def)
  next
    case None
    obtain r ss1 where p: "persist fault (ss\<lparr>ss_state := st\<rparr>) = (r, ss1)" by fastforce
    have "r \<noteq> None \<Longrightarrow> fault \<noteq> None"
      using p by (auto simp: persist_def save_to_path_def split: option.splits)
    with assms Pair None p persist_state [OF p] show ?thesis
      by (auto simp: apply_transition_def split: option.splits)
  qed
qed

section \<open>Properties\<close>

text \<open>Session files are isolated: a save is refused exactly for an invalid session id; after it
  the same session reads the saved state back and every other session reads what it read
  before.\<close>

theorem session_files_isolated:
  "case save_for_session None root_for st (Some home) a disk of
     (Inl e, disk') \<Rightarrow> \<not> session_id_ok a \<and> disk' = disk
   | (Inr _, disk') \<Rightarrow> session_id_ok a \<and>
       load_for_session fresh root_for (Some home) b disk' =
         (if b = a then Inr st else load_for_session fresh root_for (Some home) b disk)"
  by (auto simp: save_for_session_def load_for_session_def validate_session_id_def save_to_path_def
      load_from_path_def)

end
