(* ===== verification/Durable_Goal.thy ===== *)
theory Durable_Goal
  imports Session_Files
begin

text \<open>
  The durable goal of \<open>crates/state/goal/src/lib.rs\<close> (the objective with its sub-goals, the status
  machine under optimistic concurrency, the capped round driver), the \<open>goal\<close> tool of
  \<open>crates/state/goal/src/tool.rs\<close>, and the tracker \<open>crates/operations/bootstrap/src/goal_adapter.rs\<close>
  that answers the run loop. The clock is an argument of every mutation.
\<close>

section \<open>Goal state\<close>

definition MAX_ROUND :: nat where "MAX_ROUND = 256"
definition MAX_SUB_GOALS :: nat where "MAX_SUB_GOALS = 64"

datatype sub_goal_status = SubInProgress | SubAchieved

fun sub_status_str :: "sub_goal_status \<Rightarrow> string" where
  "sub_status_str SubInProgress = ''in_progress''"
| "sub_status_str SubAchieved = ''achieved''"

record sub_goal =
  sg_text :: string
  sg_status :: sub_goal_status

datatype goal_status = GoalActive | GoalBlocked | GoalPaused | GoalCompleted

fun goal_status_str :: "goal_status \<Rightarrow> string" where
  "goal_status_str GoalActive = ''active''"
| "goal_status_str GoalBlocked = ''blocked''"
| "goal_status_str GoalPaused = ''paused''"
| "goal_status_str GoalCompleted = ''completed''"

definition goal_terminal :: "goal_status \<Rightarrow> bool" where
  "goal_terminal st \<longleftrightarrow> st = GoalCompleted"

datatype goal_error =
    GUnexpectedState string string string
  | GVersionMismatch nat nat
  | GRoundCapped nat nat
  | GInvalidInput string

fun goal_error_str :: "goal_error \<Rightarrow> string" where
  "goal_error_str (GUnexpectedState action expected actual) =
     ''cannot '' @ action @ '': expected status '' @ expected @ '', found '' @ actual"
| "goal_error_str (GVersionMismatch expected actual) =
     ''goal version mismatch: expected version '' @ show_nat expected @ '', found version '' @
     show_nat actual @ ''; reload with goal status and retry''"
| "goal_error_str (GRoundCapped round cap) =
     ''goal round cap reached: round '' @ show_nat round @ '' at cap '' @ show_nat cap @ ''; goal is now blocked''"
| "goal_error_str (GInvalidInput m) = ''invalid goal input: '' @ m"

definition parse_sub_goal_status :: "string \<Rightarrow> (goal_error, sub_goal_status) result" where
  "parse_sub_goal_status raw =
     (if raw = ''in_progress'' then Inr SubInProgress
      else if raw = ''achieved'' then Inr SubAchieved
      else Inl (GInvalidInput ''unknown sub-goal status: expected one of in_progress, achieved''))"

definition parse_goal_status :: "string \<Rightarrow> (goal_error, goal_status) result" where
  "parse_goal_status raw =
     (if raw = ''active'' then Inr GoalActive
      else if raw = ''blocked'' then Inr GoalBlocked
      else if raw = ''paused'' then Inr GoalPaused
      else if raw = ''completed'' then Inr GoalCompleted
      else Inl (GInvalidInput ''unknown goal status: expected one of active, blocked, paused, completed''))"

record goal_state =
  gl_objective :: string
  gl_status :: goal_status
  gl_version :: nat
  gl_round :: nat
  gl_updated_at :: nat
  gl_sub_goals :: "sub_goal list"

definition goal_default :: goal_state where
  "goal_default = \<lparr>gl_objective = [], gl_status = GoalActive, gl_version = 0, gl_round = 0,
     gl_updated_at = 0, gl_sub_goals = []\<rparr>"

section \<open>Transitions\<close>

text \<open>A transition returns its error, if any, and the state it leaves.\<close>

definition goal_touch :: "nat \<Rightarrow> goal_state \<Rightarrow> goal_state" where
  "goal_touch now g = g\<lparr>gl_version := sat_add 64 (gl_version g) 1, gl_updated_at := now\<rparr>"

definition require_objective :: "string \<Rightarrow> (goal_error, string) result" where
  "require_objective t =
     (if trim t = [] then Inl (GInvalidInput ''objective must not be blank'') else Inr (trim t))"

definition check_version :: "nat \<Rightarrow> goal_state \<Rightarrow> goal_error option" where
  "check_version expected g =
     (if gl_version g \<noteq> expected then Some (GVersionMismatch expected (gl_version g)) else None)"

definition move_to ::
    "nat \<Rightarrow> string \<Rightarrow> goal_status \<Rightarrow> string \<Rightarrow> goal_state \<Rightarrow> goal_error option \<times> goal_state" where
  "move_to now action nxt expected g =
     (if nxt = gl_status g then (None, g)
      else if goal_terminal (gl_status g)
      then (Some (GUnexpectedState action expected (goal_status_str (gl_status g))), g)
      else (None, goal_touch now (g\<lparr>gl_status := nxt\<rparr>)))"

definition goal_set :: "nat \<Rightarrow> string \<Rightarrow> goal_state \<Rightarrow> goal_error option \<times> goal_state" where
  "goal_set now objective g =
     (case require_objective objective of
        Inl e \<Rightarrow> (Some e, g)
      | Inr t \<Rightarrow> (None, goal_touch now
          (g\<lparr>gl_objective := t, gl_status := GoalActive, gl_round := 0, gl_sub_goals := []\<rparr>)))"

fun clean_sub_goals :: "sub_goal list \<Rightarrow> (goal_error, sub_goal list) result" where
  "clean_sub_goals [] = Inr []"
| "clean_sub_goals (sg # rest) =
     (if trim (sg_text sg) = [] then Inl (GInvalidInput ''sub-goal text must not be blank'')
      else (case clean_sub_goals rest of
              Inl e \<Rightarrow> Inl e
            | Inr cleaned \<Rightarrow> Inr (sg\<lparr>sg_text := trim (sg_text sg)\<rparr> # cleaned)))"

definition replace_sub_goals ::
    "nat \<Rightarrow> nat \<Rightarrow> sub_goal list \<Rightarrow> goal_state \<Rightarrow> goal_error option \<times> goal_state" where
  "replace_sub_goals now expected subs g =
     (case check_version expected g of
        Some e \<Rightarrow> (Some e, g)
      | None \<Rightarrow>
          if MAX_SUB_GOALS < length subs then
            (Some (GInvalidInput (''too many sub-goals ('' @ show_nat (length subs) @ ''): the cap is '' @
                show_nat MAX_SUB_GOALS)), g)
          else (case clean_sub_goals subs of
                  Inl e \<Rightarrow> (Some e, g)
                | Inr cleaned \<Rightarrow> (None, goal_touch now (g\<lparr>gl_sub_goals := cleaned\<rparr>))))"

definition goal_update ::
    "nat \<Rightarrow> nat \<Rightarrow> string option \<Rightarrow> goal_status option \<Rightarrow> goal_state \<Rightarrow> goal_error option \<times> goal_state" where
  "goal_update now expected objective status g =
     (case check_version expected g of
        Some e \<Rightarrow> (Some e, g)
      | None \<Rightarrow>
          if goal_terminal (gl_status g) then
            (Some (GUnexpectedState ''update'' ''a non-terminal goal (set a new objective to restart)''
                (goal_status_str (gl_status g))), g)
          else (case (case objective of
                        Some t \<Rightarrow> (case require_objective t of Inl e \<Rightarrow> Inl e | Inr t' \<Rightarrow> Inr (Some t'))
                      | None \<Rightarrow> Inr None) of
                  Inl e \<Rightarrow> (Some e, g)
                | Inr next_objective \<Rightarrow>
                    let g1 = (case next_objective of Some t \<Rightarrow> g\<lparr>gl_objective := t\<rparr> | None \<Rightarrow> g);
                        g2 = (case status of Some s \<Rightarrow> g1\<lparr>gl_status := s\<rparr> | None \<Rightarrow> g1)
                    in (None, goal_touch now g2)))"

definition goal_pause :: "nat \<Rightarrow> goal_state \<Rightarrow> goal_error option \<times> goal_state" where
  "goal_pause now = move_to now ''pause'' GoalPaused ''active, blocked, or paused''"

definition goal_resume :: "nat \<Rightarrow> goal_state \<Rightarrow> goal_error option \<times> goal_state" where
  "goal_resume now = move_to now ''resume'' GoalActive ''paused, blocked, or active''"

definition goal_block :: "nat \<Rightarrow> goal_state \<Rightarrow> goal_error option \<times> goal_state" where
  "goal_block now = move_to now ''block'' GoalBlocked ''active, paused, or blocked''"

definition goal_complete :: "nat \<Rightarrow> goal_state \<Rightarrow> goal_error option \<times> goal_state" where
  "goal_complete now = move_to now ''complete'' GoalCompleted ''active, paused, or blocked''"

definition round_tick :: "nat \<Rightarrow> goal_state \<Rightarrow> goal_error option \<times> goal_state" where
  "round_tick now g =
     (if goal_terminal (gl_status g) then
        (Some (GUnexpectedState ''tick'' ''active, blocked, or paused'' (goal_status_str (gl_status g))), g)
      else if MAX_ROUND \<le> gl_round g then
        (Some (GRoundCapped (gl_round g) MAX_ROUND), goal_touch now (g\<lparr>gl_status := GoalBlocked\<rparr>))
      else (None, goal_touch now (g\<lparr>gl_round := gl_round g + 1\<rparr>)))"

section \<open>The tool\<close>

definition render_goal :: "goal_state \<Rightarrow> string" where
  "render_goal g =
     ''goal status: '' @ goal_status_str (gl_status g) @ '' (version '' @ show_nat (gl_version g) @
     '', round '' @ show_nat (gl_round g) @ '')'' @
     (if trim (gl_objective g) = [] then [newline] @ ''(no objective yet)''
      else [newline] @ ''objective:'' @ [newline] @ gl_objective g) @
     (if gl_sub_goals g = [] then []
      else [newline] @ ''sub-goals ('' @
        show_nat (length (filter (\<lambda>s. sg_status s = SubAchieved) (gl_sub_goals g))) @ ''/'' @
        show_nat (length (gl_sub_goals g)) @ '' achieved):'' @
        concat (map (\<lambda>s. [newline] @ ''- ['' @ sub_status_str (sg_status s) @ ''] '' @ sg_text s)
          (gl_sub_goals g)))"

definition parse_sub_goal :: "json \<Rightarrow> (string, sub_goal) result" where
  "parse_sub_goal item =
     (let t = trim (case json_str_at ''text'' item of Some t \<Rightarrow> t | None \<Rightarrow> [])
      in if t = [] then Inl (''invalid sub-goal: '' @ [quote_char] @ ''text'' @ [quote_char] @ '' must be a non-empty string'')
         else (case json_str_at ''status'' item of
                 None \<Rightarrow> Inr \<lparr>sg_text = t, sg_status = SubInProgress\<rparr>
               | Some raw \<Rightarrow>
                   (case parse_sub_goal_status raw of
                      Inl e \<Rightarrow> Inl (goal_error_str e)
                    | Inr st \<Rightarrow> Inr \<lparr>sg_text = t, sg_status = st\<rparr>)))"

definition parse_sub_goals :: "json \<Rightarrow> (string, sub_goal list option) result" where
  "parse_sub_goals input =
     (case json_get ''sub_goals'' input of
        None \<Rightarrow> Inr None
      | Some raw \<Rightarrow>
          (case json_as_array raw of
             None \<Rightarrow> Inl (''invalid parameter '' @ [quote_char] @ ''sub_goals'' @ [quote_char] @
                '' (array of {text, status?} required)'')
           | Some items \<Rightarrow>
               if MAX_SUB_GOALS < length items then
                 Inl (''too many sub-goals ('' @ show_nat (length items) @ ''): the cap is '' @ show_nat MAX_SUB_GOALS)
               else (case map_result parse_sub_goal items of Inl e \<Rightarrow> Inl e | Inr subs \<Rightarrow> Inr (Some subs))))"

text \<open>\<open>set\<close> and \<open>update\<close> with their sub-goal rewrite in the same transition.\<close>

definition with_sub_goals ::
    "nat \<Rightarrow> sub_goal list option \<Rightarrow> goal_error option \<times> goal_state \<Rightarrow> goal_error option \<times> goal_state" where
  "with_sub_goals now subs r =
     (case r of
        (Some e, g) \<Rightarrow> (Some e, g)
      | (None, g) \<Rightarrow> (case subs of None \<Rightarrow> (None, g) | Some xs \<Rightarrow> replace_sub_goals now (gl_version g) xs g))"

definition goal_action_set ::
    "nat \<Rightarrow> string option \<Rightarrow> json \<Rightarrow> goal_state session_store \<Rightarrow> (string \<times> bool) \<times> goal_state session_store" where
  "goal_action_set now fault input ss =
     (let objective = (case json_str_at ''objective'' input of Some t \<Rightarrow> t | None \<Rightarrow> [])
      in case parse_sub_goals input of
           Inl reason \<Rightarrow> ((reason, True), ss)
         | Inr subs \<Rightarrow>
             apply_transition ''goal'' goal_error_str render_goal ''set''
               (\<lambda>g. with_sub_goals now subs (goal_set now objective g)) fault ss)"

definition goal_action_update ::
    "nat \<Rightarrow> string option \<Rightarrow> json \<Rightarrow> goal_state session_store \<Rightarrow> (string \<times> bool) \<times> goal_state session_store" where
  "goal_action_update now fault input ss =
     (let expected = (case Option.bind (json_get ''expected_version'' input) json_as_u64 of
                        Some v \<Rightarrow> v | None \<Rightarrow> max_of 64);
          objective = json_str_at ''objective'' input
      in case (case json_str_at ''status'' input of
                 None \<Rightarrow> Inr None
               | Some raw \<Rightarrow> (case parse_goal_status raw of Inl e \<Rightarrow> Inl e | Inr st \<Rightarrow> Inr (Some st))) of
           Inl e \<Rightarrow> ((goal_error_str e, True), ss)
         | Inr status \<Rightarrow>
             (case parse_sub_goals input of
                Inl reason \<Rightarrow> ((reason, True), ss)
              | Inr subs \<Rightarrow>
                  if objective = None \<and> status = None \<and> subs = None then
                    ((''update needs something to change: objective, status, expected_version, and at least one of objective/status/sub_goals is required'', True), ss)
                  else apply_transition ''goal'' goal_error_str render_goal ''update''
                    (\<lambda>g. with_sub_goals now subs (goal_update now expected objective status g)) fault ss))"

definition goal_action_tick ::
    "nat \<Rightarrow> string option \<Rightarrow> goal_state session_store \<Rightarrow> (string \<times> bool) \<times> goal_state session_store" where
  "goal_action_tick now fault ss =
     (let (e, g) = round_tick now (ss_state ss); ss1 = ss\<lparr>ss_state := g\<rparr>;
          capped = (case e of Some (GRoundCapped _ _) \<Rightarrow> True | _ \<Rightarrow> False)
      in case e of
           Some err \<Rightarrow>
             if \<not> capped then ((goal_error_str err, True), ss1)
             else (case persist fault ss1 of
                 (None, ss2) \<Rightarrow> ((''goal round cap reached: round '' @ show_nat MAX_ROUND @ '' at cap '' @
                     show_nat MAX_ROUND @ ''; goal is now blocked'' @ [newline] @ render_goal g, True), ss2)
               | (Some reason, ss2) \<Rightarrow> ((''goal tick applied but persistence failed: '' @ reason, True), ss2))
         | None \<Rightarrow>
             (case persist fault ss1 of
                (None, ss2) \<Rightarrow> ((render_goal g, False), ss2)
              | (Some reason, ss2) \<Rightarrow> ((''goal tick applied but persistence failed: '' @ reason, True), ss2)))"

definition goal_execute ::
    "nat \<Rightarrow> string option \<Rightarrow> json \<Rightarrow> goal_state session_store \<Rightarrow> (string \<times> bool) \<times> goal_state session_store" where
  "goal_execute now fault input ss =
     (let action = (case json_str_at ''action'' input of Some a \<Rightarrow> a | None \<Rightarrow> [])
      in if action = ''set'' then goal_action_set now fault input ss
         else if action = ''update'' then goal_action_update now fault input ss
         else if action = ''status'' then ((render_goal (ss_state ss), False), ss)
         else if action = ''tick'' then goal_action_tick now fault ss
         else ((''unknown action '' @ debug_str action @ '': expected one of set, update, status, tick'', True), ss))"

section \<open>The tracker of the run loop\<close>

definition goal_open :: "goal_state \<Rightarrow> bool" where
  "goal_open g \<longleftrightarrow> \<not> blank (gl_objective g) \<and> gl_status g = GoalActive"

definition goal_reminder :: "string \<Rightarrow> goal_state \<Rightarrow> string" where
  "goal_reminder budget g =
     wrap_system_reminder (''The session goal is still open: keep working it, or move it to completed / blocked / paused if it cannot proceed. Do not stop with it Active and nothing running.'' @
       [newline] @ budget @ [newline] @ render_goal g)"

section \<open>The session's goal files\<close>

definition goals_root_for_home :: "string \<Rightarrow> string" where
  "goals_root_for_home home = path_join (path_join home ''.wavecode'') ''goals''"

section \<open>Runs\<close>

text \<open>Every mutation but \<open>set\<close>, with the clock it reads.\<close>

datatype goal_edit =
    EReplace nat "sub_goal list"
  | EUpdate nat "string option" "goal_status option"
  | EPause | EResume | EBlock | EComplete | ETick

fun goal_edit_apply :: "nat \<times> goal_edit \<Rightarrow> goal_state \<Rightarrow> goal_error option \<times> goal_state" where
  "goal_edit_apply (now, EReplace v subs) g = replace_sub_goals now v subs g"
| "goal_edit_apply (now, EUpdate v objective status) g = goal_update now v objective status g"
| "goal_edit_apply (now, EPause) g = goal_pause now g"
| "goal_edit_apply (now, EResume) g = goal_resume now g"
| "goal_edit_apply (now, EBlock) g = goal_block now g"
| "goal_edit_apply (now, EComplete) g = goal_complete now g"
| "goal_edit_apply (now, ETick) g = round_tick now g"

datatype goal_op = SetGoal string | EditGoal goal_edit

fun goal_apply :: "nat \<times> goal_op \<Rightarrow> goal_state \<Rightarrow> goal_error option \<times> goal_state" where
  "goal_apply (now, SetGoal objective) g = goal_set now objective g"
| "goal_apply (now, EditGoal e) g = goal_edit_apply (now, e) g"

definition trimmed :: "string \<Rightarrow> bool" where
  "trimmed t \<longleftrightarrow> t \<noteq> [] \<and> trim t = t"

definition goal_inv :: "goal_state \<Rightarrow> bool" where
  "goal_inv g \<longleftrightarrow> gl_round g \<le> MAX_ROUND \<and> length (gl_sub_goals g) \<le> MAX_SUB_GOALS \<and>
     list_all (\<lambda>s. trimmed (sg_text s)) (gl_sub_goals g) \<and>
     (gl_objective g = [] \<or> trimmed (gl_objective g)) \<and> gl_version g \<le> max_of 64"

lemma clean_sub_goals_ok:
  "clean_sub_goals subs = Inr cleaned \<Longrightarrow> length cleaned = length subs \<and> list_all (\<lambda>s. trimmed (sg_text s)) cleaned"
  by (induction subs arbitrary: cleaned) (auto simp: trimmed_def split: sum.splits if_splits)

lemma goal_touch_simps [simp]:
  "gl_objective (goal_touch now g) = gl_objective g" "gl_status (goal_touch now g) = gl_status g"
  "gl_round (goal_touch now g) = gl_round g" "gl_sub_goals (goal_touch now g) = gl_sub_goals g"
  "gl_version (goal_touch now g) = sat_add 64 (gl_version g) 1"
  by (simp_all add: goal_touch_def)

lemmas goal_defs = goal_set_def goal_update_def replace_sub_goals_def goal_pause_def goal_resume_def
  goal_block_def goal_complete_def move_to_def round_tick_def check_version_def require_objective_def Let_def

lemma sat_add_bounds: "sat_add w a b \<le> max_of w" "a \<le> max_of w \<Longrightarrow> a \<le> sat_add w a b"
  by (simp_all add: sat_add_def)

lemma goal_edit_inv: "goal_inv g \<Longrightarrow> goal_inv (snd (goal_edit_apply e g))"
  by (cases "(e, g)" rule: goal_edit_apply.cases)
    (auto simp: goal_inv_def goal_defs trimmed_def sat_add_bounds dest!: clean_sub_goals_ok
      split: option.splits sum.splits if_splits)

lemma goal_edit_completed:
  "gl_status g = GoalCompleted \<Longrightarrow> gl_status (snd (goal_edit_apply e g)) = GoalCompleted"
  by (cases "(e, g)" rule: goal_edit_apply.cases)
    (auto simp: goal_defs goal_terminal_def split: option.splits sum.splits if_splits)

lemma goal_edit_version: "gl_version g \<le> max_of 64 \<Longrightarrow> gl_version g \<le> gl_version (snd (goal_edit_apply e g))"
  by (cases "(e, g)" rule: goal_edit_apply.cases)
    (auto simp: goal_defs sat_add_bounds split: option.splits sum.splits if_splits)

lemma goal_set_inv: "goal_inv g \<Longrightarrow> goal_inv (snd (goal_set now t g))"
  by (auto simp: goal_inv_def goal_defs trimmed_def sat_add_bounds)

lemma goal_apply_inv: "goal_inv g \<Longrightarrow> goal_inv (snd (goal_apply x g))"
  by (cases "(x, g)" rule: goal_apply.cases) (auto simp: goal_edit_inv goal_set_inv)

text \<open>Versions live in 64 bits: as a level they are read below the saturation point.\<close>

definition version_level :: "goal_state \<Rightarrow> nat" where
  "version_level g = min (gl_version g) (max_of 64)"

lemma version_level_sat [simp]: "version_level (goal_touch now g) = min (gl_version g + 1) (max_of 64)"
  by (simp add: version_level_def sat_add_def)

lemma goal_edit_level: "version_level g \<le> version_level (snd (goal_edit_apply e g))"
  by (cases "(e, g)" rule: goal_edit_apply.cases)
    (auto simp: goal_defs version_level_def sat_add_def split: option.splits sum.splits if_splits)

lemma goal_apply_level: "version_level g \<le> version_level (snd (goal_apply x g))"
  using goal_edit_level [of g]
  by (cases "(x, g)" rule: goal_apply.cases)
    (auto simp: goal_set_def require_objective_def version_level_def sat_add_def)

interpretation goal_edits: guarded_machine goal_inv goal_edit_apply "\<lambda>g. gl_status g = GoalCompleted" version_level
  by unfold_locales (auto simp: goal_edit_inv goal_edit_completed goal_edit_level)

interpretation goal_runs: guarded_machine goal_inv goal_apply "\<lambda>g. False" version_level
  by unfold_locales (auto simp: goal_apply_inv goal_apply_level)

section \<open>Ticks\<close>

lemma round_tick_run:
  assumes "gl_round g \<le> MAX_ROUND" and "\<not> goal_terminal (gl_status g)"
    and "g' = fold (\<lambda>now g. snd (round_tick now g)) clocks g"
  shows "gl_round g' = min (gl_round g + length clocks) MAX_ROUND \<and>
    gl_status g' = (if gl_round g + length clocks \<le> MAX_ROUND then gl_status g else GoalBlocked) \<and>
    gl_objective g' = gl_objective g"
  unfolding assms(3) using assms(1,2)
proof (induction clocks arbitrary: g)
  case (Cons now clocks)
  define g1 where "g1 = snd (round_tick now g)"
  show ?case
  proof (cases "MAX_ROUND \<le> gl_round g")
    case True
    with Cons.prems have "gl_round g1 = MAX_ROUND" "gl_status g1 = GoalBlocked" "gl_objective g1 = gl_objective g"
      by (auto simp: g1_def round_tick_def)
    with Cons.IH [of g1] True Cons.prems show ?thesis
      by (simp add: g1_def [symmetric] goal_terminal_def)
  next
    case False
    with Cons.prems have "gl_round g1 = gl_round g + 1" "gl_status g1 = gl_status g" "gl_objective g1 = gl_objective g"
      by (auto simp: g1_def round_tick_def)
    with Cons.IH [of g1] False Cons.prems show ?thesis
      by (simp add: g1_def [symmetric])
  qed
qed simp

section \<open>The tool's transitions\<close>

lemma parse_sub_goal_trimmed: "parse_sub_goal item = Inr sg \<Longrightarrow> trimmed (sg_text sg)"
  by (auto simp: parse_sub_goal_def Let_def trimmed_def split: option.splits sum.splits if_splits)

lemma map_result_all: "map_result f xs = Inr ys \<Longrightarrow> (\<And>x y. f x = Inr y \<Longrightarrow> P y) \<Longrightarrow> list_all P ys"
  by (induction xs arbitrary: ys) (auto split: sum.splits)

lemma parse_sub_goals_ok:
  "parse_sub_goals input = Inr (Some subs) \<Longrightarrow>
     length subs \<le> MAX_SUB_GOALS \<and> list_all (\<lambda>s. trimmed (sg_text s)) subs"
  by (auto simp: parse_sub_goals_def map_result_length intro: map_result_all parse_sub_goal_trimmed
      split: option.splits sum.splits if_splits)

lemma clean_trimmed: "list_all (\<lambda>s. trimmed (sg_text s)) subs \<Longrightarrow> clean_sub_goals subs = Inr subs"
  by (induction subs) (auto simp: trimmed_def)

lemma with_sub_goals_error:
  assumes "parse_sub_goals input = Inr subs"
    and "with_sub_goals now subs r = (Some e, g)"
  shows "r = (Some e, g)"
  using assms parse_sub_goals_ok [of input]
  by (auto simp: with_sub_goals_def replace_sub_goals_def check_version_def clean_trimmed
      split: prod.splits option.splits)

lemma goal_set_error: "goal_set now t g = (Some e, g') \<Longrightarrow> g' = g"
  by (auto simp: goal_set_def split: sum.splits)

lemma goal_update_error: "goal_update now v t st g = (Some e, g') \<Longrightarrow> g' = g"
  by (auto simp: goal_update_def Let_def split: option.splits sum.splits if_splits)

definition tool_step_ok :: "string option \<Rightarrow> goal_state session_store \<Rightarrow> (string \<times> bool) \<times> goal_state session_store \<Rightarrow> bool" where
  "tool_step_ok fault ss r =
     (case r of ((content, is_error), ss') \<Rightarrow>
        if is_error then ss' = ss \<or> fault \<noteq> None \<or>
          (MAX_ROUND \<le> gl_round (ss_state ss) \<and> gl_status (ss_state ss') = GoalBlocked \<and> on_disk ss')
        else ss' = ss \<or> on_disk ss')"

lemma tool_step_transition:
  assumes "\<And>e st. transition (ss_state ss) = (Some e, st) \<Longrightarrow> st = ss_state ss"
  shows "tool_step_ok fault ss (apply_transition noun show_error render action transition fault ss)"
proof -
  obtain content err ss' where h: "apply_transition noun show_error render action transition fault ss = ((content, err), ss')"
    by (metis surj_pair)
  have "ss_file ss' = ss_file ss \<and> (if err then ss_state ss' = ss_state ss \<and> ss' = ss \<or> fault \<noteq> None
     else on_disk ss' \<and> transition (ss_state ss) = (None, ss_state ss'))"
    by (rule apply_transition_facts [OF h]) (rule assms)
  then show ?thesis
    by (auto simp: tool_step_ok_def h split: if_splits)
qed

lemma tool_step_refused: "tool_step_ok fault ss ((content, True), ss)"
  by (simp add: tool_step_ok_def)

lemma goal_tick_ok: "tool_step_ok fault ss (goal_action_tick now fault ss)"
proof -
  obtain e g where t: "round_tick now (ss_state ss) = (e, g)" by fastforce
  obtain r ss2 where p: "persist fault (ss\<lparr>ss_state := g\<rparr>) = (r, ss2)" by fastforce
  have r: "r \<noteq> None \<Longrightarrow> fault \<noteq> None"
    using p by (auto simp: persist_def save_to_path_def split: option.splits)
  have capped: "e = Some (GRoundCapped a b) \<Longrightarrow> MAX_ROUND \<le> gl_round (ss_state ss) \<and> gl_status g = GoalBlocked" for a b
    using t by (auto simp: round_tick_def split: if_splits)
  have refused: "e = Some (GUnexpectedState a b c) \<Longrightarrow> g = ss_state ss" for a b c
    using t by (auto simp: round_tick_def split: if_splits)
  have "e = None \<or> (\<exists>a b. e = Some (GRoundCapped a b)) \<or> (\<exists>a b c. e = Some (GUnexpectedState a b c))"
    using t by (auto simp: round_tick_def split: if_splits)
  then show ?thesis
    using t p r persist_state [OF p] capped refused
    by (cases r) (auto simp: goal_action_tick_def tool_step_ok_def Let_def)
qed

lemma goal_execute_ok: "tool_step_ok fault ss (goal_execute now fault input ss)"
proof -
  have set: "tool_step_ok fault ss (goal_action_set now fault input ss)"
    unfolding goal_action_set_def Let_def
    by (auto split: sum.split intro!: tool_step_refused tool_step_transition
        dest!: with_sub_goals_error [rotated] goal_set_error)
  have update: "tool_step_ok fault ss (goal_action_update now fault input ss)"
    unfolding goal_action_update_def Let_def
    by (auto split: sum.split option.split intro!: tool_step_refused tool_step_transition
        dest!: with_sub_goals_error [rotated] goal_update_error)
  show ?thesis
    using set update goal_tick_ok by (auto simp: goal_execute_def Let_def tool_step_ok_def)
qed

text \<open>A failing write leaves the disk alone.\<close>

lemma persist_fault: "persist (Some m) ss = (r, ss') \<Longrightarrow> ss_disk ss' = ss_disk ss"
  by (auto simp: persist_def save_to_path_def split: option.splits)

lemma apply_transition_fault:
  "ss_disk (snd (apply_transition noun show_error render action transition (Some m) ss)) = ss_disk ss"
  by (auto simp: apply_transition_def dest!: persist_fault split: prod.split option.split)

lemma goal_execute_fault: "ss_disk (snd (goal_execute now (Some m) input ss)) = ss_disk ss"
proof -
  have tick: "ss_disk (snd (goal_action_tick now (Some m) ss)) = ss_disk ss"
    by (auto simp: goal_action_tick_def Let_def dest!: persist_fault split: prod.split option.split goal_error.split)
  show ?thesis
    using tick by (auto simp: goal_execute_def goal_action_set_def goal_action_update_def Let_def apply_transition_fault
        split: sum.split option.split)
qed

section \<open>Properties\<close>

text \<open>goals stay well formed: from a fresh goal, any sequence of operations keeps the round under
  its cap, at most 64 sub-goals, every text trimmed and nonblank, and a version that never
  falls; and a completed goal stays completed under every operation but \<open>set\<close>.\<close>

theorem goal_machine_invariant:
  "goal_inv (fold (\<lambda>x g. snd (goal_apply x g)) ops goal_default) \<and>
   version_level (fold (\<lambda>x g. snd (goal_apply x g)) ops goal_default) \<le>
     version_level (fold (\<lambda>x g. snd (goal_apply x g)) (ops @ later) goal_default) \<and>
   gl_status (fold (\<lambda>e g. snd (goal_edit_apply e g)) edits (snd (goal_complete now g))) = GoalCompleted"
proof -
  have "goal_inv goal_default" by (simp add: goal_inv_def goal_default_def)
  moreover have "gl_status (snd (goal_complete now g)) = GoalCompleted"
    by (simp add: goal_complete_def move_to_def goal_terminal_def)
  ultimately show ?thesis
    using goal_runs.steps.run_inv goal_edits.run_final
      goal_runs.run_level [of "fold (\<lambda>x g. snd (goal_apply x g)) ops goal_default" later]
    by simp
qed

text \<open>The version a writer says it saw, and how many writers of one version get through in a run.\<close>

fun expects :: "goal_op \<Rightarrow> nat option" where
  "expects (EditGoal (EReplace v subs)) = Some v"
| "expects (EditGoal (EUpdate v objective status)) = Some v"
| "expects _ = None"

definition goal_run :: "(nat \<times> goal_op) list \<Rightarrow> goal_state \<Rightarrow> goal_state" where
  "goal_run ops g = fold (\<lambda>x g. snd (goal_apply x g)) ops g"

fun winners :: "nat \<Rightarrow> (nat \<times> goal_op) list \<Rightarrow> goal_state \<Rightarrow> nat" where
  "winners v [] g = 0"
| "winners v (x # xs) g =
     (case goal_apply x g of (e, g') \<Rightarrow> (if e = None \<and> expects (snd x) = Some v then 1 else 0) + winners v xs g')"

lemma goal_run_simps [simp]: "goal_run [] g = g" "goal_run (x # xs) g = goal_run xs (snd (goal_apply x g))"
  by (simp_all add: goal_run_def)

lemma goal_edit_moves:
  "goal_edit_apply e g = (err, g') \<Longrightarrow> g' = g \<or> gl_version g' = sat_add 64 (gl_version g) 1"
  by (cases "(e, g)" rule: goal_edit_apply.cases)
    (auto simp: goal_defs split: option.splits sum.splits if_splits)

lemma goal_apply_moves:
  "goal_apply x g = (e, g') \<Longrightarrow> g' = g \<or> gl_version g' = sat_add 64 (gl_version g) 1"
  using goal_edit_moves [of _ g e g']
  by (cases "(x, g)" rule: goal_apply.cases) (auto simp: goal_set_def split: sum.splits)

lemma expects_apply:
  assumes "expects (snd x) = Some v" and "goal_apply x g = (e, g')"
  shows "case e of Some _ \<Rightarrow> g' = g \<and> (gl_version g \<noteq> v \<longrightarrow> e = Some (GVersionMismatch v (gl_version g)))
    | None \<Rightarrow> gl_version g = v \<and> gl_version g' = sat_add 64 v 1"
proof -
  obtain now w where x: "x = (now, w)" by fastforce
  show ?thesis
    using assms unfolding x
    by (cases w rule: expects.cases)
      (auto simp: goal_update_def replace_sub_goals_def check_version_def Let_def
        split: option.splits sum.splits if_splits)
qed

lemma past_version:
  assumes "v < max_of 64" and "v < gl_version g"
  shows "v < gl_version (goal_run ops g) \<and> winners v ops g = 0"
  using assms(2)
proof (induction ops arbitrary: g)
  case (Cons x ops)
  obtain e g' where a: "goal_apply x g = (e, g')" by fastforce
  have "v < gl_version g'"
    using goal_apply_moves [OF a] Cons.prems assms(1) by (auto simp: sat_add_def)
  moreover have "\<not> (e = None \<and> expects (snd x) = Some v)"
    using expects_apply [OF _ a, of v] Cons.prems by auto
  ultimately show ?case using Cons.IH [of g'] a by auto
qed simp

lemma same_version_same_state:
  assumes "gl_version g < max_of 64"
  shows "(gl_version (goal_run ops g) = gl_version g \<longrightarrow> goal_run ops g = g \<and> winners (gl_version g) ops g = 0) \<and>
    winners (gl_version g) ops g \<le> 1 \<and> gl_version g \<le> gl_version (goal_run ops g)"
  using assms
proof (induction ops arbitrary: g)
  case (Cons x ops)
  obtain e g' where a: "goal_apply x g = (e, g')" by fastforce
  show ?case
  proof (cases "g' = g")
    case True
    have "\<not> (e = None \<and> expects (snd x) = Some (gl_version g))"
      using expects_apply [OF _ a, of "gl_version g"] True Cons.prems by (auto simp: sat_add_def)
    with Cons.IH [OF Cons.prems] a True show ?thesis by auto
  next
    case False
    then have "gl_version g < gl_version g'"
      using goal_apply_moves [OF a] Cons.prems by (auto simp: sat_add_def)
    with past_version [OF Cons.prems this, of ops] a show ?thesis by auto
  qed
qed simp

text \<open>C11: no lost updates. Let any number of writers have seen a goal, and let them and everyone else
  (updates and sub-goal rewrites under any version, new objectives, status changes, ticks) run in any
  interleaving. As long as the 64-bit counter is not exhausted, of the writers that saw that version at
  most one gets its change in; it does so only while the goal is still exactly the one it saw, and
  moves the version on by one; a refused writer changes nothing; and once one got through, every
  other is refused with both versions named.\<close>

theorem goal_update_is_cas:
  assumes "gl_version g < max_of 64" and "expects w = Some (gl_version g)"
  shows "winners (gl_version g) ops g \<le> 1 \<and>
    (case goal_apply (now, w) (goal_run ops g) of
       (None, g') \<Rightarrow> goal_run ops g = g \<and> gl_version g' = gl_version g + 1
     | (Some e, g') \<Rightarrow> g' = goal_run ops g \<and>
         (winners (gl_version g) ops g = 1 \<longrightarrow> e = GVersionMismatch (gl_version g) (gl_version (goal_run ops g)))) \<and>
    (winners (gl_version g) ops g = 1 \<longrightarrow> fst (goal_apply (now, w) (goal_run ops g)) \<noteq> None)"
proof -
  obtain e g' where a: "goal_apply (now, w) (goal_run ops g) = (e, g')" by fastforce
  have w: "expects (snd (now, w)) = Some (gl_version g)" using assms(2) by simp
  show ?thesis
    using same_version_same_state [OF assms(1), of ops] expects_apply [OF w a] assms(1) a
    by (cases e) (auto simp: sat_add_def)
qed

definition cas_ops :: "(nat \<times> goal_op) list" where
  "cas_ops = [(1, EditGoal (EUpdate 0 None (Some GoalPaused))), (2, EditGoal ETick)]"

theorem goal_update_is_cas_witness:
  "fst (goal_apply (3, EditGoal (EReplace 0 [])) (goal_run cas_ops goal_default)) = Some (GVersionMismatch 0 2)"
proof -
  let ?w = "EditGoal (EReplace 0 [])"
  obtain e g' where r: "goal_apply (3, ?w) (goal_run cas_ops goal_default) = (e, g')" by fastforce
  have v: "gl_version goal_default = 0" by (simp add: goal_default_def)
  have run: "winners 0 cas_ops goal_default = 1 \<and> gl_version (goal_run cas_ops goal_default) = 2"
    by (simp add: cas_ops_def goal_default_def goal_defs goal_terminal_def goal_touch_def sat_add_def max_of_def MAX_ROUND_def)
  have "gl_version goal_default < max_of 64" by (simp add: v max_of_def)
  from goal_update_is_cas [OF this, of ?w cas_ops 3]
  show ?thesis
    by (cases e) (simp_all add: r v run del: goal_apply.simps goal_edit_apply.simps)
qed

text \<open>the round driver cannot steer forever: after \<open>n\<close> ticks an objective has used exactly \<open>n\<close>
  rounds up to 256, and from the next tick on the goal is blocked and the run loop sees no
  open goal.\<close>

theorem goal_driver_stops:
  "let g = fold (\<lambda>now g. snd (round_tick now g)) clocks (goal_default\<lparr>gl_objective := objective\<rparr>) in
     gl_round g = min (length clocks) MAX_ROUND \<and>
     gl_status g = (if length clocks \<le> MAX_ROUND then GoalActive else GoalBlocked) \<and>
     (goal_open g \<longleftrightarrow> length clocks \<le> MAX_ROUND \<and> \<not> blank objective)"
proof -
  let ?g = "goal_default\<lparr>gl_objective := objective\<rparr>"
  have "gl_round ?g = 0" "gl_status ?g = GoalActive" "gl_objective ?g = objective"
    by (simp_all add: goal_default_def)
  with round_tick_run [of ?g _ clocks] show ?thesis
    by (simp add: Let_def goal_terminal_def goal_open_def)
qed

text \<open>the goal tool is all or nothing: when the file can be written, a failed call left goal and
  file alone, or the tick met the round cap, which blocks the goal and is written, and after a
  successful mutation the file holds the goal; when it cannot be written, no file changes.\<close>

theorem goal_tool_all_or_nothing:
  "case goal_execute now fault input ss of ((content, is_error), ss') \<Rightarrow>
     (case fault of
        Some _ \<Rightarrow> ss_disk ss' = ss_disk ss
      | None \<Rightarrow>
          if is_error then ss' = ss \<or>
            (MAX_ROUND \<le> gl_round (ss_state ss) \<and> gl_status (ss_state ss') = GoalBlocked \<and> on_disk ss')
          else ss' = ss \<or> on_disk ss')"
  using goal_execute_ok [of fault ss now input] goal_execute_fault [of now "the fault" input ss]
  by (auto simp: tool_step_ok_def split: option.split prod.splits)

text \<open>The sub-goal rewrite has no terminal guard of its own.\<close>

lemma completed_sub_goals_editable:
  "gl_status g = GoalCompleted \<Longrightarrow>
     replace_sub_goals now (gl_version g) [] g = (None, goal_touch now (g\<lparr>gl_sub_goals := []\<rparr>))"
  by (simp add: replace_sub_goals_def check_version_def)

end
