(* ===== verification/Reviewed_Plan.thy ===== *)
theory Reviewed_Plan
  imports Session_Files
begin

text \<open>
  Reviewed plan mode of \<open>crates/state/plan/src/lib.rs\<close> (the status machine draft, proposed,
  approved, executing, done or abandoned, with its transition history) and the \<open>plan\<close> tool of
  \<open>crates/state/plan/src/tool.rs\<close>. The lifecycle the machine promises is the step relation
  \<open>plan_step\<close>; the detailed operations refine it.
\<close>

section \<open>Plan state\<close>

datatype plan_status = PlanDraft | PlanProposed | PlanApproved | PlanExecuting | PlanDone | PlanAbandoned

fun plan_status_str :: "plan_status \<Rightarrow> string" where
  "plan_status_str PlanDraft = ''draft''"
| "plan_status_str PlanProposed = ''proposed''"
| "plan_status_str PlanApproved = ''approved''"
| "plan_status_str PlanExecuting = ''executing''"
| "plan_status_str PlanDone = ''done''"
| "plan_status_str PlanAbandoned = ''abandoned''"

definition plan_terminal :: "plan_status \<Rightarrow> bool" where
  "plan_terminal st \<longleftrightarrow> st = PlanDone \<or> st = PlanAbandoned"

datatype plan_error = PUnexpectedState string string string | PInvalidInput string

fun plan_error_str :: "plan_error \<Rightarrow> string" where
  "plan_error_str (PUnexpectedState action expected actual) =
     ''cannot '' @ action @ '': expected status '' @ expected @ '', found '' @ actual"
| "plan_error_str (PInvalidInput m) = ''invalid plan input: '' @ m"

record plan_state =
  pl_status :: plan_status
  pl_text :: string
  pl_round :: nat
  pl_history :: "(nat \<times> plan_status) list"

definition plan_default :: plan_state where
  "plan_default = \<lparr>pl_status = PlanDraft, pl_text = [], pl_round = 0, pl_history = []\<rparr>"

definition plan_record :: "plan_status \<Rightarrow> plan_state \<Rightarrow> plan_state" where
  "plan_record st p = p\<lparr>pl_status := st, pl_round := pl_round p + 1,
     pl_history := pl_history p @ [(pl_round p + 1, st)]\<rparr>"

definition require_text :: "string \<Rightarrow> string \<Rightarrow> (plan_error, string) result" where
  "require_text t what =
     (if trim t = [] then Inl (PInvalidInput (what @ '' must not be blank'')) else Inr (trim t))"

definition plan_refused :: "string \<Rightarrow> string \<Rightarrow> plan_state \<Rightarrow> plan_error option \<times> plan_state" where
  "plan_refused action expected p =
     (Some (PUnexpectedState action expected (plan_status_str (pl_status p))), p)"

definition plan_propose :: "string \<Rightarrow> plan_state \<Rightarrow> plan_error option \<times> plan_state" where
  "plan_propose t p =
     (if pl_status p \<noteq> PlanDraft then plan_refused ''propose'' (plan_status_str PlanDraft) p
      else (case require_text t ''plan text'' of
              Inl e \<Rightarrow> (Some e, p)
            | Inr t' \<Rightarrow> (None, plan_record PlanProposed (p\<lparr>pl_text := t'\<rparr>))))"

definition plan_approve_op :: "plan_state \<Rightarrow> plan_error option \<times> plan_state" where
  "plan_approve_op p =
     (if pl_status p \<noteq> PlanProposed then plan_refused ''approve'' (plan_status_str PlanProposed) p
      else (None, plan_record PlanApproved p))"

definition plan_feedback :: "string \<Rightarrow> plan_state \<Rightarrow> plan_error option \<times> plan_state" where
  "plan_feedback t p =
     (if pl_status p \<noteq> PlanProposed then plan_refused ''feedback'' (plan_status_str PlanProposed) p
      else (case require_text t ''feedback text'' of
              Inl e \<Rightarrow> (Some e, p)
            | Inr note \<Rightarrow>
                let txt = (if trim (pl_text p) = [] then note
                           else pl_text p @ [newline, newline] @ ''Feedback:'' @ [newline] @ note)
                in (None, plan_record PlanDraft (p\<lparr>pl_text := txt\<rparr>))))"

definition plan_begin :: "plan_state \<Rightarrow> plan_error option \<times> plan_state" where
  "plan_begin p =
     (if pl_status p \<noteq> PlanApproved then plan_refused ''begin'' (plan_status_str PlanApproved) p
      else (None, plan_record PlanExecuting p))"

definition plan_complete :: "plan_state \<Rightarrow> plan_error option \<times> plan_state" where
  "plan_complete p =
     (if pl_status p \<noteq> PlanExecuting then plan_refused ''complete'' (plan_status_str PlanExecuting) p
      else (None, plan_record PlanDone p))"

definition plan_abandon :: "plan_state \<Rightarrow> plan_error option \<times> plan_state" where
  "plan_abandon p =
     (if pl_status p \<in> {PlanProposed, PlanApproved, PlanExecuting} then (None, plan_record PlanAbandoned p)
      else plan_refused ''abandon'' ''proposed, approved, or executing'' p)"

section \<open>The tool\<close>

definition render_plan :: "plan_state \<Rightarrow> string" where
  "render_plan p =
     ''plan status: '' @ plan_status_str (pl_status p) @ '' (updated round '' @ show_nat (pl_round p) @ '')'' @
     (if trim (pl_text p) = [] then [newline] @ ''(no plan text yet)''
      else [newline] @ ''plan:'' @ [newline] @ pl_text p) @
     (if pl_history p = [] then []
      else [newline] @ ''history: '' @
        join '' -> '' (map (\<lambda>(round, st). plan_status_str st @ ''@'' @ show_nat round) (pl_history p)))"

definition text_param :: "json \<Rightarrow> string \<Rightarrow> string" where
  "text_param input key = (case json_str_at key input of Some t \<Rightarrow> t | None \<Rightarrow> [])"

definition plan_execute ::
    "string option \<Rightarrow> json \<Rightarrow> plan_state session_store \<Rightarrow> (string \<times> bool) \<times> plan_state session_store" where
  "plan_execute fault input ss =
     (let action = text_param input ''action'';
          run = (\<lambda>name f. apply_transition ''plan'' plan_error_str render_plan name f fault ss)
      in if action = ''propose'' then run ''propose'' (plan_propose (text_param input ''text''))
         else if action = ''approve'' then run ''approve'' plan_approve_op
         else if action = ''feedback'' then run ''feedback'' (plan_feedback (text_param input ''text''))
         else if action = ''status'' then ((render_plan (ss_state ss), False), ss)
         else ((''unknown action '' @ debug_str action @
                '': expected one of propose, approve, feedback, status'', True), ss))"

definition plans_root_for_home :: "string \<Rightarrow> string" where
  "plans_root_for_home home = path_join (path_join home ''.wavecode'') ''plans''"

section \<open>The lifecycle\<close>

inductive plan_step :: "plan_status \<Rightarrow> plan_status \<Rightarrow> bool" where
  propose: "plan_step PlanDraft PlanProposed"
| approve: "plan_step PlanProposed PlanApproved"
| revise: "plan_step PlanProposed PlanDraft"
| start: "plan_step PlanApproved PlanExecuting"
| finish: "plan_step PlanExecuting PlanDone"
| abandon: "st \<in> {PlanProposed, PlanApproved, PlanExecuting} \<Longrightarrow> plan_step st PlanAbandoned"

code_pred plan_step .

inductive_cases plan_step_to_executing: "plan_step st PlanExecuting"
inductive_cases plan_step_to_approved: "plan_step st PlanApproved"
inductive_simps plan_step_from_done: "plan_step PlanDone st"
inductive_simps plan_step_from_abandoned: "plan_step PlanAbandoned st"

lemma plan_terminal_stuck: "plan_terminal st \<Longrightarrow> \<not> plan_step st st'"
  by (auto simp: plan_terminal_def plan_step_from_done plan_step_from_abandoned)

text \<open>The operations as one type.\<close>

datatype plan_op = OpPropose string | OpApprove | OpFeedback string | OpBegin | OpComplete | OpAbandon

fun plan_apply :: "plan_op \<Rightarrow> plan_state \<Rightarrow> plan_error option \<times> plan_state" where
  "plan_apply (OpPropose t) p = plan_propose t p"
| "plan_apply OpApprove p = plan_approve_op p"
| "plan_apply (OpFeedback t) p = plan_feedback t p"
| "plan_apply OpBegin p = plan_begin p"
| "plan_apply OpComplete p = plan_complete p"
| "plan_apply OpAbandon p = plan_abandon p"

lemmas plan_defs = plan_propose_def plan_approve_op_def plan_feedback_def plan_begin_def plan_complete_def
  plan_abandon_def plan_refused_def Let_def

lemma plan_apply_cases:
  "(\<exists>e. plan_apply x p = (Some e, p)) \<or>
   (\<exists>st t. plan_step (pl_status p) st \<and> plan_apply x p = (None, plan_record st (p\<lparr>pl_text := t\<rparr>)))"
proof -
  have keep: "p\<lparr>pl_text := pl_text p\<rparr> = p" by simp
  show ?thesis
  proof (cases x)
    case (OpPropose t)
    then show ?thesis by (cases "pl_status p") (auto simp: plan_defs intro: plan_step.intros split: sum.split)
  next
    case (OpFeedback t)
    then show ?thesis by (cases "pl_status p") (auto simp: plan_defs intro: plan_step.intros split: sum.split)
  qed (cases "pl_status p"; auto simp: plan_defs intro: plan_step.intros; metis keep plan_step.intros insertCI)+
qed

text \<open>The history is a path of the lifecycle from draft, numbered from 1, ending at the status.\<close>

fun lifecycle_path :: "plan_status \<Rightarrow> plan_status list \<Rightarrow> bool" where
  "lifecycle_path st [] = True"
| "lifecycle_path st (st' # rest) = (plan_step st st' \<and> lifecycle_path st' rest)"

definition plan_inv :: "plan_state \<Rightarrow> bool" where
  "plan_inv p \<longleftrightarrow> lifecycle_path PlanDraft (map snd (pl_history p)) \<and>
     map fst (pl_history p) = [1..<pl_round p + 1] \<and>
     pl_status p = last (PlanDraft # map snd (pl_history p))"

lemma lifecycle_snoc: "lifecycle_path st (xs @ [x]) \<longleftrightarrow> lifecycle_path st xs \<and> plan_step (last (st # xs)) x"
  by (induction xs arbitrary: st) auto

lemma plan_record_inv: "plan_inv p \<Longrightarrow> plan_step (pl_status p) st \<Longrightarrow> plan_inv (plan_record st (p\<lparr>pl_text := t\<rparr>))"
  by (auto simp: plan_inv_def plan_record_def lifecycle_snoc)

lemma plan_apply_inv: "plan_inv p \<Longrightarrow> plan_inv (snd (plan_apply x p))"
  using plan_apply_cases [of x p] plan_record_inv by fastforce

lemma plan_apply_terminal: "plan_terminal (pl_status p) \<Longrightarrow> snd (plan_apply x p) = p"
  using plan_apply_cases [of x p] plan_terminal_stuck by fastforce

lemma plan_apply_round: "pl_round p \<le> pl_round (snd (plan_apply x p))"
  using plan_apply_cases [of x p] by (auto simp: plan_record_def)

interpretation plan_runs: guarded_machine plan_inv plan_apply "\<lambda>p. plan_terminal (pl_status p)" pl_round
  by unfold_locales (simp_all add: plan_apply_inv plan_apply_terminal plan_apply_round)

lemma path_executing:
  "lifecycle_path st (xs @ PlanExecuting # ys) \<Longrightarrow> last (st # xs) = PlanApproved"
  by (induction xs arbitrary: st) (auto elim: plan_step_to_executing)

lemma path_approved:
  "lifecycle_path st (xs @ PlanApproved # ys) \<Longrightarrow> last (st # xs) = PlanProposed"
  by (induction xs arbitrary: st) (auto elim: plan_step_to_approved)

section \<open>Properties\<close>

text \<open>C12: the plan machine refines its lifecycle: after any operations on a fresh plan the recorded
  history is a path of \<open>plan_step\<close> from draft that ends at the current status and numbers its
  entries 1, 2, 3 and so on.\<close>

theorem plan_refines_lifecycle:
  "let p = fold (\<lambda>x p. snd (plan_apply x p)) ops plan_default in
     lifecycle_path PlanDraft (map snd (pl_history p)) \<and>
     map fst (pl_history p) = [1..<pl_round p + 1] \<and>
     pl_status p = last (PlanDraft # map snd (pl_history p))"
proof -
  have "plan_inv plan_default" by (simp add: plan_inv_def plan_default_def)
  then have "plan_inv (fold (\<lambda>x p. snd (plan_apply x p)) ops plan_default)"
    by (rule plan_runs.steps.run_inv)
  then show ?thesis by (simp add: plan_inv_def Let_def)
qed

text \<open>No plan executes unreviewed: whenever a plan executes, the step before was its approval and
  the one before that its proposal.\<close>

theorem executing_was_approved:
  assumes "pl_status (fold (\<lambda>x p. snd (plan_apply x p)) ops plan_default) = PlanExecuting"
  shows "\<exists>trail. map snd (pl_history (fold (\<lambda>x p. snd (plan_apply x p)) ops plan_default)) =
    trail @ [PlanProposed, PlanApproved, PlanExecuting]"
proof -
  define sts where "sts = map snd (pl_history (fold (\<lambda>x p. snd (plan_apply x p)) ops plan_default))"
  have "plan_inv plan_default" by (simp add: plan_inv_def plan_default_def)
  then have "plan_inv (fold (\<lambda>x p. snd (plan_apply x p)) ops plan_default)"
    by (rule plan_runs.steps.run_inv)
  then have path: "lifecycle_path PlanDraft sts" and "last (PlanDraft # sts) = PlanExecuting"
    using assms by (simp_all add: plan_inv_def sts_def)
  then obtain xs where xs: "sts = xs @ [PlanExecuting]"
    by (cases sts rule: rev_cases) auto
  with path path_executing [of PlanDraft xs "[]"] have "last (PlanDraft # xs) = PlanApproved" by simp
  then obtain ys where ys: "xs = ys @ [PlanApproved]"
    by (cases xs rule: rev_cases) auto
  with path xs path_approved [of PlanDraft ys "[PlanExecuting]"] have "last (PlanDraft # ys) = PlanProposed" by simp
  then obtain zs where "ys = zs @ [PlanProposed]"
    by (cases ys rule: rev_cases) auto
  with xs ys show ?thesis by (simp add: sts_def [symmetric])
qed

theorem executing_was_approved_witness:
  "pl_status (fold (\<lambda>x p. snd (plan_apply x p)) [OpPropose ''a'', OpApprove, OpBegin] plan_default) = PlanExecuting \<and>
   (\<exists>trail. map snd (pl_history (fold (\<lambda>x p. snd (plan_apply x p)) [OpPropose ''a'', OpApprove, OpBegin] plan_default)) =
      trail @ [PlanProposed, PlanApproved, PlanExecuting])"
proof -
  have "pl_status (fold (\<lambda>x p. snd (plan_apply x p)) [OpPropose ''a'', OpApprove, OpBegin] plan_default) = PlanExecuting"
    by code_simp
  with executing_was_approved show ?thesis by blast
qed

end
