(* ===== verification/Task_Service.thy ===== *)
theory Task_Service
  imports Run_Types "HOL-Library.Word"
begin

text \<open>
  The task seam of \<open>crates/action/tasks/src/lib.rs\<close>: requests, outcomes, the lineage walk, and the
  two services of that crate (the immediate one, and the scripted one whose tasks end only when a
  script says so). The contract a client of the seam relies on is the locale \<open>task_service\<close>;
  \<open>Child_Runtime\<close> interprets it on the service a session runs.
\<close>

section \<open>Vocabulary\<close>

datatype task_kind = KindStandard | KindReadOnly

record task_request =
  tq_kind :: task_kind
  tq_input :: string
  tq_parent_run :: string
  tq_allowed :: "string list"
  tq_depth :: "8 word"
  tq_parent :: "string option"

datatype task_state = TaskRunning | TaskFinished

datatype task_outcome = TaskCompleted string | TaskFailed string | TaskStopped

record task_info =
  ti_state :: task_state
  ti_outcome :: "task_outcome option"
  ti_lineage :: "string list"

section \<open>Lineage\<close>

text \<open>Parent links are followed until an id is unknown, has no parent, or repeats; the table has
  finitely many parents, and each step visits a new one.\<close>

type_synonym parent_links = "(string \<times> string option) list"

fun unseen_parent :: "string list \<Rightarrow> string \<times> string option \<Rightarrow> bool" where
  "unseen_parent chain (i, Some p) = (p \<notin> set chain)"
| "unseen_parent chain (i, None) = False"

lemma unseen_parent_fewer:
  assumes "map_of links c = Some (Some p)" and "p \<notin> set chain"
  shows "length (filter (unseen_parent (chain @ [p])) links) < length (filter (unseen_parent chain) links)"
proof -
  have "unseen_parent (chain @ [p]) x \<Longrightarrow> unseen_parent chain x" for x
    by (cases x; cases "snd x") auto
  moreover have "(c, Some p) \<in> set links" using assms by (auto dest: map_of_SomeD)
  ultimately show ?thesis
    using assms by (intro length_filter_shrink [where y = "(c, Some p)"]) auto
qed

function lineage_walk :: "parent_links \<Rightarrow> string list \<Rightarrow> string \<Rightarrow> string list" where
  "lineage_walk links chain current =
     (case map_of links current of
        Some (Some p) \<Rightarrow> if p \<in> set chain then chain else lineage_walk links (chain @ [p]) p
      | _ \<Rightarrow> chain)"
  by pat_completeness auto
termination
  by (relation "measure (\<lambda>(links, chain, current). length (filter (unseen_parent chain) links))")
    (auto intro: unseen_parent_fewer)

declare lineage_walk.simps [simp del]

definition lineage_of :: "parent_links \<Rightarrow> string \<Rightarrow> string list" where
  "lineage_of links i = rev (lineage_walk links [i] i)"

text \<open>The chain is a path of parent links that ends with the queried id and never repeats.\<close>

fun linked :: "parent_links \<Rightarrow> string list \<Rightarrow> bool" where
  "linked links (a # b # rest) = (map_of links b = Some (Some a) \<and> linked links (b # rest))"
| "linked links _ = True"

lemma linked_Cons: "linked links (a # xs) \<longleftrightarrow> (xs = [] \<or> map_of links (hd xs) = Some (Some a) \<and> linked links xs)"
  by (cases xs) auto

lemma lineage_walk_ok:
  "chain \<noteq> [] \<Longrightarrow> last chain = current \<Longrightarrow> distinct chain \<Longrightarrow> linked links (rev chain) \<Longrightarrow>
   distinct (lineage_walk links chain current) \<and> linked links (rev (lineage_walk links chain current)) \<and>
   prefix chain (lineage_walk links chain current)"
proof (induction links chain current rule: lineage_walk.induct)
  case (1 links chain current)
  show ?case
  proof (cases "map_of links current")
    case (Some q)
    then show ?thesis
    proof (cases q)
      case (Some p)
      show ?thesis
      proof (cases "p \<in> set chain")
        case False
        have "hd (rev chain) = current" using "1.prems" by (simp add: hd_rev)
        then have "linked links (rev (chain @ [p]))"
          using "1.prems" Some \<open>map_of links current = Some q\<close> by (simp add: linked_Cons)
        with 1 False Some \<open>map_of links current = Some q\<close>
        have ih: "distinct (lineage_walk links (chain @ [p]) p) \<and>
            linked links (rev (lineage_walk links (chain @ [p]) p)) \<and>
            prefix (chain @ [p]) (lineage_walk links (chain @ [p]) p)"
          by simp
        then have "prefix chain (lineage_walk links (chain @ [p]) p)"
          by (meson append_prefixD)
        then show ?thesis
          using ih False Some \<open>map_of links current = Some q\<close>
          by (subst (1 2 3) lineage_walk.simps) simp
      qed (use 1 Some \<open>map_of links current = Some q\<close> in \<open>simp add: lineage_walk.simps\<close>)
    qed (use 1 Some in \<open>simp add: lineage_walk.simps\<close>)
  qed (use 1 in \<open>simp add: lineage_walk.simps\<close>)
qed

lemma lineage_of_ok:
  "distinct (lineage_of links i) \<and> linked links (lineage_of links i) \<and> last (lineage_of links i) = i"
proof -
  have w: "distinct (lineage_walk links [i] i) \<and> linked links (rev (lineage_walk links [i] i)) \<and>
      prefix [i] (lineage_walk links [i] i)"
    by (rule lineage_walk_ok) simp_all
  then have "hd (lineage_walk links [i] i) = i" by (auto simp: prefix_def)
  moreover have "lineage_walk links [i] i \<noteq> []" using w by auto
  ultimately have "last (rev (lineage_walk links [i] i)) = i" by (simp add: last_rev)
  then show ?thesis using w by (simp add: lineage_of_def)
qed

section \<open>The seam\<close>

text \<open>A service as its operations on a state; \<open>tk_sleep\<close> is what happens to that state while the client
  sleeps between two polls.\<close>

record 's task_seam =
  tk_spawn :: "task_request \<Rightarrow> 's \<Rightarrow> string \<times> 's"
  tk_query :: "string \<Rightarrow> 's \<Rightarrow> task_info option"
  tk_stop :: "string \<Rightarrow> 's \<Rightarrow> bool \<times> 's"
  tk_sleep :: "'s \<Rightarrow> 's"

text \<open>\<open>live\<close> is the set of tasks that run and were not told to stop.\<close>

locale task_service =
  fixes svc :: "'s task_seam"
    and live :: "'s \<Rightarrow> string set"
    and inv :: "'s \<Rightarrow> bool"
  assumes spawn_inv: "inv s \<Longrightarrow> inv (snd (tk_spawn svc r s))"
    and stop_inv: "inv s \<Longrightarrow> inv (snd (tk_stop svc i s))"
    and sleep_inv: "inv s \<Longrightarrow> inv (tk_sleep svc s)"
    and spawn_live: "live (snd (tk_spawn svc r s)) \<subseteq> insert (fst (tk_spawn svc r s)) (live s)"
    and stop_live: "live (snd (tk_stop svc i s)) \<subseteq> live s - {i}"
    and sleep_live: "live (tk_sleep svc s) \<subseteq> live s"
    and finished_dead: "tk_query svc i s = Some info \<Longrightarrow> ti_state info = TaskFinished \<Longrightarrow> i \<notin> live s"
    and finished_outcome: "inv s \<Longrightarrow> tk_query svc i s = Some info \<Longrightarrow> ti_state info = TaskFinished \<Longrightarrow>
      ti_outcome info \<noteq> None"

section \<open>The immediate service\<close>

type_synonym fake_service = "(string \<times> task_request) list"

definition request_links :: "fake_service \<Rightarrow> parent_links" where
  "request_links spawned = map (\<lambda>(i, r). (i, tq_parent r)) spawned"

definition fake_spawn :: "task_request \<Rightarrow> fake_service \<Rightarrow> string \<times> fake_service" where
  "fake_spawn r spawned =
     (let i = ''task-'' @ show_nat (length spawned + 1) in (i, spawned @ [(i, r)]))"

definition fake_query :: "string \<Rightarrow> fake_service \<Rightarrow> task_info option" where
  "fake_query i spawned =
     map_option (\<lambda>r. \<lparr>ti_state = TaskFinished, ti_outcome = Some (TaskCompleted (tq_input r)),
       ti_lineage = lineage_of (request_links spawned) i\<rparr>) (map_of spawned i)"

definition fake_stop :: "string \<Rightarrow> fake_service \<Rightarrow> bool \<times> fake_service" where
  "fake_stop i spawned = (map_of spawned i \<noteq> None, spawned)"

definition fake_seam :: "fake_service task_seam" where
  "fake_seam = \<lparr>tk_spawn = fake_spawn, tk_query = fake_query, tk_stop = fake_stop, tk_sleep = \<lambda>s. s\<rparr>"

interpretation fake: task_service fake_seam "\<lambda>s. {}" "\<lambda>s. True"
  by unfold_locales (auto simp: fake_seam_def fake_query_def fake_stop_def)

section \<open>The scripted service\<close>

record scripted_service =
  sc_tasks :: "(string, task_info) tbl"
  sc_requests :: "(string, task_request) tbl"
  sc_next :: nat

definition scripted_new :: scripted_service where
  "scripted_new = \<lparr>sc_tasks = [], sc_requests = [], sc_next = 0\<rparr>"

definition scripted_finish :: "string \<Rightarrow> task_outcome \<Rightarrow> scripted_service \<Rightarrow> bool \<times> scripted_service" where
  "scripted_finish i outcome s =
     (case map_of (sc_tasks s) i of
        Some info \<Rightarrow>
          if ti_state info = TaskRunning
          then (True, s\<lparr>sc_tasks := tbl_insert i (info\<lparr>ti_state := TaskFinished, ti_outcome := Some outcome\<rparr>) (sc_tasks s)\<rparr>)
          else (False, s)
      | None \<Rightarrow> (False, s))"

definition scripted_complete :: "string \<Rightarrow> string \<Rightarrow> scripted_service \<Rightarrow> bool \<times> scripted_service" where
  "scripted_complete i summary = scripted_finish i (TaskCompleted summary)"

definition scripted_fail :: "string \<Rightarrow> string \<Rightarrow> scripted_service \<Rightarrow> bool \<times> scripted_service" where
  "scripted_fail i reason = scripted_finish i (TaskFailed reason)"

definition scripted_stop :: "string \<Rightarrow> scripted_service \<Rightarrow> bool \<times> scripted_service" where
  "scripted_stop i = scripted_finish i TaskStopped"

definition scripted_spawn :: "task_request \<Rightarrow> scripted_service \<Rightarrow> string \<times> scripted_service" where
  "scripted_spawn r s =
     (let n = sc_next s + 1; i = ''task-'' @ show_nat n
      in (i, \<lparr>sc_tasks = tbl_insert i \<lparr>ti_state = TaskRunning, ti_outcome = None, ti_lineage = []\<rparr> (sc_tasks s),
              sc_requests = tbl_insert i r (sc_requests s), sc_next = n\<rparr>))"

definition scripted_query :: "string \<Rightarrow> scripted_service \<Rightarrow> task_info option" where
  "scripted_query i s =
     map_option (\<lambda>info. info\<lparr>ti_lineage := lineage_of (request_links (sc_requests s)) i\<rparr>) (map_of (sc_tasks s) i)"

text \<open>The script: while the client sleeps, the next batch of outcomes lands.\<close>

type_synonym scripted_world = "scripted_service \<times> (string \<times> task_outcome) list list"

fun scripted_sleep :: "scripted_world \<Rightarrow> scripted_world" where
  "scripted_sleep (s, []) = (s, [])"
| "scripted_sleep (s, batch # script) = (fold (\<lambda>(i, r) s. snd (scripted_finish i r s)) batch s, script)"

definition scripted_seam :: "scripted_world task_seam" where
  "scripted_seam = \<lparr>tk_spawn = \<lambda>r (s, script). (case scripted_spawn r s of (i, s') \<Rightarrow> (i, s', script)),
     tk_query = \<lambda>i (s, script). scripted_query i s,
     tk_stop = \<lambda>i (s, script). (case scripted_stop i s of (ok, s') \<Rightarrow> (ok, s', script)),
     tk_sleep = scripted_sleep\<rparr>"

definition scripted_live :: "scripted_service \<Rightarrow> string set" where
  "scripted_live s = {i. \<exists>info. map_of (sc_tasks s) i = Some info \<and> ti_state info = TaskRunning}"

definition scripted_inv :: "scripted_service \<Rightarrow> bool" where
  "scripted_inv s \<longleftrightarrow> (\<forall>i info. map_of (sc_tasks s) i = Some info \<longrightarrow> ti_state info = TaskFinished \<longrightarrow> ti_outcome info \<noteq> None)"

lemma scripted_finish_live: "scripted_live (snd (scripted_finish i r s)) \<subseteq> scripted_live s - {i}"
  by (cases "map_of (sc_tasks s) i")
    (auto simp: scripted_finish_def scripted_live_def split: if_splits)

lemma scripted_finish_inv: "scripted_inv s \<Longrightarrow> scripted_inv (snd (scripted_finish i r s))"
  by (cases "map_of (sc_tasks s) i")
    (auto simp: scripted_finish_def scripted_inv_def split: if_splits)

lemma scripted_batch_live: "scripted_live (fold (\<lambda>(i, r) s. snd (scripted_finish i r s)) batch s) \<subseteq> scripted_live s"
proof (induction batch arbitrary: s)
  case (Cons e batch)
  obtain i r where e: "e = (i, r)" by fastforce
  have "scripted_live (fold (\<lambda>(i, r) s. snd (scripted_finish i r s)) batch (snd (scripted_finish i r s))) \<subseteq>
      scripted_live (snd (scripted_finish i r s))"
    by (rule Cons.IH)
  with scripted_finish_live [of i r s] show ?case unfolding e by simp blast
qed simp

lemma scripted_batch_inv: "scripted_inv s \<Longrightarrow> scripted_inv (fold (\<lambda>(i, r) s. snd (scripted_finish i r s)) batch s)"
  by (induction batch arbitrary: s) (auto simp: scripted_finish_inv)

interpretation scripted: task_service scripted_seam "\<lambda>w. scripted_live (fst w)" "\<lambda>w. scripted_inv (fst w)"
proof unfold_locales
  fix s :: scripted_world and r i info
  obtain sv script where s: "s = (sv, script)" by fastforce
  show "scripted_inv (fst s) \<Longrightarrow> scripted_inv (fst (snd (tk_spawn scripted_seam r s)))"
    by (auto simp: s scripted_seam_def scripted_spawn_def scripted_inv_def Let_def)
  show "scripted_inv (fst s) \<Longrightarrow> scripted_inv (fst (snd (tk_stop scripted_seam i s)))"
    using scripted_finish_inv [of sv i TaskStopped]
    by (cases "scripted_finish i TaskStopped sv") (simp add: s scripted_seam_def scripted_stop_def)
  show "scripted_inv (fst s) \<Longrightarrow> scripted_inv (fst (tk_sleep scripted_seam s))"
    by (cases script) (simp_all add: s scripted_seam_def scripted_batch_inv)
  show "scripted_live (fst (snd (tk_spawn scripted_seam r s))) \<subseteq>
      insert (fst (tk_spawn scripted_seam r s)) (scripted_live (fst s))"
    by (auto simp: s scripted_seam_def scripted_spawn_def scripted_live_def Let_def)
  show "scripted_live (fst (snd (tk_stop scripted_seam i s))) \<subseteq> scripted_live (fst s) - {i}"
    using scripted_finish_live [of i TaskStopped sv]
    by (cases "scripted_finish i TaskStopped sv") (simp add: s scripted_seam_def scripted_stop_def)
  show "scripted_live (fst (tk_sleep scripted_seam s)) \<subseteq> scripted_live (fst s)"
    by (cases script) (simp_all add: s scripted_seam_def scripted_batch_live)
  show "tk_query scripted_seam i s = Some info \<Longrightarrow> ti_state info = TaskFinished \<Longrightarrow> i \<notin> scripted_live (fst s)"
    by (auto simp: s scripted_seam_def scripted_query_def scripted_live_def)
  show "scripted_inv (fst s) \<Longrightarrow> tk_query scripted_seam i s = Some info \<Longrightarrow> ti_state info = TaskFinished \<Longrightarrow>
      ti_outcome info \<noteq> None"
    by (auto simp: s scripted_seam_def scripted_query_def scripted_inv_def)
qed

end
