(* ===== verification/Child_Runtime.thy ===== *)
theory Child_Runtime
  imports Task_Service "HOL-Library.Product_Lexorder" "HOL-Library.List_Lexorder" "HOL-Library.Char_ord"
begin

text \<open>
  Background children: the tracked table of \<open>crates/runtime/child/src/lib.rs\<close> (depth cap, stop
  signals, bounded notices, reaping) and the session's task service over it,
  \<open>crates/operations/bootstrap/src/child_service.rs\<close>.

  Each child's detached driver is a phase of its slot: waiting to start, working, gone. Its steps
  are operations of their own, taken at any time; what the work itself returns is their argument.
  A finish and the notice it files are one step. The work a factory captured is the parameter of
  the runtime's type.
\<close>

section \<open>The runtime\<close>

definition MAX_NOTIFICATIONS :: nat where
  "MAX_NOTIFICATIONS = 64"

definition MAX_FINISHED_TASKS :: nat where
  "MAX_FINISHED_TASKS = 64"

definition MAX_CHILD_DEPTH :: "8 word" where
  "MAX_CHILD_DEPTH = 3"

datatype child_kind = ChildStandard | ChildReadOnly

record child_spec =
  ck_kind :: child_kind
  ck_input :: string
  ck_parent_run :: string
  ck_allowed :: "string list"
  ck_depth :: "8 word"
  ck_parent :: "string option"

datatype child_status = ChildCompleted | ChildFailed | ChildStopped

record child_result =
  cr_status :: child_status
  cr_summary :: string
  cr_output_tokens :: nat

definition result_completed :: "string \<Rightarrow> nat \<Rightarrow> child_result" where
  "result_completed summary output_tokens =
     \<lparr>cr_status = ChildCompleted, cr_summary = summary, cr_output_tokens = output_tokens\<rparr>"

definition result_failed :: "string \<Rightarrow> child_result" where
  "result_failed summary = \<lparr>cr_status = ChildFailed, cr_summary = summary, cr_output_tokens = 0\<rparr>"

datatype child_state = SlotRunning | SlotFinished

record child_view =
  vw_state :: child_state
  vw_result :: "child_result option"
  vw_lineage :: "string list"

record child_ticket =
  ct_task_id :: string
  ct_kind :: child_kind
  ct_input :: string
  ct_parent_run :: string
  ct_allowed :: "string list"
  ct_depth :: "8 word"
  ct_parent :: "string option"

datatype 'w driver = Waiting child_ticket 'w | Working child_ticket 'w | Gone

record 'w child_slot =
  sl_depth :: "8 word"
  sl_parent :: "string option"
  sl_stop_requested :: bool
  sl_stop :: bool
  sl_state :: child_state
  sl_result :: "child_result option"
  sl_driver :: "'w driver"

record 'w child_runtime =
  rt_tasks :: "(string, 'w child_slot) tbl"
  rt_queue :: "string list"
  rt_next :: nat

definition runtime_new :: "'w child_runtime" where
  "runtime_new = \<lparr>rt_tasks = [], rt_queue = [], rt_next = 0\<rparr>"

text \<open>The completion sink.\<close>

definition push_text :: "string \<Rightarrow> string list \<Rightarrow> string list" where
  "push_text t queue = (if MAX_NOTIFICATIONS \<le> length queue then tl queue else queue) @ [t]"

definition sink_push :: "string \<Rightarrow> string list \<Rightarrow> string list" where
  "sink_push i = push_text (i @ '' finished'')"

definition slot_new :: "8 word \<Rightarrow> string option \<Rightarrow> 'w driver \<Rightarrow> 'w child_slot" where
  "slot_new depth parent drv = \<lparr>sl_depth = depth, sl_parent = parent, sl_stop_requested = False,
     sl_stop = False, sl_state = SlotRunning, sl_result = None, sl_driver = drv\<rparr>"

definition slot_finish :: "child_result \<Rightarrow> 'w child_slot \<Rightarrow> 'w child_slot" where
  "slot_finish r slot = slot\<lparr>sl_result := Some r, sl_state := SlotFinished, sl_driver := Gone\<rparr>"

text \<open>Reaping: finished slots beyond the newest ones go, by their number.\<close>

definition child_number :: "string \<Rightarrow> nat option" where
  "child_number i = Option.bind (strip_prefix i ''child-'') (parse_uint (max_of 64))"

definition finished_ids :: "(string, 'w child_slot) tbl \<Rightarrow> (nat \<times> string) list" where
  "finished_ids tasks = List.map_filter
     (\<lambda>(i, slot). if sl_state slot = SlotFinished then map_option (\<lambda>n. (n, i)) (child_number i) else None) tasks"

definition reap_finished_tasks :: "'w child_runtime \<Rightarrow> 'w child_runtime" where
  "reap_finished_tasks rt =
     (let finished = finished_ids (rt_tasks rt); bound = MAX_FINISHED_TASKS - 1
      in if length finished \<le> bound then rt
         else rt\<lparr>rt_tasks := fold (\<lambda>(n, i). tbl_remove i) (take (length finished - bound) (sort finished)) (rt_tasks rt)\<rparr>)"

definition alloc_id :: "'w child_runtime \<Rightarrow> string \<times> 'w child_runtime" where
  "alloc_id rt = (let n = rt_next rt + 1 in (''child-'' @ show_nat n, rt\<lparr>rt_next := n\<rparr>))"

definition spawn_background :: "child_spec \<Rightarrow> 'w \<Rightarrow> 'w child_runtime \<Rightarrow> string \<times> 'w child_runtime" where
  "spawn_background spec work rt =
     (case alloc_id (reap_finished_tasks rt) of (i, rt1) \<Rightarrow>
        if MAX_CHILD_DEPTH < ck_depth spec
        then (i, rt1\<lparr>rt_tasks := tbl_insert i
                   (slot_finish (result_failed (''max child depth '' @ show_nat (unat MAX_CHILD_DEPTH) @ '' exceeded''))
                      (slot_new (ck_depth spec) (ck_parent spec) Gone)) (rt_tasks rt1),
                 rt_queue := sink_push i (rt_queue rt1)\<rparr>)
        else (i, rt1\<lparr>rt_tasks := tbl_insert i
                   (slot_new (ck_depth spec) (ck_parent spec)
                      (Waiting \<lparr>ct_task_id = i, ct_kind = ck_kind spec, ct_input = ck_input spec,
                         ct_parent_run = ck_parent_run spec, ct_allowed = ck_allowed spec,
                         ct_depth = ck_depth spec, ct_parent = ck_parent spec\<rparr> work)) (rt_tasks rt1)\<rparr>))"

text \<open>The driver's two steps: it starts, unless a stop came first; its work returns, or panics.\<close>

definition driver_start :: "string \<Rightarrow> 'w child_runtime \<Rightarrow> 'w child_runtime" where
  "driver_start i rt =
     (case map_of (rt_tasks rt) i of
        Some slot \<Rightarrow>
          (case sl_driver slot of
             Waiting ticket work \<Rightarrow>
               if sl_stop_requested slot
               then rt\<lparr>rt_tasks := tbl_insert i (slot_finish \<lparr>cr_status = ChildStopped,
                        cr_summary = ''stop requested before start'', cr_output_tokens = 0\<rparr> slot) (rt_tasks rt),
                      rt_queue := sink_push i (rt_queue rt)\<rparr>
               else rt\<lparr>rt_tasks := tbl_insert i (slot\<lparr>sl_driver := Working ticket work\<rparr>) (rt_tasks rt)\<rparr>
           | _ \<Rightarrow> rt)
      | None \<Rightarrow> rt)"

definition driver_end :: "string \<Rightarrow> child_result option \<Rightarrow> 'w child_runtime \<Rightarrow> 'w child_runtime" where
  "driver_end i returned rt =
     (case map_of (rt_tasks rt) i of
        Some slot \<Rightarrow>
          (case sl_driver slot of
             Working ticket work \<Rightarrow>
               let r = (case returned of
                          Some r \<Rightarrow> if sl_stop_requested slot then r\<lparr>cr_status := ChildStopped\<rparr> else r
                        | None \<Rightarrow> result_failed ''child task panicked'')
               in rt\<lparr>rt_tasks := tbl_insert i (slot_finish r slot) (rt_tasks rt),
                    rt_queue := sink_push i (rt_queue rt)\<rparr>
           | _ \<Rightarrow> rt)
      | None \<Rightarrow> rt)"

definition child_links :: "(string, 'w child_slot) tbl \<Rightarrow> parent_links" where
  "child_links tasks = map (\<lambda>(i, slot). (i, sl_parent slot)) tasks"

definition child_query :: "string \<Rightarrow> 'w child_runtime \<Rightarrow> child_view option" where
  "child_query i rt =
     map_option (\<lambda>slot. \<lparr>vw_state = sl_state slot, vw_result = sl_result slot,
       vw_lineage = lineage_of (child_links (rt_tasks rt)) i\<rparr>) (map_of (rt_tasks rt) i)"

definition depth_of :: "string \<Rightarrow> 'w child_runtime \<Rightarrow> 8 word option" where
  "depth_of i rt = map_option sl_depth (map_of (rt_tasks rt) i)"

definition child_stop :: "string \<Rightarrow> 'w child_runtime \<Rightarrow> bool \<times> 'w child_runtime" where
  "child_stop i rt =
     (case map_of (rt_tasks rt) i of
        Some slot \<Rightarrow> (True, rt\<lparr>rt_tasks := tbl_insert i (slot\<lparr>sl_stop_requested := True, sl_stop := True\<rparr>) (rt_tasks rt)\<rparr>)
      | None \<Rightarrow> (False, rt))"

definition stop_handle :: "string \<Rightarrow> 'w child_runtime \<Rightarrow> bool option" where
  "stop_handle i rt = map_option sl_stop (map_of (rt_tasks rt) i)"

definition notify_completion :: "string \<Rightarrow> 'w child_runtime \<Rightarrow> 'w child_runtime" where
  "notify_completion message rt = rt\<lparr>rt_queue := push_text message (rt_queue rt)\<rparr>"

definition drain_notifications :: "'w child_runtime \<Rightarrow> string list \<times> 'w child_runtime" where
  "drain_notifications rt = (rt_queue rt, rt\<lparr>rt_queue := []\<rparr>)"

section \<open>The task service of a session\<close>

definition child_run_key :: "string \<Rightarrow> string" where
  "child_run_key task_id = ''child/'' @ task_id"

record child_surface =
  sf_all :: "string list"
  sf_read_only :: "string list"
  sf_forbidden :: "string list"

text \<open>The work a spawn captures is the surface it computed.\<close>

record child_service =
  cs_runtime :: "string list option child_runtime"
  cs_history :: "(string, task_request) tbl"
  cs_surface :: "child_surface option"
  cs_allowlist :: allowlist
  cs_interrupts :: interrupts

definition service_new :: "child_surface option \<Rightarrow> child_service" where
  "service_new surface = \<lparr>cs_runtime = runtime_new, cs_history = [], cs_surface = surface,
     cs_allowlist = [], cs_interrupts = []\<rparr>"

definition set_surface :: "child_surface \<Rightarrow> child_service \<Rightarrow> child_service" where
  "set_surface surface sv = (if cs_surface sv = None then sv\<lparr>cs_surface := Some surface\<rparr> else sv)"

definition effective_surface :: "child_surface option \<Rightarrow> task_request \<Rightarrow> string list option" where
  "effective_surface policy r =
     (case policy of
        None \<Rightarrow> if tq_allowed r = [] then None else Some (tq_allowed r)
      | Some surface \<Rightarrow>
          let base = (if tq_allowed r = [] then sf_all surface else tq_allowed r);
              base = filter (\<lambda>name. name \<notin> set (sf_forbidden surface)) base
          in Some (if tq_kind r = KindReadOnly then filter (\<lambda>name. name \<in> set (sf_read_only surface)) base else base))"

fun profile :: "task_kind \<Rightarrow> child_kind" where
  "profile KindStandard = ChildStandard"
| "profile KindReadOnly = ChildReadOnly"

definition child_spec_for :: "string list option \<Rightarrow> task_request \<Rightarrow> child_spec" where
  "child_spec_for effective r =
     \<lparr>ck_kind = profile (tq_kind r), ck_input = tq_input r, ck_parent_run = tq_parent_run r,
      ck_allowed = (case effective of Some names \<Rightarrow> sort (remdups names) | None \<Rightarrow> []),
      ck_depth = tq_depth r, ck_parent = tq_parent r\<rparr>"

definition service_spawn :: "task_request \<Rightarrow> child_service \<Rightarrow> string \<times> child_service" where
  "service_spawn r sv =
     (let effective = effective_surface (cs_surface sv) r
      in case spawn_background (child_spec_for effective r) effective (cs_runtime sv) of (i, rt) \<Rightarrow>
           (i, sv\<lparr>cs_runtime := rt, cs_history := tbl_insert i r (cs_history sv)\<rparr>))"

fun outcome_of_result :: "child_result \<Rightarrow> task_outcome" where
  "outcome_of_result r =
     (case cr_status r of
        ChildCompleted \<Rightarrow> TaskCompleted (cr_summary r)
      | ChildFailed \<Rightarrow> TaskFailed (cr_summary r)
      | ChildStopped \<Rightarrow> TaskStopped)"

definition service_query :: "string \<Rightarrow> child_service \<Rightarrow> task_info option" where
  "service_query i sv =
     map_option (\<lambda>view. \<lparr>ti_state = (case vw_state view of SlotRunning \<Rightarrow> TaskRunning | SlotFinished \<Rightarrow> TaskFinished),
       ti_outcome = map_option outcome_of_result (vw_result view), ti_lineage = vw_lineage view\<rparr>)
       (child_query i (cs_runtime sv))"

definition service_stop :: "string \<Rightarrow> child_service \<Rightarrow> bool \<times> child_service" where
  "service_stop i sv = (case child_stop i (cs_runtime sv) of (ok, rt) \<Rightarrow> (ok, sv\<lparr>cs_runtime := rt\<rparr>))"

text \<open>The follow-up's depth is a \<open>u8\<close> sum.\<close>

definition continue_task :: "string \<Rightarrow> string \<Rightarrow> child_service \<Rightarrow> string option \<times> child_service" where
  "continue_task i followup_input sv =
     (case map_of (cs_history sv) i of
        None \<Rightarrow> (None, sv)
      | Some parent \<Rightarrow>
          (case service_query i sv of
             None \<Rightarrow> (None, sv)
           | Some info \<Rightarrow>
               if ti_state info \<noteq> TaskFinished then (None, sv)
               else (case service_spawn \<lparr>tq_kind = tq_kind parent, tq_input = followup_input,
                        tq_parent_run = tq_parent_run parent, tq_allowed = tq_allowed parent,
                        tq_depth = tq_depth parent + 1, tq_parent = Some i\<rparr> sv of
                       (j, sv') \<Rightarrow> (Some j, sv'))))"

text \<open>The work of one child: a turn on a fresh conversation between borrowing its run-scoped
  entries and releasing them.\<close>

definition summarize_child_run :: "(json \<Rightarrow> string) \<Rightarrow> history_entry list \<Rightarrow> stop_reason \<Rightarrow> string" where
  "summarize_child_run render entries outcome =
     (case outcome of
        StopError reason \<Rightarrow> reason
      | _ \<Rightarrow>
          (case find (\<lambda>e. he_role e = Assistant) (rev entries) of
             Some e \<Rightarrow> if entry_text render e = [] then ''(no final answer text)'' else entry_text render e
           | None \<Rightarrow> ''(no final answer text)''))"

fun child_task_status :: "stop_reason \<Rightarrow> child_status" where
  "child_task_status Completed = ChildCompleted"
| "child_task_status MaxToolRounds = ChildCompleted"
| "child_task_status RepeatBreaker = ChildCompleted"
| "child_task_status Interrupted = ChildStopped"
| "child_task_status (StopError _) = ChildFailed"

definition child_begins :: "string \<Rightarrow> child_service \<Rightarrow> child_service" where
  "child_begins i sv =
     (let rt = driver_start i (cs_runtime sv); sv' = sv\<lparr>cs_runtime := rt\<rparr>; key = child_run_key i
      in case (map_option sl_driver (map_of (rt_tasks (cs_runtime sv)) i), map_option sl_driver (map_of (rt_tasks rt) i)) of
           (Some (Waiting _ _), Some (Working _ effective)) \<Rightarrow>
             sv'\<lparr>cs_interrupts := interrupts_register key False (cs_interrupts sv),
                 cs_allowlist := (case effective of Some names \<Rightarrow> allow_restrict key names (cs_allowlist sv)
                                                  | None \<Rightarrow> cs_allowlist sv)\<rparr>
         | _ \<Rightarrow> sv')"

definition child_teardown :: "string \<Rightarrow> child_service \<Rightarrow> child_service" where
  "child_teardown i sv = sv\<lparr>cs_allowlist := allow_release (child_run_key i) (cs_allowlist sv),
     cs_interrupts := interrupts_release (child_run_key i) (cs_interrupts sv)\<rparr>"

definition is_working :: "string \<Rightarrow> 'w child_runtime \<Rightarrow> bool" where
  "is_working i rt = (case map_option sl_driver (map_of (rt_tasks rt) i) of Some (Working _ _) \<Rightarrow> True | _ \<Rightarrow> False)"

definition child_returns ::
    "(json \<Rightarrow> string) \<Rightarrow> string \<Rightarrow> (conversation \<times> stop_reason) option \<Rightarrow> child_service \<Rightarrow> child_service" where
  "child_returns render i returned sv =
     (if is_working i (cs_runtime sv)
      then (let r = map_option (\<lambda>(conv, outcome).
                  \<lparr>cr_status = child_task_status outcome,
                   cr_summary = summarize_child_run render (cv_entries conv) outcome,
                   cr_output_tokens = u_output (cv_usage conv)\<rparr>) returned;
                sv' = child_teardown i sv
            in sv'\<lparr>cs_runtime := driver_end i r (cs_runtime sv)\<rparr>)
      else sv)"

text \<open>One poll of the stop watcher: a triggered ticket flips the child's own interrupt.\<close>

definition stop_watcher_poll :: "string \<Rightarrow> child_service \<Rightarrow> child_service" where
  "stop_watcher_poll i sv =
     (if is_working i (cs_runtime sv) \<and> stop_handle i (cs_runtime sv) = Some True \<and>
         map_of (cs_interrupts sv) (child_run_key i) \<noteq> None
      then sv\<lparr>cs_interrupts := tbl_insert (child_run_key i) True (cs_interrupts sv)\<rparr>
      else sv)"

section \<open>Operations on the runtime, in any order\<close>

datatype 'w runtime_op = RtSpawn child_spec 'w | RtStart string | RtEnd string "child_result option"
  | RtStop string | RtNotify string | RtDrain

fun runtime_step :: "'w runtime_op \<Rightarrow> 'w child_runtime \<Rightarrow> 'w child_runtime" where
  "runtime_step (RtSpawn spec work) rt = snd (spawn_background spec work rt)"
| "runtime_step (RtStart i) rt = driver_start i rt"
| "runtime_step (RtEnd i r) rt = driver_end i r rt"
| "runtime_step (RtStop i) rt = snd (child_stop i rt)"
| "runtime_step (RtNotify m) rt = notify_completion m rt"
| "runtime_step RtDrain rt = snd (drain_notifications rt)"

text \<open>A slot is finished exactly when it has a result and its driver is gone, and no driver waits or
  works past the depth cap.\<close>

definition slot_ok :: "'w child_slot \<Rightarrow> bool" where
  "slot_ok slot \<longleftrightarrow>
     (sl_state slot = SlotFinished \<longleftrightarrow> sl_result slot \<noteq> None) \<and>
     (sl_state slot = SlotFinished \<longleftrightarrow> sl_driver slot = Gone) \<and>
     (sl_driver slot = Gone \<or> sl_depth slot \<le> MAX_CHILD_DEPTH) \<and>
     (sl_stop_requested slot \<longleftrightarrow> sl_stop slot)"

definition runtime_inv :: "'w child_runtime \<Rightarrow> bool" where
  "runtime_inv rt \<longleftrightarrow> list_all (\<lambda>(i, slot). slot_ok slot) (rt_tasks rt) \<and> length (rt_queue rt) \<le> MAX_NOTIFICATIONS"

lemma list_all_tbl_insert:
  "list_all (\<lambda>(i, x). P x) t \<Longrightarrow> P v \<Longrightarrow> list_all (\<lambda>(i, x). P x) (tbl_insert k v t)"
  by (induction k v t rule: tbl_insert.induct) auto

lemma list_all_tbl_remove: "list_all P t \<Longrightarrow> list_all P (tbl_remove k t)"
  by (auto simp: tbl_remove_def list_all_iff)

lemma list_all_fold_remove: "list_all P t \<Longrightarrow> list_all P (fold (\<lambda>(n, i). tbl_remove i) ds t)"
  by (induction ds arbitrary: t) (auto simp: list_all_tbl_remove)

lemma list_all_map_of: "list_all (\<lambda>(i, x). P x) t \<Longrightarrow> map_of t k = Some v \<Longrightarrow> P v"
  by (auto simp: list_all_iff dest: map_of_SomeD)

lemma push_text_bound: "length q \<le> MAX_NOTIFICATIONS \<Longrightarrow> length (push_text t q) \<le> MAX_NOTIFICATIONS"
  by (simp add: push_text_def MAX_NOTIFICATIONS_def)

lemma reap_inv: "runtime_inv rt \<Longrightarrow> runtime_inv (reap_finished_tasks rt)"
  by (simp add: runtime_inv_def reap_finished_tasks_def Let_def list_all_fold_remove)

lemma reap_queue: "rt_queue (reap_finished_tasks rt) = rt_queue rt"
  by (simp add: reap_finished_tasks_def Let_def)

lemma slot_ok_finish: "slot_ok slot \<Longrightarrow> slot_ok (slot_finish r slot)"
  by (simp add: slot_ok_def slot_finish_def)

lemma spawn_background_inv: "runtime_inv rt \<Longrightarrow> runtime_inv (snd (spawn_background spec work rt))"
  using reap_inv [of rt]
  by (auto simp: spawn_background_def alloc_id_def Let_def runtime_inv_def sink_push_def push_text_bound
      slot_ok_def slot_new_def slot_finish_def intro!: list_all_tbl_insert)

lemma slot_ok_at: "runtime_inv rt \<Longrightarrow> map_of (rt_tasks rt) i = Some slot \<Longrightarrow> slot_ok slot"
  by (auto simp: runtime_inv_def intro: list_all_map_of)

lemma runtime_inv_put:
  "runtime_inv rt \<Longrightarrow> slot_ok slot \<Longrightarrow> length q \<le> MAX_NOTIFICATIONS \<Longrightarrow>
   runtime_inv (rt\<lparr>rt_tasks := tbl_insert i slot (rt_tasks rt), rt_queue := q\<rparr>)"
  "runtime_inv rt \<Longrightarrow> slot_ok slot \<Longrightarrow> runtime_inv (rt\<lparr>rt_tasks := tbl_insert i slot (rt_tasks rt)\<rparr>)"
  by (simp_all add: runtime_inv_def list_all_tbl_insert)

lemma sink_push_inv: "runtime_inv rt \<Longrightarrow> length (sink_push i (rt_queue rt)) \<le> MAX_NOTIFICATIONS"
  by (simp add: runtime_inv_def sink_push_def push_text_bound)

lemma driver_start_inv: "runtime_inv rt \<Longrightarrow> runtime_inv (driver_start i rt)"
proof (cases "map_of (rt_tasks rt) i")
  case (Some slot)
  assume inv: "runtime_inv rt"
  then have ok: "slot_ok slot" using Some by (rule slot_ok_at)
  then have "sl_driver slot = Waiting ticket work \<Longrightarrow> slot_ok (slot\<lparr>sl_driver := Working ticket work\<rparr>)" for ticket work
    by (auto simp: slot_ok_def)
  with inv ok Some show ?thesis
    by (auto simp: driver_start_def sink_push_inv slot_ok_finish intro!: runtime_inv_put split: driver.split)
qed (simp add: driver_start_def)

lemma driver_end_inv: "runtime_inv rt \<Longrightarrow> runtime_inv (driver_end i r rt)"
  by (auto simp: driver_end_def Let_def sink_push_inv slot_ok_finish
      intro!: runtime_inv_put dest: slot_ok_at split: option.split driver.split)

lemma slot_ok_stop: "slot_ok slot \<Longrightarrow> slot_ok (slot\<lparr>sl_stop_requested := True, sl_stop := True\<rparr>)"
  by (auto simp: slot_ok_def)

lemma child_stop_inv: "runtime_inv rt \<Longrightarrow> runtime_inv (snd (child_stop i rt))"
  by (auto simp: child_stop_def slot_ok_stop intro!: runtime_inv_put dest: slot_ok_at split: option.split)

lemma runtime_step_inv: "runtime_inv rt \<Longrightarrow> runtime_inv (runtime_step x rt)"
  by (cases x) (simp_all add: spawn_background_inv driver_start_inv driver_end_inv child_stop_inv,
      simp_all add: runtime_inv_def notify_completion_def drain_notifications_def push_text_bound)

interpretation runtime_runs: machine runtime_inv runtime_step
  by unfold_locales (rule runtime_step_inv)

section \<open>The service as a task service\<close>

text \<open>While a client sleeps, children begin, return, panic, and watchers poll.\<close>

datatype service_event = ChildBegins string | ChildReturns string "(conversation \<times> stop_reason) option"
  | WatcherPolls string

fun service_step :: "(json \<Rightarrow> string) \<Rightarrow> service_event \<Rightarrow> child_service \<Rightarrow> child_service" where
  "service_step render (ChildBegins i) sv = child_begins i sv"
| "service_step render (ChildReturns i r) sv = child_returns render i r sv"
| "service_step render (WatcherPolls i) sv = stop_watcher_poll i sv"

type_synonym service_world = "child_service \<times> service_event list list"

fun service_sleep :: "(json \<Rightarrow> string) \<Rightarrow> service_world \<Rightarrow> service_world" where
  "service_sleep render (sv, []) = (sv, [])"
| "service_sleep render (sv, batch # script) = (fold (service_step render) batch sv, script)"

definition service_seam :: "(json \<Rightarrow> string) \<Rightarrow> service_world task_seam" where
  "service_seam render = \<lparr>tk_spawn = \<lambda>r (sv, script). (case service_spawn r sv of (i, sv') \<Rightarrow> (i, sv', script)),
     tk_query = \<lambda>i (sv, script). service_query i sv,
     tk_stop = \<lambda>i (sv, script). (case service_stop i sv of (ok, sv') \<Rightarrow> (ok, sv', script)),
     tk_sleep = service_sleep render\<rparr>"

definition runtime_live :: "'w child_runtime \<Rightarrow> string set" where
  "runtime_live rt = {i. \<exists>slot. map_of (rt_tasks rt) i = Some slot \<and> sl_state slot = SlotRunning \<and> \<not> sl_stop_requested slot}"

definition children_live :: "service_world \<Rightarrow> string set" where
  "children_live w = runtime_live (cs_runtime (fst w))"

lemma map_of_removeD: "map_of (tbl_remove b t) k = Some v \<Longrightarrow> map_of t k = Some v"
  by (simp split: if_splits)

lemma map_of_fold_remove: "map_of (fold (\<lambda>(n, i). tbl_remove i) ds t) k = Some v \<Longrightarrow> map_of t k = Some v"
  by (induction ds arbitrary: t) (auto dest: map_of_removeD simp del: map_of_tbl_remove)

lemma reap_map_of: "map_of (rt_tasks (reap_finished_tasks rt)) k = Some v \<Longrightarrow> map_of (rt_tasks rt) k = Some v"
  by (simp add: reap_finished_tasks_def Let_def split: if_splits) (rule map_of_fold_remove)

lemma runtime_live_put:
  "runtime_live (rt\<lparr>rt_tasks := tbl_insert i slot (rt_tasks rt), rt_queue := q\<rparr>) \<subseteq>
     (if sl_state slot = SlotRunning \<and> \<not> sl_stop_requested slot then insert i (runtime_live rt) else runtime_live rt - {i})"
  "runtime_live (rt\<lparr>rt_tasks := tbl_insert i slot (rt_tasks rt)\<rparr>) \<subseteq>
     (if sl_state slot = SlotRunning \<and> \<not> sl_stop_requested slot then insert i (runtime_live rt) else runtime_live rt - {i})"
  by (auto simp: runtime_live_def)

lemma reap_live: "runtime_live (reap_finished_tasks rt) \<subseteq> runtime_live rt"
  using reap_map_of [of rt] by (auto simp: runtime_live_def)

lemma runtime_live_next: "runtime_live (rt\<lparr>rt_next := n\<rparr>) = runtime_live rt"
  by (simp add: runtime_live_def)

lemma spawn_live: "runtime_live (snd (spawn_background spec work rt)) \<subseteq> insert (fst (spawn_background spec work rt)) (runtime_live rt)"
proof -
  obtain i rt1 where a: "alloc_id (reap_finished_tasks rt) = (i, rt1)" by fastforce
  then have "rt1 = (reap_finished_tasks rt)\<lparr>rt_next := rt_next (reap_finished_tasks rt) + 1\<rparr>"
    by (simp add: alloc_id_def Let_def)
  then have "runtime_live rt1 \<subseteq> runtime_live rt"
    using reap_live [of rt] by (simp only: runtime_live_next)
  then show ?thesis
    using runtime_live_put [where rt = rt1 and i = i] by (fastforce simp: spawn_background_def a split: if_splits)
qed

lemma driver_start_live: "runtime_live (driver_start i rt) \<subseteq> runtime_live rt"
  by (auto simp: driver_start_def runtime_live_def slot_finish_def split: option.splits driver.splits if_splits)

lemma driver_end_live: "runtime_live (driver_end i r rt) \<subseteq> runtime_live rt"
  by (auto simp: driver_end_def runtime_live_def slot_finish_def Let_def split: option.splits driver.splits if_splits)

lemma child_stop_live: "runtime_live (snd (child_stop i rt)) \<subseteq> runtime_live rt - {i}"
  by (auto simp: child_stop_def runtime_live_def split: option.splits if_splits)

lemma service_step_runtime:
  "\<exists>r. cs_runtime (service_step render e sv) \<in> {cs_runtime sv, driver_start (case e of ChildBegins i \<Rightarrow> i | _ \<Rightarrow> []) (cs_runtime sv),
     driver_end (case e of ChildReturns i _ \<Rightarrow> i | _ \<Rightarrow> []) r (cs_runtime sv)}"
  by (cases e) (auto simp: child_begins_def child_returns_def child_teardown_def stop_watcher_poll_def Let_def
      split: option.split driver.split)

lemma service_step_live: "runtime_live (cs_runtime (service_step render e sv)) \<subseteq> runtime_live (cs_runtime sv)"
  using service_step_runtime [of render e sv] driver_start_live driver_end_live by fastforce

lemma service_step_inv: "runtime_inv (cs_runtime sv) \<Longrightarrow> runtime_inv (cs_runtime (service_step render e sv))"
  using service_step_runtime [of render e sv] driver_start_inv driver_end_inv by fastforce

lemma service_batch_live: "runtime_live (cs_runtime (fold (service_step render) es sv)) \<subseteq> runtime_live (cs_runtime sv)"
  by (induction es arbitrary: sv) (use service_step_live in fastforce)+

lemma service_batch_inv: "runtime_inv (cs_runtime sv) \<Longrightarrow> runtime_inv (cs_runtime (fold (service_step render) es sv))"
  by (induction es arbitrary: sv) (auto simp: service_step_inv)

lemma service_spawn_runtime:
  "\<exists>spec work. fst (service_spawn r sv) = fst (spawn_background spec work (cs_runtime sv)) \<and>
     cs_runtime (snd (service_spawn r sv)) = snd (spawn_background spec work (cs_runtime sv))"
proof (intro exI conjI)
  let ?e = "effective_surface (cs_surface sv) r"
  show "fst (service_spawn r sv) = fst (spawn_background (child_spec_for ?e r) ?e (cs_runtime sv))"
    by (simp add: service_spawn_def Let_def split: prod.split)
  show "cs_runtime (snd (service_spawn r sv)) = snd (spawn_background (child_spec_for ?e r) ?e (cs_runtime sv))"
    by (simp add: service_spawn_def Let_def split: prod.split)
qed

interpretation children: task_service "service_seam render" children_live "\<lambda>w. runtime_inv (cs_runtime (fst w))" for render
proof unfold_locales
  fix s :: service_world and r i info
  obtain sv script where s: "s = (sv, script)" by fastforce
  obtain spec work where sp: "fst (service_spawn r sv) = fst (spawn_background spec work (cs_runtime sv))"
    "cs_runtime (snd (service_spawn r sv)) = snd (spawn_background spec work (cs_runtime sv))"
    using service_spawn_runtime by blast
  have spawn: "fst (tk_spawn (service_seam render) r s) = fst (service_spawn r sv)"
    "fst (snd (tk_spawn (service_seam render) r s)) = snd (service_spawn r sv)"
    by (simp_all add: s service_seam_def split: prod.split)
  have stop: "cs_runtime (fst (snd (tk_stop (service_seam render) i s))) = snd (child_stop i (cs_runtime sv))"
    by (cases "child_stop i (cs_runtime sv)") (simp add: s service_seam_def service_stop_def)
  have query: "tk_query (service_seam render) i s = service_query i sv"
    by (simp add: s service_seam_def)
  show "runtime_inv (cs_runtime (fst s)) \<Longrightarrow> runtime_inv (cs_runtime (fst (snd (tk_spawn (service_seam render) r s))))"
    unfolding spawn sp by (simp add: s spawn_background_inv)
  show "runtime_inv (cs_runtime (fst s)) \<Longrightarrow> runtime_inv (cs_runtime (fst (snd (tk_stop (service_seam render) i s))))"
    unfolding stop by (simp add: s child_stop_inv)
  show "runtime_inv (cs_runtime (fst s)) \<Longrightarrow> runtime_inv (cs_runtime (fst (tk_sleep (service_seam render) s)))"
    by (cases script) (simp_all add: s service_seam_def service_batch_inv)
  show "children_live (snd (tk_spawn (service_seam render) r s)) \<subseteq>
      insert (fst (tk_spawn (service_seam render) r s)) (children_live s)"
    using spawn_live [of spec work "cs_runtime sv"] unfolding children_live_def spawn sp by (simp add: s)
  show "children_live (snd (tk_stop (service_seam render) i s)) \<subseteq> children_live s - {i}"
    using child_stop_live [of i "cs_runtime sv"] unfolding children_live_def stop by (simp add: s)
  show "children_live (tk_sleep (service_seam render) s) \<subseteq> children_live s"
    by (cases script) (simp_all add: s children_live_def service_seam_def service_batch_live)
  show "tk_query (service_seam render) i s = Some info \<Longrightarrow> ti_state info = TaskFinished \<Longrightarrow> i \<notin> children_live s"
    unfolding query by (auto simp: s children_live_def runtime_live_def service_query_def child_query_def)
  show "runtime_inv (cs_runtime (fst s)) \<Longrightarrow> tk_query (service_seam render) i s = Some info \<Longrightarrow>
      ti_state info = TaskFinished \<Longrightarrow> ti_outcome info \<noteq> None"
  proof -
    assume inv: "runtime_inv (cs_runtime (fst s))" and q: "tk_query (service_seam render) i s = Some info"
      and f: "ti_state info = TaskFinished"
    obtain slot where m: "map_of (rt_tasks (cs_runtime sv)) i = Some slot"
        and o: "ti_outcome info = map_option outcome_of_result (sl_result slot)"
        and st: "ti_state info = (case sl_state slot of SlotRunning \<Rightarrow> TaskRunning | SlotFinished \<Rightarrow> TaskFinished)"
      using q unfolding query by (auto simp: service_query_def child_query_def)
    have "slot_ok slot" using inv m by (simp add: s slot_ok_at)
    with o st f show "ti_outcome info \<noteq> None"
      by (auto simp: slot_ok_def split: child_state.splits)
  qed
qed

section \<open>Surfaces and depth\<close>

text \<open>With a policy attached no child may call a forbidden tool, and a read-only child only read-only
  ones.\<close>

lemma effective_surface_safe:
  "case effective_surface (Some surface) r of
     None \<Rightarrow> False
   | Some names \<Rightarrow> list_all (\<lambda>name. name \<notin> set (sf_forbidden surface) \<and>
        (tq_kind r = KindReadOnly \<longrightarrow> name \<in> set (sf_read_only surface))) names"
  by (auto simp: effective_surface_def list_all_iff Let_def)

text \<open>A depth past the cap is refused without work, and the refusal is visible to a query.\<close>

lemma over_depth_refused:
  assumes "MAX_CHILD_DEPTH < tq_depth r"
  shows "case service_spawn r sv of (i, sv') \<Rightarrow>
    map_option ti_outcome (service_query i sv') = Some (Some (TaskFailed ''max child depth 3 exceeded'')) \<and>
    runtime_live (cs_runtime sv') \<subseteq> runtime_live (cs_runtime sv)"
proof -
  obtain i rt1 where a: "alloc_id (reap_finished_tasks (cs_runtime sv)) = (i, rt1)" by fastforce
  then have rt1: "rt1 = (reap_finished_tasks (cs_runtime sv))\<lparr>rt_next := rt_next (reap_finished_tasks (cs_runtime sv)) + 1\<rparr>"
    by (simp add: alloc_id_def Let_def)
  have "''max child depth '' @ show_nat (unat MAX_CHILD_DEPTH) @ '' exceeded'' = ''max child depth 3 exceeded''"
    by code_simp
  moreover have "runtime_live rt1 \<subseteq> runtime_live (cs_runtime sv)"
    unfolding rt1 runtime_live_next by (rule reap_live)
  ultimately show ?thesis
    using assms runtime_live_put(1) [where rt = rt1 and i = i]
    by (force simp: service_spawn_def spawn_background_def child_spec_for_def a Let_def service_query_def child_query_def
        slot_finish_def slot_new_def result_failed_def)
qed

text \<open>The follow-up's depth is one more than its parent's in eight bits: a chain continued past its
  refusals comes round to a top-level depth, and that child runs.\<close>

lemma follow_up_depth_wraps:
  assumes "map_of (cs_history sv) i = Some parent" and "tq_depth parent = 255"
    and "service_query i sv = Some info" and "ti_state info = TaskFinished"
  shows "case continue_task i t sv of (r, sv') \<Rightarrow>
    r \<noteq> None \<and> map_option tq_depth (Option.bind r (map_of (cs_history sv'))) = Some 0"
proof -
  obtain j sv' where j: "service_spawn \<lparr>tq_kind = tq_kind parent, tq_input = t, tq_parent_run = tq_parent_run parent,
      tq_allowed = tq_allowed parent, tq_depth = tq_depth parent + 1, tq_parent = Some i\<rparr> sv = (j, sv')"
    by fastforce
  then have "map_of (cs_history sv') j = Some \<lparr>tq_kind = tq_kind parent, tq_input = t, tq_parent_run = tq_parent_run parent,
      tq_allowed = tq_allowed parent, tq_depth = tq_depth parent + 1, tq_parent = Some i\<rparr>"
    by (auto simp: service_spawn_def Let_def split: prod.splits)
  then show ?thesis using assms j by (simp add: continue_task_def)
qed

end
