(* ===== verification/Workflow.thy ===== *)
theory Workflow
  imports Child_Runtime "HOL-Library.Multiset"
begin

text \<open>
  Workflow runs and Ralph loops, \<open>crates/action/workflow/src/lib.rs\<close>: validation of a spec as a
  dependency graph (Kahn's drain), the wave-by-wave run over a task service with bounded fan-out,
  and the bounded improvement loop. The task service is an argument; \<open>Task_Service\<close> states its
  contract. A \<open>HashMap\<close>'s iteration order is one order of its table: \<open>kahn_verdict\<close> holds for any.
\<close>

section \<open>Specs\<close>

definition RALPH_DONE_MARKER :: string where
  "RALPH_DONE_MARKER = ''RALPH_DONE''"

definition MAX_RALPH_ROUNDS :: nat where
  "MAX_RALPH_ROUNDS = 10"

definition DEFAULT_FANOUT_PARALLEL :: nat where
  "DEFAULT_FANOUT_PARALLEL = 4"

definition MAX_FANOUT_PARALLEL :: nat where
  "MAX_FANOUT_PARALLEL = 16"

definition MAX_WAVE_PARALLEL :: nat where
  "MAX_WAVE_PARALLEL = 8"

definition MAX_SPEC_STEPS :: nat where
  "MAX_SPEC_STEPS = 64"

definition MAX_FANOUT_ITEMS :: nat where
  "MAX_FANOUT_ITEMS = 256"

definition MAX_POLLS :: nat where
  "MAX_POLLS = 30000"

datatype step_kind = StepTask | StepFanout

record workflow_step =
  ws_id :: string
  ws_kind :: step_kind
  ws_input :: json
  ws_depends :: "string list"
  ws_max_parallel :: "nat option"

type_synonym workflow_spec = "workflow_step list"

datatype workflow_error =
    DuplicateStep string
  | UnknownDependency string string
  | WorkflowCycle
  | InvalidSpec string
  | StepFailed string string

datatype ralph_error = EmptyObjective | BadRounds nat | RoundFailed nat string

record ralph_round =
  rr_round :: nat
  rr_task_id :: string
  rr_summary :: string
  rr_done :: bool

record ralph_report =
  rp_objective :: string
  rp_completed :: bool
  rp_rounds :: "ralph_round list"

definition contains_done_marker :: "string \<Rightarrow> bool" where
  "contains_done_marker summary \<longleftrightarrow> list_ex (\<lambda>line. trim line = RALPH_DONE_MARKER) (str_lines summary)"

section \<open>Validation\<close>

definition oversized_fanout :: "workflow_step \<Rightarrow> nat option" where
  "oversized_fanout st =
     (case (ws_kind st, ws_input st) of
        (StepFanout, JArr items) \<Rightarrow> if MAX_FANOUT_ITEMS < length items then Some (length items) else None
      | _ \<Rightarrow> None)"

definition validate_size_bounds :: "workflow_spec \<Rightarrow> (workflow_error, unit) result" where
  "validate_size_bounds steps =
     (if MAX_SPEC_STEPS < length steps
      then Inl (InvalidSpec (''a workflow carries at most '' @ show_nat MAX_SPEC_STEPS @ '' steps (got '' @
             show_nat (length steps) @ '')''))
      else (case find_map (\<lambda>st. map_option (\<lambda>n. (ws_id st, n)) (oversized_fanout st)) steps of
              Some (i, n) \<Rightarrow> Inl (InvalidSpec (''fan-out step '' @ [quote_char] @ i @ [quote_char] @ '' carries at most '' @
                show_nat MAX_FANOUT_ITEMS @ '' entries (got '' @ show_nat n @ '')''))
            | None \<Rightarrow> Inr ()))"

fun check_ids :: "string list \<Rightarrow> workflow_spec \<Rightarrow> workflow_error option" where
  "check_ids seen [] = None"
| "check_ids seen (st # rest) =
     (if blank (ws_id st) then Some (InvalidSpec ''step id must not be blank'')
      else if ws_id st \<in> set seen then Some (DuplicateStep (ws_id st))
      else check_ids (ws_id st # seen) rest)"

definition check_dep :: "string list \<Rightarrow> string \<Rightarrow> string \<Rightarrow> workflow_error option" where
  "check_dep ids i dep =
     (if dep \<notin> set ids then Some (UnknownDependency i dep)
      else if dep = i then Some WorkflowCycle else None)"

definition check_deps :: "workflow_spec \<Rightarrow> workflow_error option" where
  "check_deps steps =
     find_map (\<lambda>st. find_map (check_dep (map ws_id steps) (ws_id st)) (ws_depends st)) steps"

definition or_insert :: "string \<Rightarrow> (string, nat) tbl \<Rightarrow> (string, nat) tbl" where
  "or_insert k t = (case map_of t k of None \<Rightarrow> tbl_insert k 0 t | Some _ \<Rightarrow> t)"

definition bump :: "string \<Rightarrow> (string, nat) tbl \<Rightarrow> (string, nat) tbl" where
  "bump k t = (case map_of t k of None \<Rightarrow> tbl_insert k 1 t | Some d \<Rightarrow> tbl_insert k (d + 1) t)"

definition count_edges :: "workflow_step \<Rightarrow> (string, nat) tbl \<Rightarrow> (string, nat) tbl" where
  "count_edges st t = fold (\<lambda>dep t. or_insert dep (bump (ws_id st) t)) (ws_depends st) (or_insert (ws_id st) t)"

definition indegrees :: "workflow_spec \<Rightarrow> (string, nat) tbl" where
  "indegrees steps = fold count_edges steps []"

text \<open>One drained id relaxes the steps that depend on it. The counter is at least one whenever it is
  decremented (\<open>kahn_counter_positive\<close>), so the subtraction is the code's.\<close>

fun relax :: "string \<Rightarrow> workflow_spec \<Rightarrow> (string, nat) tbl \<times> string list \<Rightarrow> (string, nat) tbl \<times> string list" where
  "relax i [] s = s"
| "relax i (st # rest) (deg, ready) =
     (if i \<in> set (ws_depends st)
      then (case map_of deg (ws_id st) of
              Some d \<Rightarrow> relax i rest (tbl_insert (ws_id st) (d - 1) deg, if d = 1 then ready @ [ws_id st] else ready)
            | None \<Rightarrow> relax i rest (deg, ready))
      else relax i rest (deg, ready))"

lemma tbl_sum_insert:
  "map_of t k = Some d \<Longrightarrow> sum_list (map snd (tbl_insert k v t)) + d = sum_list (map snd t) + (v::nat)"
  by (induction t arbitrary: d) auto

lemma relax_measure:
  "relax i steps (deg, ready) = (deg', ready') \<Longrightarrow>
   sum_list (map snd deg') + length ready' \<le> sum_list (map snd deg) + length ready"
proof (induction i steps "(deg, ready)" arbitrary: deg ready rule: relax.induct)
  case (2 i st rest deg ready)
  show ?case
  proof (cases "i \<in> set (ws_depends st)")
    case True
    show ?thesis
    proof (cases "map_of deg (ws_id st)")
      case (Some d)
      with True 2 have "sum_list (map snd deg') + length ready' \<le>
          sum_list (map snd (tbl_insert (ws_id st) (d - 1) deg)) + length (if d = 1 then ready @ [ws_id st] else ready)"
        by simp
      also have "\<dots> \<le> sum_list (map snd deg) + length ready"
        using tbl_sum_insert [OF Some, of "d - 1"] by auto
      finally show ?thesis .
    qed (use True 2 in simp)
  qed (use 2 in simp)
qed simp

function kahn :: "workflow_spec \<Rightarrow> (string, nat) tbl \<Rightarrow> string list \<Rightarrow> nat \<Rightarrow> nat" where
  "kahn steps deg ready drained =
     (if ready = [] then drained
      else (case relax (last ready) steps (deg, butlast ready) of
              (deg', ready') \<Rightarrow> kahn steps deg' ready' (drained + 1)))"
  by pat_completeness auto
termination
proof (relation "measure (\<lambda>(steps, deg, ready, drained). sum_list (map snd deg) + length ready)", goal_cases)
  case (2 steps deg ready drained deg' ready')
  then have "sum_list (map snd deg') + length ready' \<le> sum_list (map snd deg) + length (butlast ready)"
    by (metis relax_measure)
  moreover have "length (butlast ready) < length ready" using 2 by (cases ready) auto
  ultimately show ?case by simp
qed simp

declare kahn.simps [simp del]

definition ready_ids :: "(string, nat) tbl \<Rightarrow> string list" where
  "ready_ids deg = map fst (filter (\<lambda>(i, d). d = 0) deg)"

definition validate_spec :: "workflow_spec \<Rightarrow> (workflow_error, unit) result" where
  "validate_spec steps =
     (case validate_size_bounds steps of
        Inl e \<Rightarrow> Inl e
      | Inr _ \<Rightarrow>
          (case check_ids [] steps of
             Some e \<Rightarrow> Inl e
           | None \<Rightarrow>
               (case check_deps steps of
                  Some e \<Rightarrow> Inl e
                | None \<Rightarrow>
                    let deg = indegrees steps
                    in if kahn steps deg (ready_ids deg) 0 \<noteq> length steps then Inl WorkflowCycle else Inr ())))"

section \<open>Running one step\<close>

definition render_input :: "(json \<Rightarrow> string) \<Rightarrow> json \<Rightarrow> string" where
  "render_input render v = (case v of JStr t \<Rightarrow> t | JNull \<Rightarrow> [] | _ \<Rightarrow> render v)"

definition step_inputs :: "(json \<Rightarrow> string) \<Rightarrow> workflow_step \<Rightarrow> (workflow_error, string list) result" where
  "step_inputs render st =
     (case ws_kind st of
        StepTask \<Rightarrow> Inr [render_input render (ws_input st)]
      | StepFanout \<Rightarrow>
          (case ws_input st of
             JArr items \<Rightarrow> Inr (map (render_input render) items)
           | _ \<Rightarrow> Inl (InvalidSpec (''fanout step '' @ [quote_char] @ ws_id st @ [quote_char] @ '' needs an input array''))))"

definition fanout_width :: "workflow_step \<Rightarrow> nat" where
  "fanout_width st =
     (case ws_max_parallel st of
        None \<Rightarrow> DEFAULT_FANOUT_PARALLEL
      | Some w \<Rightarrow> if w = 0 then DEFAULT_FANOUT_PARALLEL else max 1 (min w MAX_FANOUT_PARALLEL))"

definition child_request :: "string \<Rightarrow> string \<Rightarrow> task_request" where
  "child_request owner input = \<lparr>tq_kind = KindStandard, tq_input = input, tq_parent_run = owner,
     tq_allowed = [], tq_depth = 0, tq_parent = None\<rparr>"

definition spawn_child :: "'s task_seam \<Rightarrow> string \<Rightarrow> 's \<Rightarrow> string \<times> 's" where
  "spawn_child svc input s = tk_spawn svc (child_request ''workflow'' input) s"

text \<open>The poll loop: \<open>polls\<close> counts the sleeps so far.\<close>

function await_child :: "'s task_seam \<Rightarrow> nat \<Rightarrow> string \<Rightarrow> 's \<Rightarrow> (string, string) result \<times> 's" where
  "await_child svc polls i s =
     (case tk_query svc i s of
        None \<Rightarrow> (Inl ''child handle unknown'', s)
      | Some info \<Rightarrow>
          (case ti_state info of
             TaskFinished \<Rightarrow>
               (case ti_outcome info of
                  Some (TaskCompleted summary) \<Rightarrow> (Inr summary, s)
                | Some (TaskFailed reason) \<Rightarrow> (Inl reason, s)
                | Some TaskStopped \<Rightarrow> (Inl ''child was stopped'', s)
                | None \<Rightarrow> (Inl ''child finished without an outcome'', s))
           | TaskRunning \<Rightarrow>
               if MAX_POLLS < polls + 1 then (Inl ''timed out waiting for child'', s)
               else await_child svc (polls + 1) i (tk_sleep svc s)))"
  by pat_completeness auto
termination by (relation "measure (\<lambda>(svc, polls, i, s). MAX_POLLS - polls)") auto

declare await_child.simps [simp del]

fun spawn_all :: "'s task_seam \<Rightarrow> string list \<Rightarrow> 's \<Rightarrow> string list \<times> 's" where
  "spawn_all svc [] s = ([], s)"
| "spawn_all svc (input # inputs) s =
     (case spawn_child svc input s of (i, s1) \<Rightarrow> (case spawn_all svc inputs s1 of (is, s2) \<Rightarrow> (i # is, s2)))"

fun await_all :: "'s task_seam \<Rightarrow> string list \<Rightarrow> 's \<Rightarrow> (string, string list) result \<times> 's" where
  "await_all svc [] s = (Inr [], s)"
| "await_all svc (i # is) s =
     (case await_child svc 0 i s of
        (Inl reason, s1) \<Rightarrow> (Inl reason, s1)
      | (Inr summary, s1) \<Rightarrow>
          (case await_all svc is s1 of
             (Inl reason, s2) \<Rightarrow> (Inl reason, s2)
           | (Inr summaries, s2) \<Rightarrow> (Inr (summary # summaries), s2)))"

definition stop_all :: "'s task_seam \<Rightarrow> string list \<Rightarrow> 's \<Rightarrow> 's" where
  "stop_all svc is s = fold (\<lambda>i s. snd (tk_stop svc i s)) is s"

text \<open>\<open>slice::chunks\<close>.\<close>

fun chunks_of :: "nat \<Rightarrow> 'a list \<Rightarrow> 'a list list" where
  "chunks_of n [] = []"
| "chunks_of n (x # xs) = take (max n 1) (x # xs) # chunks_of n (drop (max n 1) (x # xs))"

fun run_chunks :: "'s task_seam \<Rightarrow> string \<Rightarrow> string list list \<Rightarrow> 's \<Rightarrow> (workflow_error, string list) result \<times> 's" where
  "run_chunks svc i [] s = (Inr [], s)"
| "run_chunks svc i (chunk # chunks) s =
     (case spawn_all svc chunk s of (ids, s1) \<Rightarrow>
        (case await_all svc ids s1 of
           (Inl reason, s2) \<Rightarrow> (Inl (StepFailed i reason), stop_all svc ids s2)
         | (Inr summaries, s2) \<Rightarrow>
             (case run_chunks svc i chunks s2 of
                (Inl e, s3) \<Rightarrow> (Inl e, s3)
              | (Inr rest, s3) \<Rightarrow> (Inr (summaries @ rest), s3))))"

definition run_step :: "(json \<Rightarrow> string) \<Rightarrow> 's task_seam \<Rightarrow> workflow_step \<Rightarrow> 's \<Rightarrow> (workflow_error, json) result \<times> 's" where
  "run_step render svc st s =
     (case step_inputs render st of
        Inl e \<Rightarrow> (Inl e, s)
      | Inr inputs \<Rightarrow>
          (case run_chunks svc (ws_id st) (chunks_of (fanout_width st) inputs) s of
             (Inl e, s') \<Rightarrow> (Inl e, s')
           | (Inr summaries, s') \<Rightarrow>
               (Inr (case ws_kind st of
                       StepTask \<Rightarrow> JStr (case summaries of [] \<Rightarrow> [] | summary # _ \<Rightarrow> summary)
                     | StepFanout \<Rightarrow> JArr (map JStr summaries)), s')))"

section \<open>Running a spec\<close>

fun run_wave ::
    "(json \<Rightarrow> string) \<Rightarrow> 's task_seam \<Rightarrow> workflow_step list \<Rightarrow> (string, json) tbl \<Rightarrow> 's \<Rightarrow>
     (workflow_error, (string, json) tbl) result \<times> 's" where
  "run_wave render svc [] fin s = (Inr fin, s)"
| "run_wave render svc (st # rest) fin s =
     (case run_step render svc st s of
        (Inl e, s1) \<Rightarrow> (Inl e, s1)
      | (Inr summary, s1) \<Rightarrow> run_wave render svc rest (tbl_insert (ws_id st) summary fin) s1)"

fun run_wave_list ::
    "(json \<Rightarrow> string) \<Rightarrow> 's task_seam \<Rightarrow> workflow_step list list \<Rightarrow> (string, json) tbl \<Rightarrow> 's \<Rightarrow>
     (workflow_error, (string, json) tbl) result \<times> 's" where
  "run_wave_list render svc [] fin s = (Inr fin, s)"
| "run_wave_list render svc (wave # waves) fin s =
     (case run_wave render svc wave fin s of
        (Inl e, s1) \<Rightarrow> (Inl e, s1)
      | (Inr fin1, s1) \<Rightarrow> run_wave_list render svc waves fin1 s1)"

definition step_ready :: "(string, json) tbl \<Rightarrow> workflow_step \<Rightarrow> bool" where
  "step_ready fin st \<longleftrightarrow> map_of fin (ws_id st) = None \<and> list_all (\<lambda>dep. map_of fin dep \<noteq> None) (ws_depends st)"

lemma concat_chunks_of [simp]: "concat (chunks_of n xs) = xs"
  by (induction n xs rule: chunks_of.induct) auto

lemma run_wave_keys:
  "run_wave render svc sts fin s = (Inr fin', s') \<Longrightarrow>
   set (tbl_keys fin') = set (tbl_keys fin) \<union> ws_id ` set sts"
  by (induction sts arbitrary: fin s) (auto split: prod.splits sum.splits)

lemma run_wave_append:
  "run_wave render svc (xs @ ys) fin s =
     (case run_wave render svc xs fin s of (Inl e, s1) \<Rightarrow> (Inl e, s1) | (Inr fin1, s1) \<Rightarrow> run_wave render svc ys fin1 s1)"
proof (induction xs arbitrary: fin s)
  case (Cons st xs)
  obtain r s1 where r: "run_step render svc st s = (r, s1)" by fastforce
  show ?case by (cases r) (simp_all add: r Cons.IH)
qed simp

lemma run_wave_list_concat: "run_wave_list render svc waves fin s = run_wave render svc (concat waves) fin s"
proof (induction waves arbitrary: fin s)
  case (Cons wave waves)
  obtain r s1 where r: "run_wave render svc wave fin s = (r, s1)" by fastforce
  show ?case by (cases r) (simp_all add: r Cons.IH run_wave_append)
qed simp

lemma waves_progress:
  assumes "run_wave_list render svc (chunks_of n (sort_key ws_id (filter (step_ready fin) steps))) fin s = (Inr fin', s')"
    and "filter (step_ready fin) steps \<noteq> []"
  shows "length (filter (\<lambda>st. map_of fin' (ws_id st) = None) steps) <
    length (filter (\<lambda>st. map_of fin (ws_id st) = None) steps)"
proof -
  have keys: "set (tbl_keys fin') = set (tbl_keys fin) \<union> ws_id ` set (filter (step_ready fin) steps)"
    using assms(1) run_wave_keys [of render svc _ fin s fin' s'] by (simp add: run_wave_list_concat)
  have mono: "map_of fin' (ws_id st) = None \<Longrightarrow> map_of fin (ws_id st) = None" for st
    using keys by (auto simp: set_tbl_keys map_of_eq_None_iff dom_map_of_conv_image_fst)
  obtain st where st: "st \<in> set steps" "step_ready fin st"
    using assms(2) by (auto simp: filter_empty_conv)
  have "ws_id st \<in> set (tbl_keys fin')" using st keys by auto
  then have "map_of fin' (ws_id st) \<noteq> None" by (auto simp: set_tbl_keys)
  then show ?thesis
    using st mono by (intro length_filter_shrink [where y = st]) (auto simp: step_ready_def)
qed

function waves_loop ::
    "(json \<Rightarrow> string) \<Rightarrow> 's task_seam \<Rightarrow> workflow_spec \<Rightarrow> (string, json) tbl \<Rightarrow> 's \<Rightarrow>
     (workflow_error, (string, json) tbl) result \<times> 's" where
  "waves_loop render svc steps fin s =
     (if length fin < length steps
      then (let ready = filter (step_ready fin) steps
            in if ready = [] then (Inl WorkflowCycle, s)
               else (case run_wave_list render svc (chunks_of MAX_WAVE_PARALLEL (sort_key ws_id ready)) fin s of
                       (Inl e, s1) \<Rightarrow> (Inl e, s1)
                     | (Inr fin1, s1) \<Rightarrow> waves_loop render svc steps fin1 s1))
      else (Inr fin, s))"
  by pat_completeness auto
termination
proof (relation "measure (\<lambda>(render, svc, steps, fin, s). length (filter (\<lambda>st. map_of fin (ws_id st) = None) steps))", goal_cases)
  case (2 render svc steps fin s ready r s1 fin1)
  then have "run_wave_list render svc (chunks_of MAX_WAVE_PARALLEL (sort_key ws_id (filter (step_ready fin) steps))) fin s =
      (Inr fin1, s1)" and "filter (step_ready fin) steps \<noteq> []"
    by simp_all
  then show ?case by (simp add: waves_progress)
qed simp

declare waves_loop.simps [simp del]

definition run_workflow ::
    "(json \<Rightarrow> string) \<Rightarrow> 's task_seam \<Rightarrow> workflow_spec \<Rightarrow> 's \<Rightarrow>
     (workflow_error, (string, json) tbl) result \<times> 's" where
  "run_workflow render svc steps s =
     (case validate_spec steps of
        Inl e \<Rightarrow> (Inl e, s)
      | Inr _ \<Rightarrow> waves_loop render svc steps [] s)"

section \<open>The Ralph loop\<close>

definition round_prompt :: "string \<Rightarrow> string \<Rightarrow> string" where
  "round_prompt objective prior =
     (if prior = []
      then objective @ [newline, newline] @ ''End your final summary with a line containing only '' @
        RALPH_DONE_MARKER @ '' when the objective is fully met.''
      else objective @ [newline, newline] @ ''Prior round summary:'' @ [newline] @ prior @ [newline, newline] @
        ''Same objective as before: keep improving until it is fully met, then end your final summary with a line containing only '' @
        RALPH_DONE_MARKER @ ''.'')"

text \<open>The rounds from \<open>round\<close> on, \<open>left\<close> of them at most.\<close>

fun ralph_rounds ::
    "string \<Rightarrow> 's task_seam \<Rightarrow> nat \<Rightarrow> nat \<Rightarrow> string \<Rightarrow> 's \<Rightarrow> (ralph_error, ralph_round list \<times> bool) result \<times> 's" where
  "ralph_rounds objective svc 0 n prior s = (Inr ([], False), s)"
| "ralph_rounds objective svc (Suc left) n prior s =
     (case tk_spawn svc (child_request ''ralph'' (round_prompt objective prior)) s of (i, s1) \<Rightarrow>
        (case await_child svc 0 i s1 of
           (Inl reason, s2) \<Rightarrow> (Inl (RoundFailed n reason), snd (tk_stop svc i s2))
         | (Inr summary, s2) \<Rightarrow>
             let entry = \<lparr>rr_round = n, rr_task_id = i, rr_summary = summary, rr_done = contains_done_marker summary\<rparr>
             in if rr_done entry then (Inr ([entry], True), s2)
                else (case ralph_rounds objective svc left (n + 1) summary s2 of
                        (Inl e, s3) \<Rightarrow> (Inl e, s3)
                      | (Inr (rest, completed), s3) \<Rightarrow> (Inr (entry # rest, completed), s3))))"

definition ralph_run :: "string \<Rightarrow> nat \<Rightarrow> 's task_seam \<Rightarrow> 's \<Rightarrow> (ralph_error, ralph_report) result \<times> 's" where
  "ralph_run objective max_rounds svc s =
     (if blank objective then (Inl EmptyObjective, s)
      else if max_rounds = 0 \<or> MAX_RALPH_ROUNDS < max_rounds then (Inl (BadRounds max_rounds), s)
      else (case ralph_rounds objective svc max_rounds 1 [] s of
              (Inl e, s') \<Rightarrow> (Inl e, s')
            | (Inr (rounds, completed), s') \<Rightarrow>
                (Inr \<lparr>rp_objective = objective, rp_completed = completed, rp_rounds = rounds\<rparr>, s')))"

section \<open>Dependency orders\<close>

definition deps_of :: "workflow_spec \<Rightarrow> string \<Rightarrow> string list" where
  "deps_of steps i = (case map_of (map (\<lambda>st. (ws_id st, ws_depends st)) steps) i of Some ds \<Rightarrow> ds | None \<Rightarrow> [])"

text \<open>Every id comes after what it depends on.\<close>

fun ordered_after :: "workflow_spec \<Rightarrow> string list \<Rightarrow> string list \<Rightarrow> bool" where
  "ordered_after steps seen [] = True"
| "ordered_after steps seen (i # is) =
     (list_all (\<lambda>dep. dep \<in> set seen) (deps_of steps i) \<and> ordered_after steps (i # seen) is)"

lemma ordered_after_snoc:
  "ordered_after steps seen (is @ [i]) \<longleftrightarrow>
     ordered_after steps seen is \<and> set (deps_of steps i) \<subseteq> set seen \<union> set is"
  by (induction "is" arbitrary: seen) (auto simp: list_all_iff)

lemma ordered_after_closed:
  "ordered_after steps seen is \<Longrightarrow> set seen \<subseteq> X \<Longrightarrow>
   (\<And>i. i \<in> set is \<Longrightarrow> set (deps_of steps i) \<subseteq> X \<Longrightarrow> i \<in> X) \<Longrightarrow> set is \<subseteq> X"
proof (induction "is" arbitrary: seen)
  case (Cons i "is")
  then have "set (deps_of steps i) \<subseteq> X" by (auto simp: list_all_iff)
  then have "i \<in> X" using Cons.prems(3) by simp
  moreover have "set is \<subseteq> X"
    using Cons.prems \<open>i \<in> X\<close> by (intro Cons.IH [of "i # seen"]) auto
  ultimately show ?case by simp
qed simp

definition well_linked :: "workflow_spec \<Rightarrow> bool" where
  "well_linked steps \<longleftrightarrow> distinct (map ws_id steps) \<and>
     (\<forall>st \<in> set steps. set (ws_depends st) \<subseteq> set (map ws_id steps) \<and> ws_id st \<notin> set (ws_depends st))"

lemma deps_of_step: "distinct (map ws_id steps) \<Longrightarrow> st \<in> set steps \<Longrightarrow> deps_of steps (ws_id st) = ws_depends st"
proof -
  assume "distinct (map ws_id steps)" and "st \<in> set steps"
  then have "map_of (map (\<lambda>st. (ws_id st, ws_depends st)) steps) (ws_id st) = Some (ws_depends st)"
    by (intro map_of_is_SomeI) (auto simp: comp_def)
  then show ?thesis by (simp add: deps_of_def)
qed

lemma check_ids_iff:
  "check_ids seen steps = None \<longleftrightarrow>
     list_all (\<lambda>st. \<not> blank (ws_id st)) steps \<and> distinct (map ws_id steps) \<and> set seen \<inter> ws_id ` set steps = {}"
  by (induction seen steps rule: check_ids.induct) auto

lemma check_deps_iff:
  "check_deps steps = None \<longleftrightarrow>
     (\<forall>st \<in> set steps. set (ws_depends st) \<subseteq> set (map ws_id steps) \<and> ws_id st \<notin> set (ws_depends st))"
  by (auto simp: check_deps_def find_map_None_iff check_dep_def)

lemma size_bounds_iff:
  "is_ok (validate_size_bounds steps) \<longleftrightarrow>
     length steps \<le> MAX_SPEC_STEPS \<and> list_all (\<lambda>st. oversized_fanout st = None) steps"
proof -
  have "find_map (\<lambda>st. map_option (\<lambda>n. (ws_id st, n)) (oversized_fanout st)) steps = None \<longleftrightarrow>
      list_all (\<lambda>st. oversized_fanout st = None) steps"
    by (simp add: find_map_None_iff list_all_iff)
  then show ?thesis by (auto simp: validate_size_bounds_def split: option.split)
qed

section \<open>Kahn's drain\<close>

definition dependents :: "string \<Rightarrow> workflow_spec \<Rightarrow> string list" where
  "dependents i steps = map ws_id (filter (\<lambda>st. i \<in> set (ws_depends st)) steps)"

lemma relax_spec:
  assumes "distinct (map ws_id steps)" and "\<forall>st \<in> set steps. map_of deg (ws_id st) \<noteq> None"
    and "relax i steps (deg, ready) = (deg', ready')"
  shows "(\<forall>j. map_of deg' j = (if j \<in> set (dependents i steps) then map_option (\<lambda>d. d - 1) (map_of deg j) else map_of deg j)) \<and>
    ready' = ready @ filter (\<lambda>j. map_of deg j = Some 1) (dependents i steps)"
  using assms
proof (induction steps arbitrary: deg ready)
  case (Cons st rest)
  show ?case
  proof (cases "i \<in> set (ws_depends st)")
    case True
    obtain d where d: "map_of deg (ws_id st) = Some d" using Cons.prems by auto
    let ?deg1 = "tbl_insert (ws_id st) (d - 1) deg"
    let ?ready1 = "if d = 1 then ready @ [ws_id st] else ready"
    have notin: "ws_id st \<notin> set (dependents i rest)" using Cons.prems by (auto simp: dependents_def)
    then have same: "filter (\<lambda>j. map_of ?deg1 j = Some 1) (dependents i rest) = filter (\<lambda>j. map_of deg j = Some 1) (dependents i rest)"
      by (intro filter_cong) auto
    have "relax i rest (?deg1, ?ready1) = (deg', ready')" using Cons.prems True d by simp
    then have "(\<forall>j. map_of deg' j = (if j \<in> set (dependents i rest) then map_option (\<lambda>d. d - 1) (map_of ?deg1 j) else map_of ?deg1 j)) \<and>
        ready' = ?ready1 @ filter (\<lambda>j. map_of ?deg1 j = Some 1) (dependents i rest)"
      by (intro Cons.IH) (use Cons.prems in auto)
    with True d notin same show ?thesis by (auto simp: dependents_def)
  next
    case False
    then have "relax i rest (deg, ready) = (deg', ready')" using Cons.prems by simp
    then have "(\<forall>j. map_of deg' j = (if j \<in> set (dependents i rest) then map_option (\<lambda>d. d - 1) (map_of deg j) else map_of deg j)) \<and>
        ready' = ready @ filter (\<lambda>j. map_of deg j = Some 1) (dependents i rest)"
      by (intro Cons.IH) (use Cons.prems in auto)
    with False show ?thesis by (simp add: dependents_def)
  qed
qed (simp add: dependents_def)

lemma set_dependents: "distinct (map ws_id steps) \<Longrightarrow>
  j \<in> set (dependents i steps) \<longleftrightarrow> j \<in> set (map ws_id steps) \<and> i \<in> set (deps_of steps j)"
  by (auto simp: dependents_def deps_of_step)

text \<open>Before each pop: every counter is the number of entries not yet drained, the ready ids are those
  at zero, and the drained ids are in dependency order.\<close>

definition waiting :: "workflow_spec \<Rightarrow> string list \<Rightarrow> string \<Rightarrow> nat" where
  "waiting steps order j = length (deps_of steps j) - card (set order \<inter> set (deps_of steps j))"

definition kahn_inv :: "workflow_spec \<Rightarrow> (string, nat) tbl \<Rightarrow> string list \<Rightarrow> string list \<Rightarrow> bool" where
  "kahn_inv steps deg ready order \<longleftrightarrow>
     (\<forall>j. map_of deg j = (if j \<in> set (map ws_id steps) then Some (waiting steps order j) else None)) \<and>
     distinct (ready @ order) \<and>
     (\<forall>j. j \<in> set (ready @ order) \<longleftrightarrow> j \<in> set (map ws_id steps) \<and> waiting steps order j = 0) \<and>
     ordered_after steps [] order"

lemma card_drained_le: "card (set order \<inter> set ds) \<le> length ds"
  by (meson card_length card_mono finite_set inf_le2 le_trans)

lemma card_drained_less: "i \<in> set ds \<Longrightarrow> i \<notin> set order \<Longrightarrow> card (set order \<inter> set ds) < length ds"
proof -
  assume "i \<in> set ds" and "i \<notin> set order"
  then have "card (set order \<inter> set ds) < card (set ds)"
    by (intro psubset_card_mono) auto
  also have "\<dots> \<le> length ds" by (rule card_length)
  finally show ?thesis .
qed

lemma card_drained_snoc: "i \<notin> set order \<Longrightarrow>
  card (set (order @ [i]) \<inter> set ds) = card (set order \<inter> set ds) + (if i \<in> set ds then 1 else 0)"
  by (simp add: Int_insert_left)

text \<open>The counter of a waiting step is positive: the code's decrement never underflows.\<close>

lemma kahn_counter_positive:
  "i \<in> set (deps_of steps j) \<Longrightarrow> i \<notin> set order \<Longrightarrow> 0 < waiting steps order j"
  using card_drained_less [of i "deps_of steps j" order] by (simp add: waiting_def)

lemma waiting_snoc:
  assumes "i \<notin> set order"
  shows "waiting steps (order @ [i]) j = (if i \<in> set (deps_of steps j) then waiting steps order j - 1 else waiting steps order j)"
  using card_drained_snoc [OF assms, of "deps_of steps j"] by (simp add: waiting_def)

lemma waiting_zero_deps: "waiting steps order j = 0 \<Longrightarrow> set (deps_of steps j) \<subseteq> set order"
proof
  fix x assume "waiting steps order j = 0" and "x \<in> set (deps_of steps j)"
  then show "x \<in> set order" using kahn_counter_positive [of x steps j order] by auto
qed

lemma kahn_step:
  assumes wl: "well_linked steps" and inv: "kahn_inv steps deg (ready @ [i]) order"
    and r: "relax i steps (deg, ready) = (deg', ready')"
  shows "kahn_inv steps deg' ready' (order @ [i])"
proof -
  have dist: "distinct (map ws_id steps)" using wl by (simp add: well_linked_def)
  have deg: "map_of deg j = (if j \<in> set (map ws_id steps) then Some (waiting steps order j) else None)" for j
    using inv by (simp add: kahn_inv_def)
  have mem: "j \<in> set (ready @ [i] @ order) \<longleftrightarrow> j \<in> set (map ws_id steps) \<and> waiting steps order j = 0" for j
    using inv by (simp add: kahn_inv_def)
  have i: "i \<notin> set order" "i \<notin> set ready" "distinct (ready @ order)" using inv by (auto simp: kahn_inv_def)
  have i0: "i \<in> set (map ws_id steps)" "waiting steps order i = 0" using mem [of i] by auto
  have "\<forall>st \<in> set steps. map_of deg (ws_id st) \<noteq> None" by (simp add: deg)
  note rs = relax_spec [OF dist this r]
  let ?new = "filter (\<lambda>j. map_of deg j = Some 1) (dependents i steps)"
  have new: "j \<in> set ?new \<longleftrightarrow> j \<in> set (map ws_id steps) \<and> i \<in> set (deps_of steps j) \<and> waiting steps order j = 1" for j
    using set_dependents [OF dist, of j i] deg [of j] by auto
  have "distinct (dependents i steps)" using dist by (simp add: dependents_def distinct_map inj_on_def)
  moreover have "set ?new \<inter> set (ready @ [i] @ order) = {}" using new mem by fastforce
  ultimately have "distinct (ready' @ order @ [i])" using i rs by auto
  moreover have "map_of deg' j = (if j \<in> set (map ws_id steps) then Some (waiting steps (order @ [i]) j) else None)" for j
    using rs deg [of j] set_dependents [OF dist, of j i] waiting_snoc [OF i(1), of steps j] by simp
  moreover have "j \<in> set (ready' @ order @ [i]) \<longleftrightarrow> j \<in> set (map ws_id steps) \<and> waiting steps (order @ [i]) j = 0" for j
  proof -
    have "j \<in> set (ready' @ order @ [i]) \<longleftrightarrow> j \<in> set (ready @ [i] @ order) \<or> j \<in> set ?new"
      using rs by auto
    then show ?thesis
      using new [of j] mem [of j] waiting_snoc [OF i(1), of steps j] kahn_counter_positive [OF _ i(1), of steps j] by auto
  qed
  moreover have "ordered_after steps [] (order @ [i])"
    using inv waiting_zero_deps [OF i0(2)] by (simp add: ordered_after_snoc kahn_inv_def)
  ultimately show ?thesis by (simp add: kahn_inv_def)
qed

lemma kahn_drains:
  assumes "well_linked steps" and "kahn_inv steps deg ready order"
  shows "\<exists>deg' order'. kahn_inv steps deg' [] order' \<and> kahn steps deg ready (length order) = length order'"
  using assms(2)
proof (induction "sum_list (map snd deg) + length ready" arbitrary: deg ready order rule: less_induct)
  case less
  show ?case
  proof (cases ready rule: rev_cases)
    case Nil
    then show ?thesis using less.prems by (intro exI [of _ deg] exI [of _ order]) (simp add: kahn.simps)
  next
    case (snoc r0 i)
    obtain deg1 ready1 where r: "relax i steps (deg, r0) = (deg1, ready1)" by fastforce
    have k: "kahn_inv steps deg1 ready1 (order @ [i])"
      using kahn_step [OF assms(1) _ r] less.prems snoc by simp
    have "sum_list (map snd deg1) + length ready1 < sum_list (map snd deg) + length ready"
      using relax_measure [OF r] snoc by simp
    from less.hyps [OF this k] show ?thesis
      unfolding snoc kahn.simps [of steps deg "r0 @ [i]"] using r by simp
  qed
qed

text \<open>The table before the drain: every counter is the number of the step's entries.\<close>

lemma map_of_or_insert: "map_of (or_insert k t) j = (if j = k \<and> map_of t k = None then Some 0 else map_of t j)"
  by (auto simp: or_insert_def split: option.split)

lemma map_of_bump: "map_of (bump k t) j =
  (if j = k then Some (case map_of t k of None \<Rightarrow> 1 | Some d \<Rightarrow> d + 1) else map_of t j)"
  by (auto simp: bump_def split: option.split)

lemma fold_edges:
  "map_of t i = Some d \<Longrightarrow> i \<notin> set ds \<Longrightarrow>
   map_of (fold (\<lambda>dep t. or_insert dep (bump i t)) ds t) j =
     (if j = i then Some (d + length ds)
      else if j \<in> set ds \<and> map_of t j = None then Some 0 else map_of t j)"
proof (induction ds arbitrary: t d)
  case (Cons x ds)
  then have "map_of (or_insert x (bump i t)) i = Some (d + 1)"
    by (simp add: map_of_or_insert map_of_bump)
  from Cons.IH [OF this] Cons.prems show ?case
    by (auto simp: map_of_or_insert map_of_bump)
qed simp

lemma count_edges_spec:
  "map_of t (ws_id st) \<in> {None, Some 0} \<Longrightarrow> ws_id st \<notin> set (ws_depends st) \<Longrightarrow>
   map_of (count_edges st t) j =
     (if j = ws_id st then Some (length (ws_depends st))
      else if j \<in> set (ws_depends st) \<and> map_of t j = None then Some 0 else map_of t j)"
  unfolding count_edges_def by (subst fold_edges [where d = 0]) (auto simp: map_of_or_insert)

lemma indegrees_prefix:
  assumes "distinct (map ws_id xs)" and "\<forall>st \<in> set xs. ws_id st \<notin> set (ws_depends st)"
  shows "map_of (fold count_edges xs []) j =
    (if j \<in> ws_id ` set xs then Some (length (deps_of xs j))
     else if \<exists>st \<in> set xs. j \<in> set (ws_depends st) then Some 0 else None)"
  using assms
proof (induction xs arbitrary: j rule: rev_induct)
  case (snoc st xs)
  have fresh: "ws_id st \<notin> ws_id ` set xs" using snoc.prems by auto
  have deps: "deps_of (xs @ [st]) j = (if j = ws_id st then ws_depends st else deps_of xs j)" if "j \<in> ws_id ` set (xs @ [st])" for j
    using that snoc.prems deps_of_step [of "xs @ [st]"] deps_of_step [of xs] fresh by auto
  have "map_of (fold count_edges xs []) (ws_id st) \<in> {None, Some 0}"
    using snoc fresh by simp
  then show ?case
    using snoc deps [of j] by (auto simp: count_edges_spec)
qed simp

lemma indegrees_spec:
  assumes "well_linked steps"
  shows "map_of (indegrees steps) j = (if j \<in> set (map ws_id steps) then Some (waiting steps [] j) else None)"
proof -
  have "map_of (indegrees steps) j =
    (if j \<in> ws_id ` set steps then Some (length (deps_of steps j))
     else if \<exists>st \<in> set steps. j \<in> set (ws_depends st) then Some 0 else None)"
    unfolding indegrees_def using assms by (intro indegrees_prefix) (auto simp: well_linked_def)
  moreover have "\<not> (\<exists>st \<in> set steps. j \<in> set (ws_depends st))" if "j \<notin> ws_id ` set steps"
    using assms that by (auto simp: well_linked_def)
  ultimately show ?thesis by (auto simp: waiting_def)
qed

lemma tbl_ok_count: "tbl_ok t \<Longrightarrow> tbl_ok (count_edges st t)"
proof -
  have oi: "tbl_ok t \<Longrightarrow> tbl_ok (or_insert k t)" for k t by (simp add: or_insert_def split: option.split)
  have bu: "tbl_ok t \<Longrightarrow> tbl_ok (bump k t)" for k t by (simp add: bump_def split: option.split)
  have "tbl_ok t \<Longrightarrow> tbl_ok (fold (\<lambda>dep t. or_insert dep (bump i t)) ds t)" for i ds t
    by (induction ds arbitrary: t) (simp_all add: oi bu)
  then show "tbl_ok t \<Longrightarrow> ?thesis" by (simp add: count_edges_def oi)
qed

lemma tbl_ok_indegrees: "tbl_ok (indegrees steps)"
proof -
  have "tbl_ok t \<Longrightarrow> tbl_ok (fold count_edges steps t)" for t
    by (induction steps arbitrary: t) (simp_all add: tbl_ok_count)
  then show ?thesis by (simp add: indegrees_def)
qed

lemma ready_ids_spec: "tbl_ok t \<Longrightarrow> distinct (ready_ids t) \<and> (j \<in> set (ready_ids t) \<longleftrightarrow> map_of t j = Some 0)"
proof -
  assume ok: "tbl_ok t"
  then have "distinct (map fst (filter (\<lambda>(i, d). d = 0) t))"
    by (metis tbl_keys_def tbl_ok_def tbl_ok_filter)
  moreover have "j \<in> fst ` {x \<in> set t. case x of (i, d) \<Rightarrow> d = 0} \<longleftrightarrow> map_of t j = Some 0"
    using ok by (force simp: tbl_ok_def tbl_keys_def intro: map_of_SomeD)
  ultimately show ?thesis by (simp add: ready_ids_def)
qed

text \<open>The verdict, whatever order the ready ids start in: a full drain gives a dependency order, and
  when no dependency is listed twice a dependency order gives a full drain.\<close>

lemma kahn_start:
  assumes wl: "well_linked steps" and ready: "mset ready = mset (ready_ids (indegrees steps))"
  obtains deg order where "kahn_inv steps deg [] order" and "kahn steps (indegrees steps) ready 0 = length order"
proof -
  have "distinct (ready_ids (indegrees steps))"
    and z: "j \<in> set (ready_ids (indegrees steps)) \<longleftrightarrow> map_of (indegrees steps) j = Some 0" for j
    using ready_ids_spec [OF tbl_ok_indegrees] by auto
  then have "distinct ready" and "j \<in> set ready \<longleftrightarrow> map_of (indegrees steps) j = Some 0" for j
    using ready by (metis mset_eq_imp_distinct_iff, metis mset_eq_setD)
  then have "kahn_inv steps (indegrees steps) ready []"
    unfolding kahn_inv_def using indegrees_spec [OF wl] by auto
  from kahn_drains [OF wl this] show ?thesis using that by auto
qed

lemma drained_all:
  assumes "kahn_inv steps deg [] order" and "well_linked steps"
  shows "length order = length steps \<longleftrightarrow> set order = set (map ws_id steps)"
proof -
  have o: "distinct order" "set order \<subseteq> set (map ws_id steps)" using assms by (auto simp: kahn_inv_def)
  have d: "distinct (map ws_id steps)" using assms by (simp add: well_linked_def)
  have "card (set order) = length order" "card (set (map ws_id steps)) = length steps"
    using o(1) d by (metis distinct_card, metis distinct_card length_map)
  then show ?thesis using o(2) by (metis List.finite_set card_subset_eq)
qed

lemma kahn_sound:
  assumes "well_linked steps" and "mset ready = mset (ready_ids (indegrees steps))"
    and "kahn steps (indegrees steps) ready 0 = length steps"
  shows "\<exists>order. mset order = mset (map ws_id steps) \<and> ordered_after steps [] order"
proof -
  obtain deg order where k: "kahn_inv steps deg [] order" "kahn steps (indegrees steps) ready 0 = length order"
    by (rule kahn_start [OF assms(1,2)])
  then have "set order = set (map ws_id steps)" using drained_all [OF k(1) assms(1)] assms(3) by simp
  moreover have "distinct order" "ordered_after steps [] order" using k by (simp_all add: kahn_inv_def)
  moreover have "distinct (map ws_id steps)" using assms(1) by (simp add: well_linked_def)
  ultimately show ?thesis by (metis set_eq_iff_mset_eq_distinct)
qed

lemma kahn_complete:
  assumes wl: "well_linked steps" and ready: "mset ready = mset (ready_ids (indegrees steps))"
    and dd: "list_all (\<lambda>st. distinct (ws_depends st)) steps"
    and "mset topo = mset (map ws_id steps)" and topo: "ordered_after steps [] topo"
  shows "kahn steps (indegrees steps) ready 0 = length steps"
proof -
  obtain deg order where k: "kahn_inv steps deg [] order" "kahn steps (indegrees steps) ready 0 = length order"
    by (rule kahn_start [OF wl ready])
  have ids: "set topo = set (map ws_id steps)" using assms(4) by (metis mset_eq_setD)
  have dist: "distinct (deps_of steps j)" for j
    using dd by (auto simp: deps_of_def list_all_iff split: option.split dest!: map_of_SomeD)
  have "j \<in> set order" if "j \<in> set topo" and "set (deps_of steps j) \<subseteq> set order" for j
  proof -
    have "set order \<inter> set (deps_of steps j) = set (deps_of steps j)" using that by auto
    then have "waiting steps order j = 0" using dist [of j] by (simp add: waiting_def distinct_card)
    then show ?thesis using k(1) that ids by (auto simp: kahn_inv_def)
  qed
  then have "set topo \<subseteq> set order" using ordered_after_closed [OF topo] by simp
  moreover have "set order \<subseteq> set (map ws_id steps)" using k by (auto simp: kahn_inv_def)
  ultimately have "set order = set (map ws_id steps)" using ids by auto
  then show ?thesis using drained_all [OF k(1) wl] k(2) by simp
qed

lemma validate_ok_iff:
  "validate_spec steps = Inr () \<longleftrightarrow>
     is_ok (validate_size_bounds steps) \<and> list_all (\<lambda>st. \<not> blank (ws_id st)) steps \<and> well_linked steps \<and>
     kahn steps (indegrees steps) (ready_ids (indegrees steps)) 0 = length steps"
proof -
  have "well_linked steps \<longleftrightarrow> distinct (map ws_id steps) \<and> check_deps steps = None"
    by (simp add: well_linked_def check_deps_iff)
  then show ?thesis
    using check_ids_iff [of "[]" steps]
    by (auto simp: validate_spec_def Let_def is_ok_iff split: sum.splits option.splits)
qed

lemma ordered_well_linked:
  assumes "distinct (map ws_id steps)" and "mset topo = mset (map ws_id steps)" and "ordered_after steps [] topo"
  shows "well_linked steps"
proof -
  have split: "ordered_after steps seen (xs @ i # ys) \<Longrightarrow> set (deps_of steps i) \<subseteq> set seen \<union> set xs" for seen xs i ys
    by (induction xs arbitrary: seen) (fastforce simp: list_all_iff)+
  have "set (ws_depends st) \<subseteq> set (map ws_id steps) \<and> ws_id st \<notin> set (ws_depends st)" if st: "st \<in> set steps" for st
  proof -
    have "ws_id st \<in> set topo" using st assms(2) by (metis image_eqI list.set_map mset_eq_setD)
    then obtain xs ys where t: "topo = xs @ ws_id st # ys" by (meson split_list)
    then have "set (ws_depends st) \<subseteq> set xs"
      using split [of "[]" xs "ws_id st" ys] assms(3) deps_of_step [OF assms(1) st] by simp
    moreover have "distinct topo" using assms(1,2) by (metis mset_eq_imp_distinct_iff)
    moreover have "set topo = set (map ws_id steps)" using assms(2) by (metis mset_eq_setD)
    ultimately show ?thesis using t by auto
  qed
  then show ?thesis using assms(1) by (simp add: well_linked_def)
qed

lemma validate_order:
  "validate_spec steps = Inr () \<Longrightarrow> \<exists>order. mset order = mset (map ws_id steps) \<and> ordered_after steps [] order"
  using kahn_sound [OF _ refl, of steps] unfolding validate_ok_iff by blast

section \<open>The run of a validated spec\<close>

lemma ready_exists:
  assumes "mset topo = mset (map ws_id steps)" and "ordered_after steps [] topo" and dist: "distinct (map ws_id steps)"
    and "tbl_ok fin" and "set (tbl_keys fin) \<subseteq> set (map ws_id steps)" and "length fin < length steps"
  shows "filter (step_ready fin) steps \<noteq> []"
proof
  assume none: "filter (step_ready fin) steps = []"
  have ids: "set topo = set (map ws_id steps)" using assms(1) by (metis mset_eq_setD)
  have "i \<in> set (tbl_keys fin)" if i: "i \<in> set topo" and "set (deps_of steps i) \<subseteq> set (tbl_keys fin)" for i
  proof -
    obtain st where st: "st \<in> set steps" "ws_id st = i" using i ids by auto
    then have "\<not> step_ready fin st" using none by (auto simp: filter_empty_conv)
    then show ?thesis
      using st that deps_of_step [OF dist st(1)] by (auto simp: step_ready_def set_tbl_keys list_all_iff)
  qed
  then have "set topo \<subseteq> set (tbl_keys fin)" using ordered_after_closed [OF assms(2)] by simp
  then have "set (tbl_keys fin) = set (map ws_id steps)" using assms(5) ids by auto
  then have "length (tbl_keys fin) = length steps"
    using assms(4) dist by (metis distinct_card length_map tbl_ok_def)
  then show False using assms(6) by (simp add: tbl_keys_def)
qed

lemma tbl_keys_insert_new: "map_of t k = None \<Longrightarrow> tbl_keys (tbl_insert k v t) = tbl_keys t @ [k]"
  by (induction k v t rule: tbl_insert.induct) (auto split: if_splits)

text \<open>What a run keeps: the finished keys are steps of the spec, once each, in dependency order.\<close>

definition run_ok :: "workflow_spec \<Rightarrow> (string, json) tbl \<Rightarrow> bool" where
  "run_ok steps fin \<longleftrightarrow> tbl_ok fin \<and> set (tbl_keys fin) \<subseteq> set (map ws_id steps) \<and> ordered_after steps [] (tbl_keys fin)"

text \<open>The specification: the steps of a list one by one, each once, up to the first that fails.\<close>

fun one_by_one ::
    "(json \<Rightarrow> string) \<Rightarrow> 's task_seam \<Rightarrow> workflow_step list \<Rightarrow> 's \<Rightarrow> (workflow_error, (string, json) tbl) result \<times> 's" where
  "one_by_one render svc [] s = (Inr [], s)"
| "one_by_one render svc (st # rest) s =
     (case run_step render svc st s of
        (Inl e, s1) \<Rightarrow> (Inl e, s1)
      | (Inr v, s1) \<Rightarrow>
          (case one_by_one render svc rest s1 of
             (Inl e, s2) \<Rightarrow> (Inl e, s2)
           | (Inr vs, s2) \<Rightarrow> (Inr ((ws_id st, v) # vs), s2)))"

definition after_fin :: "(string, json) tbl \<Rightarrow> ('e, (string, json) tbl) result \<times> 's \<Rightarrow> ('e, (string, json) tbl) result \<times> 's" where
  "after_fin fin q = (case q of (Inl e, s) \<Rightarrow> (Inl e, s) | (Inr vs, s) \<Rightarrow> (Inr (fin @ vs), s))"

text \<open>The error of a step that fails: its own.\<close>

fun blames :: "workflow_step \<Rightarrow> workflow_error \<Rightarrow> bool" where
  "blames st (StepFailed i reason) = (i = ws_id st)"
| "blames st (InvalidSpec m) = (ws_kind st = StepFanout)"
| "blames st _ = False"

lemma run_chunks_failure: "run_chunks svc i chunks s = (Inl e, s') \<Longrightarrow> \<exists>reason. e = StepFailed i reason"
  by (induction chunks arbitrary: s) (auto split: prod.splits sum.splits)

lemma run_step_failure: "run_step render svc st s = (Inl e, s') \<Longrightarrow> blames st e"
  by (auto simp: run_step_def step_inputs_def split: sum.splits prod.splits step_kind.splits json.splits
      dest!: run_chunks_failure)

lemma one_by_one_failure:
  "one_by_one render svc sts s = (Inl e, s') \<Longrightarrow>
   \<exists>before st later vs s1. sts = before @ st # later \<and> one_by_one render svc before s = (Inr vs, s1) \<and>
     run_step render svc st s1 = (Inl e, s') \<and> blames st e"
proof (induction sts arbitrary: s)
  case (Cons st sts)
  obtain q s1 where q: "run_step render svc st s = (q, s1)" by fastforce
  show ?case
  proof (cases q)
    case (Inl e')
    with q Cons.prems show ?thesis
      using run_step_failure [of render svc st s] by (intro exI [of _ "[]"] exI [of _ st] exI [of _ sts]) simp
  next
    case (Inr v)
    with q Cons.prems have "one_by_one render svc sts s1 = (Inl e, s')" by (auto split: prod.splits sum.splits)
    from Cons.IH [OF this] obtain before st' later vs s2 where
      "sts = before @ st' # later" "one_by_one render svc before s1 = (Inr vs, s2)"
      "run_step render svc st' s2 = (Inl e, s')" "blames st' e"
      by blast
    then show ?thesis
      using q Inr by (intro exI [of _ "st # before"] exI [of _ st'] exI [of _ later]) simp
  qed
qed simp

lemma one_by_one_ids: "one_by_one render svc sts s = (Inr vs, s') \<Longrightarrow> tbl_keys vs = map ws_id sts"
  by (induction sts arbitrary: s vs) (auto split: prod.splits sum.splits)

lemma one_by_one_append:
  "one_by_one render svc (xs @ ys) s =
     (case one_by_one render svc xs s of (Inl e, s1) \<Rightarrow> (Inl e, s1) | (Inr vs, s1) \<Rightarrow> after_fin vs (one_by_one render svc ys s1))"
proof (induction xs arbitrary: s)
  case (Cons x xs)
  obtain q s1 where q: "run_step render svc x s = (q, s1)" by fastforce
  show ?case
    by (cases q) (auto simp: q Cons.IH after_fin_def split: prod.splits sum.splits)
qed (simp add: after_fin_def split: prod.splits sum.splits)

lemma tbl_insert_new: "map_of t k = None \<Longrightarrow> tbl_insert k v t = t @ [(k, v)]"
  by (induction k v t rule: tbl_insert.induct) (auto split: if_splits)

lemma run_wave_one_by_one:
  "distinct (map ws_id sts) \<Longrightarrow> \<forall>st \<in> set sts. map_of fin (ws_id st) = None \<Longrightarrow>
   run_wave render svc sts fin s = after_fin fin (one_by_one render svc sts s)"
proof (induction sts arbitrary: fin s)
  case (Cons st sts)
  obtain q s1 where q: "run_step render svc st s = (q, s1)" by fastforce
  show ?case
  proof (cases q)
    case (Inr v)
    have "\<forall>st' \<in> set sts. map_of (fin @ [(ws_id st, v)]) (ws_id st') = None"
      using Cons.prems by (auto simp: map_add_def rev_image_eqI)
    then have "run_wave render svc sts (fin @ [(ws_id st, v)]) s1 = after_fin (fin @ [(ws_id st, v)]) (one_by_one render svc sts s1)"
      using Cons.prems(1) by (intro Cons.IH) auto
    then show ?thesis
      using Cons.prems(2) q Inr by (auto simp: tbl_insert_new after_fin_def split: prod.splits sum.splits)
  qed (simp add: q after_fin_def)
qed (simp add: after_fin_def)

lemma ordered_after_append:
  "ordered_after steps seen (xs @ ys) \<longleftrightarrow> ordered_after steps seen xs \<and> ordered_after steps (rev xs @ seen) ys"
  by (induction xs arbitrary: seen) auto

lemma ordered_after_more:
  "ordered_after steps seen is \<Longrightarrow> set seen \<subseteq> F \<union> set seen' \<Longrightarrow> F \<subseteq> set seen' \<Longrightarrow>
   ordered_after steps seen' (filter (\<lambda>i. i \<notin> F) is)"
proof (induction "is" arbitrary: seen seen')
  case (Cons i "is")
  then have head: "list_all (\<lambda>dep. dep \<in> set seen') (deps_of steps i)" by (auto simp: list_all_iff)
  show ?case
  proof (cases "i \<in> F")
    case True
    then show ?thesis using Cons.prems by (auto intro!: Cons.IH [of "i # seen"])
  next
    case False
    have "ordered_after steps (i # seen') (filter (\<lambda>i. i \<notin> F) is)"
      using Cons.prems by (intro Cons.IH [of "i # seen"]) auto
    then show ?thesis using head False by simp
  qed
qed simp

lemma ordered_after_ready:
  "\<forall>i \<in> set is. set (deps_of steps i) \<subseteq> set seen \<Longrightarrow> ordered_after steps seen is"
proof (induction "is" arbitrary: seen)
  case (Cons i "is")
  then have "ordered_after steps (i # seen) is" by (intro Cons.IH) auto
  with Cons.prems show ?case by (auto simp: list_all_iff)
qed simp

lemma map_permutation: "mset ys = mset (map f xs) \<Longrightarrow> \<exists>zs. mset zs = mset xs \<and> map f zs = ys"
proof (induction ys arbitrary: xs)
  case (Cons y ys)
  then have "y \<in> set (map f xs)" by (metis list.set_intros(1) mset_eq_setD)
  then obtain x where x: "x \<in> set xs" "f x = y" by auto
  then obtain us vs where xs: "xs = us @ x # vs" by (meson split_list)
  then have "mset ys = mset (map f (us @ vs))" using Cons.prems x by simp
  from Cons.IH [OF this] obtain zs where "mset zs = mset (us @ vs)" "map f zs = ys" by blast
  then show ?case using xs x by (intro exI [of _ "x # zs"]) simp
qed simp

text \<open>A run is the steps one by one in some order that respects the dependencies.\<close>

lemma waves_loop_order:
  assumes topo: "mset topo = mset steps" "ordered_after steps [] (map ws_id topo)" and dist: "distinct (map ws_id steps)"
  shows "run_ok steps fin \<Longrightarrow>
    \<exists>order. mset order = mset (filter (\<lambda>st. ws_id st \<notin> set (tbl_keys fin)) steps) \<and>
      ordered_after steps (rev (tbl_keys fin)) (map ws_id order) \<and>
      waves_loop render svc steps fin s = after_fin fin (one_by_one render svc order s)"
  using topo dist
proof (induction render svc steps fin s rule: waves_loop.induct)
  case (1 render svc steps fin s)
  note ok = "1.prems"(1) and topo = "1.prems"(2,3) and dist = "1.prems"(4)
  have ids: "mset (map ws_id topo) = mset (map ws_id steps)" using topo(1) by (metis mset_map)
  let ?ready = "filter (step_ready fin) steps"
  show ?case
  proof (cases "length fin < length steps")
    case False
    have k: "distinct (tbl_keys fin)" "set (tbl_keys fin) \<subseteq> set (map ws_id steps)" "length steps \<le> length (tbl_keys fin)"
      using ok False by (auto simp: run_ok_def tbl_ok_def tbl_keys_def)
    then have "card (set (map ws_id steps)) \<le> card (set (tbl_keys fin))"
      using dist by (metis distinct_card length_map)
    then have "set (tbl_keys fin) = set (map ws_id steps)" using k(2) by (metis List.finite_set card_seteq)
    then have "filter (\<lambda>st. ws_id st \<notin> set (tbl_keys fin)) steps = []" by (auto simp: filter_empty_conv)
    with False show ?thesis
      by (intro exI [of _ "[]"]) (simp add: waves_loop.simps [of render svc steps fin] after_fin_def)
  next
    case True
    have ne: "?ready \<noteq> []"
      using ok True by (intro ready_exists [OF ids topo(2) dist]) (auto simp: run_ok_def)
    let ?wave = "sort_key ws_id ?ready"
    have wdist: "distinct (map ws_id ?wave)" using dist by (simp add: distinct_map inj_on_def)
    have new: "\<forall>st \<in> set ?wave. map_of fin (ws_id st) = None" by (auto simp: step_ready_def)
    obtain q s1 where q: "one_by_one render svc ?wave s = (q, s1)" by fastforce
    have w: "run_wave_list render svc (chunks_of MAX_WAVE_PARALLEL ?wave) fin s = after_fin fin (q, s1)"
      using run_wave_one_by_one [OF wdist new, of render svc s] q by (simp add: run_wave_list_concat)
    have wave_ok: "ordered_after steps (rev (tbl_keys fin)) (map ws_id ?wave)"
      by (intro ordered_after_ready)
        (auto simp: step_ready_def deps_of_step [OF dist] list_all_iff set_tbl_keys)
    let ?F = "set (tbl_keys fin) \<union> set (map ws_id ?wave)"
    have rest: "mset (filter (\<lambda>st. ws_id st \<notin> set (tbl_keys fin)) steps) =
        mset ?wave + mset (filter (\<lambda>st. ws_id st \<notin> ?F) steps)"
    proof -
      have "ws_id st \<notin> ?F \<longleftrightarrow> ws_id st \<notin> set (tbl_keys fin) \<and> \<not> step_ready fin st" if "st \<in> set steps" for st
        using that dist by (auto simp: distinct_map inj_on_def)
      moreover have "step_ready fin st \<Longrightarrow> ws_id st \<notin> set (tbl_keys fin)" for st
        by (auto simp: step_ready_def set_tbl_keys)
      ultimately have "filter (\<lambda>st. ws_id st \<notin> ?F) steps =
          filter (\<lambda>st. \<not> step_ready fin st) (filter (\<lambda>st. ws_id st \<notin> set (tbl_keys fin)) steps)"
        and "?ready = filter (step_ready fin) (filter (\<lambda>st. ws_id st \<notin> set (tbl_keys fin)) steps)"
        by (auto simp: conj_commute intro!: filter_cong)
      then show ?thesis by (metis mset_sort mset_filter multiset_partition)
    qed
    show ?thesis
    proof (cases q)
      case (Inl e)
      let ?later = "filter (\<lambda>st. ws_id st \<notin> ?F) topo"
      have "ordered_after steps (rev (map ws_id ?wave) @ rev (tbl_keys fin)) (filter (\<lambda>i. i \<notin> ?F) (map ws_id topo))"
        by (rule ordered_after_more [OF topo(2)]) auto
      moreover have "mset ?later = mset (filter (\<lambda>st. ws_id st \<notin> ?F) steps)"
        using topo(1) by (metis mset_filter)
      moreover have "one_by_one render svc (?wave @ ?later) s = (Inl e, s1)"
        using q Inl by (simp add: one_by_one_append)
      moreover have "waves_loop render svc steps fin s = (Inl e, s1)"
        using True ne w Inl by (simp add: waves_loop.simps [of render svc steps fin] Let_def after_fin_def)
      ultimately show ?thesis
        using wave_ok rest
        by (intro exI [of _ "?wave @ ?later"]) (simp add: ordered_after_append after_fin_def filter_map comp_def)
    next
      case (Inr vs)
      let ?fin1 = "fin @ vs"
      have keys: "tbl_keys ?fin1 = tbl_keys fin @ map ws_id ?wave"
        using one_by_one_ids [OF q [unfolded Inr]] by (simp add: tbl_keys_def)
      have "run_ok steps ?fin1"
        using ok wave_ok wdist new
        by (auto simp: run_ok_def tbl_ok_def keys ordered_after_append set_tbl_keys)
      moreover have step: "waves_loop render svc steps fin s = waves_loop render svc steps ?fin1 s1"
        using True ne w Inr by (simp add: waves_loop.simps [of render svc steps fin] Let_def after_fin_def)
      moreover have "run_wave_list render svc (chunks_of MAX_WAVE_PARALLEL ?wave) fin s = (Inr ?fin1, s1)"
        using w Inr by (simp add: after_fin_def)
      ultimately obtain order where order: "mset order = mset (filter (\<lambda>st. ws_id st \<notin> set (tbl_keys ?fin1)) steps)"
        "ordered_after steps (rev (tbl_keys ?fin1)) (map ws_id order)"
        "waves_loop render svc steps ?fin1 s1 = after_fin ?fin1 (one_by_one render svc order s1)"
        using "1.IH" [OF True refl ne] topo dist by metis
      have "mset (?wave @ order) = mset (filter (\<lambda>st. ws_id st \<notin> set (tbl_keys fin)) steps)"
        using order(1) rest by (simp add: keys)
      moreover have "ordered_after steps (rev (tbl_keys fin)) (map ws_id (?wave @ order))"
        using wave_ok order(2) by (simp add: ordered_after_append keys)
      moreover have "waves_loop render svc steps fin s = after_fin fin (one_by_one render svc (?wave @ order) s)"
        using step order(3) q Inr by (simp add: one_by_one_append after_fin_def split: prod.splits sum.splits)
      ultimately show ?thesis by blast
    qed
  qed
qed

section \<open>The client of the task service\<close>

text \<open>Awaiting a child is some sleeps, then a verdict on what the service says.\<close>

definition await_verdict :: "'s task_seam \<Rightarrow> string \<Rightarrow> 's \<Rightarrow> (string, string) result \<Rightarrow> bool" where
  "await_verdict svc i s r \<longleftrightarrow>
     (case tk_query svc i s of
        None \<Rightarrow> r = Inl ''child handle unknown''
      | Some info \<Rightarrow>
          (case ti_state info of
             TaskRunning \<Rightarrow> r = Inl ''timed out waiting for child''
           | TaskFinished \<Rightarrow>
               r = (case ti_outcome info of
                      Some (TaskCompleted summary) \<Rightarrow> Inr summary
                    | Some (TaskFailed reason) \<Rightarrow> Inl reason
                    | Some TaskStopped \<Rightarrow> Inl ''child was stopped''
                    | None \<Rightarrow> Inl ''child finished without an outcome'')))"

lemma await_child_spec:
  "await_child svc polls i s = (r, s') \<Longrightarrow> polls \<le> MAX_POLLS \<Longrightarrow>
   (\<exists>n. n \<le> MAX_POLLS - polls \<and> s' = (tk_sleep svc ^^ n) s) \<and> await_verdict svc i s' r"
proof (induction svc polls i s rule: await_child.induct)
  case (1 svc polls i s)
  show ?case
  proof (cases "\<exists>info. tk_query svc i s = Some info \<and> ti_state info = TaskRunning \<and> polls < MAX_POLLS")
    case True
    then obtain info where q: "tk_query svc i s = Some info" "ti_state info = TaskRunning" and p: "polls < MAX_POLLS"
      by blast
    then have "await_child svc (polls + 1) i (tk_sleep svc s) = (r, s')"
      using "1.prems" by (simp add: await_child.simps [of svc polls])
    with "1.IH" [OF q] p obtain n where "n \<le> MAX_POLLS - (polls + 1)" "s' = (tk_sleep svc ^^ n) (tk_sleep svc s)"
        and v: "await_verdict svc i s' r"
      by auto
    then have "Suc n \<le> MAX_POLLS - polls \<and> s' = (tk_sleep svc ^^ Suc n) s"
      using p by (simp add: funpow_swap1)
    with v show ?thesis by blast
  next
    case False
    then have "s' = s \<and> await_verdict svc i s r"
      using "1.prems" unfolding await_child.simps [of svc polls] await_verdict_def
      by (auto split: option.splits task_state.splits task_outcome.splits if_splits)
    then show ?thesis by (intro conjI exI [of _ 0]) simp_all
  qed
qed

context task_service
begin

lemma sleeps_inv: "inv s \<Longrightarrow> inv ((tk_sleep svc ^^ n) s)"
  by (induction n) (simp_all add: sleep_inv)

lemma sleeps_live: "live ((tk_sleep svc ^^ n) s) \<subseteq> live s"
  by (induction n) (use sleep_live in fastforce)+

lemma await_child_inv: "await_child svc 0 i s = (r, s') \<Longrightarrow> inv s \<Longrightarrow> inv s'"
  using await_child_spec [of svc 0 i s r s'] sleeps_inv by auto

lemma await_child_live: "await_child svc 0 i s = (r, s') \<Longrightarrow> live s' \<subseteq> live s"
  using await_child_spec [of svc 0 i s r s'] sleeps_live by auto

lemma await_child_finished: "await_child svc 0 i s = (Inr summary, s') \<Longrightarrow> i \<notin> live s'"
  using await_child_spec [of svc 0 i s "Inr summary" s'] finished_dead [of i s']
  by (auto simp: await_verdict_def split: option.splits task_state.splits task_outcome.splits)

text \<open>A finished child always has its outcome.\<close>

lemma await_child_outcome:
  assumes "await_child svc 0 i s = (r, s')" and "inv s"
  shows "await_verdict svc i s' r \<and> (\<exists>info. tk_query svc i s' = Some info \<and> ti_state info = TaskFinished \<and> ti_outcome info = None) = False"
  using await_child_spec [OF assms(1)] finished_outcome [of s' i] await_child_inv [OF assms] by auto

lemma spawn_all_live:
  "spawn_all svc inputs s = (ids, s') \<Longrightarrow> live s' \<subseteq> set ids \<union> live s"
proof (induction inputs arbitrary: s ids s')
  case (Cons input inputs)
  obtain i s1 where sp: "spawn_child svc input s = (i, s1)" by fastforce
  obtain rest s2 where r: "spawn_all svc inputs s1 = (rest, s2)" by fastforce
  have "live s1 \<subseteq> insert i (live s)"
    using spawn_live [of "child_request ''workflow'' input" s] sp by (simp add: spawn_child_def)
  moreover have "live s2 \<subseteq> set rest \<union> live s1" by (rule Cons.IH [OF r])
  ultimately show ?case using Cons.prems sp r by auto blast
qed simp

lemma stop_all_live: "live (stop_all svc ids s) \<subseteq> live s - set ids"
proof (induction ids arbitrary: s)
  case (Cons i ids)
  have "live (stop_all svc ids (snd (tk_stop svc i s))) \<subseteq> live (snd (tk_stop svc i s)) - set ids"
    by (rule Cons.IH)
  with stop_live [of i s] show ?case by (auto simp: stop_all_def)
qed (simp add: stop_all_def)

lemma await_all_live:
  "await_all svc ids s = (r, s') \<Longrightarrow> live s' \<subseteq> live s \<and> (is_ok r \<longrightarrow> live s' \<inter> set ids = {})"
proof (induction ids arbitrary: s r s')
  case (Cons i ids)
  obtain q s1 where q: "await_child svc 0 i s = (q, s1)" by fastforce
  note l1 = await_child_live [OF q]
  show ?case
  proof (cases q)
    case (Inr summary)
    obtain q2 s2 where q2: "await_all svc ids s1 = (q2, s2)" by fastforce
    have "i \<notin> live s1" using await_child_finished q Inr by simp
    then show ?thesis
      using Cons.prems Cons.IH [OF q2] q Inr q2 l1 by (cases q2) auto
  qed (use Cons.prems q l1 in auto)
qed auto

lemma run_chunks_live: "run_chunks svc i chunks s = (r, s') \<Longrightarrow> live s' \<subseteq> live s"
proof (induction chunks arbitrary: s r s')
  case (Cons chunk chunks)
  obtain ids s1 where sp: "spawn_all svc chunk s = (ids, s1)" by fastforce
  obtain q s2 where q: "await_all svc ids s1 = (q, s2)" by fastforce
  note l1 = spawn_all_live [OF sp] and l2 = await_all_live [OF q]
  show ?case
  proof (cases q)
    case (Inl reason)
    then show ?thesis using Cons.prems sp q l1 l2 stop_all_live [of ids s2] by auto
  next
    case (Inr summaries)
    obtain q3 s3 where q3: "run_chunks svc i chunks s2 = (q3, s3)" by fastforce
    then show ?thesis using Cons.prems Cons.IH [OF q3] sp q Inr l1 l2 by (cases q3) auto
  qed
qed simp

lemma run_step_live: "run_step render svc st s = (r, s') \<Longrightarrow> live s' \<subseteq> live s"
  by (auto simp: run_step_def split: sum.splits prod.splits dest: run_chunks_live)

lemma run_wave_live: "run_wave render svc sts fin s = (r, s') \<Longrightarrow> live s' \<subseteq> live s"
  by (induction sts arbitrary: fin s s') (fastforce split: sum.splits prod.splits dest: run_step_live)+

lemma waves_loop_live: "waves_loop render svc steps fin s = (r, s') \<Longrightarrow> live s' \<subseteq> live s"
proof (induction "length (filter (\<lambda>st. map_of fin (ws_id st) = None) steps)" arbitrary: fin s s' rule: less_induct)
  case less
  let ?ready = "filter (step_ready fin) steps"
  obtain q s1 where w: "run_wave_list render svc (chunks_of MAX_WAVE_PARALLEL (sort_key ws_id ?ready)) fin s = (q, s1)"
    by fastforce
  then have l: "live s1 \<subseteq> live s" by (auto simp: run_wave_list_concat dest: run_wave_live)
  show ?case
  proof (cases "length fin < length steps \<and> ?ready \<noteq> [] \<and> is_ok q")
    case True
    then obtain fin1 where "q = Inr fin1" by (auto simp: is_ok_iff)
    with True w less have "live s' \<subseteq> live s1"
      by (intro less.hyps [of fin1 s1] waves_progress) (auto simp: waves_loop.simps [of render svc steps fin] Let_def)
    with l show ?thesis by blast
  next
    case False
    with less.prems w l show ?thesis
      by (cases q) (auto simp: waves_loop.simps [of render svc steps fin] Let_def split: if_splits)
  qed
qed

lemma run_workflow_live: "live (snd (run_workflow render svc steps s)) \<subseteq> live s"
  by (cases "waves_loop render svc steps [] s")
    (auto simp: run_workflow_def split: sum.split dest: waves_loop_live)

lemma ralph_rounds_live: "ralph_rounds objective svc left n prior s = (r, s') \<Longrightarrow> live s' \<subseteq> live s"
proof (induction left arbitrary: n prior s r s')
  case (Suc left)
  obtain i s1 where sp: "tk_spawn svc (child_request ''ralph'' (round_prompt objective prior)) s = (i, s1)" by fastforce
  obtain q s2 where q: "await_child svc 0 i s1 = (q, s2)" by fastforce
  have l1: "live s1 \<subseteq> insert i (live s)"
    using spawn_live [of "child_request ''ralph'' (round_prompt objective prior)" s] sp by simp
  note l2 = await_child_live [OF q]
  show ?case
  proof (cases q)
    case (Inl reason)
    then show ?thesis using Suc.prems sp q l1 l2 stop_live [of i s2] by auto
  next
    case (Inr summary)
    then have "i \<notin> live s2" using await_child_finished q by simp
    then have l: "live s2 \<subseteq> live s" using l1 l2 by blast
    obtain q3 s3 where q3: "ralph_rounds objective svc left (n + 1) summary s2 = (q3, s3)" by fastforce
    show ?thesis
      using Suc.prems Suc.IH [OF q3] sp q Inr q3 l by (cases q3) (auto simp: Let_def split: if_splits)
  qed
qed simp

lemma ralph_run_live: "live (snd (ralph_run objective max_rounds svc s)) \<subseteq> live s"
  by (cases "ralph_rounds objective svc max_rounds 1 [] s")
    (auto simp: ralph_run_def split: sum.split dest: ralph_rounds_live)

end

text \<open>The rounds of a Ralph loop: numbered, each but the last without the marker, ended early only by
  it.\<close>

definition rounds_ok :: "nat \<Rightarrow> nat \<Rightarrow> ralph_round list \<Rightarrow> bool \<Rightarrow> bool" where
  "rounds_ok n left rounds completed \<longleftrightarrow>
     map rr_round rounds = [n..<n + length rounds] \<and>
     list_all (\<lambda>r. rr_done r = contains_done_marker (rr_summary r)) rounds \<and>
     list_all (\<lambda>r. \<not> rr_done r) (butlast rounds) \<and>
     (if completed then rounds \<noteq> [] \<and> rr_done (last rounds) \<and> length rounds \<le> left
      else length rounds = left \<and> list_all (\<lambda>r. \<not> rr_done r) rounds)"

lemma rounds_ok_Cons:
  "rounds_ok (n + 1) left rest completed \<Longrightarrow> \<not> rr_done r \<Longrightarrow> rr_round r = n \<Longrightarrow>
   rr_done r = contains_done_marker (rr_summary r) \<Longrightarrow> rounds_ok n (Suc left) (r # rest) completed"
  by (cases rest) (auto simp: rounds_ok_def upt_conv_Cons simp del: upt_Suc split: if_splits)

lemma ralph_rounds_ok:
  "ralph_rounds objective svc left n prior s = (r, s') \<Longrightarrow>
   (case r of Inr (rounds, completed) \<Rightarrow> rounds_ok n left rounds completed
            | Inl e \<Rightarrow> \<exists>k reason. e = RoundFailed k reason \<and> n \<le> k \<and> k < n + left)"
proof (induction left arbitrary: n prior s r s')
  case (Suc left)
  obtain i s1 where sp: "tk_spawn svc (child_request ''ralph'' (round_prompt objective prior)) s = (i, s1)" by fastforce
  obtain q s2 where q: "await_child svc 0 i s1 = (q, s2)" by fastforce
  show ?case
  proof (cases q)
    case (Inr summary)
    let ?e = "\<lparr>rr_round = n, rr_task_id = i, rr_summary = summary, rr_done = contains_done_marker summary\<rparr>"
    obtain q3 s3 where q3: "ralph_rounds objective svc left (n + 1) summary s2 = (q3, s3)" by fastforce
    show ?thesis
    proof (cases "rr_done ?e")
      case True
      then show ?thesis using Suc.prems sp q Inr by (auto simp: Let_def rounds_ok_def)
    next
      case False
      with Suc.IH [OF q3] Suc.prems sp q Inr q3 rounds_ok_Cons [of n left _ _ ?e] show ?thesis
        by (cases q3) (fastforce simp: Let_def)+
    qed
  qed (use Suc.prems sp q in auto)
qed (auto simp: rounds_ok_def)

section \<open>Properties\<close>

definition demo_step :: "string \<Rightarrow> string list \<Rightarrow> workflow_step" where
  "demo_step i deps = \<lparr>ws_id = i, ws_kind = StepTask, ws_input = JNull, ws_depends = deps, ws_max_parallel = None\<rparr>"

text \<open>validation is exact: a spec that lists no dependency twice is accepted exactly when it is
  within the size bounds, its ids are nonblank and distinct, and its steps can be put in an order
  in which each comes after everything it depends on.\<close>

theorem workflow_validation_exact:
  assumes "list_all (\<lambda>st. distinct (ws_depends st)) steps"
  shows "validate_spec steps = Inr () \<longleftrightarrow>
    length steps \<le> MAX_SPEC_STEPS \<and> list_all (\<lambda>st. oversized_fanout st = None) steps \<and>
    list_all (\<lambda>st. \<not> blank (ws_id st)) steps \<and> distinct (map ws_id steps) \<and>
    (\<exists>order. mset order = mset (map ws_id steps) \<and> ordered_after steps [] order)"
proof
  assume v: "validate_spec steps = Inr ()"
  then show "length steps \<le> MAX_SPEC_STEPS \<and> list_all (\<lambda>st. oversized_fanout st = None) steps \<and>
    list_all (\<lambda>st. \<not> blank (ws_id st)) steps \<and> distinct (map ws_id steps) \<and>
    (\<exists>order. mset order = mset (map ws_id steps) \<and> ordered_after steps [] order)"
    using validate_order [OF v] by (simp only: validate_ok_iff size_bounds_iff well_linked_def)
next
  assume r: "length steps \<le> MAX_SPEC_STEPS \<and> list_all (\<lambda>st. oversized_fanout st = None) steps \<and>
    list_all (\<lambda>st. \<not> blank (ws_id st)) steps \<and> distinct (map ws_id steps) \<and>
    (\<exists>order. mset order = mset (map ws_id steps) \<and> ordered_after steps [] order)"
  then obtain order where o: "mset order = mset (map ws_id steps)" "ordered_after steps [] order" by blast
  have wl: "well_linked steps" using r by (intro ordered_well_linked [OF _ o]) blast
  from kahn_complete [OF wl refl assms o] wl r show "validate_spec steps = Inr ()"
    by (simp only: validate_ok_iff size_bounds_iff simp_thms)
qed

theorem workflow_validation_exact_witness:
  "list_all (\<lambda>st. distinct (ws_depends st)) [demo_step ''b'' [''a''], demo_step ''a'' []] \<and>
   validate_spec [demo_step ''b'' [''a''], demo_step ''a'' []] = Inr ()"
proof -
  let ?steps = "[demo_step ''b'' [''a''], demo_step ''a'' []]"
  have d: "list_all (\<lambda>st. distinct (ws_depends st)) ?steps" by code_simp
  have "mset [''a'', ''b''] = mset (map ws_id ?steps)" by (simp add: demo_step_def)
  moreover have "ordered_after ?steps [] [''a'', ''b'']" by code_simp
  moreover have "length ?steps \<le> MAX_SPEC_STEPS" "list_all (\<lambda>st. oversized_fanout st = None) ?steps"
      "list_all (\<lambda>st. \<not> blank (ws_id st)) ?steps" "distinct (map ws_id ?steps)"
    by code_simp+
  ultimately have "validate_spec ?steps = Inr ()" using workflow_validation_exact [OF d] by blast
  with d show ?thesis by blast
qed

text \<open>A dependency listed twice raises the counter twice and lowers it once.\<close>

lemma repeated_dependency_rejected:
  "validate_spec [demo_step ''a'' [], demo_step ''b'' [''a'', ''a'']] = Inl WorkflowCycle"
  by code_simp

text \<open>C13: a rejected spec runs nothing and answers the validation error. The run of an accepted one is its
  steps run one by one, each exactly once, in an order in which each comes after all it depends on, up to
  the first that fails: the results, the calls made of the task service and their effect are those. When
  it fails, the steps before the failing one succeeded, none after it ran, and the error is the failing
  step's own, never a cycle.\<close>

theorem workflow_runs_in_order:
  "case validate_spec steps of
     Inl e \<Rightarrow> run_workflow render svc steps s = (Inl e, s)
   | Inr _ \<Rightarrow> \<exists>order. mset order = mset steps \<and> ordered_after steps [] (map ws_id order) \<and>
       run_workflow render svc steps s = one_by_one render svc order s \<and>
       (case run_workflow render svc steps s of
          (Inr fin, s') \<Rightarrow> tbl_keys fin = map ws_id order
        | (Inl e, s') \<Rightarrow> \<exists>before st later vs s1. order = before @ st # later \<and>
            one_by_one render svc before s = (Inr vs, s1) \<and> run_step render svc st s1 = (Inl e, s') \<and> blames st e)"
proof (cases "validate_spec steps")
  case (Inr u)
  then have v: "validate_spec steps = Inr ()" by simp
  then have dist: "distinct (map ws_id steps)" by (simp add: validate_ok_iff well_linked_def)
  obtain ids where ids: "mset ids = mset (map ws_id steps)" "ordered_after steps [] ids"
    using validate_order [OF v] by blast
  obtain topo where "mset topo = mset steps" "map ws_id topo = ids" using map_permutation [OF ids(1)] by blast
  moreover have "run_ok steps []" by (simp add: run_ok_def)
  ultimately obtain order where order: "mset order = mset steps" "ordered_after steps [] (map ws_id order)"
    "waves_loop render svc steps [] s = after_fin [] (one_by_one render svc order s)"
    using waves_loop_order [of topo steps "[]" render svc s] ids(2) dist by auto
  have run: "run_workflow render svc steps s = one_by_one render svc order s"
    using order(3) Inr by (auto simp: run_workflow_def after_fin_def split: prod.splits sum.splits)
  obtain q s' where q: "one_by_one render svc order s = (q, s')" by fastforce
  have "case (q, s') of
      (Inr fin, s') \<Rightarrow> tbl_keys fin = map ws_id order
    | (Inl e, s') \<Rightarrow> \<exists>before st later vs s1. order = before @ st # later \<and>
        one_by_one render svc before s = (Inr vs, s1) \<and> run_step render svc st s1 = (Inl e, s') \<and> blames st e"
    using one_by_one_failure [of render svc order s] one_by_one_ids [of render svc order s] q by (cases q) auto
  then show ?thesis using Inr order run q by auto
qed (simp add: run_workflow_def)

text \<open>C14: no orphans: on the session's child service, whatever happens between polls, a workflow run
  and a Ralph loop end, well or badly, with no child of theirs left running unstopped.\<close>

theorem workflow_no_orphans:
  "children_live (snd (run_workflow render (service_seam render') steps w)) \<subseteq> children_live w \<and>
   children_live (snd (ralph_run objective max_rounds (service_seam render') w)) \<subseteq> children_live w"
  by (simp add: children.run_workflow_live children.ralph_run_live)

text \<open>a Ralph loop is bounded and stops at the marker: it runs at most the rounds asked for, at most
  ten, numbered from one, every round with the same objective; it is completed exactly when its
  last round reported the marker, no earlier round did, and without one it uses every round.\<close>

theorem ralph_stops_at_marker:
  "case fst (ralph_run objective max_rounds svc s) of
     Inr report \<Rightarrow> 1 \<le> max_rounds \<and> max_rounds \<le> 10 \<and> rp_objective report = objective \<and>
       rounds_ok 1 max_rounds (rp_rounds report) (rp_completed report)
   | Inl EmptyObjective \<Rightarrow> blank objective
   | Inl (BadRounds n) \<Rightarrow> n = max_rounds \<and> (n = 0 \<or> 10 < n)
   | Inl (RoundFailed k reason) \<Rightarrow> 1 \<le> k \<and> k \<le> max_rounds"
proof (cases "blank objective \<or> max_rounds = 0 \<or> MAX_RALPH_ROUNDS < max_rounds")
  case False
  obtain r s' where r: "ralph_rounds objective svc max_rounds 1 [] s = (r, s')" by fastforce
  from ralph_rounds_ok [OF r] False r show ?thesis
    by (auto simp: ralph_run_def MAX_RALPH_ROUNDS_def split: sum.splits)
qed (auto simp: ralph_run_def MAX_RALPH_ROUNDS_def)

end
