(* ===== verification/Llm_Stream.thy ===== *)
theory Llm_Stream
  imports Prelude
begin

text \<open>
  Model streams of \<open>crates/foundation/llm/src/lib.rs\<close> and \<open>crates/foundation/llm/src/sse.rs\<close>: the
  error taxonomy and its classification, the stream events, the byte framing of server-sent
  events (chunk buffering, boundary scan, payload extraction, the torn-end guard) and the
  Anthropic event translation. Parsing JSON text and the derived decoders of the event
  structures are the library's and enter as parameters.

  In the framing part a character is one byte. A byte stream is the list of its chunks, each a
  transport error or bytes; a consumer reads the stream to its end.
\<close>

section \<open>Errors and events\<close>

record llm_usage =
  lu_input :: nat
  lu_output :: nat
  lu_cache_read :: nat
  lu_cache_creation :: nat

datatype stream_event =
    EvTextDelta string
  | EvThinkingDelta string
  | EvSignatureDelta string
  | EvThinkingComplete string "string option"
  | EvToolUseBegin string string
  | EvToolUseInputDelta string
  | EvBlockEnd
  | EvMessageComplete string llm_usage

text \<open>A duration is a number of nanoseconds.\<close>

datatype llm_error =
    LlmHttp string
  | LlmApi string string
  | LlmRateLimited string "nat option"
  | LlmPromptTooLong string
  | LlmSse string
  | LlmTimeout string
  | LlmJson string
  | LlmClientInit string

definition MAX_ERROR_BODY_CHARS :: nat where
  "MAX_ERROR_BODY_CHARS = 2000"

definition truncate_error_body :: "string \<Rightarrow> nat \<Rightarrow> string" where
  "truncate_error_body body max_chars = take max_chars body"

definition IMAGE_MAX_BYTES :: nat where
  "IMAGE_MAX_BYTES = 5 * 1024 * 1024"

definition IMAGE_ALLOWED_MIMES :: "string list" where
  "IMAGE_ALLOWED_MIMES = [''image/png'', ''image/jpeg'', ''image/webp'', ''image/gif'']"

definition validate_image :: "(string \<Rightarrow> (string, string) result) \<Rightarrow> string \<Rightarrow> string \<Rightarrow> (string, string) result" where
  "validate_image decode mime base64 =
     (if mime \<notin> set IMAGE_ALLOWED_MIMES
      then Inl (''unsupported image mime '' @ [quote_char] @ mime @ [quote_char] @
             '': expected one of image/png, image/jpeg, image/webp, image/gif'')
      else (case decode base64 of
              Inl e \<Rightarrow> Inl (''invalid image base64: '' @ e)
            | Inr bytes \<Rightarrow>
                if IMAGE_MAX_BYTES < length bytes
                then Inl (''image too large ('' @ show_nat (length bytes) @ '' bytes), max '' @
                       show_nat IMAGE_MAX_BYTES @ '' bytes (5MB cap, no downscaling)'')
                else Inr bytes))"

definition normalize_tool_input :: "json \<Rightarrow> json" where
  "normalize_tool_input v = (case v of JObj kvs \<Rightarrow> JObj kvs | JNull \<Rightarrow> JObj [] | other \<Rightarrow> JObj [(''_raw'', other)])"

definition classify_api_error :: "string \<Rightarrow> string \<Rightarrow> llm_error" where
  "classify_api_error kind message =
     (if contains kind ''prompt_too_long'' \<or> contains kind ''request_too_large'' \<or>
         contains message ''prompt is too long'' \<or> contains message ''prompt_too_long'' \<or>
         contains message ''request_too_large''
      then LlmPromptTooLong message else LlmApi kind message)"

definition classify_api_error_with_retry_after :: "string \<Rightarrow> string \<Rightarrow> nat option \<Rightarrow> llm_error" where
  "classify_api_error_with_retry_after kind message retry_after =
     (if contains kind ''http_429'' then LlmRateLimited message retry_after
      else classify_api_error kind message)"

text \<open>The header's text, when it is present and readable.\<close>

definition parse_retry_after :: "string option \<Rightarrow> nat option" where
  "parse_retry_after header =
     (case Option.bind header (\<lambda>v. parse_uint (max_of 64) (trim v)) of
        Some seconds \<Rightarrow> if 0 < seconds then Some (seconds * 1000000000) else None
      | None \<Rightarrow> None)"

section \<open>Framing\<close>

definition MAX_SSE_BUF :: nat where
  "MAX_SSE_BUF = 8 * 1024 * 1024"

definition LF_LF :: string where
  "LF_LF = [newline, newline]"

definition CRLF_CRLF :: string where
  "CRLF_CRLF = [carriage_return, newline, carriage_return, newline]"

definition find_subsequence :: "string \<Rightarrow> string \<Rightarrow> nat option" where
  "find_subsequence haystack needle = find_str needle haystack"

definition find_frame_boundary :: "string \<Rightarrow> (nat \<times> nat) option" where
  "find_frame_boundary buf =
     (let lf = map_option (\<lambda>i. (i, 2)) (find_subsequence buf LF_LF);
          crlf = map_option (\<lambda>i. (i, 4)) (find_subsequence buf CRLF_CRLF)
      in case (lf, crlf) of
           (Some a, Some b) \<Rightarrow> Some (if fst a < fst b \<or> fst a = fst b \<and> snd a \<le> snd b then a else b)
         | (only, None) \<Rightarrow> only
         | (None, only) \<Rightarrow> only)"

text \<open>\<open>str::from_utf8\<close>: the well-formed sequences of Unicode's table.\<close>

definition in_range :: "nat \<Rightarrow> nat \<Rightarrow> char \<Rightarrow> bool" where
  "in_range lo hi c \<longleftrightarrow> lo \<le> char_code c \<and> char_code c \<le> hi"

definition utf8_tail :: "char \<Rightarrow> (char \<Rightarrow> bool) list option" where
  "utf8_tail c =
     (let n = char_code c; cont = in_range 128 191
      in if n < 128 then Some []
         else if n < 194 then None
         else if n < 224 then Some [cont]
         else if n = 224 then Some [in_range 160 191, cont]
         else if n = 237 then Some [in_range 128 159, cont]
         else if n < 240 then Some [cont, cont]
         else if n = 240 then Some [in_range 144 191, cont, cont]
         else if n < 244 then Some [cont, cont, cont]
         else if n = 244 then Some [in_range 128 143, cont, cont]
         else None)"

fun utf8_ok :: "(char \<Rightarrow> bool) list \<Rightarrow> string \<Rightarrow> bool" where
  "utf8_ok [] [] = True"
| "utf8_ok (p # ps) [] = False"
| "utf8_ok [] (c # cs) = (case utf8_tail c of None \<Rightarrow> False | Some ps \<Rightarrow> utf8_ok ps cs)"
| "utf8_ok (p # ps) (c # cs) = (p c \<and> utf8_ok ps cs)"

definition data_payload :: "string \<Rightarrow> string option" where
  "data_payload line =
     map_option (\<lambda>payload. case strip_prefix payload '' '' of Some p \<Rightarrow> p | None \<Rightarrow> payload)
       (strip_prefix (strip_cr line) ''data:'')"

definition extract_data :: "(string \<Rightarrow> string) \<Rightarrow> string \<Rightarrow> (llm_error, string option) result" where
  "extract_data utf8_error frame =
     (if \<not> utf8_ok [] frame then Inl (LlmSse (utf8_error frame))
      else (let data_lines = List.map_filter data_payload (split_on (\<lambda>c. c = newline) frame)
            in Inr (if data_lines = [] then None else Some (join [newline] data_lines))))"

text \<open>What a stream yields: its events in order, and the error that ended it.\<close>

type_synonym 'e yielded = "'e list \<times> llm_error option"

text \<open>One frame: its payload goes to the handler, whose state is \<open>'p\<close>.\<close>

type_synonym ('p, 'e) handler = "string \<Rightarrow> 'p \<Rightarrow> (llm_error, 'e list) result \<times> 'p"

definition handle_frame :: "(string \<Rightarrow> string) \<Rightarrow> ('p, 'e) handler \<Rightarrow> string \<Rightarrow> 'p \<Rightarrow> 'e yielded \<times> 'p" where
  "handle_frame utf8_error on_data frame p =
     (case extract_data utf8_error frame of
        Inl e \<Rightarrow> (([], Some e), p)
      | Inr None \<Rightarrow> (([], None), p)
      | Inr (Some data) \<Rightarrow>
          (case on_data data p of
             (Inl e, p') \<Rightarrow> (([], Some e), p')
           | (Inr evs, p') \<Rightarrow> ((evs, None), p')))"

lemma find_str_le: "find_str q s = Some i \<Longrightarrow> q \<noteq> [] \<Longrightarrow> i < length s"
  by (induction s arbitrary: i) (auto split: if_splits)

lemma boundary_positive: "find_frame_boundary buf = Some (b, sep) \<Longrightarrow> 0 < sep \<and> b < length buf"
  by (auto simp: find_frame_boundary_def find_subsequence_def Let_def LF_LF_def CRLF_CRLF_def
      dest: find_str_le split: option.splits if_splits)

text \<open>The cutting loop over one buffer, scanning from \<open>from\<close>.\<close>

function cut_frames ::
    "(string \<Rightarrow> string) \<Rightarrow> ('p, 'e) handler \<Rightarrow> string \<Rightarrow> nat \<Rightarrow> 'p \<Rightarrow> 'e yielded \<times> 'p \<times> string" where
  "cut_frames utf8_error on_data buf from p =
     (case find_frame_boundary (drop from buf) of
        None \<Rightarrow> (([], None), p, buf)
      | Some (body_end, sep_len) \<Rightarrow>
          (case handle_frame utf8_error on_data (take (from + body_end) buf) p of
             ((evs, Some e), p') \<Rightarrow> ((evs, Some e), p', buf)
           | ((evs, None), p') \<Rightarrow>
               (case cut_frames utf8_error on_data (drop (from + body_end + sep_len) buf) 0 p' of
                  ((evs', err), rest) \<Rightarrow> ((evs @ evs', err), rest))))"
  by pat_completeness auto
termination
  by (relation "measure (\<lambda>(utf8_error, on_data, buf, from, p). length buf)") (auto dest!: boundary_positive)

declare cut_frames.simps [simp del]

fun decode_sse_frames ::
    "nat \<Rightarrow> (string \<Rightarrow> string) \<Rightarrow> ('p, 'e) handler \<Rightarrow> (llm_error, string) result list \<Rightarrow> string \<Rightarrow> nat \<Rightarrow> 'p \<Rightarrow> 'e yielded \<times> 'p" where
  "decode_sse_frames max_buf utf8_error on_data [] buf scanned p = (([], None), p)"
| "decode_sse_frames max_buf utf8_error on_data (Inl e # chunks) buf scanned p = (([], Some e), p)"
| "decode_sse_frames max_buf utf8_error on_data (Inr chunk # chunks) buf scanned p =
     (let buf1 = buf @ chunk
      in if max_buf < length buf1
         then (([], Some (LlmSse (''SSE buffer exceeded the '' @ show_nat max_buf @
                  ''-byte cap (server sent no frame boundary)''))), p)
         else (case cut_frames utf8_error on_data buf1 (scanned - 3) p of
                 ((evs, Some e), p', _) \<Rightarrow> ((evs, Some e), p')
               | ((evs, None), p', buf2) \<Rightarrow>
                   (case decode_sse_frames max_buf utf8_error on_data chunks buf2 (length buf2) p' of
                      ((evs', err), p'') \<Rightarrow> ((evs @ evs', err), p''))))"

text \<open>The torn-end guard: items in order, plus one error when the end came with neither a completion
  nor an error.\<close>

definition reject_torn_eof :: "string \<Rightarrow> (llm_error, stream_event) result list \<Rightarrow> (llm_error, stream_event) result list" where
  "reject_torn_eof eof_error items =
     (if list_ex (\<lambda>item. case item of Inr (EvMessageComplete _ _) \<Rightarrow> True | _ \<Rightarrow> False) items \<or>
         list_ex (\<lambda>item. \<not> is_ok item) items
      then items else items @ [Inl (LlmSse eof_error)])"

text \<open>Reading an error body stops at the cap.\<close>

definition MAX_ERROR_BODY_BYTES :: nat where
  "MAX_ERROR_BODY_BYTES = 64 * 1024"

fun read_error_body_capped :: "string \<Rightarrow> string option list \<Rightarrow> string" where
  "read_error_body_capped body [] = body"
| "read_error_body_capped body (None # reads) = body"
| "read_error_body_capped body (Some chunk # reads) =
     (if length body < MAX_ERROR_BODY_BYTES
      then read_error_body_capped (body @ take (MAX_ERROR_BODY_BYTES - length body) chunk) reads
      else body)"

section \<open>Anthropic events\<close>

text \<open>The derived decoders of the event structures; \<open>Inl\<close> carries the library's message.\<close>

datatype started_block = StartedText | StartedThinking | StartedToolUse string string | StartedOther

datatype delta = DText string | DThinking string | DSignature string | DInputJson string | DOther

record sse_decoders =
  sd_parse :: "string \<Rightarrow> (string, json) result"
  sd_message_start :: "json \<Rightarrow> (string, nat \<times> nat \<times> nat) result"
  sd_block_start :: "json \<Rightarrow> (string, started_block) result"
  sd_block_delta :: "json \<Rightarrow> (string, delta) result"
  sd_message_delta :: "json \<Rightarrow> (string, string option \<times> nat) result"
  sd_error :: "json \<Rightarrow> (string, string \<times> string) result"

record sse_parser =
  pr_input :: nat
  pr_cache_read :: nat
  pr_cache_creation :: nat
  pr_thinking :: "(string \<times> string option) option"

definition parser_new :: sse_parser where
  "parser_new = \<lparr>pr_input = 0, pr_cache_read = 0, pr_cache_creation = 0, pr_thinking = None\<rparr>"

definition decoded :: "('a \<Rightarrow> (llm_error, 'b) result \<times> sse_parser) \<Rightarrow> sse_parser \<Rightarrow> (string, 'a) result \<Rightarrow> (llm_error, 'b) result \<times> sse_parser" where
  "decoded f ps r = (case r of Inl m \<Rightarrow> (Inl (LlmJson m), ps) | Inr v \<Rightarrow> f v)"

definition feed_message_start :: "nat \<times> nat \<times> nat \<Rightarrow> sse_parser \<Rightarrow> sse_parser" where
  "feed_message_start u ps =
     (case u of (input, cache_read, cache_creation) \<Rightarrow>
        ps\<lparr>pr_input := sat_add 64 (sat_add 64 input cache_read) cache_creation,
           pr_cache_read := cache_read, pr_cache_creation := cache_creation\<rparr>)"

definition feed_block_start :: "started_block \<Rightarrow> sse_parser \<Rightarrow> stream_event option \<times> sse_parser" where
  "feed_block_start b ps =
     (case b of
        StartedToolUse i name \<Rightarrow> (Some (EvToolUseBegin i name), ps)
      | StartedThinking \<Rightarrow> (None, ps\<lparr>pr_thinking := Some ([], None)\<rparr>)
      | _ \<Rightarrow> (None, ps))"

definition feed_delta :: "delta \<Rightarrow> sse_parser \<Rightarrow> stream_event option \<times> sse_parser" where
  "feed_delta d ps =
     (case d of
        DText t \<Rightarrow> (Some (EvTextDelta t), ps)
      | DThinking t \<Rightarrow>
          (Some (EvThinkingDelta t), ps\<lparr>pr_thinking := map_option (\<lambda>(txt, sig). (txt @ t, sig)) (pr_thinking ps)\<rparr>)
      | DSignature sg \<Rightarrow>
          (Some (EvSignatureDelta sg),
           ps\<lparr>pr_thinking := map_option (\<lambda>(txt, slot). (txt, Some (case slot of Some old \<Rightarrow> old @ sg | None \<Rightarrow> sg))) (pr_thinking ps)\<rparr>)
      | DInputJson partial \<Rightarrow> (Some (EvToolUseInputDelta partial), ps)
      | DOther \<Rightarrow> (None, ps))"

definition feed_block_stop :: "sse_parser \<Rightarrow> stream_event \<times> sse_parser" where
  "feed_block_stop ps =
     (case pr_thinking ps of
        Some (txt, sg) \<Rightarrow> (EvThinkingComplete txt sg, ps\<lparr>pr_thinking := None\<rparr>)
      | None \<Rightarrow> (EvBlockEnd, ps))"

definition feed_message_delta :: "string option \<times> nat \<Rightarrow> sse_parser \<Rightarrow> stream_event" where
  "feed_message_delta d ps =
     (case d of (stop_reason, output_tokens) \<Rightarrow>
        EvMessageComplete (case stop_reason of Some r \<Rightarrow> r | None \<Rightarrow> [])
          \<lparr>lu_input = pr_input ps, lu_output = output_tokens, lu_cache_read = pr_cache_read ps,
           lu_cache_creation = pr_cache_creation ps\<rparr>)"

definition parser_feed :: "sse_decoders \<Rightarrow> string \<Rightarrow> sse_parser \<Rightarrow> (llm_error, stream_event option) result \<times> sse_parser" where
  "parser_feed sd data ps =
     decoded (\<lambda>v.
       (case json_str_at ''type'' v of
          None \<Rightarrow> (Inr None, ps)
        | Some ty \<Rightarrow>
            if ty = ''message_start'' then decoded (\<lambda>u. (Inr None, feed_message_start u ps)) ps (sd_message_start sd v)
            else if ty = ''content_block_start''
            then decoded (\<lambda>b. case feed_block_start b ps of (ev, ps') \<Rightarrow> (Inr ev, ps')) ps (sd_block_start sd v)
            else if ty = ''content_block_delta''
            then decoded (\<lambda>d. case feed_delta d ps of (ev, ps') \<Rightarrow> (Inr ev, ps')) ps (sd_block_delta sd v)
            else if ty = ''content_block_stop'' then (case feed_block_stop ps of (ev, ps') \<Rightarrow> (Inr (Some ev), ps'))
            else if ty = ''message_delta'' then decoded (\<lambda>d. (Inr (Some (feed_message_delta d ps)), ps)) ps (sd_message_delta sd v)
            else if ty = ''error'' then decoded (\<lambda>(kind, message). (Inl (classify_api_error kind message), ps)) ps (sd_error sd v)
            else (Inr None, ps))) ps (sd_parse sd data)"

text \<open>The Anthropic decode path: framing into the parser, behind the torn-end guard.\<close>

definition parser_on_data :: "sse_decoders \<Rightarrow> (sse_parser, stream_event) handler" where
  "parser_on_data sd data ps =
     (case parser_feed sd data ps of
        (Inl e, ps') \<Rightarrow> (Inl e, ps')
      | (Inr ev, ps') \<Rightarrow> (Inr (case ev of Some x \<Rightarrow> [x] | None \<Rightarrow> []), ps'))"

definition as_items :: "'e yielded \<Rightarrow> (llm_error, 'e) result list" where
  "as_items y = map Inr (fst y) @ (case snd y of Some e \<Rightarrow> [Inl e] | None \<Rightarrow> [])"

definition decode_event_stream ::
    "sse_decoders \<Rightarrow> (string \<Rightarrow> string) \<Rightarrow> (llm_error, string) result list \<Rightarrow> nat \<Rightarrow> (llm_error, stream_event) result list" where
  "decode_event_stream sd utf8_error chunks max_buf =
     reject_torn_eof ''stream ended without a message_delta completion''
       (as_items (fst (decode_sse_frames max_buf utf8_error (parser_on_data sd) chunks [] 0 parser_new)))"

section \<open>The frames of a byte string\<close>

text \<open>The reference: the first place where a separator starts, found in one pass.\<close>

definition sep_at :: "string \<Rightarrow> nat option" where
  "sep_at s = (if prefix LF_LF s then Some 2 else if prefix CRLF_CRLF s then Some 4 else None)"

fun first_boundary :: "string \<Rightarrow> (nat \<times> nat) option" where
  "first_boundary [] = None"
| "first_boundary (c # cs) =
     (case sep_at (c # cs) of
        Some n \<Rightarrow> Some (0, n)
      | None \<Rightarrow> map_option (\<lambda>(i, n). (i + 1, n)) (first_boundary cs))"

lemma nl_cr [simp]: "newline \<noteq> carriage_return" "carriage_return \<noteq> newline"
  by (simp_all add: newline_def carriage_return_def)

lemma find_frame_boundary_eq: "find_frame_boundary s = first_boundary s"
proof (induction s)
  case Nil
  then show ?case by (simp add: find_frame_boundary_def find_subsequence_def LF_LF_def CRLF_CRLF_def)
next
  case (Cons c cs)
  have not_both: "\<not> (prefix LF_LF (c # cs) \<and> prefix CRLF_CRLF (c # cs))"
    by (auto simp: LF_LF_def CRLF_CRLF_def)
  have "find_frame_boundary (c # cs) =
      (case sep_at (c # cs) of
         Some n \<Rightarrow> Some (0, n)
       | None \<Rightarrow> map_option (\<lambda>(i, n). (i + 1, n)) (find_frame_boundary cs))"
    using not_both
    by (cases "find_str LF_LF cs"; cases "find_str CRLF_CRLF cs")
      (simp_all add: find_frame_boundary_def find_subsequence_def sep_at_def)
  then show ?case by (simp only: first_boundary.simps Cons.IH)
qed

lemma first_boundary_bound: "first_boundary s = Some (b, n) \<Longrightarrow> 0 < n \<and> b + n \<le> length s"
proof (induction s arbitrary: b)
  case (Cons c cs)
  then show ?case
    by (auto simp: sep_at_def LF_LF_def CRLF_CRLF_def split: if_splits option.splits dest: prefix_length_le)
qed simp

function split_frames :: "string \<Rightarrow> string list \<times> string" where
  "split_frames s =
     (case first_boundary s of
        None \<Rightarrow> ([], s)
      | Some (b, n) \<Rightarrow> (case split_frames (drop (b + n) s) of (fs, r) \<Rightarrow> (take b s # fs, r)))"
  by pat_completeness auto
termination by (relation "measure length") (auto dest: first_boundary_bound)

declare split_frames.simps [simp del]

text \<open>Running the handler over frames.\<close>

fun handle_frames :: "(string \<Rightarrow> string) \<Rightarrow> ('p, 'e) handler \<Rightarrow> string list \<Rightarrow> 'p \<Rightarrow> 'e yielded \<times> 'p" where
  "handle_frames utf8_error on_data [] p = (([], None), p)"
| "handle_frames utf8_error on_data (f # fs) p =
     (case handle_frame utf8_error on_data f p of
        ((evs, Some e), p') \<Rightarrow> ((evs, Some e), p')
      | ((evs, None), p') \<Rightarrow> (case handle_frames utf8_error on_data fs p' of ((evs', err), p'') \<Rightarrow> ((evs @ evs', err), p'')))"

lemma handle_frames_append:
  "handle_frames utf8_error on_data (fs @ gs) p =
     (case handle_frames utf8_error on_data fs p of
        ((evs, Some e), p') \<Rightarrow> ((evs, Some e), p')
      | ((evs, None), p') \<Rightarrow> (case handle_frames utf8_error on_data gs p' of ((evs', err), p'') \<Rightarrow> ((evs @ evs', err), p'')))"
  by (induction fs arbitrary: p) (auto split: prod.splits option.splits)

text \<open>More bytes do not move a boundary already found.\<close>

lemma sep_at_append: "sep_at s = Some n \<Longrightarrow> sep_at (s @ t) = Some n"
  by (auto simp: sep_at_def LF_LF_def CRLF_CRLF_def prefix_def split: if_splits)

lemma sep_at_long: "4 \<le> length s \<Longrightarrow> sep_at (s @ t) = sep_at s"
proof -
  assume "4 \<le> length s"
  then obtain a b c d r where "s = a # b # c # d # r"
    by (metis Suc_le_length_iff numeral_eq_Suc pred_numeral_simps(2) pred_numeral_simps(3) numeral_One One_nat_def BitM.simps)
  then show ?thesis by (simp add: sep_at_def LF_LF_def CRLF_CRLF_def)
qed

lemma sep_at_Cons_append:
  assumes "first_boundary cs = Some x" and "sep_at (c # cs) = None"
  shows "sep_at (c # cs @ t) = None"
proof (cases cs rule: first_boundary.cases)
  case (2 c1 cs1)
  show ?thesis
  proof (cases "3 \<le> length cs")
    case True
    then have "sep_at ((c # cs) @ t) = sep_at (c # cs)" by (intro sep_at_long) simp
    then show ?thesis using assms by simp
  next
    case False
    then consider "cs = [c1]" | c2 where "cs = [c1, c2]" using 2 by (cases cs1; cases "tl cs1") auto
    then show ?thesis
      using assms by cases (auto simp: sep_at_def LF_LF_def CRLF_CRLF_def split: if_splits)
  qed
qed (use assms in simp)

lemma first_boundary_append: "first_boundary s = Some x \<Longrightarrow> first_boundary (s @ t) = Some x"
proof (induction s arbitrary: x)
  case (Cons c cs)
  show ?case
  proof (cases "sep_at (c # cs)")
    case None
    then obtain y where "first_boundary cs = Some y" using Cons.prems by auto
    with Cons None sep_at_Cons_append [of cs y c t] show ?thesis by simp
  next
    case (Some n)
    then show ?thesis using Cons.prems sep_at_append [of "c # cs" n t] by simp
  qed
qed simp

text \<open>A buffer without a boundary, extended, has none before its last three bytes.\<close>

lemma first_boundary_None: "first_boundary s = None \<Longrightarrow> sep_at s = None"
  by (cases s) (auto simp: sep_at_def LF_LF_def CRLF_CRLF_def split: option.splits)

lemma first_boundary_skip:
  "first_boundary s = None \<Longrightarrow> k \<le> length s - 3 \<Longrightarrow>
   first_boundary (s @ t) = map_option (\<lambda>(i, n). (i + k, n)) (first_boundary (drop k (s @ t)))"
proof (induction k arbitrary: s)
  case 0
  show ?case by (simp add: case_prod_beta' option.map_ident)
next
  case (Suc k)
  then obtain c cs where s: "s = c # cs" by (cases s) auto
  have "4 \<le> length s" using Suc.prems by simp
  then have "sep_at (s @ t) = None" using sep_at_long [of s t] first_boundary_None [OF Suc.prems(1)] by simp
  moreover have "first_boundary cs = None" using Suc.prems s by (auto split: option.splits)
  then have "first_boundary (cs @ t) = map_option (\<lambda>(i, n). (i + k, n)) (first_boundary (drop k (cs @ t)))"
    using Suc.prems s by (intro Suc.IH) auto
  ultimately show ?case by (simp add: s option.map_comp comp_def case_prod_beta')
qed

lemma split_frames_append:
  "split_frames (s @ t) =
     (case split_frames s of (fs, r) \<Rightarrow> (case split_frames (r @ t) of (gs, q) \<Rightarrow> (fs @ gs, q)))"
proof (induction s rule: split_frames.induct)
  case (1 s)
  show ?case
  proof (cases "first_boundary s")
    case None
    then show ?thesis by (simp add: split_frames.simps [of s] split: prod.split)
  next
    case (Some x)
    obtain b n where x: "x = (b, n)" by fastforce
    have le: "b + n \<le> length s" using first_boundary_bound Some x by blast
    have "split_frames (s @ t) =
        (case split_frames (drop (b + n) s @ t) of (fs, r) \<Rightarrow> (take b s # fs, r))"
      using first_boundary_append [OF Some, of t] x le by (simp add: split_frames.simps [of "s @ t"])
    also have "\<dots> = (case split_frames s of (fs, r) \<Rightarrow> (case split_frames (r @ t) of (gs, q) \<Rightarrow> (fs @ gs, q)))"
      using 1 [OF Some x [symmetric]] Some x by (simp add: split_frames.simps [of s] split: prod.split)
    finally show ?thesis .
  qed
qed

lemma split_frames_rest: "split_frames s = (fs, r) \<Longrightarrow> first_boundary r = None"
proof (induction s arbitrary: fs rule: split_frames.induct)
  case (1 s)
  then show ?case by (auto simp: split_frames.simps [of s] split: option.splits prod.splits)
qed

text \<open>The cutting loop handles the frames of the buffer, wherever its first scan starts behind bytes
  known to hold no boundary.\<close>

lemma cut_frames_zero:
  "(case cut_frames utf8_error on_data buf 0 p of (y, p', rest) \<Rightarrow> (y, p') = handle_frames utf8_error on_data (fst (split_frames buf)) p \<and>
      (snd y = None \<longrightarrow> rest = snd (split_frames buf)))"
proof (induction buf arbitrary: p rule: split_frames.induct)
  case (1 buf)
  show ?case
  proof (cases "first_boundary buf")
    case None
    then show ?thesis by (simp add: cut_frames.simps [of _ _ buf] split_frames.simps [of buf] find_frame_boundary_eq)
  next
    case (Some x)
    obtain b n where x: "x = (b, n)" by fastforce
    obtain evs err p1 where h: "handle_frame utf8_error on_data (take b buf) p = ((evs, err), p1)" by (metis surj_pair)
    obtain y2 p2 r2 where c: "cut_frames utf8_error on_data (drop (b + n) buf) 0 p1 = (y2, p2, r2)" by (metis surj_pair)
    obtain fs r where sf: "split_frames (drop (b + n) buf) = (fs, r)" by fastforce
    have "(y2, p2) = handle_frames utf8_error on_data fs p1 \<and> (snd y2 = None \<longrightarrow> r2 = r)"
      using 1 [OF Some x [symmetric], of p1] c sf by simp
    then show ?thesis
      using Some x h c sf
      by (cases err; cases y2) (auto simp: cut_frames.simps [of _ _ buf] split_frames.simps [of buf] find_frame_boundary_eq split: prod.split)
  qed
qed

lemma cut_frames_from:
  assumes "first_boundary old = None" and "k \<le> length old - 3"
  shows "cut_frames utf8_error on_data (old @ chunk) k p = cut_frames utf8_error on_data (old @ chunk) 0 p"
  using first_boundary_skip [OF assms, of chunk]
  by (cases "first_boundary (drop k (old @ chunk))")
    (auto simp: cut_frames.simps [of _ _ "old @ chunk"] find_frame_boundary_eq add.commute)

lemma cut_frames_spec:
  assumes "first_boundary old = None"
  shows "(case cut_frames utf8_error on_data (old @ chunk) (length old - 3) p of (y, p', rest) \<Rightarrow>
    (y, p') = handle_frames utf8_error on_data (fst (split_frames (old @ chunk))) p \<and>
    (snd y = None \<longrightarrow> rest = snd (split_frames (old @ chunk))))"
  using cut_frames_zero [of utf8_error on_data "old @ chunk" p] by (simp only: cut_frames_from [OF assms order_refl])

text \<open>The buffer cap binds what is left of the stream so far plus the next chunk.\<close>

fun fits :: "nat \<Rightarrow> string \<Rightarrow> string list \<Rightarrow> bool" where
  "fits max_buf rest [] = True"
| "fits max_buf rest (chunk # chunks) =
     (length (rest @ chunk) \<le> max_buf \<and> fits max_buf (snd (split_frames (rest @ chunk))) chunks)"

lemma decode_spec:
  "first_boundary old = None \<Longrightarrow> fits max_buf old chunks \<Longrightarrow>
   decode_sse_frames max_buf utf8_error on_data (map Inr chunks) old (length old) p =
     handle_frames utf8_error on_data (fst (split_frames (old @ concat chunks))) p"
proof (induction chunks arbitrary: old p)
  case Nil
  then show ?case by (simp add: split_frames.simps [of old])
next
  case (Cons chunk chunks)
  obtain fs r where sf: "split_frames (old @ chunk) = (fs, r)" by fastforce
  obtain evs err p1 rest where c: "cut_frames utf8_error on_data (old @ chunk) (length old - 3) p = ((evs, err), p1, rest)"
    by (metis surj_pair)
  have h: "((evs, err), p1) = handle_frames utf8_error on_data fs p" and rest: "err = None \<Longrightarrow> rest = r"
    using cut_frames_spec [OF Cons.prems(1), of utf8_error on_data chunk p] c sf by auto
  have all: "fst (split_frames (old @ concat (chunk # chunks))) = fs @ fst (split_frames (r @ concat chunks))"
    using split_frames_append [of "old @ chunk" "concat chunks"] sf by (simp split: prod.split)
  show ?case
  proof (cases err)
    case None
    have "decode_sse_frames max_buf utf8_error on_data (map Inr chunks) r (length r) p1 =
        handle_frames utf8_error on_data (fst (split_frames (r @ concat chunks))) p1"
      using Cons.prems sf split_frames_rest [OF sf] by (intro Cons.IH) auto
    then show ?thesis
      using Cons.prems c None rest h [symmetric] all by (simp add: Let_def handle_frames_append)
  next
    case (Some e)
    then show ?thesis using Cons.prems c h [symmetric] all by (simp add: Let_def handle_frames_append)
  qed
qed

section \<open>Properties\<close>

text \<open>C15: chunk boundaries do not matter: however the bytes of a stream are cut into chunks, as long as
  no unfinished frame outgrows the cap, the decoder yields what handling one by one the frames of
  the whole byte string yields: the same events, error and parser state.\<close>

theorem sse_chunk_independent:
  assumes "fits max_buf [] chunks"
  shows "decode_sse_frames max_buf utf8_error on_data (map Inr chunks) [] 0 p =
    handle_frames utf8_error on_data (fst (split_frames (concat chunks))) p"
  using decode_spec [of "[]" max_buf chunks] assms by simp

theorem sse_chunk_independent_witness:
  "fits 24 [] [''data: a'' @ [newline], [newline] @ ''data:b'' @ [carriage_return, newline, carriage_return], [newline]] \<and>
   decode_sse_frames 24 (\<lambda>_. []) (\<lambda>d p. (Inr [d], p))
     (map Inr [''data: a'' @ [newline], [newline] @ ''data:b'' @ [carriage_return, newline, carriage_return], [newline]]) [] 0 () =
   (([''a'', ''b''], None), ())"
proof -
  let ?cs = "[''data: a'' @ [newline], [newline] @ ''data:b'' @ [carriage_return, newline, carriage_return], [newline]]"
  have f: "fits 24 [] ?cs" by code_simp
  have "handle_frames (\<lambda>_. []) (\<lambda>d p. (Inr [d], p)) (fst (split_frames (concat ?cs))) () = (([''a'', ''b''], None), ())"
    by code_simp
  with sse_chunk_independent [OF f] f show ?thesis by metis
qed

end
