(* ===== verification/Retry.thy ===== *)
theory Retry
  imports Llm_Stream "HOL-Library.Word"
begin

text \<open>
  The retry wrapper of \<open>crates/foundation/llm/src/retry.rs\<close>: error classes, backoff and jitter, and
  the executor that re-issues a request while nothing of a response has been forwarded. The model
  endpoint, the clocks and the passing of time are a record of functions on a world; a response
  stream is the list of its items, and the consumer reads it to the end. Durations are nanoseconds.
\<close>

section \<open>Policy\<close>

record retry_policy =
  py_max_attempts :: nat
  py_base_delay_ms :: nat
  py_max_delay_ms :: nat
  py_retry_timeout :: bool
  py_retry_transient :: bool
  py_retry_connection :: bool
  py_deadline_ms :: "nat option"

definition policy_default :: retry_policy where
  "policy_default = \<lparr>py_max_attempts = 3, py_base_delay_ms = 200, py_max_delay_ms = 2000,
     py_retry_timeout = True, py_retry_transient = True, py_retry_connection = True,
     py_deadline_ms = Some 30000\<rparr>"

definition millis :: "nat \<Rightarrow> nat" where
  "millis ms = ms * 1000000"

definition delay_for_attempt :: "retry_policy \<Rightarrow> nat \<Rightarrow> nat" where
  "delay_for_attempt py failed_attempt =
     millis (min (sat_mul 64 (py_base_delay_ms py) (2 ^ min (failed_attempt - 1) 16)) (py_max_delay_ms py))"

text \<open>The clock gives the nanoseconds of the current second, or nothing before the epoch.\<close>

definition jittered :: "nat option \<Rightarrow> nat \<Rightarrow> nat \<Rightarrow> nat" where
  "jittered subsec failed_attempt delay =
     (if delay = 0 then 0
      else let d = delay mod 2 ^ 64;
               nanos = (case subsec of
                          Some t \<Rightarrow> unat (xor (of_nat t) (push_bit 32 (of_nat failed_attempt)) :: 64 word)
                        | None \<Rightarrow> 0);
               half = d div 2
           in d - half + (if half = 0 then 0 else nanos mod half))"

definition any_marker :: "string list \<Rightarrow> string \<Rightarrow> string \<Rightarrow> bool" where
  "any_marker markers kind message =
     list_ex (\<lambda>m. contains (to_lower kind) m \<or> contains (to_lower message) m) markers"

fun is_auth_error :: "llm_error \<Rightarrow> bool" where
  "is_auth_error (LlmApi kind message) =
     (let kind = to_lower kind; message = to_lower message
      in list_ex (contains kind) [''http_401'', ''http_403'', ''unauthorized'', ''forbidden'',
           ''authentication_error'', ''invalid_api_key''] \<or>
         list_ex (contains message) [''invalid api key'', ''invalid_api_key'', ''incorrect api key'',
           ''unauthorized'', ''authentication'', ''forbidden''])"
| "is_auth_error (LlmHttp message) =
     (let message = to_lower message
      in list_ex (contains message) [''invalid api key'', ''unauthorized'', ''authentication''])"
| "is_auth_error _ = False"

definition TRANSIENT_MARKERS :: "string list" where
  "TRANSIENT_MARKERS = [''http_500'', ''http_502'', ''http_503'', ''http_504'', ''http_529'', ''http_429'',
     ''rate_limit'', ''overloaded'', ''overloaded_error'', ''server_error'', ''service_unavailable'',
     ''bad_gateway'', ''gateway_timeout'', ''temporarily_unavailable'']"

definition is_transient_error :: "string \<Rightarrow> string \<Rightarrow> bool" where
  "is_transient_error kind message = any_marker TRANSIENT_MARKERS kind message"

definition QUOTA_MARKERS :: "string list" where
  "QUOTA_MARKERS = [''insufficient_quota'', ''quota_exceeded'', ''quota exceeded'',
     ''exceeded your current quota'', ''billing'', ''credit balance'', ''arrears'']"

fun is_quota_error :: "llm_error \<Rightarrow> bool" where
  "is_quota_error (LlmApi kind message) = any_marker QUOTA_MARKERS kind message"
| "is_quota_error (LlmRateLimited message _) = any_marker QUOTA_MARKERS [] message"
| "is_quota_error _ = False"

definition is_retryable :: "retry_policy \<Rightarrow> llm_error \<Rightarrow> bool" where
  "is_retryable py e =
     (if is_auth_error e then False
      else if is_quota_error e then False
      else (case e of
              LlmTimeout _ \<Rightarrow> py_retry_timeout py
            | LlmHttp _ \<Rightarrow> py_retry_connection py
            | LlmRateLimited _ _ \<Rightarrow> py_retry_transient py
            | LlmApi kind message \<Rightarrow> py_retry_transient py \<and> is_transient_error kind message
            | _ \<Rightarrow> False))"

definition delay_for_error :: "retry_policy \<Rightarrow> llm_error \<Rightarrow> nat \<Rightarrow> nat" where
  "delay_for_error py e failed_attempt =
     (case e of
        LlmRateLimited _ (Some hint) \<Rightarrow> hint
      | _ \<Rightarrow> delay_for_attempt py failed_attempt)"

definition retrying_new :: "retry_policy \<Rightarrow> retry_policy" where
  "retrying_new py = (if py_max_attempts py < 1 then py\<lparr>py_max_attempts := 1\<rparr> else py)"

definition overruns :: "retry_policy \<Rightarrow> nat \<Rightarrow> nat \<Rightarrow> bool" where
  "overruns py elapsed delay =
     (case py_deadline_ms py of Some budget \<Rightarrow> millis budget < elapsed + delay | None \<Rightarrow> False)"

section \<open>Executor\<close>

type_synonym items = "(llm_error, stream_event) result list"

record ('r, 's) chat_model =
  cm_stream :: "'r \<Rightarrow> 's \<Rightarrow> (llm_error, items) result \<times> 's"
  cm_elapsed :: "'s \<Rightarrow> nat"
  cm_subsec :: "'s \<Rightarrow> nat option"
  cm_sleep :: "nat \<Rightarrow> 's \<Rightarrow> 's"
  cm_pull :: "'s \<Rightarrow> 's"

text \<open>Attempts until a stream is established or the failure is final: the loop of \<open>stream\<close>, and the
  inner loop of \<open>retrying_items\<close>, which differ only in when they read the clock for the jitter.\<close>

function establish ::
    "retry_policy \<Rightarrow> ('r, 's) chat_model \<Rightarrow> 'r \<Rightarrow> nat \<Rightarrow> 's \<Rightarrow> (llm_error, items \<times> nat) result \<times> 's" where
  "establish py cm req attempt s =
     (case cm_stream cm req s of
        (Inr stream, s1) \<Rightarrow> (Inr (stream, attempt + 1), s1)
      | (Inl e, s1) \<Rightarrow>
          if py_max_attempts py \<le> attempt + 1 \<or> \<not> is_retryable py e then (Inl e, s1)
          else (let delay = jittered (cm_subsec cm s1) (attempt + 1) (delay_for_error py e (attempt + 1))
                in if overruns py (cm_elapsed cm s1) delay then (Inl e, s1)
                   else establish py cm req (attempt + 1) (cm_sleep cm delay s1)))"
  by pat_completeness auto
termination by (relation "measure (\<lambda>(py, cm, req, attempt, s). py_max_attempts py - attempt)") auto

declare establish.simps [simp del]

text \<open>Forwarding one stream: what reaches the consumer, and the tear to retry, if any.\<close>

fun forward ::
    "retry_policy \<Rightarrow> ('r, 's) chat_model \<Rightarrow> nat \<Rightarrow> bool \<Rightarrow> items \<Rightarrow> 's \<Rightarrow> items \<times> llm_error option \<times> 's" where
  "forward py cm attempt forwarded [] s = ([], None, s)"
| "forward py cm attempt forwarded (Inr ev # rest) s =
     (case forward py cm attempt True rest (cm_pull cm s) of (out, torn, s') \<Rightarrow> (Inr ev # out, torn, s'))"
| "forward py cm attempt forwarded (Inl e # rest) s =
     (let s1 = cm_pull cm s
      in if \<not> forwarded \<and> attempt < py_max_attempts py \<and> is_retryable py e \<and>
            \<not> overruns py (cm_elapsed cm s1) (delay_for_error py e attempt)
         then ([], Some e, s1) else ([Inl e], None, s1))"

lemma forward_torn: "forward py cm attempt fw items s = (out, Some e, s') \<Longrightarrow>
  out = [] \<or> fw \<or> items \<noteq> [] \<and> is_ok (hd items)"
  by (induction py cm attempt fw items s arbitrary: out s' rule: forward.induct)
    (auto split: prod.splits if_splits simp: Let_def)

lemma forward_torn_attempt: "forward py cm attempt fw items s = (out, Some e, s') \<Longrightarrow> attempt < py_max_attempts py"
  by (induction py cm attempt fw items s arbitrary: out s' rule: forward.induct)
    (auto split: prod.splits if_splits simp: Let_def)

lemma establish_Inl:
  assumes "cm_stream cm req s = (Inl e, s1)"
  shows "establish py cm req attempt s =
    (if py_max_attempts py \<le> attempt + 1 \<or> \<not> is_retryable py e \<or>
        overruns py (cm_elapsed cm s1) (jittered (cm_subsec cm s1) (attempt + 1) (delay_for_error py e (attempt + 1)))
     then (Inl e, s1)
     else establish py cm req (attempt + 1)
       (cm_sleep cm (jittered (cm_subsec cm s1) (attempt + 1) (delay_for_error py e (attempt + 1))) s1))"
  by (subst establish.simps) (simp only: assms prod.case sum.case Let_def disj_assoc if_bool_eq_disj split: if_split, blast)

lemma establish_Inr: "cm_stream cm req s = (Inr stream, s1) \<Longrightarrow> establish py cm req attempt s = (Inr (stream, attempt + 1), s1)"
  by (subst establish.simps) simp

text \<open>Attempts by induction: either the request is answered, or it failed for good, or it is retried.\<close>

lemma establish_induct [case_names Answered Final Again]:
  assumes "\<And>attempt s stream s1. cm_stream cm req s = (Inr stream, s1) \<Longrightarrow> P attempt s (Inr (stream, attempt + 1), s1)"
    and "\<And>attempt s e s1. cm_stream cm req s = (Inl e, s1) \<Longrightarrow> P attempt s (Inl e, s1)"
    and "\<And>attempt s e s1 d. cm_stream cm req s = (Inl e, s1) \<Longrightarrow> attempt + 1 < py_max_attempts py \<Longrightarrow> is_retryable py e \<Longrightarrow>
      P (attempt + 1) (cm_sleep cm d s1) (establish py cm req (attempt + 1) (cm_sleep cm d s1)) \<Longrightarrow>
      P attempt s (establish py cm req (attempt + 1) (cm_sleep cm d s1))"
  shows "P attempt s (establish py cm req attempt s)"
proof (induction "py_max_attempts py - attempt" arbitrary: attempt s rule: less_induct)
  case less
  obtain r s1 where r: "cm_stream cm req s = (r, s1)" by fastforce
  show ?case
  proof (cases r)
    case (Inl e)
    let ?d = "jittered (cm_subsec cm s1) (attempt + 1) (delay_for_error py e (attempt + 1))"
    have c: "cm_stream cm req s = (Inl e, s1)" using r Inl by simp
    show ?thesis
    proof (cases "py_max_attempts py \<le> attempt + 1 \<or> \<not> is_retryable py e \<or> overruns py (cm_elapsed cm s1) ?d")
      case True
      then show ?thesis using assms(2) [OF c] by (simp only: establish_Inl [OF c] if_True)
    next
      case False
      then have "attempt + 1 < py_max_attempts py" "is_retryable py e" by simp_all
      then have "P attempt s (establish py cm req (attempt + 1) (cm_sleep cm ?d s1))"
        by (intro assms(3) [OF c] less) simp_all
      then show ?thesis using False by (simp only: establish_Inl [OF c] if_False)
    qed
  next
    case (Inr stream)
    with r assms(1) establish_Inr show ?thesis by metis
  qed
qed

definition later_attempt :: "nat \<Rightarrow> 's \<Rightarrow> (llm_error, items \<times> nat) result \<times> 's \<Rightarrow> bool" where
  "later_attempt attempt s r \<longleftrightarrow> (case fst r of Inr (stream, a) \<Rightarrow> attempt < a | Inl _ \<Rightarrow> True)"

lemma establish_attempt: "later_attempt attempt s (establish py cm req attempt s)"
proof (rule establish_induct [of cm req later_attempt py])
  fix attempt s e s1 d
  assume "later_attempt (attempt + 1) (cm_sleep cm d s1) (establish py cm req (attempt + 1) (cm_sleep cm d s1))"
  then show "later_attempt attempt s (establish py cm req (attempt + 1) (cm_sleep cm d s1))"
    unfolding later_attempt_def by (auto split: sum.splits)
qed (simp_all add: later_attempt_def)

function retrying_items ::
    "retry_policy \<Rightarrow> ('r, 's) chat_model \<Rightarrow> 'r \<Rightarrow> items \<Rightarrow> nat \<Rightarrow> 's \<Rightarrow> items \<times> 's" where
  "retrying_items py cm req stream attempt s =
     (case forward py cm attempt False stream s of
        (out, None, s1) \<Rightarrow> (out, s1)
      | (out, Some e, s1) \<Rightarrow>
          (case establish py cm req attempt (cm_sleep cm (jittered (cm_subsec cm s1) attempt (delay_for_error py e attempt)) s1) of
             (Inl e', s2) \<Rightarrow> (out @ [Inl e'], s2)
           | (Inr (stream', attempt'), s2) \<Rightarrow>
               (case retrying_items py cm req stream' attempt' s2 of (out', s3) \<Rightarrow> (out @ out', s3))))"
  by pat_completeness auto
termination
proof (relation "measure (\<lambda>(py, cm, req, stream, attempt, s). py_max_attempts py - attempt)", goal_cases)
  case (2 py cm req stream attempt s out r torn s1 e q s2 b stream' attempt')
  then have "attempt < py_max_attempts py" by (metis forward_torn_attempt)
  moreover have "later_attempt attempt s (Inr (stream', attempt'), s2)"
    using 2 establish_attempt [of attempt "cm_sleep cm (jittered (cm_subsec cm s1) attempt (delay_for_error py e attempt)) s1" py cm req]
    by (simp add: later_attempt_def)
  then have "attempt < attempt'" by (simp add: later_attempt_def)
  ultimately show ?case by simp
qed simp

declare retrying_items.simps [simp del]

definition retry_stream :: "retry_policy \<Rightarrow> ('r, 's) chat_model \<Rightarrow> 'r \<Rightarrow> 's \<Rightarrow> (llm_error, items) result \<times> 's" where
  "retry_stream py cm req s =
     (case establish py cm req 0 s of
        (Inl e, s1) \<Rightarrow> (Inl e, s1)
      | (Inr (stream, attempt), s1) \<Rightarrow>
          (case retrying_items py cm req stream attempt s1 of (out, s2) \<Rightarrow> (Inr out, s2)))"

section \<open>What the executor sends\<close>

text \<open>The endpoint with a log of its answers.\<close>

definition logged :: "('r, 's) chat_model \<Rightarrow> ('r, 's \<times> (llm_error, items) result list) chat_model" where
  "logged cm = \<lparr>cm_stream = \<lambda>req (s, log). (case cm_stream cm req s of (r, s') \<Rightarrow> (r, s', log @ [r])),
     cm_elapsed = \<lambda>(s, log). cm_elapsed cm s, cm_subsec = \<lambda>(s, log). cm_subsec cm s,
     cm_sleep = \<lambda>d (s, log). (cm_sleep cm d s, log), cm_pull = \<lambda>(s, log). (cm_pull cm s, log)\<rparr>"

text \<open>What of a stream reaches a consumer: everything up to its first error.\<close>

definition upto_error :: "items \<Rightarrow> items" where
  "upto_error items = takeWhile is_ok items @ take 1 (dropWhile is_ok items)"

text \<open>An answer worth another request: a retryable error before any event.\<close>

fun retry_worthy :: "retry_policy \<Rightarrow> (llm_error, items) result \<Rightarrow> bool" where
  "retry_worthy py (Inl e) = is_retryable py e"
| "retry_worthy py (Inr (Inl e # rest)) = is_retryable py e"
| "retry_worthy py (Inr _) = False"

text \<open>One run of the executor: its last answer gives what the consumer gets.\<close>

fun delivers :: "(llm_error, items) result \<Rightarrow> items \<Rightarrow> bool" where
  "delivers (Inl e) out = (out = [Inl e])"
| "delivers (Inr stream) out = (out = upto_error stream)"

definition log_ok :: "retry_policy \<Rightarrow> (llm_error, items) result list \<Rightarrow> bool" where
  "log_ok py log \<longleftrightarrow> log \<noteq> [] \<and> length log \<le> max 1 (py_max_attempts py) \<and> list_all (retry_worthy py) (butlast log)"

text \<open>Where an attempt counter stands for the answers logged so far, all worth a retry.\<close>

definition tried :: "retry_policy \<Rightarrow> nat \<Rightarrow> (llm_error, items) result list \<Rightarrow> bool" where
  "tried py attempt log \<longleftrightarrow> length log = attempt \<and> attempt < max 1 (py_max_attempts py) \<and> list_all (retry_worthy py) log"

definition established_ok ::
    "retry_policy \<Rightarrow> nat \<Rightarrow> 's \<times> (llm_error, items) result list \<Rightarrow>
     (llm_error, items \<times> nat) result \<times> 's \<times> (llm_error, items) result list \<Rightarrow> bool" where
  "established_ok py attempt s r \<longleftrightarrow> (tried py attempt (snd s) \<longrightarrow> log_ok py (snd (snd r)) \<and>
     (case fst r of
        Inl e \<Rightarrow> last (snd (snd r)) = Inl e
      | Inr (stream, a) \<Rightarrow> last (snd (snd r)) = Inr stream \<and> a = length (snd (snd r))))"

lemma logged_stream: "cm_stream (logged cm) req s = (r, s1) \<Longrightarrow> snd s1 = snd s @ [r]"
  by (auto simp: logged_def split: prod.splits)

lemma logged_frame [simp]:
  "snd (cm_sleep (logged cm) d s) = snd s" "snd (cm_pull (logged cm) s) = snd s"
  by (auto simp: logged_def split: prod.splits)

lemma establish_logged: "established_ok py attempt s (establish py (logged cm) req attempt s)"
proof (rule establish_induct [of "logged cm" req "established_ok py" py])
  fix attempt stream and s s1 :: "'a \<times> (llm_error, items) result list"
  assume "cm_stream (logged cm) req s = (Inr stream, s1)"
  from logged_stream [OF this] show "established_ok py attempt s (Inr (stream, attempt + 1), s1)"
    by (auto simp: established_ok_def tried_def log_ok_def)
next
  fix attempt e and s s1 :: "'a \<times> (llm_error, items) result list"
  assume "cm_stream (logged cm) req s = (Inl e, s1)"
  from logged_stream [OF this] show "established_ok py attempt s (Inl e, s1)"
    by (auto simp: established_ok_def tried_def log_ok_def)
next
  fix attempt e d and s s1 :: "'a \<times> (llm_error, items) result list"
  assume c: "cm_stream (logged cm) req s = (Inl e, s1)" and more: "attempt + 1 < py_max_attempts py" "is_retryable py e"
    and ih: "established_ok py (attempt + 1) (cm_sleep (logged cm) d s1)
      (establish py (logged cm) req (attempt + 1) (cm_sleep (logged cm) d s1))"
  have "tried py attempt (snd s) \<Longrightarrow> tried py (attempt + 1) (snd (cm_sleep (logged cm) d s1))"
    using logged_stream [OF c] more by (auto simp: tried_def)
  with ih show "established_ok py attempt s (establish py (logged cm) req (attempt + 1) (cm_sleep (logged cm) d s1))"
    by (simp add: established_ok_def)
qed

lemma forward_log: "forward py (logged cm) attempt fw items s = (out, torn, s') \<Longrightarrow> snd s' = snd s"
  by (induction py "logged cm" attempt fw items s arbitrary: out torn s' rule: forward.induct)
    (auto split: prod.splits if_splits simp: Let_def)

lemma forward_out:
  "forward py cm attempt fw items s = (out, None, s') \<Longrightarrow> out = upto_error items"
  by (induction py cm attempt fw items s arbitrary: out s' rule: forward.induct)
    (auto split: prod.splits if_splits simp: Let_def upto_error_def)

lemma forward_torn_first:
  "forward py cm attempt False items s = (out, Some e, s') \<Longrightarrow>
   out = [] \<and> attempt < py_max_attempts py \<and> retry_worthy py (Inr items)"
proof -
  have forwarded: "forward py cm attempt True items s = (out, Some e, s') \<Longrightarrow> False" for items s out s'
  proof (induction items arbitrary: s out s')
    case (Cons a items)
    then show ?case by (cases a) (auto split: prod.splits simp: Let_def)
  qed simp
  assume "forward py cm attempt False items s = (out, Some e, s')"
  then show ?thesis
    by (cases "(py, cm, attempt, False, items, s)" rule: forward.cases)
      (auto split: prod.splits if_splits simp: Let_def dest: forwarded)
qed

lemma retrying_logged:
  "log_ok py (snd s) \<Longrightarrow> last (snd s) = Inr stream \<Longrightarrow> attempt = length (snd s) \<Longrightarrow>
   retrying_items py (logged cm) req stream attempt s = (out, s') \<Longrightarrow>
   log_ok py (snd s') \<and> delivers (last (snd s')) out"
proof (induction py "logged cm" req stream attempt s arbitrary: out s' rule: retrying_items.induct)
  case (1 py req stream attempt s)
  obtain fo torn s1 where f: "forward py (logged cm) attempt False stream s = (fo, torn, s1)" by (metis surj_pair)
  have l1: "snd s1 = snd s" by (rule forward_log [OF f])
  show ?case
  proof (cases torn)
    case None
    then have "out = upto_error stream \<and> s' = s1"
      using "1.prems"(4) f forward_out by (fastforce simp: retrying_items.simps [of py "logged cm" req stream attempt s])
    then show ?thesis using "1.prems" l1 by simp
  next
    case (Some e)
    let ?s2 = "cm_sleep (logged cm) (jittered (cm_subsec (logged cm) s1) attempt (delay_for_error py e attempt)) s1"
    obtain q s3 where q: "establish py (logged cm) req attempt ?s2 = (q, s3)" by (rule prod.exhaust)
    have "forward py (logged cm) attempt False stream s = (fo, Some e, s1)" using f Some by simp
    from forward_torn_first [OF this]
    have torn: "fo = []" "attempt < py_max_attempts py" "retry_worthy py (Inr stream)" by simp_all
    have "snd s = butlast (snd s) @ [Inr stream]"
      using "1.prems" by (metis append_butlast_last_id log_ok_def)
    then have "list_all (retry_worthy py) (snd s)"
      using torn "1.prems"(1) by (metis list.pred_inject list_all_append log_ok_def)
    then have "tried py attempt (snd ?s2)" using torn "1.prems" l1 by (simp add: tried_def)
    then have ok: "log_ok py (snd s3) \<and> (case q of Inl e \<Rightarrow> last (snd s3) = Inl e
        | Inr (stream, a) \<Rightarrow> last (snd s3) = Inr stream \<and> a = length (snd s3))"
      using establish_logged [of py attempt ?s2 cm req] q by (simp add: established_ok_def split: sum.splits prod.splits)
    show ?thesis
    proof (cases q)
      case (Inl e')
      then show ?thesis using "1.prems"(4) f Some q torn ok
        by (auto simp: retrying_items.simps [of py "logged cm" req stream attempt s])
    next
      case (Inr p)
      obtain stream' a' where p: "p = (stream', a')" by fastforce
      obtain out' s4 where r: "retrying_items py (logged cm) req stream' a' s3 = (out', s4)" by (rule prod.exhaust)
      have "out = out' \<and> s' = s4"
        using "1.prems"(4) f Some q torn Inr p r
        by (auto simp: retrying_items.simps [of py "logged cm" req stream attempt s])
      moreover have "log_ok py (snd s4) \<and> delivers (last (snd s4)) out'"
        using "1.hyps" [OF f [symmetric] refl Some q [symmetric] Inr p [symmetric]] ok Inr p r by simp
      ultimately show ?thesis by simp
    qed
  qed
qed

section \<open>Properties\<close>

text \<open>C16: retries are bounded and never duplicate: whatever endpoint, clocks and delays do, the
  endpoint is asked at least once and at most the configured number of times, every answer but the
  last was a retryable error before any event, and the consumer gets exactly the last answer.\<close>

theorem retry_bounded_and_exact:
  "case retry_stream (retrying_new py) (logged cm) req (s, []) of (r, s', log) \<Rightarrow>
     0 < length log \<and> length log \<le> max 1 (py_max_attempts py) \<and>
     list_all (retry_worthy py) (butlast log) \<and>
     (case r of
        Inl e \<Rightarrow> last log = Inl e
      | Inr out \<Rightarrow> delivers (last log) out)"
proof -
  let ?py = "retrying_new py"
  have same: "is_retryable ?py = is_retryable py" by (auto simp: retrying_new_def is_retryable_def fun_eq_iff split: llm_error.split)
  then have worthy: "retry_worthy ?py = retry_worthy py"
    by (auto simp: fun_eq_iff elim!: retry_worthy.elims)
  have log_ok: "log_ok ?py log \<Longrightarrow> 0 < length log \<and> length log \<le> max 1 (py_max_attempts py) \<and>
      list_all (retry_worthy py) (butlast log)" for log
    unfolding log_ok_def worthy by (auto simp: retrying_new_def split: if_splits)
  obtain q s1 where q: "establish ?py (logged cm) req 0 (s, []) = (q, s1)" by (rule prod.exhaust)
  have "tried ?py 0 (snd (s, []))" by (simp add: tried_def)
  then have ok: "log_ok ?py (snd s1) \<and> (case q of Inl e \<Rightarrow> last (snd s1) = Inl e
      | Inr (stream, a) \<Rightarrow> last (snd s1) = Inr stream \<and> a = length (snd s1))"
    using establish_logged [of ?py 0 "(s, [])" cm req] q by (simp add: established_ok_def split: sum.splits prod.splits)
  show ?thesis
  proof (cases q)
    case (Inl e)
    then show ?thesis using q ok log_ok by (cases s1) (simp add: retry_stream_def)
  next
    case (Inr p)
    obtain stream a where p: "p = (stream, a)" by fastforce
    obtain out s2 where r: "retrying_items ?py (logged cm) req stream a s1 = (out, s2)" by (rule prod.exhaust)
    have "log_ok ?py (snd s2) \<and> delivers (last (snd s2)) out"
      using ok Inr p by (intro retrying_logged [OF _ _ _ r]) auto
    then show ?thesis using q Inr p r log_ok by (cases s2) (simp add: retry_stream_def)
  qed
qed

text \<open>Bad credentials and an exhausted account are never retried.\<close>

lemma never_retried: "is_auth_error e \<or> is_quota_error e \<Longrightarrow> \<not> is_retryable py e"
  by (auto simp: is_retryable_def)

text \<open>The jitter stays between half the delay and the delay. It also shortens a delay the server asked
  for.\<close>

lemma jittered_bounds:
  assumes "2 \<le> delay" and "delay < 2 ^ 64"
  shows "delay - delay div 2 \<le> jittered subsec n delay \<and> jittered subsec n delay < delay"
proof -
  define nanos where "nanos = (case subsec of
      Some t \<Rightarrow> unat (xor (of_nat t) (push_bit 32 (of_nat n)) :: 64 word) | None \<Rightarrow> 0)"
  have "delay div 2 \<noteq> 0" "delay \<noteq> 0" using assms(1) by simp_all
  then have "jittered subsec n delay = delay - delay div 2 + nanos mod (delay div 2)"
    using assms(2) by (simp add: jittered_def Let_def nanos_def)
  moreover have "nanos mod (delay div 2) < delay div 2" using \<open>delay div 2 \<noteq> 0\<close> by simp
  moreover have "r < h \<Longrightarrow> h \<le> d \<Longrightarrow> d - h \<le> d - h + r \<and> d - h + r < d" for d h r :: nat by arith
  ultimately show ?thesis by (metis div_le_dividend)
qed

lemma retry_after_cut_short:
  assumes "2 \<le> hint" and "hint < 2 ^ 64"
  shows "jittered subsec n (delay_for_error py (LlmRateLimited m (Some hint)) n) < hint"
  using jittered_bounds [OF assms] by (simp add: delay_for_error_def)

end
