(* ===== verification/Checkpoints.thy ===== *)
theory Checkpoints
  imports Session_Files "HOL-Library.Multiset" "HOL-Library.Product_Lexorder" "HOL-Library.List_Lexorder" "HOL-Library.Char_ord"
begin

text \<open>
  Turn checkpoints: the in-memory store with rollback, the durable copy of one checkpoint and
  the listing of resume labels (\<open>crates/state/checkpoint/src/lib.rs\<close>, the label rule of
  \<open>crates/state/checkpoint/src/snapshot.rs\<close>), and the persist-then-act helpers of the session
  actor (\<open>crates/operations/actor/src/durable.rs\<close>).

  The directory is the table of files of \<open>Session_Files\<close>, a file holding the JSON it parses to.
  A write of the durable copy may fail at any of its steps; a crash at a step leaves the same
  files as a failure there. The outcome of each step is an argument.
\<close>

section \<open>The in-memory store\<close>

record checkpoint =
  cp_seq :: nat
  cp_label :: string
  cp_data :: string

datatype checkpoint_error = UnknownLabel string | InvalidLabel string | CheckpointIo string

definition checkpoint_error_str :: "checkpoint_error \<Rightarrow> string" where
  "checkpoint_error_str e =
     (case e of
        UnknownLabel l \<Rightarrow> ''unknown checkpoint: '' @ l
      | InvalidLabel l \<Rightarrow> ''invalid checkpoint label: '' @ l
      | CheckpointIo m \<Rightarrow> ''checkpoint IO failed: '' @ m)"

type_synonym checkpoint_store = "checkpoint list"

definition cps_save :: "string \<Rightarrow> string \<Rightarrow> checkpoint_store \<Rightarrow> nat \<times> checkpoint_store" where
  "cps_save label data st =
     (let seq = length st + 1
      in (seq, st @ [\<lparr>cp_seq = seq, cp_label = label, cp_data = data\<rparr>]))"

definition cps_get :: "string \<Rightarrow> checkpoint_store \<Rightarrow> checkpoint option" where
  "cps_get label st = List.find (\<lambda>c. cp_label c = label) (rev st)"

text \<open>\<open>rposition\<close>: the last index that satisfies the predicate.\<close>

fun rposition :: "('a \<Rightarrow> bool) \<Rightarrow> 'a list \<Rightarrow> nat option" where
  "rposition p [] = None"
| "rposition p (x # xs) =
     (case rposition p xs of Some i \<Rightarrow> Some (Suc i) | None \<Rightarrow> if p x then Some 0 else None)"

definition cps_rollback ::
    "string \<Rightarrow> checkpoint_store \<Rightarrow> (checkpoint_error, checkpoint) result \<times> checkpoint_store" where
  "cps_rollback label st =
     (case rposition (\<lambda>c. cp_label c = label) st of
        None \<Rightarrow> (Inl (UnknownLabel label), st)
      | Some pos \<Rightarrow> let st' = take (pos + 1) st in (Inr (st' ! pos), st'))"

definition cps_labels :: "checkpoint_store \<Rightarrow> string list" where
  "cps_labels st = map cp_label st"

subsection \<open>The store keeps its numbering\<close>

definition cps_ok :: "checkpoint_store \<Rightarrow> bool" where
  "cps_ok st \<longleftrightarrow> map cp_seq st = [1..<length st + 1]"

lemma rposition_None_iff: "rposition p xs = None \<longleftrightarrow> filter p xs = []"
  by (induction xs) (auto split: option.splits)

lemma rposition_Some:
  "rposition p xs = Some i \<Longrightarrow>
   i < length xs \<and> p (xs ! i) \<and> filter p (drop (Suc i) xs) = []"
proof (induction xs arbitrary: i)
  case (Cons x xs)
  then show ?case by (auto simp: rposition_None_iff split: option.splits if_splits)
qed simp

lemma find_append:
  "List.find p (xs @ ys) = (case List.find p xs of Some y \<Rightarrow> Some y | None \<Rightarrow> List.find p ys)"
  by (induction xs) auto

lemma find_rev_rposition:
  "List.find p (rev xs) = map_option (\<lambda>i. xs ! i) (rposition p xs)"
  by (induction xs) (auto simp: find_append split: option.splits)

lemma cps_ok_Nil [simp]: "cps_ok []"
  by (simp add: cps_ok_def)

lemma cps_save_ok: "cps_ok st \<Longrightarrow> cps_ok (snd (cps_save label data st))"
  by (simp add: cps_ok_def cps_save_def Let_def)

lemma cps_ok_take: "cps_ok st \<Longrightarrow> cps_ok (take n st)"
  by (simp add: cps_ok_def take_map [symmetric] take_upt min_def del: upt_Suc)

lemma cps_rollback_ok: "cps_ok st \<Longrightarrow> cps_ok (snd (cps_rollback label st))"
  by (auto simp: cps_rollback_def Let_def cps_ok_take split: option.splits)

lemma cps_get_save:
  "cps_get l (snd (cps_save label data st)) =
   (if l = label then Some \<lparr>cp_seq = length st + 1, cp_label = label, cp_data = data\<rparr> else cps_get l st)"
  by (auto simp: cps_get_def cps_save_def Let_def)

text \<open>A rollback hands out the newest snapshot of its label, which stays the newest one.\<close>

lemma cps_rollback_get:
  "case cps_get label st of
     Some c \<Rightarrow> fst (cps_rollback label st) = Inr c \<and> cps_get label (snd (cps_rollback label st)) = Some c \<and>
       last (snd (cps_rollback label st)) = c \<and> prefix (snd (cps_rollback label st)) st
   | None \<Rightarrow> cps_rollback label st = (Inl (UnknownLabel label), st)"
proof (cases "rposition (\<lambda>c. cp_label c = label) st")
  case None
  then show ?thesis by (simp add: cps_get_def find_rev_rposition cps_rollback_def)
next
  case (Some i)
  have i: "i < length st" "cp_label (st ! i) = label" using rposition_Some [OF Some] by auto
  then have split: "take (Suc i) st = take i st @ [st ! i]" by (simp add: take_Suc_conv_app_nth)
  have "prefix (take (Suc i) st) st" by (rule take_is_prefix)
  moreover have "cps_get label (take (Suc i) st) = Some (st ! i)"
    using i by (simp add: cps_get_def split)
  moreover have "cps_get label st = Some (st ! i)"
    using Some by (simp add: cps_get_def find_rev_rposition)
  ultimately show ?thesis
    using Some i by (simp add: cps_rollback_def Let_def) (simp add: split)
qed

section \<open>Policy and labels\<close>

record checkpoint_policy =
  cpp_before_model_request :: bool
  cpp_before_tool_side_effect :: bool

definition cpp_default :: checkpoint_policy where
  "cpp_default = \<lparr>cpp_before_model_request = True, cpp_before_tool_side_effect = True\<rparr>"

definition cpp_disabled :: checkpoint_policy where
  "cpp_disabled = \<lparr>cpp_before_model_request = False, cpp_before_tool_side_effect = False\<rparr>"

definition cpp_anything_enabled :: "checkpoint_policy \<Rightarrow> bool" where
  "cpp_anything_enabled p \<longleftrightarrow> cpp_before_model_request p \<or> cpp_before_tool_side_effect p"

definition CHECKPOINT_FILE_EXTENSION :: string where
  "CHECKPOINT_FILE_EXTENSION = ''json''"

definition validate_snapshot_label :: "string \<Rightarrow> (string, unit) result" where
  "validate_snapshot_label label =
     (if label = [] \<or> byte_len label > 64 then Inl ''invalid label (expected 1-64 chars [A-Za-z0-9_-])''
      else if list_all id_char label then Inr ()
      else Inl ''invalid label (expected [A-Za-z0-9_-] only, no path separators)'')"

definition validate_checkpoint_label :: "string \<Rightarrow> (checkpoint_error, unit) result" where
  "validate_checkpoint_label label =
     (case validate_snapshot_label label of Inl m \<Rightarrow> Inl (InvalidLabel m) | Inr u \<Rightarrow> Inr u)"

definition checkpoint_file_path :: "string \<Rightarrow> string \<Rightarrow> (checkpoint_error, string) result" where
  "checkpoint_file_path root label =
     (case validate_checkpoint_label label of
        Inl e \<Rightarrow> Inl e
      | Inr _ \<Rightarrow> Inr (path_join root (label @ ''.'' @ CHECKPOINT_FILE_EXTENSION)))"

section \<open>The durable copy\<close>

datatype save_step = SaveMkdir | SaveWrite | SaveSync | SaveRename

text \<open>\<open>torn\<close> is what a failing write leaves of the staging file.\<close>

record save_io =
  io_fault :: "save_step \<Rightarrow> string option"
  io_torn :: "json disk_file option"

definition staging_path :: "string \<Rightarrow> string \<Rightarrow> string" where
  "staging_path root label = path_join root (''.staging-'' @ label @ ''.'' @ CHECKPOINT_FILE_EXTENSION)"

definition checkpoint_payload :: "string \<Rightarrow> string \<Rightarrow> json" where
  "checkpoint_payload label data = JObj [(''label'', JStr label), (''data'', JStr data)]"

definition durable_save ::
    "save_io \<Rightarrow> string \<Rightarrow> string \<Rightarrow> string \<Rightarrow> json disk \<Rightarrow> (checkpoint_error, unit) result \<times> json disk" where
  "durable_save io root label data disk =
     (case checkpoint_file_path root label of
        Inl e \<Rightarrow> (Inl e, disk)
      | Inr dest \<Rightarrow>
          (case io_fault io SaveMkdir of
             Some m \<Rightarrow> (Inl (CheckpointIo m), disk)
           | None \<Rightarrow>
               let staging = staging_path root label; bytes = Parses (checkpoint_payload label data)
               in case io_fault io SaveWrite of
                    Some m \<Rightarrow> (Inl (CheckpointIo m),
                      case io_torn io of None \<Rightarrow> disk | Some f \<Rightarrow> tbl_insert staging f disk)
                  | None \<Rightarrow>
                      let written = tbl_insert staging bytes disk
                      in case io_fault io SaveSync of
                           Some m \<Rightarrow> (Inl (CheckpointIo m), written)
                         | None \<Rightarrow>
                             (case io_fault io SaveRename of
                                Some m \<Rightarrow> (Inl (CheckpointIo m), written)
                              | None \<Rightarrow> (Inr (), tbl_insert dest bytes (tbl_remove staging written)))))"

definition durable_load :: "string \<Rightarrow> string \<Rightarrow> json disk \<Rightarrow> (checkpoint_error, string option) result" where
  "durable_load root label disk =
     (case checkpoint_file_path root label of
        Inl e \<Rightarrow> Inl e
      | Inr dest \<Rightarrow>
          (case map_of disk dest of
             None \<Rightarrow> Inr None
           | Some (Unreadable m) \<Rightarrow> Inl (CheckpointIo m)
           | Some (DoesNotParse m) \<Rightarrow> Inl (CheckpointIo m)
           | Some (Parses v) \<Rightarrow> Inr (json_str_at ''data'' v)))"

subsection \<open>A save is all or nothing\<close>

lemma id_char_not_dot: "\<not> id_char (CHR ''.'')"
  by (simp add: id_char_def is_alnum_def is_digit_def is_upper_def is_lower_def char_code_def)

lemma checkpoint_file_path_Inr:
  "checkpoint_file_path root label = Inr dest \<longleftrightarrow>
   label \<noteq> [] \<and> byte_len label \<le> 64 \<and> list_all id_char label \<and> dest = json_file root label"
  by (auto simp: checkpoint_file_path_def validate_checkpoint_label_def validate_snapshot_label_def
      json_file_def CHECKPOINT_FILE_EXTENSION_def)

lemma staging_never_checkpoint: "list_all id_char label \<Longrightarrow> staging_path root l \<noteq> json_file root label"
  by (cases label)
     (auto simp: staging_path_def json_file_def CHECKPOINT_FILE_EXTENSION_def id_char_not_dot)

lemma durable_save_refused:
  "checkpoint_file_path root label = Inl e \<Longrightarrow> durable_save io root label data disk = (Inl e, disk)"
  by (simp add: durable_save_def)

lemma durable_save_frame:
  assumes "p \<noteq> staging_path root label" and "p \<noteq> json_file root label"
  shows "map_of (snd (durable_save io root label data disk)) p = map_of disk p"
  using assms
  by (auto simp: durable_save_def Let_def checkpoint_file_path_Inr split: sum.splits option.splits)

lemma durable_save_dest:
  assumes "checkpoint_file_path root label = Inr dest"
  shows "map_of (snd (durable_save io root label data disk)) dest =
    (if is_ok (fst (durable_save io root label data disk))
     then Some (Parses (checkpoint_payload label data)) else map_of disk dest)"
proof -
  have "staging_path root label \<noteq> dest"
    using assms staging_never_checkpoint by (auto simp: checkpoint_file_path_Inr)
  then show ?thesis
    using assms by (simp add: durable_save_def Let_def split: option.splits)
qed

lemma durable_save_ok_label:
  "is_ok (fst (durable_save io root label data disk)) \<Longrightarrow> checkpoint_file_path root label = Inr (json_file root label)"
  by (cases "checkpoint_file_path root label") (auto simp: durable_save_refused checkpoint_file_path_Inr)

lemma checkpoint_save_frame:
  "durable_load root l (snd (durable_save io root label data disk)) =
   (if l = label \<and> is_ok (fst (durable_save io root label data disk)) then Inr (Some data)
    else durable_load root l disk)"
proof (cases "checkpoint_file_path root l")
  case (Inl e)
  then have "\<not> (l = label \<and> is_ok (fst (durable_save io root label data disk)))"
    using durable_save_ok_label by fastforce
  then show ?thesis using Inl by (simp add: durable_load_def)
next
  case (Inr dest)
  then have dest: "dest = json_file root l" "list_all id_char l" by (simp_all add: checkpoint_file_path_Inr)
  show ?thesis
  proof (cases "l = label")
    case True
    then show ?thesis
      using Inr durable_save_dest [of root label dest io data disk]
      by (simp add: durable_load_def checkpoint_payload_def json_str_at_def)
  next
    case False
    then have "dest \<noteq> json_file root label" using dest by simp
    moreover have "dest \<noteq> staging_path root label" using dest staging_never_checkpoint by metis
    ultimately show ?thesis
      using False Inr by (simp add: durable_load_def durable_save_frame)
  qed
qed

text \<open>C22: Saving a durable checkpoint is atomic and touches one label. Whatever step of the save
  fails, and whatever a failing write leaves behind, loading the label afterwards gives the new
  payload exactly when the save reported success and otherwise what it gave before; loading any
  other label gives what it gave before.\<close>

theorem checkpoint_save_atomic:
  "durable_load root l (snd (durable_save io root label data disk)) =
   (if l = label \<and> is_ok (fst (durable_save io root label data disk)) then Inr (Some data)
    else durable_load root l disk)"
  by (rule checkpoint_save_frame)

section \<open>Resume labels\<close>

text \<open>\<open>Path::file_stem\<close> and \<open>Path::extension\<close>: cut at the last dot, unless it leads the name.\<close>

definition split_extension :: "string \<Rightarrow> string \<times> string option" where
  "split_extension name =
     (case rposition (\<lambda>c. c = CHR ''.'') name of
        None \<Rightarrow> (name, None)
      | Some 0 \<Rightarrow> (name, None)
      | Some i \<Rightarrow> (take i name, Some (drop (Suc i) name)))"

definition label_order_key :: "string \<Rightarrow> string \<times> nat \<times> string" where
  "label_order_key label =
     (let split = (case rposition (\<lambda>c. \<not> is_digit c) label of Some i \<Rightarrow> i + 1 | None \<Rightarrow> 0)
      in (take split label,
          (case parse_uint (max_of 64) (drop split label) of Some n \<Rightarrow> n | None \<Rightarrow> max_of 64),
          label))"

text \<open>One directory entry: the label it names, when it is a checkpoint, with its time of change
  in ticks since the epoch.\<close>

definition labeled_entry :: "string \<times> nat option \<Rightarrow> (nat \<times> string) option" where
  "labeled_entry entry =
     (case entry of (name, modified) \<Rightarrow>
        (case split_extension name of (stem, ext) \<Rightarrow>
           if ext \<noteq> Some CHECKPOINT_FILE_EXTENSION then None
           else if \<not> is_ok (validate_checkpoint_label stem) then None
           else if starts_with stem ''.'' \<or> starts_with stem ''.staging-'' then None
           else Some (case modified of Some t \<Rightarrow> t | None \<Rightarrow> 0, stem)))"

definition list_resume_labels :: "(string \<times> nat option) list option \<Rightarrow> string list" where
  "list_resume_labels dir =
     (case dir of
        None \<Rightarrow> []
      | Some entries \<Rightarrow>
          map snd (sort_key (\<lambda>(t, l). (t, label_order_key l)) (List.map_filter labeled_entry entries)))"

definition turn_label :: "nat \<Rightarrow> string" where
  "turn_label seq = ''turn-'' @ show_nat seq"

lemma rposition_append:
  "rposition p (xs @ ys) =
   (case rposition p ys of Some i \<Rightarrow> Some (length xs + i) | None \<Rightarrow> rposition p xs)"
  by (induction xs) (auto split: option.splits)

lemma label_order_key_turn:
  assumes "n \<le> max_of 64"
  shows "label_order_key (turn_label n) = (''turn-'', n, turn_label n)"
proof -
  have "rposition (\<lambda>c. \<not> is_digit c) (show_nat n) = None"
    using show_nat_digits [of n] by (auto simp: rposition_None_iff list_all_iff filter_empty_conv)
  moreover have "rposition (\<lambda>c. \<not> is_digit c) ''turn-'' = Some 4"
    by (simp add: is_digit_def char_code_def)
  ultimately have "rposition (\<lambda>c. \<not> is_digit c) (turn_label n) = Some 4"
    by (simp add: turn_label_def rposition_append del: append_Cons rposition.simps)
  then show ?thesis
    using assms by (simp add: label_order_key_def Let_def turn_label_def parse_show_nat)
qed

lemma turn_label_inject [simp]: "turn_label m = turn_label n \<longleftrightarrow> m = n"
  by (simp add: turn_label_def)

lemma length_show_nat: "n < 10 ^ Suc k \<Longrightarrow> length (show_nat n) \<le> Suc k"
proof (induction k arbitrary: n)
  case 0
  then show ?case by (subst show_nat.simps) simp
next
  case (Suc k)
  then have "n div 10 < 10 ^ Suc k" by (simp add: less_mult_imp_div_less)
  then have "length (show_nat (n div 10)) \<le> Suc k" by (rule Suc.IH)
  then show ?case by (subst show_nat.simps) simp
qed

lemma is_digit_ascii: "is_digit c \<Longrightarrow> is_ascii c"
  by (simp add: is_digit_def is_ascii_def Let_def)

lemma byte_len_digits: "list_all is_digit s \<Longrightarrow> byte_len s = length s"
  by (induction s) (simp_all add: byte_len_def is_digit_ascii)

lemma turn_label_valid: "n \<le> max_of 64 \<Longrightarrow> is_ok (validate_checkpoint_label (turn_label n))"
proof -
  assume "n \<le> max_of 64"
  then have "n < 10 ^ Suc 19" by (simp add: max_of_def)
  then have "length (show_nat n) \<le> 20" using length_show_nat by fastforce
  then have "byte_len (turn_label n) \<le> 64"
    using byte_len_digits [OF show_nat_digits [of n]]
    by (simp add: turn_label_def byte_len_def is_ascii_def char_code_def)
  moreover have "list_all id_char (show_nat n)"
    using show_nat_digits [of n] by (rule list.pred_mono_strong) (simp add: id_char_def is_alnum_def)
  then have "list_all id_char (turn_label n)"
    by (simp add: turn_label_def id_char_def is_alnum_def is_digit_def is_upper_def is_lower_def char_code_def)
  ultimately show ?thesis
    by (simp add: validate_checkpoint_label_def validate_snapshot_label_def turn_label_def)
qed

lemma labeled_entry_turn:
  assumes "n \<le> max_of 64"
  shows "labeled_entry (turn_label n @ ''.json'', modified) =
    Some (case modified of Some t \<Rightarrow> t | None \<Rightarrow> 0, turn_label n)"
proof -
  have "rposition (\<lambda>c. c = CHR ''.'') ''.json'' = Some 0" by simp
  then have "rposition (\<lambda>c. c = CHR ''.'') (turn_label n @ ''.json'') = Some (length (turn_label n))"
    by (simp add: rposition_append del: append_Cons rposition.simps)
  moreover have "turn_label n \<noteq> []" by (simp add: turn_label_def)
  ultimately have "split_extension (turn_label n @ ''.json'') = (turn_label n, Some ''json'')"
    by (simp add: split_extension_def split: nat.split)
  moreover have "\<not> starts_with (turn_label n) ''.''" "\<not> starts_with (turn_label n) ''.staging-''"
    by (simp_all add: turn_label_def starts_with_def)
  ultimately show ?thesis
    using turn_label_valid [OF assms] by (simp add: labeled_entry_def CHECKPOINT_FILE_EXTENSION_def)
qed

text \<open>The resume listing names the newest turn last. When the checkpoint files of a directory are
  those of turns one to \<open>k\<close> and later turns were not stamped earlier, then in whatever order the
  directory is read, with whatever other files in it, and with any number of equal stamps, the
  listing is the labels of the turns in their order.\<close>

theorem resume_labels_in_turn_order:
  assumes "mset (filter (\<lambda>e. labeled_entry e \<noteq> None) listing) =
      mset (map (\<lambda>n. (turn_label n @ ''.json'', Some (stamp n))) [1..<Suc k])"
    and "sorted (map stamp [1..<Suc k])"
    and "k \<le> max_of 64"
  shows "list_resume_labels (Some listing) = map turn_label [1..<Suc k]"
proof -
  let ?key = "\<lambda>(t, l). (t, label_order_key l)" and ?pairs = "map (\<lambda>n. (stamp n, turn_label n)) [1..<Suc k]"
  have "mset (List.map_filter labeled_entry listing) =
      image_mset (the \<circ> labeled_entry) (mset (filter (\<lambda>e. labeled_entry e \<noteq> None) listing))"
    by (simp add: List.map_filter_def)
  also have "\<dots> = mset (map (the \<circ> labeled_entry) (map (\<lambda>n. (turn_label n @ ''.json'', Some (stamp n))) [1..<Suc k]))"
    by (simp only: assms(1) mset_map)
  also have "map (the \<circ> labeled_entry) (map (\<lambda>n. (turn_label n @ ''.json'', Some (stamp n))) [1..<Suc k]) = ?pairs"
    using assms(3) by (simp add: labeled_entry_turn del: upt_Suc)
  finally have mset: "mset (List.map_filter labeled_entry listing) = mset ?pairs" .
  have "inj_on ?key (set (List.map_filter labeled_entry listing))"
    by (rule inj_onI) (auto simp: label_order_key_def Let_def)
  moreover have "sorted (map ?key ?pairs)"
    using assms(2,3)
    by (auto simp: sorted_iff_nth_mono label_order_key_turn less_eq_prod_def simp del: upt_Suc)
       (metis le_neq_implies_less order_refl)
  ultimately have "sort_key ?key (List.map_filter labeled_entry listing) = ?pairs"
    by (intro sort_key_inj_key_eq [OF mset])
  then show ?thesis by (simp add: list_resume_labels_def comp_def del: upt_Suc)
qed

theorem resume_labels_in_turn_order_witness:
  "list_resume_labels (Some [(''turn-2.json'', Some 5), (''.staging-turn-3.json'', Some 9),
     (''notes.txt'', None), (''turn-1.json'', Some 5)]) = [''turn-1'', ''turn-2'']"
proof -
  let ?l = "[(''turn-2.json'', Some 5), (''.staging-turn-3.json'', Some 9), (''notes.txt'', None), (''turn-1.json'', Some 5)]"
  have t1: "turn_label 1 = ''turn-1''" and t2: "turn_label 2 = ''turn-2''"
    by code_simp+
  have upt: "[1..<Suc 2] = [1, 2::nat]" by (simp add: upt_rec)
  have "labeled_entry (''.staging-turn-3.json'', Some 9) = None" "labeled_entry (''notes.txt'', None) = None"
    by (simp_all add: labeled_entry_def split_extension_def CHECKPOINT_FILE_EXTENSION_def
        validate_checkpoint_label_def validate_snapshot_label_def id_char_not_dot)
  moreover have "labeled_entry (''turn-2.json'', Some 5) = Some (5, ''turn-2'')"
    "labeled_entry (''turn-1.json'', Some 5) = Some (5, ''turn-1'')"
    using labeled_entry_turn [of 2 "Some 5"] labeled_entry_turn [of 1 "Some 5"]
    unfolding t1 t2 by (simp_all add: max_of_def)
  ultimately have "mset (filter (\<lambda>e. labeled_entry e \<noteq> None) ?l) =
      mset (map (\<lambda>n. (turn_label n @ ''.json'', Some ((\<lambda>_. 5) n))) [1..<Suc 2])"
    unfolding upt by (simp add: t1 [simplified] t2)
  then show ?thesis
    using resume_labels_in_turn_order [where listing = ?l and stamp = "\<lambda>_. 5" and k = 2]
    unfolding upt by (simp add: t1 [simplified] t2 max_of_def)
qed

section \<open>Persist, then act\<close>

record turn_durability =
  td_store :: checkpoint_store
  td_root :: string
  td_policy :: checkpoint_policy

definition persist_checkpoint ::
    "save_io \<Rightarrow> string \<Rightarrow> bool \<Rightarrow> string \<Rightarrow> string \<Rightarrow> checkpoint_store \<Rightarrow> json disk \<Rightarrow>
     (checkpoint_error, unit) result option \<times> checkpoint_store \<times> json disk" where
  "persist_checkpoint io root enabled label snapshot sink disk =
     (if \<not> enabled then (None, sink, disk)
      else
        let sink' = snd (cps_save label snapshot sink)
        in case durable_save io root label snapshot disk of (r, disk') \<Rightarrow> (Some r, sink', disk'))"

definition persist_then_act ::
    "save_io \<Rightarrow> string \<Rightarrow> bool \<Rightarrow> string \<Rightarrow> string \<Rightarrow> (checkpoint_store \<Rightarrow> json disk \<Rightarrow> 'r) \<Rightarrow>
     checkpoint_store \<Rightarrow> json disk \<Rightarrow>
     ('r \<times> (checkpoint_error, unit) result option) \<times> checkpoint_store \<times> json disk" where
  "persist_then_act io root enabled label snapshot act sink disk =
     (case persist_checkpoint io root enabled label snapshot sink disk of
        (durable, sink', disk') \<Rightarrow> ((act sink' disk', durable), sink', disk'))"

text \<open>The warnings a failed save raises, with the state it leaves.\<close>

definition checkpoint_turn ::
    "save_io \<Rightarrow> turn_durability option \<Rightarrow> bool \<Rightarrow> string \<Rightarrow> string \<Rightarrow> json disk \<Rightarrow>
     string list \<times> turn_durability option \<times> json disk" where
  "checkpoint_turn io durability enabled label snapshot disk =
     (case durability of
        None \<Rightarrow> ([], None, disk)
      | Some dur \<Rightarrow>
          (case persist_checkpoint io (td_root dur) enabled label snapshot (td_store dur) disk of
             (durable, store', disk') \<Rightarrow>
               ((case durable of
                   Some (Inl cause) \<Rightarrow>
                     [''durable checkpoint '' @ label @ '' failed ('' @ checkpoint_error_str cause @
                      ''); turn proceeds without a new recovery point'']
                 | _ \<Rightarrow> []), Some (dur\<lparr>td_store := store'\<rparr>), disk')))"

definition render_snapshot :: "(json \<Rightarrow> string) \<Rightarrow> history_entry list \<Rightarrow> string" where
  "render_snapshot render entries =
     join [newline]
       (map (\<lambda>e. (case he_role e of User \<Rightarrow> ''user'' | Assistant \<Rightarrow> ''assistant'') @ '': '' @ entry_text render e)
          entries)"

lemma persist_disabled [simp]: "persist_checkpoint io root False label snapshot sink disk = (None, sink, disk)"
  by (simp add: persist_checkpoint_def)

text \<open>The action sees the saved snapshot, in memory always and on disk when the save succeeded.\<close>

lemma persist_precedes_act:
  "case fst (persist_then_act io root True label snapshot (\<lambda>sink disk. (cps_get label sink, durable_load root label disk)) sink disk) of
     ((in_memory, stored), durable) \<Rightarrow>
       map_option cp_data in_memory = Some snapshot \<and>
       (case durable of Some (Inr _) \<Rightarrow> stored = Inr (Some snapshot)
        | Some (Inl _) \<Rightarrow> stored = durable_load root label disk | None \<Rightarrow> False)"
  using checkpoint_save_frame [of root label io label snapshot disk]
  by (cases "durable_save io root label snapshot disk")
     (auto simp: persist_then_act_def persist_checkpoint_def Let_def cps_get_save split: sum.splits)

end
