(* ===== verification/Approval_Gate.thy ===== *)
theory Approval_Gate
  imports Prelude
begin

text \<open>
  The approval gate and the question gate of \<open>crates/safety/gate/src/lib.rs\<close>: waiters parked
  under a tool call id, each with a one-shot channel. The two gates differ only in what they
  deliver, a decision or an answer text, so one gate over the delivered type models both.

  A channel is a number into the list of channels ever made. The receiver's end belongs to the
  parked run, which may drop it at any time.
\<close>

section \<open>The gate\<close>

datatype approval_decision = AllowOnce | AllowAlways | DenyWith string

datatype gate_error = DuplicateWaiter string

text \<open>A one-shot channel: both ends live and empty, filled, its sender gone, or its receiver gone.\<close>

datatype 'd channel = Waits | Delivered 'd | SenderDropped | ReceiverDropped

record 'd gate =
  gt_pending :: "(string, nat) tbl"
  gt_channels :: "'d channel list"

definition gate_new :: "'d gate" where
  "gate_new = \<lparr>gt_pending = [], gt_channels = []\<rparr>"

text \<open>Dropping the sender of a channel that still waits.\<close>

definition drop_sender :: "nat \<Rightarrow> 'd gate \<Rightarrow> 'd gate" where
  "drop_sender n g =
     (if gt_channels g ! n = Waits then g\<lparr>gt_channels := (gt_channels g)[n := SenderDropped]\<rparr> else g)"

definition gate_wait_for :: "string \<Rightarrow> 'd gate \<Rightarrow> (gate_error, nat) result \<times> 'd gate" where
  "gate_wait_for call_id g =
     (case map_of (gt_pending g) call_id of
        Some _ \<Rightarrow> (Inl (DuplicateWaiter call_id), g)
      | None \<Rightarrow>
          let n = length (gt_channels g)
          in (Inr n, \<lparr>gt_pending = tbl_insert call_id n (gt_pending g), gt_channels = gt_channels g @ [Waits]\<rparr>))"

definition gate_decide :: "string \<Rightarrow> 'd \<Rightarrow> 'd gate \<Rightarrow> bool \<times> 'd gate" where
  "gate_decide call_id d g =
     (case map_of (gt_pending g) call_id of
        None \<Rightarrow> (False, g)
      | Some n \<Rightarrow>
          let g' = g\<lparr>gt_pending := tbl_remove call_id (gt_pending g)\<rparr>
          in if gt_channels g ! n = Waits
             then (True, g'\<lparr>gt_channels := (gt_channels g)[n := Delivered d]\<rparr>)
             else (False, g'))"

definition gate_cancel :: "string \<Rightarrow> 'd gate \<Rightarrow> bool \<times> 'd gate" where
  "gate_cancel call_id g =
     (case map_of (gt_pending g) call_id of
        None \<Rightarrow> (False, g)
      | Some n \<Rightarrow> (True, drop_sender n (g\<lparr>gt_pending := tbl_remove call_id (gt_pending g)\<rparr>)))"

definition gate_clear :: "'d gate \<Rightarrow> 'd gate" where
  "gate_clear g = (fold (\<lambda>(_, n). drop_sender n) (gt_pending g) g)\<lparr>gt_pending := []\<rparr>"

definition gate_pending_count :: "'d gate \<Rightarrow> nat" where
  "gate_pending_count g = length (gt_pending g)"

text \<open>The waiting run gives its receiver up.\<close>

definition drop_receiver :: "nat \<Rightarrow> 'd gate \<Rightarrow> 'd gate" where
  "drop_receiver n g =
     (if n < length (gt_channels g) \<and> gt_channels g ! n = Waits
      then g\<lparr>gt_channels := (gt_channels g)[n := ReceiverDropped]\<rparr> else g)"

datatype 'd gate_op =
    GateWait string | GateDecide string 'd | GateCancel string | GateClear | ReceiverGone nat

fun gate_step :: "'d gate_op \<Rightarrow> 'd gate \<Rightarrow> 'd gate" where
  "gate_step (GateWait i) g = snd (gate_wait_for i g)"
| "gate_step (GateDecide i d) g = snd (gate_decide i d g)"
| "gate_step (GateCancel i) g = snd (gate_cancel i g)"
| "gate_step GateClear g = gate_clear g"
| "gate_step (ReceiverGone n) g = drop_receiver n g"

section \<open>Invariant\<close>

text \<open>Every parked id owns a channel of its own, unsettled but for a receiver that left; a channel
  that still waits is parked under some id.\<close>

definition parked_ok :: "(string \<Rightarrow> nat option) \<Rightarrow> 'd channel list \<Rightarrow> bool" where
  "parked_ok m cs \<longleftrightarrow>
     (\<forall>i j n. m i = Some n \<and> m j = Some n \<longrightarrow> i = j) \<and>
     (\<forall>i n. m i = Some n \<longrightarrow> n < length cs \<and> (cs ! n = Waits \<or> cs ! n = ReceiverDropped)) \<and>
     (\<forall>n < length cs. cs ! n = Waits \<longrightarrow> (\<exists>i. m i = Some n))"

definition gate_inv :: "'d gate \<Rightarrow> bool" where
  "gate_inv g \<longleftrightarrow> tbl_ok (gt_pending g) \<and> parked_ok (map_of (gt_pending g)) (gt_channels g)"

lemma gate_inv_new [simp]: "gate_inv gate_new"
  by (simp add: gate_inv_def gate_new_def parked_ok_def)

lemma parked_okD:
  assumes "parked_ok m cs" and "m i = Some n"
  shows "n < length cs" and "cs ! n = Waits \<or> cs ! n = ReceiverDropped"
    and "m j = Some n \<longleftrightarrow> j = i"
  using assms unfolding parked_ok_def by blast+

lemma parked_ok_waits: "parked_ok m cs \<Longrightarrow> n < length cs \<Longrightarrow> cs ! n = Waits \<Longrightarrow> \<exists>i. m i = Some n"
  unfolding parked_ok_def by blast

lemma parked_ok_park:
  assumes ok: "parked_ok m cs" and free: "m i = None"
  shows "parked_ok (m(i \<mapsto> length cs)) (cs @ [Waits])"
  unfolding parked_ok_def
proof (intro conjI allI impI)
  fix a b n assume "(m(i \<mapsto> length cs)) a = Some n \<and> (m(i \<mapsto> length cs)) b = Some n"
  then show "a = b"
    using parked_okD [OF ok] by (fastforce split: if_splits)
next
  fix a n assume "(m(i \<mapsto> length cs)) a = Some n"
  then show "n < length (cs @ [Waits])" and "(cs @ [Waits]) ! n = Waits \<or> (cs @ [Waits]) ! n = ReceiverDropped"
    using parked_okD [OF ok] by (fastforce simp: nth_append split: if_splits)+
next
  fix n assume n: "n < length (cs @ [Waits])" and w: "(cs @ [Waits]) ! n = Waits"
  show "\<exists>a. (m(i \<mapsto> length cs)) a = Some n"
  proof (cases "n = length cs")
    case False
    then obtain a where "m a = Some n" using parked_ok_waits [OF ok, of n] n w by (auto simp: nth_append)
    with free have "(m(i \<mapsto> length cs)) a = Some n" by auto
    then show ?thesis ..
  qed auto
qed

text \<open>Settling a parked channel while unparking its id.\<close>

lemma parked_ok_settle:
  assumes ok: "parked_ok m cs" and n: "m i = Some n" and c: "c \<noteq> Waits"
  shows "parked_ok (m(i := None)) (cs[n := c])"
  unfolding parked_ok_def
proof (intro conjI allI impI)
  fix a b k assume "(m(i := None)) a = Some k \<and> (m(i := None)) b = Some k"
  then show "a = b" using parked_okD(3) [OF ok] by (auto split: if_splits)
next
  fix a k assume a: "(m(i := None)) a = Some k"
  then have "m a = Some k" "a \<noteq> i" by (auto split: if_splits)
  moreover from this have "k \<noteq> n" using parked_okD(3) [OF ok n] by auto
  ultimately show "k < length (cs[n := c])" and "cs[n := c] ! k = Waits \<or> cs[n := c] ! k = ReceiverDropped"
    using parked_okD [OF ok] by auto
next
  fix k assume k: "k < length (cs[n := c])" and w: "cs[n := c] ! k = Waits"
  then have "k \<noteq> n" using c by auto
  then obtain a where "m a = Some k" using parked_ok_waits [OF ok, of k] k w by auto
  moreover from this have "a \<noteq> i" using n \<open>k \<noteq> n\<close> by auto
  ultimately show "\<exists>a. (m(i := None)) a = Some k" by auto
qed

lemma parked_ok_leave:
  assumes "parked_ok m cs" and "n < length cs" and "cs ! n = Waits"
  shows "parked_ok m (cs[n := ReceiverDropped])"
  using assms unfolding parked_ok_def by (auto simp: nth_list_update split: if_splits)

lemma parked_ok_unpark:
  "parked_ok m cs \<Longrightarrow> m i = Some n \<Longrightarrow> cs ! n \<noteq> Waits \<Longrightarrow> parked_ok (m(i := None)) cs"
  using parked_ok_settle [of m cs i n "cs ! n"] by simp

lemma update_settled [simp]: "cs ! n \<noteq> c \<Longrightarrow> cs ! k = c \<Longrightarrow> cs[k := x] ! n = cs ! n"
  by (cases "k = n") simp_all

text \<open>Clearing drops the senders of the channels that wait and touches no other.\<close>

lemma drop_sender_simps [simp]:
  "gt_pending (drop_sender n g) = gt_pending g"
  "length (gt_channels (drop_sender n g)) = length (gt_channels g)"
  by (simp_all add: drop_sender_def)

lemma drop_sender_nth:
  "n < length (gt_channels g) \<Longrightarrow> gt_channels (drop_sender n g) ! k =
   (if k = n \<and> gt_channels g ! n = Waits then SenderDropped else gt_channels g ! k)"
  by (auto simp: drop_sender_def)

lemma drop_senders_nth:
  "list_all (\<lambda>(_, n). n < length (gt_channels g)) l \<Longrightarrow>
   length (gt_channels (fold (\<lambda>(_, n). drop_sender n) l g)) = length (gt_channels g) \<and>
   gt_channels (fold (\<lambda>(_, n). drop_sender n) l g) ! k =
     (if k \<in> snd ` set l \<and> gt_channels g ! k = Waits then SenderDropped else gt_channels g ! k)"
  by (induction l arbitrary: g) (auto simp: drop_sender_nth image_iff Bex_def)

lemma gate_clear_channels:
  assumes inv: "gate_inv g"
  shows "length (gt_channels (gate_clear g)) = length (gt_channels g)"
    and "k < length (gt_channels g) \<Longrightarrow> gt_channels (gate_clear g) ! k =
      (if gt_channels g ! k = Waits then SenderDropped else gt_channels g ! k)"
proof -
  have ok: "tbl_ok (gt_pending g)" and parked: "parked_ok (map_of (gt_pending g)) (gt_channels g)"
    using inv by (simp_all add: gate_inv_def)
  have entry: "map_of (gt_pending g) i = Some n \<longleftrightarrow> (i, n) \<in> set (gt_pending g)" for i n
    using ok by (simp add: tbl_ok_def tbl_keys_def)
  have all: "list_all (\<lambda>(_, n). n < length (gt_channels g)) (gt_pending g)"
    using parked_okD(1) [OF parked] by (auto simp: list_all_iff entry)
  show "length (gt_channels (gate_clear g)) = length (gt_channels g)"
    using drop_senders_nth [OF all] by (simp add: gate_clear_def)
  assume k: "k < length (gt_channels g)"
  have "gt_channels g ! k = Waits \<Longrightarrow> k \<in> snd ` set (gt_pending g)"
    using parked_ok_waits [OF parked k] by (force simp: entry)
  then show "gt_channels (gate_clear g) ! k =
      (if gt_channels g ! k = Waits then SenderDropped else gt_channels g ! k)"
    using drop_senders_nth [OF all, of k] by (auto simp: gate_clear_def)
qed

lemma gate_step_inv: "gate_inv g \<Longrightarrow> gate_inv (gate_step x g)"
proof (induction x)
  case GateClear
  then have "parked_ok (map_of []) (gt_channels (gate_clear g))"
    by (auto simp: parked_ok_def gate_clear_channels split: if_splits)
  then show ?case by (simp add: gate_inv_def gate_clear_def)
qed (auto simp: gate_inv_def gate_wait_for_def gate_decide_def gate_cancel_def drop_receiver_def drop_sender_def
       Let_def parked_ok_park parked_ok_leave
     intro: parked_ok_settle parked_ok_unpark split: option.splits)

interpretation gates: machine gate_inv gate_step
  by unfold_locales (rule gate_step_inv)

section \<open>One decision for one waiter\<close>

text \<open>The operations that end the wait on channel \<open>n\<close> parked under \<open>i\<close>.\<close>

fun settles :: "string \<Rightarrow> nat \<Rightarrow> 'd gate_op \<Rightarrow> bool" where
  "settles i n (GateDecide j _) \<longleftrightarrow> j = i"
| "settles i n (GateCancel j) \<longleftrightarrow> j = i"
| "settles i n GateClear \<longleftrightarrow> True"
| "settles i n (ReceiverGone k) \<longleftrightarrow> k = n"
| "settles i n (GateWait _) \<longleftrightarrow> False"

definition waits_on :: "string \<Rightarrow> nat \<Rightarrow> 'd gate \<Rightarrow> bool" where
  "waits_on i n g \<longleftrightarrow>
     map_of (gt_pending g) i = Some n \<and> n < length (gt_channels g) \<and> gt_channels g ! n = Waits"

lemma waits_on_step:
  assumes inv: "gate_inv g" and w: "waits_on i n g" and x: "\<not> settles i n x"
  shows "waits_on i n (gate_step x g)"
proof -
  have other: "map_of (gt_pending g) j = Some k \<Longrightarrow> j \<noteq> i \<Longrightarrow> k \<noteq> n" for j k
    using parked_okD(3) [of "map_of (gt_pending g)" "gt_channels g" i n j] inv w
    by (auto simp: gate_inv_def waits_on_def)
  show ?thesis
    using w x other
    by (cases x) (auto simp: waits_on_def gate_wait_for_def gate_decide_def gate_cancel_def drop_receiver_def
        drop_sender_def Let_def nth_append nth_list_update split: option.splits)
qed

lemma waits_on_run:
  "gate_inv g \<Longrightarrow> waits_on i n g \<Longrightarrow>
   waits_on i n (fold gate_step (filter (\<lambda>x. \<not> settles i n x) xs) g)"
  by (induction xs arbitrary: g) (simp_all add: gate_step_inv waits_on_step)

lemma settled_step:
  assumes inv: "gate_inv g" and n: "n < length (gt_channels g)" and c: "gt_channels g ! n \<noteq> Waits"
  shows "n < length (gt_channels (gate_step x g)) \<and> gt_channels (gate_step x g) ! n = gt_channels g ! n"
proof (cases x)
  case GateClear
  then show ?thesis using gate_clear_channels [OF inv] n c by simp
qed (use n c in \<open>auto simp: gate_wait_for_def gate_decide_def gate_cancel_def drop_receiver_def drop_sender_def
       Let_def nth_append nth_list_update split: option.splits\<close>)

lemma settled_run:
  "gate_inv g \<Longrightarrow> n < length (gt_channels g) \<Longrightarrow> gt_channels g ! n \<noteq> Waits \<Longrightarrow>
   gt_channels (fold gate_step xs g) ! n = gt_channels g ! n"
  by (induction xs arbitrary: g) (simp_all add: gate_step_inv settled_step)

lemma wait_waits: "gate_wait_for i g = (Inr n, g') \<Longrightarrow> waits_on i n g'"
  by (auto simp: gate_wait_for_def waits_on_def Let_def split: option.splits)

text \<open>A decision settles the one waiting channel parked under its id, and only that; a late or
  stale one settles none.\<close>

lemma gate_decide_exact:
  assumes "gate_inv g"
  shows "case gate_decide i d g of (ok, g') \<Rightarrow>
    map_of (gt_pending g') i = None \<and>
    gt_channels g' =
      (case map_of (gt_pending g) i of
         Some n \<Rightarrow> if ok then (gt_channels g)[n := Delivered d] else gt_channels g
       | None \<Rightarrow> gt_channels g) \<and>
    (ok \<longleftrightarrow> (case map_of (gt_pending g) i of Some n \<Rightarrow> gt_channels g ! n = Waits | None \<Rightarrow> False))"
  by (simp add: gate_decide_def Let_def split: option.split)

text \<open>C21: A gate delivers one decision to the waiter it was made for. After any use of the gate, a wait
  on an id either is refused because the id is parked, or parks a fresh channel; whatever else
  then happens on the gate short of settling that wait, the first decision on the id is taken and
  reaches that channel, no later operation changes what was delivered, and a second decision is
  refused and changes nothing.\<close>

theorem gate_one_shot:
  "case gate_wait_for i (fold gate_step before gate_new) of
     (Inl e, g) \<Rightarrow> e = DuplicateWaiter i \<and> map_of (gt_pending g) i \<noteq> None
   | (Inr n, g) \<Rightarrow>
       (case gate_decide i d (fold gate_step (filter (\<lambda>x. \<not> settles i n x) meanwhile) g) of
          (taken, g') \<Rightarrow>
            taken \<and> gt_channels (fold gate_step later g') ! n = Delivered d \<and>
            gate_decide i d' g' = (False, g'))"
proof -
  let ?g0 = "fold gate_step before gate_new"
  have inv0: "gate_inv ?g0" by (rule gates.run_inv) simp
  show ?thesis
  proof (cases "gate_wait_for i ?g0")
    case (Pair r g)
    show ?thesis
    proof (cases r)
      case (Inl e)
      then show ?thesis using Pair by (auto simp: gate_wait_for_def Let_def split: option.splits)
    next
      case (Inr n)
      have inv: "gate_inv g" using gate_step_inv [OF inv0, of "GateWait i"] Pair by simp
      let ?g1 = "fold gate_step (filter (\<lambda>x. \<not> settles i n x) meanwhile) g"
      have inv1: "gate_inv ?g1" using inv by (rule gates.run_inv)
      have w: "waits_on i n ?g1"
        using waits_on_run [OF inv wait_waits] Pair Inr by simp
      then obtain g' where d: "gate_decide i d ?g1 = (True, g')"
        and g': "g' = ?g1\<lparr>gt_pending := tbl_remove i (gt_pending ?g1), gt_channels := (gt_channels ?g1)[n := Delivered d]\<rparr>"
        by (simp add: gate_decide_def waits_on_def Let_def)
      have inv': "gate_inv g'" using gate_step_inv [OF inv1, of "GateDecide i d"] d by simp
      have "gt_channels (fold gate_step later g') ! n = gt_channels g' ! n"
        using w by (intro settled_run [OF inv']) (simp_all add: g' waits_on_def)
      moreover have "gt_channels g' ! n = Delivered d" using w by (simp add: g' waits_on_def)
      moreover have "gate_decide i d' g' = (False, g')" by (simp add: gate_decide_def g')
      ultimately show ?thesis using Pair Inr d by simp
    qed
  qed
qed

end
