(* ===== verification/Session_Actor.thy ===== *)
theory Session_Actor
  imports Checkpoints Approval_Gate Run_Loop Child_Runtime
begin

text \<open>
  The session actor (\<open>crates/operations/actor/src/actor.rs\<close>, \<open>client.rs\<close>) over the wire
  vocabulary of \<open>crates/foundation/wire/src/lib.rs\<close>: submissions served one at a time, a bounded
  queue behind a running operation, control operations routed past it, a checkpoint before every
  operation that acts, rewinding while idle, and one teardown for every exit.

  The actor is a machine over signals: what the client sends, what the running operation does at
  each of its steps, and when the actor polls its channel. Any interleaving of signals is a run,
  so the driver behind the actor may do anything to the history, the events and the gates between
  two polls. The log field records what the actor did, for the properties only.
\<close>

section \<open>Wire vocabulary\<close>

definition EVENT_CHANNEL_CAP :: nat where
  "EVENT_CHANNEL_CAP = 256"

definition CONTROL_CHANNEL_CAP :: nat where
  "CONTROL_CHANNEL_CAP = 32"

definition PENDING_QUEUE_CAP :: nat where
  "PENDING_QUEUE_CAP = 64"

definition SYSTEM_REMINDER_OPEN :: string where
  "SYSTEM_REMINDER_OPEN = ''<system-reminder>''"

definition LIFECYCLE_ID :: string where
  "LIFECYCLE_ID = ''session-lifecycle''"

datatype wire_decision = WireAllowOnce | WireAllowAlways | WireDeny string

datatype wire_op =
    OpUserInput string "user_image list"
  | OpInterrupt
  | OpExecApproval string wire_decision
  | OpQuestionAnswer string string
  | OpCompact "string option"
  | OpRewind nat
  | OpSetPermissionMode string
  | OpSetModel string
  | OpSetThinking string
  | OpShutdown

record submission =
  su_id :: string
  su_op :: wire_op

text \<open>The events of the loop, and the one the actor adds.\<close>

datatype wire_msg = LoopMsg event | HistoryRewound nat

record wire_event =
  we_id :: string
  we_msg :: wire_msg

fun map_decision :: "wire_decision \<Rightarrow> approval_decision" where
  "map_decision WireAllowOnce = AllowOnce"
| "map_decision WireAllowAlways = AllowAlways"
| "map_decision (WireDeny reason) = DenyWith reason"

section \<open>Rewinding\<close>

definition is_user_turn :: "history_entry \<Rightarrow> bool" where
  "is_user_turn e =
     (if he_role e \<noteq> User then False
      else if entry_results e \<noteq> [] then False
      else if contains (prose e) SYSTEM_REMINDER_OPEN \<or> prose e = CONTINUATION_PROMPT then False
      else list_ex (\<lambda>b. case b of Text _ \<Rightarrow> True | Image _ _ _ \<Rightarrow> True | _ \<Rightarrow> False) (he_blocks e))"

definition user_positions :: "history_entry list \<Rightarrow> nat list" where
  "user_positions entries = filter (\<lambda>i. is_user_turn (entries ! i)) [0..<length entries]"

definition rewind_conversation :: "nat \<Rightarrow> conversation \<Rightarrow> nat \<times> conversation" where
  "rewind_conversation turns conv =
     (let entries = cv_entries conv; ps = user_positions entries; n = min turns (length ps)
      in if n = 0 then (0, conv)
         else (n, replace_history (take (ps ! (length ps - n)) entries) conv))"

section \<open>The actor\<close>

datatype op_kind = TurnOp | CompactOp

text \<open>Waiting for work, driving one operation, draining it before exit, gone.\<close>

datatype phase = ActorIdle | ActorBusy op_kind string | ActorDraining op_kind string | ActorExited

datatype act =
    Sent submission
  | Accepted submission
  | Rejected submission
  | Routed submission
  | Served submission
  | Saved string string bool
  | Began op_kind string "history_entry list"
  | HookRan hook_point
  | SessionEnded "string list"
  | Aborted

record ('w, 'c) actor =
  ac_world :: 'w
  ac_conv :: conversation
  ac_children :: "'c child_runtime"
  ac_approvals :: "approval_decision gate"
  ac_questions :: "string gate"
  ac_interrupt :: bool
  ac_clients :: bool
  ac_channel :: "submission list"
  ac_events :: "wire_event list"
  ac_pending :: "submission list"
  ac_durability :: "turn_durability option"
  ac_disk :: "json disk"
  ac_seq :: nat
  ac_inbox :: "inbox option"
  ac_phase :: phase
  ac_log :: "act list"

text \<open>The driver seam outside a running operation, the rendering of JSON, and how each save goes.\<close>

record 'w actor_env =
  dv_hook :: "hook_point \<Rightarrow> 'w \<Rightarrow> event list \<times> 'w"
  dv_permission_mode :: "string \<Rightarrow> 'w \<Rightarrow> bool \<times> 'w"
  dv_model :: "string \<Rightarrow> 'w \<Rightarrow> bool \<times> 'w"
  dv_thinking :: "string \<Rightarrow> 'w \<Rightarrow> bool \<times> 'w"
  dv_end_session :: "string list \<Rightarrow> 'w \<Rightarrow> 'w"
  dv_render :: "json \<Rightarrow> string"
  dv_save :: "'w \<Rightarrow> save_io"

definition log_act :: "act \<Rightarrow> ('w, 'c) actor \<Rightarrow> ('w, 'c) actor" where
  "log_act x a = a\<lparr>ac_log := ac_log a @ [x]\<rparr>"

text \<open>A full buffer or a client that is gone drops the event.\<close>

definition try_send_event :: "wire_event \<Rightarrow> ('w, 'c) actor \<Rightarrow> ('w, 'c) actor" where
  "try_send_event ev a =
     (if \<not> ac_clients a \<or> EVENT_CHANNEL_CAP \<le> length (ac_events a) then a
      else a\<lparr>ac_events := ac_events a @ [ev]\<rparr>)"

definition send_msg :: "string \<Rightarrow> event \<Rightarrow> ('w, 'c) actor \<Rightarrow> ('w, 'c) actor" where
  "send_msg i msg = try_send_event \<lparr>we_id = i, we_msg = LoopMsg msg\<rparr>"

definition warn_late_decision :: "string \<Rightarrow> string \<Rightarrow> ('w, 'c) actor \<Rightarrow> ('w, 'c) actor" where
  "warn_late_decision i call_id =
     send_msg i (Warning (''late approval for '' @ call_id @ '': no parked waiter; dropped''))"

definition run_lifecycle_hook :: "'w actor_env \<Rightarrow> hook_point \<Rightarrow> ('w, 'c) actor \<Rightarrow> ('w, 'c) actor" where
  "run_lifecycle_hook env point a =
     (case dv_hook env point (ac_world a) of
        (msgs, w) \<Rightarrow> log_act (HookRan point) (fold (send_msg LIFECYCLE_ID) msgs (a\<lparr>ac_world := w\<rparr>)))"

definition transcript_of :: "'w actor_env \<Rightarrow> conversation \<Rightarrow> string list" where
  "transcript_of env conv =
     map (\<lambda>e. (case he_role e of User \<Rightarrow> ''user'' | Assistant \<Rightarrow> ''assistant'') @ '': '' @
              entry_text (dv_render env) e) (cv_entries conv)"

definition end_session :: "'w actor_env \<Rightarrow> ('w, 'c) actor \<Rightarrow> ('w, 'c) actor" where
  "end_session env a =
     (let transcript = transcript_of env (ac_conv a)
      in log_act (SessionEnded transcript) (a\<lparr>ac_world := dv_end_session env transcript (ac_world a)\<rparr>))"

text \<open>The shared teardown, after which the task has returned. It is one step of the machine: an abort
  that lands while the end hook or the extraction is still awaited, after the client was dropped, is
  outside the model.\<close>

definition end_session_lifecycle :: "'w actor_env \<Rightarrow> ('w, 'c) actor \<Rightarrow> ('w, 'c) actor" where
  "end_session_lifecycle env a = (end_session env (run_lifecycle_hook env SessionEnd a))\<lparr>ac_phase := ActorExited\<rparr>"

definition policy_enables :: "op_kind \<Rightarrow> checkpoint_policy \<Rightarrow> bool" where
  "policy_enables k p =
     (case k of TurnOp \<Rightarrow> cpp_before_model_request p | CompactOp \<Rightarrow> cpp_before_tool_side_effect p)"

definition checkpoint_pre_turn :: "'w actor_env \<Rightarrow> op_kind \<Rightarrow> string \<Rightarrow> ('w, 'c) actor \<Rightarrow> ('w, 'c) actor" where
  "checkpoint_pre_turn env k i a =
     (case ac_durability a of
        None \<Rightarrow> a
      | Some dur \<Rightarrow>
          if \<not> policy_enables k (td_policy dur) then a
          else
            let seq = ac_seq a + 1; label = turn_label seq;
                snapshot = render_snapshot (dv_render env) (cv_entries (ac_conv a))
            in case checkpoint_turn (dv_save env (ac_world a)) (Some dur) True label snapshot (ac_disk a) of
                 (warnings, durability, disk) \<Rightarrow>
                   log_act (Saved label snapshot (warnings = []))
                     (fold (\<lambda>m. send_msg i (Warning m)) warnings
                       (a\<lparr>ac_seq := seq, ac_durability := durability, ac_disk := disk\<rparr>)))"

definition begin_op :: "op_kind \<Rightarrow> string \<Rightarrow> ('w, 'c) actor \<Rightarrow> ('w, 'c) actor" where
  "begin_op k i a = log_act (Began k i (cv_entries (ac_conv a))) (a\<lparr>ac_phase := ActorBusy k i\<rparr>)"

definition run_user_turn :: "'w actor_env \<Rightarrow> string \<Rightarrow> ('w, 'c) actor \<Rightarrow> ('w, 'c) actor" where
  "run_user_turn env i a =
     (case drain_notifications (ac_children a) of
        (notes, children) \<Rightarrow>
          begin_op TurnOp i (checkpoint_pre_turn env TurnOp i
            (a\<lparr>ac_children := children, ac_conv := fold (push User) notes (ac_conv a)\<rparr>)))"

definition run_compact :: "'w actor_env \<Rightarrow> string \<Rightarrow> ('w, 'c) actor \<Rightarrow> ('w, 'c) actor" where
  "run_compact env i a = begin_op CompactOp i (checkpoint_pre_turn env CompactOp i a)"

definition run_rewind :: "string \<Rightarrow> nat \<Rightarrow> ('w, 'c) actor \<Rightarrow> ('w, 'c) actor" where
  "run_rewind i turns a =
     (case rewind_conversation turns (ac_conv a) of
        (removed, conv) \<Rightarrow>
          if removed = 0 then send_msg i (Warning ''nothing to rewind'') (a\<lparr>ac_conv := conv\<rparr>)
          else try_send_event \<lparr>we_id = i, we_msg = HistoryRewound removed\<rparr>
                 (a\<lparr>ac_conv := settle_usage usage_default conv\<rparr>))"

definition deliver_approval :: "string \<Rightarrow> string \<Rightarrow> wire_decision \<Rightarrow> ('w, 'c) actor \<Rightarrow> ('w, 'c) actor" where
  "deliver_approval i call_id decision a =
     (case gate_decide call_id (map_decision decision) (ac_approvals a) of
        (ok, g) \<Rightarrow> let a' = a\<lparr>ac_approvals := g\<rparr> in if ok then a' else warn_late_decision i call_id a')"

definition deliver_answer :: "string \<Rightarrow> string \<Rightarrow> string \<Rightarrow> ('w, 'c) actor \<Rightarrow> ('w, 'c) actor" where
  "deliver_answer i call_id answer a =
     (case gate_decide call_id answer (ac_questions a) of
        (ok, g) \<Rightarrow> let a' = a\<lparr>ac_questions := g\<rparr> in if ok then a' else warn_late_decision i call_id a')"

definition switch_setting ::
    "(string \<Rightarrow> 'w \<Rightarrow> bool \<times> 'w) \<Rightarrow> string \<Rightarrow> string \<Rightarrow> string \<Rightarrow> ('w, 'c) actor \<Rightarrow> ('w, 'c) actor" where
  "switch_setting seam complaint i name a =
     (case seam name (ac_world a) of
        (ok, w) \<Rightarrow> let a' = a\<lparr>ac_world := w\<rparr>
                   in if ok then a' else send_msg i (Warning (complaint @ debug_str name)) a')"

text \<open>One submission of the main loop.\<close>

definition serve :: "'w actor_env \<Rightarrow> submission \<Rightarrow> ('w, 'c) actor \<Rightarrow> ('w, 'c) actor" where
  "serve env sub a =
     (case su_op sub of
        OpUserInput txt images \<Rightarrow> run_user_turn env (su_id sub) a
      | OpInterrupt \<Rightarrow> a
      | OpExecApproval call_id decision \<Rightarrow> deliver_approval (su_id sub) call_id decision a
      | OpQuestionAnswer call_id answer \<Rightarrow> deliver_answer (su_id sub) call_id answer a
      | OpCompact instruction \<Rightarrow> run_compact env (su_id sub) a
      | OpRewind turns \<Rightarrow> run_rewind (su_id sub) turns a
      | OpShutdown \<Rightarrow> end_session_lifecycle env (a\<lparr>ac_interrupt := True\<rparr>)
      | OpSetPermissionMode mode \<Rightarrow>
          switch_setting (dv_permission_mode env) ''unknown permission mode: '' (su_id sub) mode a
      | OpSetModel name \<Rightarrow> switch_setting (dv_model env) ''model switch rejected: '' (su_id sub) name a
      | OpSetThinking effort \<Rightarrow>
          switch_setting (dv_thinking env) ''thinking switch rejected: '' (su_id sub) effort a)"

text \<open>One turn of the main loop: the queue first, then the channel, then the end of the session.\<close>

definition run_loop_step :: "'w actor_env \<Rightarrow> ('w, 'c) actor \<Rightarrow> ('w, 'c) actor" where
  "run_loop_step env a =
     (case ac_pending a of
        sub # rest \<Rightarrow> serve env sub (log_act (Served sub) (a\<lparr>ac_pending := rest\<rparr>))
      | [] \<Rightarrow>
          (case ac_channel a of
             sub # rest \<Rightarrow>
               serve env sub (log_act (Served sub) (log_act (Accepted sub) (a\<lparr>ac_channel := rest\<rparr>)))
           | [] \<Rightarrow> if ac_clients a then a else end_session_lifecycle env a))"

section \<open>Routing while an operation runs\<close>

definition queue_or_reject :: "submission \<Rightarrow> ('w, 'c) actor \<Rightarrow> ('w, 'c) actor" where
  "queue_or_reject sub a =
     (if PENDING_QUEUE_CAP \<le> length (ac_pending a)
      then log_act (Rejected sub)
        (send_msg (su_id sub) (ErrorEvent (''submission queue is full ('' @ show_nat PENDING_QUEUE_CAP @
           '' pending); retry later'') True ''queue.full'') a)
      else log_act (Accepted sub) (a\<lparr>ac_pending := ac_pending a @ [sub]\<rparr>))"

text \<open>\<open>route_extra\<close>: the flag tells that the actor must exit.\<close>

definition route_extra :: "submission \<Rightarrow> ('w, 'c) actor \<Rightarrow> bool \<times> ('w, 'c) actor" where
  "route_extra sub a =
     (case su_op sub of
        OpUserInput _ _ \<Rightarrow> (False, queue_or_reject sub a)
      | OpCompact _ \<Rightarrow> (False, queue_or_reject sub a)
      | OpRewind _ \<Rightarrow>
          (False, log_act (Rejected sub) (send_msg (su_id sub) (Warning ''rewind rejected: a turn is running'') a))
      | OpInterrupt \<Rightarrow> (False, log_act (Routed sub) (a\<lparr>ac_interrupt := True\<rparr>))
      | OpSetPermissionMode _ \<Rightarrow> (False, queue_or_reject sub a)
      | OpSetModel _ \<Rightarrow> (False, queue_or_reject sub a)
      | OpSetThinking _ \<Rightarrow> (False, queue_or_reject sub a)
      | OpExecApproval call_id decision \<Rightarrow>
          (False, log_act (Routed sub) (deliver_approval (su_id sub) call_id decision a))
      | OpQuestionAnswer call_id answer \<Rightarrow>
          (False, log_act (Routed sub) (deliver_answer (su_id sub) call_id answer a))
      | OpShutdown \<Rightarrow> (True, log_act (Routed sub) (a\<lparr>ac_interrupt := True\<rparr>)))"

text \<open>The receiving branch of \<open>supervised\<close>.\<close>

definition supervised_recv :: "'w actor_env \<Rightarrow> op_kind \<Rightarrow> string \<Rightarrow> ('w, 'c) actor \<Rightarrow> ('w, 'c) actor" where
  "supervised_recv env k i a =
     (case ac_channel a of
        sub # rest \<Rightarrow>
          (case route_extra sub (a\<lparr>ac_channel := rest\<rparr>) of
             (exits, a') \<Rightarrow> if exits then end_session_lifecycle env a' else a')
      | [] \<Rightarrow> if ac_clients a then a else a\<lparr>ac_interrupt := True, ac_phase := ActorDraining k i\<rparr>)"

section \<open>Signals\<close>

text \<open>What the running operation does between two polls.\<close>

datatype 'w op_effect =
    OpEvent string event
  | OpHistory conv_op
  | OpApprovals "approval_decision gate_op"
  | OpQuestions "string gate_op"
  | OpInbox "inbox \<Rightarrow> inbox"
  | OpWorld "'w \<Rightarrow> 'w"
  | OpResetInterrupt

datatype 'w actor_signal =
    ClientSubmits submission
  | ClientTakesEvent
  | ClientSteers string steer_target
  | ClientInjects string
  | ClientCancelsInbox bool
  | ClientDrops
  | AbortLands
  | ChildNotice string
  | Polls
  | Progress "'w op_effect"
  | OpReturns "string option"
  | DrainExpires

fun apply_effect :: "op_kind \<Rightarrow> string \<Rightarrow> 'w op_effect \<Rightarrow> ('w, 'c) actor \<Rightarrow> ('w, 'c) actor" where
  "apply_effect k i (OpEvent ev_id msg) a = send_msg (case k of TurnOp \<Rightarrow> ev_id | CompactOp \<Rightarrow> i) msg a"
| "apply_effect k i (OpHistory x) a = a\<lparr>ac_conv := conv_step x (ac_conv a)\<rparr>"
| "apply_effect k i (OpApprovals x) a = a\<lparr>ac_approvals := gate_step x (ac_approvals a)\<rparr>"
| "apply_effect k i (OpQuestions x) a = a\<lparr>ac_questions := gate_step x (ac_questions a)\<rparr>"
| "apply_effect k i (OpInbox f) a = a\<lparr>ac_inbox := map_option f (ac_inbox a)\<rparr>"
| "apply_effect k i (OpWorld f) a = a\<lparr>ac_world := f (ac_world a)\<rparr>"
| "apply_effect k i OpResetInterrupt a = a\<lparr>ac_interrupt := False\<rparr>"

text \<open>The result of the operation: a turn's is dropped, a failed compaction is reported.\<close>

definition op_settles :: "op_kind \<Rightarrow> string \<Rightarrow> string option \<Rightarrow> ('w, 'c) actor \<Rightarrow> ('w, 'c) actor" where
  "op_settles k i failure a =
     (case (k, failure) of
        (CompactOp, Some cause) \<Rightarrow> send_msg i (ErrorEvent cause True ''compact.failed'') a
      | _ \<Rightarrow> a)"

definition client_steer :: "string \<Rightarrow> steer_target \<Rightarrow> ('w, 'c) actor \<Rightarrow> bool \<times> ('w, 'c) actor" where
  "client_steer t target a =
     (if t = [] then (False, a)
      else (case ac_inbox a of
              Some ib \<Rightarrow> (True, a\<lparr>ac_inbox := Some (inbox_steer t target ib)\<rparr>)
            | None \<Rightarrow> (False, a)))"

definition client_inject :: "string \<Rightarrow> ('w, 'c) actor \<Rightarrow> bool \<times> ('w, 'c) actor" where
  "client_inject t a =
     (if t = [] then (False, a)
      else (case ac_inbox a of
              Some ib \<Rightarrow> (True, a\<lparr>ac_inbox := Some (inbox_inject t ib)\<rparr>)
            | None \<Rightarrow> (False, a)))"

definition client_cancel_inbox :: "bool \<Rightarrow> ('w, 'c) actor \<Rightarrow> nat \<times> ('w, 'c) actor" where
  "client_cancel_inbox keep_next_turn a =
     (case ac_inbox a of
        None \<Rightarrow> (0, a)
      | Some ib \<Rightarrow> (case inbox_cancel keep_next_turn ib of (n, ib') \<Rightarrow> (n, a\<lparr>ac_inbox := Some ib'\<rparr>)))"

text \<open>A submission: an error when the task is gone, \<open>None\<close> while the channel is full and the
  sender waits.\<close>

definition client_submit :: "submission \<Rightarrow> ('w, 'c) actor \<Rightarrow> bool option \<times> ('w, 'c) actor" where
  "client_submit sub a =
     (if ac_phase a = ActorExited then (Some False, a)
      else if \<not> ac_clients a \<or> CONTROL_CHANNEL_CAP \<le> length (ac_channel a) then (None, a)
      else (Some True, log_act (Sent sub) (a\<lparr>ac_channel := ac_channel a @ [sub]\<rparr>)))"

text \<open>Dropping the client triggers the interrupt and requests the task's abort, which lands at any
  later point, unless the task returns first.\<close>

definition client_drop :: "('w, 'c) actor \<Rightarrow> ('w, 'c) actor" where
  "client_drop a = a\<lparr>ac_interrupt := True, ac_clients := False\<rparr>"

definition abort_lands :: "('w, 'c) actor \<Rightarrow> ('w, 'c) actor" where
  "abort_lands a =
     (if ac_clients a \<or> ac_phase a = ActorExited then a
      else (log_act Aborted a)\<lparr>ac_phase := ActorExited\<rparr>)"

definition poll :: "'w actor_env \<Rightarrow> ('w, 'c) actor \<Rightarrow> ('w, 'c) actor" where
  "poll env a =
     (case ac_phase a of
        ActorIdle \<Rightarrow> run_loop_step env a
      | ActorBusy k i \<Rightarrow> supervised_recv env k i a
      | ActorDraining k i \<Rightarrow> a
      | ActorExited \<Rightarrow> a)"

definition op_returns :: "'w actor_env \<Rightarrow> string option \<Rightarrow> ('w, 'c) actor \<Rightarrow> ('w, 'c) actor" where
  "op_returns env failure a =
     (case ac_phase a of
        ActorBusy k i \<Rightarrow> (op_settles k i failure a)\<lparr>ac_phase := ActorIdle\<rparr>
      | ActorDraining k i \<Rightarrow> end_session_lifecycle env (op_settles k i failure a)
      | _ \<Rightarrow> a)"

definition progress :: "'w op_effect \<Rightarrow> ('w, 'c) actor \<Rightarrow> ('w, 'c) actor" where
  "progress x a =
     (case ac_phase a of
        ActorBusy k i \<Rightarrow> apply_effect k i x a
      | ActorDraining k i \<Rightarrow> apply_effect k i x a
      | _ \<Rightarrow> a)"

fun actor_step :: "'w actor_env \<Rightarrow> 'w actor_signal \<Rightarrow> ('w, 'c) actor \<Rightarrow> ('w, 'c) actor" where
  "actor_step env (ClientSubmits sub) a = snd (client_submit sub a)"
| "actor_step env ClientTakesEvent a = a\<lparr>ac_events := tl (ac_events a)\<rparr>"
| "actor_step env (ClientSteers t target) a = snd (client_steer t target a)"
| "actor_step env (ClientInjects t) a = snd (client_inject t a)"
| "actor_step env (ClientCancelsInbox keep) a = snd (client_cancel_inbox keep a)"
| "actor_step env ClientDrops a = client_drop a"
| "actor_step env AbortLands a = abort_lands a"
| "actor_step env (ChildNotice m) a = a\<lparr>ac_children := notify_completion m (ac_children a)\<rparr>"
| "actor_step env Polls a = poll env a"
| "actor_step env (Progress x) a = progress x a"
| "actor_step env (OpReturns failure) a = op_returns env failure a"
| "actor_step env DrainExpires a =
     (case ac_phase a of ActorDraining k i \<Rightarrow> end_session_lifecycle env a | _ \<Rightarrow> a)"

text \<open>Spawning: the start hook, then the offer to resume from the newest durable checkpoint.\<close>

definition actor_spawn ::
    "'w actor_env \<Rightarrow> 'w \<Rightarrow> conversation \<Rightarrow> 'c child_runtime \<Rightarrow> inbox option \<Rightarrow> turn_durability option \<Rightarrow>
     json disk \<Rightarrow> (string \<times> nat option) list option \<Rightarrow> ('w, 'c) actor" where
  "actor_spawn env w conv children ib durability disk dir =
     (let a = \<lparr>ac_world = w, ac_conv = conv, ac_children = children, ac_approvals = gate_new,
               ac_questions = gate_new, ac_interrupt = False, ac_clients = True, ac_channel = [],
               ac_events = [], ac_pending = [], ac_durability = durability, ac_disk = disk, ac_seq = 0,
               ac_inbox = ib, ac_phase = ActorIdle, ac_log = []\<rparr>;
          a = run_lifecycle_hook env SessionStart a
      in case durability of
           None \<Rightarrow> a
         | Some dur \<Rightarrow>
             let labels = list_resume_labels dir
             in if labels = [] then a
                else send_msg LIFECYCLE_ID (Warning (''resume available from checkpoint '' @ last labels @
                       '' ('' @ show_nat (length labels) @ '' saved)'')) a)"

section \<open>What each operation leaves alone\<close>

lemma try_send_frame [simp]:
  "ac_log (try_send_event e a) = ac_log a"
  "ac_channel (try_send_event e a) = ac_channel a"
  "ac_pending (try_send_event e a) = ac_pending a"
  "ac_phase (try_send_event e a) = ac_phase a"
  "ac_clients (try_send_event e a) = ac_clients a"
  "ac_conv (try_send_event e a) = ac_conv a"
  "ac_durability (try_send_event e a) = ac_durability a"
  "ac_disk (try_send_event e a) = ac_disk a"
  "ac_seq (try_send_event e a) = ac_seq a"
  by (simp_all add: try_send_event_def)

lemma try_send_bound:
  "length (ac_events a) \<le> EVENT_CHANNEL_CAP \<Longrightarrow> length (ac_events (try_send_event e a)) \<le> EVENT_CHANNEL_CAP"
  by (simp add: try_send_event_def)

lemma send_msg_frame [simp]:
  "ac_log (send_msg i m a) = ac_log a"
  "ac_channel (send_msg i m a) = ac_channel a"
  "ac_pending (send_msg i m a) = ac_pending a"
  "ac_phase (send_msg i m a) = ac_phase a"
  "ac_clients (send_msg i m a) = ac_clients a"
  "ac_conv (send_msg i m a) = ac_conv a"
  "ac_durability (send_msg i m a) = ac_durability a"
  "ac_disk (send_msg i m a) = ac_disk a"
  "ac_seq (send_msg i m a) = ac_seq a"
  by (simp_all add: send_msg_def)

lemma fold_send_frame [simp]:
  "ac_log (fold (\<lambda>x. send_msg i (f x)) ms a) = ac_log a"
  "ac_channel (fold (\<lambda>x. send_msg i (f x)) ms a) = ac_channel a"
  "ac_pending (fold (\<lambda>x. send_msg i (f x)) ms a) = ac_pending a"
  "ac_phase (fold (\<lambda>x. send_msg i (f x)) ms a) = ac_phase a"
  "ac_clients (fold (\<lambda>x. send_msg i (f x)) ms a) = ac_clients a"
  "ac_conv (fold (\<lambda>x. send_msg i (f x)) ms a) = ac_conv a"
  "ac_durability (fold (\<lambda>x. send_msg i (f x)) ms a) = ac_durability a"
  "ac_disk (fold (\<lambda>x. send_msg i (f x)) ms a) = ac_disk a"
  "ac_seq (fold (\<lambda>x. send_msg i (f x)) ms a) = ac_seq a"
  by (induction ms arbitrary: a) simp_all

lemmas fold_send_plain [simp] = fold_send_frame [where f = "\<lambda>x. x"]

lemma log_act_frame [simp]:
  "ac_log (log_act x a) = ac_log a @ [x]"
  "ac_channel (log_act x a) = ac_channel a"
  "ac_pending (log_act x a) = ac_pending a"
  "ac_phase (log_act x a) = ac_phase a"
  "ac_clients (log_act x a) = ac_clients a"
  "ac_conv (log_act x a) = ac_conv a"
  "ac_events (log_act x a) = ac_events a"
  "ac_durability (log_act x a) = ac_durability a"
  "ac_disk (log_act x a) = ac_disk a"
  "ac_seq (log_act x a) = ac_seq a"
  by (simp_all add: log_act_def)

lemma hook_frame [simp]:
  "ac_log (run_lifecycle_hook env p a) = ac_log a @ [HookRan p]"
  "ac_channel (run_lifecycle_hook env p a) = ac_channel a"
  "ac_pending (run_lifecycle_hook env p a) = ac_pending a"
  "ac_phase (run_lifecycle_hook env p a) = ac_phase a"
  "ac_clients (run_lifecycle_hook env p a) = ac_clients a"
  "ac_conv (run_lifecycle_hook env p a) = ac_conv a"
  "ac_durability (run_lifecycle_hook env p a) = ac_durability a"
  "ac_disk (run_lifecycle_hook env p a) = ac_disk a"
  "ac_seq (run_lifecycle_hook env p a) = ac_seq a"
  by (simp_all add: run_lifecycle_hook_def split: prod.split)

lemma teardown_frame [simp]:
  "ac_log (end_session_lifecycle env a) =
     ac_log a @ [HookRan SessionEnd, SessionEnded (transcript_of env (ac_conv a))]"
  "ac_channel (end_session_lifecycle env a) = ac_channel a"
  "ac_pending (end_session_lifecycle env a) = ac_pending a"
  "ac_phase (end_session_lifecycle env a) = ActorExited"
  "ac_clients (end_session_lifecycle env a) = ac_clients a"
  "ac_conv (end_session_lifecycle env a) = ac_conv a"
  "ac_durability (end_session_lifecycle env a) = ac_durability a"
  "ac_disk (end_session_lifecycle env a) = ac_disk a"
  "ac_seq (end_session_lifecycle env a) = ac_seq a"
  by (simp_all add: end_session_lifecycle_def end_session_def Let_def)

lemma deliver_frame [simp]:
  "ac_log (deliver_approval i c d a) = ac_log a" "ac_log (deliver_answer i c t a) = ac_log a"
  "ac_channel (deliver_approval i c d a) = ac_channel a" "ac_channel (deliver_answer i c t a) = ac_channel a"
  "ac_pending (deliver_approval i c d a) = ac_pending a" "ac_pending (deliver_answer i c t a) = ac_pending a"
  "ac_phase (deliver_approval i c d a) = ac_phase a" "ac_phase (deliver_answer i c t a) = ac_phase a"
  "ac_clients (deliver_approval i c d a) = ac_clients a" "ac_clients (deliver_answer i c t a) = ac_clients a"
  "ac_conv (deliver_approval i c d a) = ac_conv a" "ac_conv (deliver_answer i c t a) = ac_conv a"
  "ac_durability (deliver_approval i c d a) = ac_durability a" "ac_durability (deliver_answer i c t a) = ac_durability a"
  "ac_disk (deliver_approval i c d a) = ac_disk a" "ac_disk (deliver_answer i c t a) = ac_disk a"
  "ac_seq (deliver_approval i c d a) = ac_seq a" "ac_seq (deliver_answer i c t a) = ac_seq a"
  by (simp_all add: deliver_approval_def deliver_answer_def warn_late_decision_def Let_def split: prod.splits)

lemma switch_frame [simp]:
  "ac_log (switch_setting f c i n a) = ac_log a"
  "ac_channel (switch_setting f c i n a) = ac_channel a"
  "ac_pending (switch_setting f c i n a) = ac_pending a"
  "ac_phase (switch_setting f c i n a) = ac_phase a"
  "ac_clients (switch_setting f c i n a) = ac_clients a"
  "ac_conv (switch_setting f c i n a) = ac_conv a"
  "ac_durability (switch_setting f c i n a) = ac_durability a"
  "ac_disk (switch_setting f c i n a) = ac_disk a"
  "ac_seq (switch_setting f c i n a) = ac_seq a"
  by (simp_all add: switch_setting_def Let_def split: prod.splits)

lemma rewind_frame [simp]:
  "ac_log (run_rewind i n a) = ac_log a"
  "ac_channel (run_rewind i n a) = ac_channel a"
  "ac_pending (run_rewind i n a) = ac_pending a"
  "ac_phase (run_rewind i n a) = ac_phase a"
  "ac_clients (run_rewind i n a) = ac_clients a"
  "ac_durability (run_rewind i n a) = ac_durability a"
  "ac_disk (run_rewind i n a) = ac_disk a"
  "ac_seq (run_rewind i n a) = ac_seq a"
  by (simp_all add: run_rewind_def split: prod.splits)

lemma effect_frame [simp]:
  "ac_log (apply_effect k i x a) = ac_log a"
  "ac_channel (apply_effect k i x a) = ac_channel a"
  "ac_pending (apply_effect k i x a) = ac_pending a"
  "ac_phase (apply_effect k i x a) = ac_phase a"
  "ac_clients (apply_effect k i x a) = ac_clients a"
  "ac_durability (apply_effect k i x a) = ac_durability a"
  "ac_disk (apply_effect k i x a) = ac_disk a"
  "ac_seq (apply_effect k i x a) = ac_seq a"
  by (cases x; simp)+

lemma settles_frame [simp]:
  "ac_log (op_settles k i f a) = ac_log a"
  "ac_channel (op_settles k i f a) = ac_channel a"
  "ac_pending (op_settles k i f a) = ac_pending a"
  "ac_phase (op_settles k i f a) = ac_phase a"
  "ac_clients (op_settles k i f a) = ac_clients a"
  "ac_conv (op_settles k i f a) = ac_conv a"
  "ac_durability (op_settles k i f a) = ac_durability a"
  "ac_disk (op_settles k i f a) = ac_disk a"
  "ac_seq (op_settles k i f a) = ac_seq a"
  by (simp_all add: op_settles_def split: op_kind.splits option.splits)

lemma client_inbox_only:
  "\<exists>ib. snd (client_steer t g a) = a\<lparr>ac_inbox := ib\<rparr>"
  "\<exists>ib. snd (client_inject t a) = a\<lparr>ac_inbox := ib\<rparr>"
  "\<exists>ib. snd (client_cancel_inbox k a) = a\<lparr>ac_inbox := ib\<rparr>"
  by (auto simp: client_steer_def client_inject_def client_cancel_inbox_def surjective
      intro: exI [of _ "ac_inbox a"] split: option.splits prod.splits)

section \<open>Submissions are served in order\<close>

fun accepted_act :: "act \<Rightarrow> submission option" where
  "accepted_act (Accepted s) = Some s"
| "accepted_act _ = None"

fun served_act :: "act \<Rightarrow> submission option" where
  "served_act (Served s) = Some s"
| "served_act _ = None"

fun sent_act :: "act \<Rightarrow> submission option" where
  "sent_act (Sent s) = Some s"
| "sent_act _ = None"

text \<open>What became of a submission when it came off the channel.\<close>

fun dealt_act :: "act \<Rightarrow> submission option" where
  "dealt_act (Accepted s) = Some s"
| "dealt_act (Rejected s) = Some s"
| "dealt_act (Routed s) = Some s"
| "dealt_act _ = None"

abbreviation acts_of :: "(act \<Rightarrow> submission option) \<Rightarrow> act list \<Rightarrow> submission list" where
  "acts_of f l \<equiv> List.map_filter f l"

definition queue_ok :: "('w, 'c) actor \<Rightarrow> bool" where
  "queue_ok a \<longleftrightarrow>
     acts_of sent_act (ac_log a) = acts_of dealt_act (ac_log a) @ ac_channel a \<and>
     acts_of accepted_act (ac_log a) = acts_of served_act (ac_log a) @ ac_pending a \<and>
     length (ac_pending a) \<le> PENDING_QUEUE_CAP \<and>
     length (ac_channel a) \<le> CONTROL_CHANNEL_CAP"

text \<open>The acts that are about no submission.\<close>

fun lifecycle_act :: "act \<Rightarrow> bool" where
  "lifecycle_act (Saved _ _ _) = True"
| "lifecycle_act (Began _ _ _) = True"
| "lifecycle_act (HookRan _) = True"
| "lifecycle_act (SessionEnded _) = True"
| "lifecycle_act Aborted = True"
| "lifecycle_act _ = False"

declare map_filter_append [simp]

lemma map_filter_none: "list_all (\<lambda>x. f x = None) xs \<Longrightarrow> List.map_filter f xs = []"
  by (induction xs) (simp_all add: List.map_filter_simps)

lemma lifecycle_act_none:
  assumes "list_all lifecycle_act xs"
  shows "acts_of sent_act xs = []" "acts_of dealt_act xs = []" "acts_of accepted_act xs = []" "acts_of served_act xs = []"
  by (rule map_filter_none, rule list.pred_mono_strong [OF assms], erule lifecycle_act.elims; simp)+

lemma checkpoint_frame [simp]:
  "ac_channel (checkpoint_pre_turn env k i a) = ac_channel a"
  "ac_pending (checkpoint_pre_turn env k i a) = ac_pending a"
  "ac_phase (checkpoint_pre_turn env k i a) = ac_phase a"
  "ac_clients (checkpoint_pre_turn env k i a) = ac_clients a"
  "ac_conv (checkpoint_pre_turn env k i a) = ac_conv a"
  by (simp_all add: checkpoint_pre_turn_def Let_def split: option.split prod.split)

lemma begin_op_frame [simp]:
  "ac_channel (begin_op k i a) = ac_channel a"
  "ac_pending (begin_op k i a) = ac_pending a"
  "ac_clients (begin_op k i a) = ac_clients a"
  "ac_phase (begin_op k i a) = ActorBusy k i"
  "ac_conv (begin_op k i a) = ac_conv a"
  "ac_log (begin_op k i a) = ac_log a @ [Began k i (cv_entries (ac_conv a))]"
  "ac_durability (begin_op k i a) = ac_durability a"
  "ac_disk (begin_op k i a) = ac_disk a"
  "ac_seq (begin_op k i a) = ac_seq a"
  by (simp_all add: begin_op_def)

lemma checkpoint_log:
  "\<exists>xs. ac_log (checkpoint_pre_turn env k i a) = ac_log a @ xs \<and> list_all lifecycle_act xs"
  by (auto simp: checkpoint_pre_turn_def Let_def split: option.split prod.split)

lemma serve_frame [simp]:
  "ac_channel (serve env sub a) = ac_channel a"
  "ac_pending (serve env sub a) = ac_pending a"
  "ac_clients (serve env sub a) = ac_clients a"
  by (simp_all add: serve_def run_user_turn_def run_compact_def split: wire_op.split prod.split)

lemma serve_log: "\<exists>xs. ac_log (serve env sub a) = ac_log a @ xs \<and> list_all lifecycle_act xs"
proof -
  have run: "\<exists>xs. ac_log (begin_op k i (checkpoint_pre_turn env k i b)) = ac_log b @ xs \<and> list_all lifecycle_act xs"
    for k i and b :: "('a, 'b) actor"
    using checkpoint_log [of env k i b] by auto
  show ?thesis
  proof (cases "su_op sub")
    case (OpUserInput t images)
    let ?b = "a\<lparr>ac_children := snd (drain_notifications (ac_children a)),
      ac_conv := fold (push User) (fst (drain_notifications (ac_children a))) (ac_conv a)\<rparr>"
    show ?thesis using run [of TurnOp "su_id sub" ?b] OpUserInput
      by (simp add: serve_def run_user_turn_def split_beta)
  next
    case (OpCompact instruction)
    then show ?thesis using run [of CompactOp "su_id sub" a] by (simp add: serve_def run_compact_def)
  qed (simp_all add: serve_def)
qed

lemma queue_ok_lifecycle:
  assumes "queue_ok a" and "ac_log b = ac_log a @ xs" and "list_all lifecycle_act xs"
    and "ac_channel b = ac_channel a" and "ac_pending b = ac_pending a"
  shows "queue_ok b"
  using assms by (simp add: queue_ok_def lifecycle_act_none)

lemma queue_ok_same:
  "queue_ok a \<Longrightarrow> ac_log b = ac_log a \<Longrightarrow> ac_channel b = ac_channel a \<Longrightarrow> ac_pending b = ac_pending a \<Longrightarrow> queue_ok b"
  by (simp add: queue_ok_def)

lemma queue_ok_serve: "queue_ok a \<Longrightarrow> queue_ok (serve env sub a)"
  using serve_log [of env sub a] queue_ok_lifecycle [of a "serve env sub a"] by auto

lemma queue_ok_teardown: "queue_ok a \<Longrightarrow> queue_ok (end_session_lifecycle env a)"
  using queue_ok_lifecycle [of a "end_session_lifecycle env a"] by simp

lemma queue_ok_loop: "queue_ok a \<Longrightarrow> queue_ok (run_loop_step env a)"
  by (auto simp: run_loop_step_def queue_ok_teardown intro!: queue_ok_serve split: list.split)
     (simp_all add: queue_ok_def List.map_filter_simps)

lemma queue_ok_route:
  assumes "queue_ok a" and "ac_channel a = sub # rest"
  shows "queue_ok (snd (route_extra sub (a\<lparr>ac_channel := rest\<rparr>)))"
  using assms
  by (auto simp: route_extra_def queue_or_reject_def queue_ok_def List.map_filter_simps split: wire_op.split)

lemma queue_ok_recv: "queue_ok a \<Longrightarrow> queue_ok (supervised_recv env k i a)"
proof (cases "ac_channel a")
  case Nil
  assume "queue_ok a"
  then show ?thesis using Nil by (auto simp: supervised_recv_def queue_ok_def)
next
  case (Cons sub rest)
  assume "queue_ok a"
  from queue_ok_route [OF this Cons] show ?thesis
    using Cons by (auto simp: supervised_recv_def intro: queue_ok_teardown split: prod.split)
qed

lemma queue_ok_step: "queue_ok a \<Longrightarrow> queue_ok (actor_step env x a)"
proof (cases x)
  case (ClientSubmits sub)
  assume "queue_ok a"
  then show ?thesis using ClientSubmits
    by (auto simp: client_submit_def queue_ok_def List.map_filter_simps)
next
  case Polls
  assume "queue_ok a"
  then show ?thesis using Polls
    by (auto simp: poll_def intro: queue_ok_loop queue_ok_recv split: phase.split)
next
  case (OpReturns failure)
  assume ok: "queue_ok a"
  have "queue_ok (op_settles k i failure a)" for k i by (rule queue_ok_same [OF ok]) simp_all
  then show ?thesis using OpReturns ok
    by (auto simp: op_returns_def intro: queue_ok_teardown queue_ok_same [of a] split: phase.split)
next
  case (ClientSteers t g)
  assume "queue_ok a"
  then show ?thesis using ClientSteers client_inbox_only(1) [of t g a] by (auto simp: queue_ok_def)
next
  case (ClientInjects t)
  assume "queue_ok a"
  then show ?thesis using ClientInjects client_inbox_only(2) [of t a] by (auto simp: queue_ok_def)
next
  case (ClientCancelsInbox k)
  assume "queue_ok a"
  then show ?thesis using ClientCancelsInbox client_inbox_only(3) [of k a] by (auto simp: queue_ok_def)
qed (auto simp: client_drop_def abort_lands_def progress_def op_returns_def split: phase.split
     intro: queue_ok_teardown queue_ok_same [of a] queue_ok_lifecycle [of a _ "[Aborted]"])

subsection \<open>The event buffer is bounded\<close>

definition buffer_ok :: "('w, 'c) actor \<Rightarrow> bool" where
  "buffer_ok a \<longleftrightarrow> length (ac_events a) \<le> EVENT_CHANNEL_CAP"

lemma buffer_ok_same: "buffer_ok a \<Longrightarrow> ac_events b = ac_events a \<Longrightarrow> buffer_ok b"
  by (simp add: buffer_ok_def)

lemma buffer_ok_send [intro]: "buffer_ok a \<Longrightarrow> buffer_ok (try_send_event e a)" "buffer_ok a \<Longrightarrow> buffer_ok (send_msg i m a)"
  by (simp_all add: buffer_ok_def send_msg_def try_send_bound)

lemma buffer_ok_sends [intro]: "buffer_ok a \<Longrightarrow> buffer_ok (fold (\<lambda>x. send_msg i (f x)) ms a)"
  by (induction ms arbitrary: a) auto

lemmas buffer_ok_sends_plain [intro] = buffer_ok_sends [where f = "\<lambda>x. x"]

lemma buffer_ok_fields [simp]:
  "buffer_ok (log_act x a) \<longleftrightarrow> buffer_ok a" "buffer_ok (a\<lparr>ac_world := w\<rparr>) \<longleftrightarrow> buffer_ok a"
  "buffer_ok (a\<lparr>ac_conv := cv\<rparr>) \<longleftrightarrow> buffer_ok a" "buffer_ok (a\<lparr>ac_children := ch\<rparr>) \<longleftrightarrow> buffer_ok a"
  "buffer_ok (a\<lparr>ac_approvals := g\<rparr>) \<longleftrightarrow> buffer_ok a" "buffer_ok (a\<lparr>ac_questions := q\<rparr>) \<longleftrightarrow> buffer_ok a"
  "buffer_ok (a\<lparr>ac_interrupt := f\<rparr>) \<longleftrightarrow> buffer_ok a" "buffer_ok (a\<lparr>ac_channel := subs\<rparr>) \<longleftrightarrow> buffer_ok a"
  "buffer_ok (a\<lparr>ac_pending := subs\<rparr>) \<longleftrightarrow> buffer_ok a" "buffer_ok (a\<lparr>ac_phase := ph\<rparr>) \<longleftrightarrow> buffer_ok a"
  "buffer_ok (a\<lparr>ac_seq := n, ac_durability := d, ac_disk := dk\<rparr>) \<longleftrightarrow> buffer_ok a"
  "buffer_ok (a\<lparr>ac_inbox := ib\<rparr>) \<longleftrightarrow> buffer_ok a"
  by (simp_all add: buffer_ok_def)

lemma buffer_ok_hook: "buffer_ok a \<Longrightarrow> buffer_ok (run_lifecycle_hook env p a)"
  by (auto simp: run_lifecycle_hook_def split: prod.split)

lemma buffer_ok_teardown [intro]: "buffer_ok a \<Longrightarrow> buffer_ok (end_session_lifecycle env a)"
  by (auto simp: end_session_lifecycle_def end_session_def run_lifecycle_hook_def Let_def split: prod.split)

lemma buffer_ok_serve: "buffer_ok a \<Longrightarrow> buffer_ok (serve env sub a)"
  by (auto simp: serve_def run_user_turn_def run_compact_def begin_op_def checkpoint_pre_turn_def run_rewind_def
      deliver_approval_def deliver_answer_def warn_late_decision_def switch_setting_def Let_def
      split: wire_op.split prod.split option.split)

lemma buffer_ok_route: "buffer_ok a \<Longrightarrow> buffer_ok (snd (route_extra sub a))"
  by (auto simp: route_extra_def queue_or_reject_def deliver_approval_def deliver_answer_def
      warn_late_decision_def Let_def split: wire_op.split prod.split)

lemma buffer_ok_effect: "buffer_ok a \<Longrightarrow> buffer_ok (apply_effect k i x a)"
  by (cases x) auto

lemma buffer_ok_poll: "buffer_ok a \<Longrightarrow> buffer_ok (poll env a)"
  using buffer_ok_route [of "a\<lparr>ac_channel := tl (ac_channel a)\<rparr>" "hd (ac_channel a)"]
  by (auto simp: poll_def run_loop_step_def supervised_recv_def
      intro!: buffer_ok_serve split: phase.split list.splits prod.splits)

lemma buffer_ok_step: "buffer_ok a \<Longrightarrow> buffer_ok (actor_step env x a)"
proof (cases x)
  case (ClientSteers t g)
  assume "buffer_ok a"
  then show ?thesis using ClientSteers client_inbox_only(1) [of t g a] by auto
next
  case (ClientInjects t)
  assume "buffer_ok a"
  then show ?thesis using ClientInjects client_inbox_only(2) [of t a] by auto
next
  case (ClientCancelsInbox k)
  assume "buffer_ok a"
  then show ?thesis using ClientCancelsInbox client_inbox_only(3) [of k a] by auto
qed (auto simp: client_submit_def client_drop_def abort_lands_def progress_def op_returns_def op_settles_def
     intro: buffer_ok_poll buffer_ok_effect buffer_ok_same [of a] split: phase.split op_kind.split option.split,
     auto simp: buffer_ok_def)

definition actor_inv :: "('w, 'c) actor \<Rightarrow> bool" where
  "actor_inv a \<longleftrightarrow> queue_ok a \<and> buffer_ok a"

interpretation session: machine "actor_inv :: ('w, 'c) actor \<Rightarrow> bool" "actor_step env" for env
  by unfold_locales (simp add: actor_inv_def queue_ok_step buffer_ok_step)

lemma actor_inv_spawn: "actor_inv (actor_spawn env w conv children ib durability disk dir)"
proof -
  let ?a = "\<lparr>ac_world = w, ac_conv = conv, ac_children = children, ac_approvals = gate_new,
     ac_questions = gate_new, ac_interrupt = False, ac_clients = True, ac_channel = [],
     ac_events = [], ac_pending = [], ac_durability = durability, ac_disk = disk, ac_seq = 0,
     ac_inbox = ib, ac_phase = ActorIdle, ac_log = []\<rparr>"
  have "buffer_ok (run_lifecycle_hook env SessionStart ?a)"
    by (rule buffer_ok_hook) (simp add: buffer_ok_def)
  moreover have "queue_ok (run_lifecycle_hook env SessionStart ?a)"
    by (simp add: queue_ok_def List.map_filter_simps)
  ultimately show ?thesis
    by (auto simp: actor_spawn_def actor_inv_def Let_def queue_ok_def split: option.split)
qed

subsection \<open>A refusal is told\<close>

fun refused_act :: "act \<Rightarrow> submission option" where
  "refused_act (Rejected s) = Some s"
| "refused_act _ = None"

text \<open>The event that tells a submission was refused, and the buffer once it was offered: a full
  buffer, or a client that is gone, takes no more.\<close>

fun refusal :: "submission \<Rightarrow> wire_event" where
  "refusal \<lparr>su_id = i, su_op = OpRewind n\<rparr> =
     \<lparr>we_id = i, we_msg = LoopMsg (Warning ''rewind rejected: a turn is running'')\<rparr>"
| "refusal \<lparr>su_id = i, su_op = x\<rparr> =
     \<lparr>we_id = i, we_msg = LoopMsg (ErrorEvent ''submission queue is full (64 pending); retry later'' True
        ''queue.full'')\<rparr>"

definition offered :: "wire_event \<Rightarrow> ('w, 'c) actor \<Rightarrow> wire_event list" where
  "offered ev a =
     (if ac_clients a \<and> length (ac_events a) < 256 then ac_events a @ [ev] else ac_events a)"

definition runs_an_operation :: "('w, 'c) actor \<Rightarrow> bool" where
  "runs_an_operation a = (case ac_phase a of ActorBusy k i \<Rightarrow> True | _ \<Rightarrow> False)"

definition is_rewind :: "submission \<Rightarrow> bool" where
  "is_rewind sub = (case su_op sub of OpRewind n \<Rightarrow> True | _ \<Rightarrow> False)"

text \<open>What a step that refuses submissions does: one at most, for a full queue or as a rewind, while an
  operation runs, with nothing else changed for the client than the event.\<close>

definition tells_refusals :: "('w, 'c) actor \<Rightarrow> ('w, 'c) actor \<Rightarrow> bool" where
  "tells_refusals a b \<longleftrightarrow>
     (case acts_of refused_act (drop (length (ac_log a)) (ac_log b)) of
        [] \<Rightarrow> True
      | sub # others \<Rightarrow>
          others = [] \<and> runs_an_operation a \<and> ac_channel a = sub # ac_channel b \<and>
          (is_rewind sub \<or> length (ac_pending a) = 64) \<and>
          ac_pending b = ac_pending a \<and> ac_phase b = ac_phase a \<and> ac_events b = offered (refusal sub) a)"

lemma tells_none:
  "ac_log b = ac_log a @ xs \<Longrightarrow> list_all (\<lambda>x. refused_act x = None) xs \<Longrightarrow> tells_refusals a b"
  by (simp add: tells_refusals_def map_filter_none)

lemma tells_lifecycle:
  "ac_log b = ac_log a @ xs @ ys \<Longrightarrow> list_all (\<lambda>x. refused_act x = None) xs \<Longrightarrow> list_all lifecycle_act ys \<Longrightarrow>
   tells_refusals a b"
proof (rule tells_none [where xs = "xs @ ys"])
  assume "list_all (\<lambda>x. refused_act x = None) xs" "list_all lifecycle_act ys"
  moreover have "refused_act y = None" if "lifecycle_act y" for y
    using that by (elim lifecycle_act.elims) simp_all
  ultimately show "list_all (\<lambda>x. refused_act x = None) (xs @ ys)" by (auto simp: list_all_iff)
qed simp

lemma tells_same: "ac_log b = ac_log a \<Longrightarrow> tells_refusals a b"
  by (rule tells_none [where xs = "[]"]) simp_all

lemma tells_serve:
  "ac_log b = ac_log a @ xs \<Longrightarrow> list_all (\<lambda>x. refused_act x = None) xs \<Longrightarrow> tells_refusals a (serve env sub b)"
  using serve_log [of env sub b] tells_lifecycle [of "serve env sub b" a xs] by auto

lemma tells_loop: "tells_refusals a (run_loop_step env a)"
  by (auto simp: run_loop_step_def intro: tells_same tells_serve [where xs = "[Served _]"]
        tells_serve [where xs = "[Accepted _, Served _]"]
        tells_none [where xs = "[HookRan SessionEnd, SessionEnded (transcript_of env (ac_conv a))]"] split: list.split)

lemma show_queue_cap: "show_nat PENDING_QUEUE_CAP = ''64''"
  by (simp add: PENDING_QUEUE_CAP_def) code_simp

lemma refusal_queue:
  "\<not> is_rewind sub \<Longrightarrow> refusal sub =
     \<lparr>we_id = su_id sub, we_msg = LoopMsg (ErrorEvent (''submission queue is full ('' @ show_nat PENDING_QUEUE_CAP @
        '' pending); retry later'') True ''queue.full'')\<rparr>"
  by (cases sub rule: refusal.cases) (simp_all add: is_rewind_def show_queue_cap)

lemma tells_route:
  assumes busy: "runs_an_operation a" and channel: "ac_channel a = sub # rest"
    and bound: "length (ac_pending a) \<le> PENDING_QUEUE_CAP"
  shows "tells_refusals a (snd (route_extra sub (a\<lparr>ac_channel := rest\<rparr>)))"
proof -
  have queue: "tells_refusals a (queue_or_reject sub (a\<lparr>ac_channel := rest\<rparr>))" if "\<not> is_rewind sub"
    using bound busy channel refusal_queue [OF that]
    by (auto simp: queue_or_reject_def tells_refusals_def List.map_filter_simps send_msg_def try_send_event_def
        offered_def EVENT_CHANNEL_CAP_def PENDING_QUEUE_CAP_def log_act_def)
  have rewind: "tells_refusals a (log_act (Rejected sub)
      (send_msg (su_id sub) (Warning ''rewind rejected: a turn is running'') (a\<lparr>ac_channel := rest\<rparr>)))"
    if "is_rewind sub"
    using that busy channel
    by (cases sub rule: refusal.cases)
       (auto simp: tells_refusals_def List.map_filter_simps send_msg_def try_send_event_def
        offered_def EVENT_CHANNEL_CAP_def log_act_def is_rewind_def)
  show ?thesis
    using queue rewind
    by (auto simp: route_extra_def is_rewind_def intro: tells_none [where xs = "[Routed sub]"] split: wire_op.split)
qed

lemma tells_recv:
  assumes busy: "ac_phase a = ActorBusy k i" and bound: "length (ac_pending a) \<le> PENDING_QUEUE_CAP"
  shows "tells_refusals a (supervised_recv env k i a)"
proof (cases "ac_channel a")
  case Nil
  then show ?thesis by (auto simp: supervised_recv_def intro: tells_same)
next
  case (Cons sub rest)
  have t: "tells_refusals a (snd (route_extra sub (a\<lparr>ac_channel := rest\<rparr>)))"
    by (rule tells_route) (simp_all add: Cons bound busy runs_an_operation_def)
  have "tells_refusals a (end_session_lifecycle env (snd (route_extra sub (a\<lparr>ac_channel := rest\<rparr>))))"
    if "fst (route_extra sub (a\<lparr>ac_channel := rest\<rparr>))"
    using that by (intro tells_lifecycle [where xs = "[Routed sub]"])
      (auto simp: route_extra_def split: wire_op.splits)
  then show ?thesis
    using t Cons by (auto simp: supervised_recv_def split: prod.split)
qed

lemma tells_poll: "length (ac_pending a) \<le> PENDING_QUEUE_CAP \<Longrightarrow> tells_refusals a (poll env a)"
  by (auto simp: poll_def intro: tells_loop tells_recv tells_same split: phase.split)

lemma tells_step: "length (ac_pending a) \<le> PENDING_QUEUE_CAP \<Longrightarrow> tells_refusals a (actor_step env x a)"
proof (cases x)
  case (ClientSteers t g)
  then show ?thesis using client_inbox_only(1) [of t g a] by (auto intro: tells_same)
next
  case (ClientInjects t)
  then show ?thesis using client_inbox_only(2) [of t a] by (auto intro: tells_same)
next
  case (ClientCancelsInbox k)
  then show ?thesis using client_inbox_only(3) [of k a] by (auto intro: tells_same)
qed (auto simp: client_submit_def client_drop_def abort_lands_def progress_def op_returns_def
     intro: tells_poll tells_same tells_none [where xs = "[Sent _]"] tells_none [where xs = "[Aborted]"]
       tells_none [where xs = "[HookRan SessionEnd, SessionEnded (transcript_of env _)]"] split: phase.split)

lemma exited_log:
  "ac_phase a = ActorExited \<Longrightarrow> ac_log (actor_step env x a) = ac_log a \<and> ac_pending (actor_step env x a) = ac_pending a"
  by (cases x)
     (auto simp: client_submit_def client_drop_def abort_lands_def progress_def op_returns_def poll_def
        client_steer_def client_inject_def client_cancel_inbox_def split: option.split prod.split)

text \<open>C17: The actor serves what it accepts, in order, and tells what it refuses. In every state
  reachable from a spawned actor, by any interleaving of client, child, driver and poll signals:
  the submissions that came off the channel are those the client sent, in order, the rest still in
  the channel; each was accepted, refused, or routed at once; the accepted ones are
  served in arrival order, those not yet served waiting in the queue; and the queue, the channel
  and the event buffer keep their bounds. A step refuses at most one submission, only while an
  operation runs and only for a full queue or as a rewind, and offers the client the event that says
  so under the submission's own id, which a full buffer drops. Once the actor has exited it deals
  with nothing more: what still waits in the queue and the channel is dropped, and no event tells it.\<close>

theorem actor_serves_in_order:
  "let a = fold (actor_step env) signals (actor_spawn env w conv children ib durability disk dir);
       b = actor_step env next_signal a
   in acts_of sent_act (ac_log a) = acts_of dealt_act (ac_log a) @ ac_channel a \<and>
      acts_of accepted_act (ac_log a) = acts_of served_act (ac_log a) @ ac_pending a \<and>
      length (ac_pending a) \<le> PENDING_QUEUE_CAP \<and> length (ac_channel a) \<le> CONTROL_CHANNEL_CAP \<and>
      length (ac_events a) \<le> EVENT_CHANNEL_CAP \<and>
      (case acts_of refused_act (drop (length (ac_log a)) (ac_log b)) of
         [] \<Rightarrow> True
       | sub # others \<Rightarrow>
           others = [] \<and> runs_an_operation a \<and> ac_channel a = sub # ac_channel b \<and>
           (is_rewind sub \<or> length (ac_pending a) = 64) \<and>
           ac_pending b = ac_pending a \<and> ac_phase b = ac_phase a \<and> ac_events b = offered (refusal sub) a) \<and>
      (if ac_phase a = ActorExited then ac_log b = ac_log a \<and> ac_pending b = ac_pending a else True)"
proof -
  let ?a = "fold (actor_step env) signals (actor_spawn env w conv children ib durability disk dir)"
  have "actor_inv ?a" by (rule session.run_inv [OF actor_inv_spawn])
  moreover from this have "tells_refusals ?a (actor_step env next_signal ?a)"
    by (intro tells_step) (simp add: actor_inv_def queue_ok_def)
  ultimately show ?thesis
    using exited_log [of ?a env next_signal]
    by (simp add: Let_def actor_inv_def queue_ok_def buffer_ok_def tells_refusals_def)
qed

section \<open>Every exit tears the session down\<close>

fun session_body :: "act \<Rightarrow> bool" where
  "session_body (HookRan _) = False"
| "session_body (SessionEnded _) = False"
| "session_body Aborted = False"
| "session_body _ = True"

text \<open>How the log ends, given the phase.\<close>

definition ended_as :: "'w actor_env \<Rightarrow> ('w, 'c) actor \<Rightarrow> act list \<Rightarrow> bool" where
  "ended_as env a ending \<longleftrightarrow>
     (if ac_phase a \<noteq> ActorExited then ending = []
      else if ending = [Aborted] then \<not> ac_clients a
      else ending = [HookRan SessionEnd, SessionEnded (transcript_of env (ac_conv a))])"

definition shape_ok :: "'w actor_env \<Rightarrow> ('w, 'c) actor \<Rightarrow> bool" where
  "shape_ok env a \<longleftrightarrow>
     (\<exists>body ending. list_all session_body body \<and> ended_as env a ending \<and>
        ac_log a = HookRan SessionStart # body @ ending)"

text \<open>A step of a live actor adds acts of the session, and the ending when it exits.\<close>

definition advances :: "'w actor_env \<Rightarrow> ('w, 'c) actor \<Rightarrow> ('w, 'c) actor \<Rightarrow> bool" where
  "advances env a b \<longleftrightarrow>
     (\<exists>xs ending. list_all session_body xs \<and> ended_as env b ending \<and> ac_log b = ac_log a @ xs @ ending)"

lemma advances_quiet:
  "ac_log b = ac_log a @ xs \<Longrightarrow> list_all session_body xs \<Longrightarrow> ac_phase b \<noteq> ActorExited \<Longrightarrow> advances env a b"
  unfolding advances_def ended_as_def by auto

lemma advances_same:
  "ac_log b = ac_log a \<Longrightarrow> ac_phase b \<noteq> ActorExited \<Longrightarrow> advances env a b"
  by (rule advances_quiet [where xs = "[]"]) simp_all

lemma advances_before:
  "advances env b c \<Longrightarrow> ac_log b = ac_log a @ xs \<Longrightarrow> list_all session_body xs \<Longrightarrow> advances env a c"
  unfolding advances_def by (metis append.assoc list_all_append)

lemma advances_teardown:
  "ac_log b = ac_log a @ xs \<Longrightarrow> list_all session_body xs \<Longrightarrow> advances env a (end_session_lifecycle env b)"
  unfolding advances_def ended_as_def
  by (rule exI [of _ xs], rule exI [of _ "[HookRan SessionEnd, SessionEnded (transcript_of env (ac_conv b))]"]) simp

lemma checkpoint_session_log:
  "\<exists>xs. ac_log (checkpoint_pre_turn env k i a) = ac_log a @ xs \<and> list_all session_body xs"
  by (auto simp: checkpoint_pre_turn_def Let_def split: option.split prod.split)

lemma advances_begin: "ac_log b = ac_log a \<Longrightarrow> advances env a (begin_op k i (checkpoint_pre_turn env k i b))"
  using checkpoint_session_log [of env k i b] by (auto intro: advances_quiet)

lemma advances_serve: "ac_phase a \<noteq> ActorExited \<Longrightarrow> advances env a (serve env sub a)"
  by (auto simp: serve_def run_user_turn_def run_compact_def
      intro: advances_begin advances_same advances_teardown [where xs = "[]"] split: wire_op.split prod.split)

lemma advances_loop: "ac_phase a \<noteq> ActorExited \<Longrightarrow> advances env a (run_loop_step env a)"
  by (auto simp: run_loop_step_def intro: advances_same advances_teardown [where xs = "[]"]
        advances_before [OF advances_serve, where xs = "[Served _]"]
        advances_before [OF advances_serve, where xs = "[Accepted _, Served _]"] split: list.split)

lemma route_log:
  "\<exists>xs. ac_log (snd (route_extra sub a)) = ac_log a @ xs \<and> list_all session_body xs"
  by (auto simp: route_extra_def queue_or_reject_def split: wire_op.split)

lemma route_phase [simp]: "ac_phase (snd (route_extra sub a)) = ac_phase a"
  by (simp add: route_extra_def queue_or_reject_def split: wire_op.split)

lemma advances_recv: "ac_phase a \<noteq> ActorExited \<Longrightarrow> advances env a (supervised_recv env k i a)"
proof (cases "ac_channel a")
  case (Cons sub rest)
  assume live: "ac_phase a \<noteq> ActorExited"
  obtain exits b where r: "route_extra sub (a\<lparr>ac_channel := rest\<rparr>) = (exits, b)" by (rule prod.exhaust)
  obtain xs where "ac_log b = ac_log a @ xs" "list_all session_body xs"
    using route_log [of sub "a\<lparr>ac_channel := rest\<rparr>"] r by auto
  moreover have "ac_phase b \<noteq> ActorExited" using route_phase [of sub "a\<lparr>ac_channel := rest\<rparr>"] r live by simp
  ultimately show ?thesis
    using Cons r by (auto simp: supervised_recv_def intro: advances_quiet advances_teardown)
qed (auto simp: supervised_recv_def intro: advances_same)

lemma advances_step: "ac_phase a \<noteq> ActorExited \<Longrightarrow> advances env a (actor_step env x a)"
proof (cases x)
  case AbortLands
  assume "ac_phase a \<noteq> ActorExited"
  then show ?thesis using AbortLands
    by (auto simp: abort_lands_def advances_def ended_as_def intro: exI [of _ "[]"] exI [of _ "[Aborted]"])
next
  case (ClientSubmits sub)
  assume "ac_phase a \<noteq> ActorExited"
  then show ?thesis using ClientSubmits
    by (auto simp: client_submit_def intro: advances_same advances_quiet [where xs = "[Sent sub]"])
next
  case (ClientSteers t g)
  assume "ac_phase a \<noteq> ActorExited"
  then show ?thesis using ClientSteers client_inbox_only(1) [of t g a] by (auto intro: advances_same)
next
  case (ClientInjects t)
  assume "ac_phase a \<noteq> ActorExited"
  then show ?thesis using ClientInjects client_inbox_only(2) [of t a] by (auto intro: advances_same)
next
  case (ClientCancelsInbox k)
  assume "ac_phase a \<noteq> ActorExited"
  then show ?thesis using ClientCancelsInbox client_inbox_only(3) [of k a] by (auto intro: advances_same)
qed (auto simp: client_drop_def progress_def op_returns_def poll_def split: phase.split
     intro: advances_same advances_loop advances_recv advances_teardown [where xs = "[]"])

lemma exited_frozen:
  "ac_phase a = ActorExited \<Longrightarrow>
   ac_phase (actor_step env x a) = ActorExited \<and> ac_log (actor_step env x a) = ac_log a \<and>
   ac_conv (actor_step env x a) = ac_conv a \<and> (\<not> ac_clients a \<longrightarrow> \<not> ac_clients (actor_step env x a))"
  by (cases x)
     (auto simp: client_submit_def client_drop_def abort_lands_def progress_def op_returns_def poll_def
        client_steer_def client_inject_def client_cancel_inbox_def split: option.split prod.split)

lemma shape_ok_step: "shape_ok env a \<Longrightarrow> shape_ok env (actor_step env x a)"
proof -
  assume "shape_ok env a"
  then obtain body ending where body: "list_all session_body body" and e: "ended_as env a ending"
    and log: "ac_log a = HookRan SessionStart # body @ ending"
    unfolding shape_ok_def by blast
  show ?thesis
  proof (cases "ac_phase a = ActorExited")
    case True
    from exited_frozen [OF this, of env x] have "ended_as env (actor_step env x a) ending"
      using e True by (auto simp: ended_as_def split: if_splits)
    then show ?thesis
      using body log exited_frozen [OF True, of env x] unfolding shape_ok_def by metis
  next
    case False
    then have "ending = []" using e by (simp add: ended_as_def)
    moreover obtain xs ending' where "list_all session_body xs" "ended_as env (actor_step env x a) ending'"
      "ac_log (actor_step env x a) = ac_log a @ xs @ ending'"
      using advances_step [OF False, of env x] unfolding advances_def by blast
    ultimately have "list_all session_body (body @ xs)"
      "ac_log (actor_step env x a) = HookRan SessionStart # (body @ xs) @ ending'"
      "ended_as env (actor_step env x a) ending'"
      using body log by simp_all
    then show ?thesis unfolding shape_ok_def by blast
  qed
qed

interpretation teardown: machine "shape_ok env" "actor_step env" for env
  by unfold_locales (rule shape_ok_step)

lemma spawn_shape [simp]:
  "ac_log (actor_spawn env w conv children ib durability disk dir) = [HookRan SessionStart]"
  "ac_phase (actor_spawn env w conv children ib durability disk dir) = ActorIdle"
  by (simp_all add: actor_spawn_def Let_def split: option.split)

text \<open>C19: The session's hooks and its final extraction run once each, in order. In every run the start
  hook comes first and no lifecycle work happens while the actor lives; an actor that returned ran
  the end hook and then the extraction over the final transcript, as its last two acts; only an
  actor whose client dropped it can be gone without them.\<close>

theorem actor_tears_down_once:
  "let a = fold (actor_step env) signals (actor_spawn env w conv children ib durability disk dir)
   in \<exists>body ending. ac_log a = HookRan SessionStart # body @ ending \<and> list_all session_body body \<and>
        (if ac_phase a \<noteq> ActorExited then ending = []
         else if ending = [Aborted] then \<not> ac_clients a
         else ending = [HookRan SessionEnd, SessionEnded (transcript_of env (ac_conv a))])"
proof -
  let ?s = "actor_spawn env w conv children ib durability disk dir"
  have "shape_ok env ?s"
    unfolding shape_ok_def by (rule exI [of _ "[]"], rule exI [of _ "[]"]) (simp add: ended_as_def)
  from teardown.run_inv [OF this, of signals] show ?thesis
    unfolding shape_ok_def ended_as_def Let_def by blast
qed

text \<open>The teardown the main loop plans for a vanished client is lost when the abort that the client's
  drop requests lands first.\<close>

theorem client_drop_skips_teardown:
  "let a = fold (actor_step env) [ClientDrops, AbortLands] (actor_spawn env w conv children ib durability disk dir)
   in ac_phase a = ActorExited \<and> ac_log a = [HookRan SessionStart, Aborted]"
  by (simp add: Let_def client_drop_def abort_lands_def)

text \<open>A shutdown that arrives while an operation runs drops the operation at once: the drain is for
  vanished clients only.\<close>

theorem shutdown_skips_drain:
  assumes "ac_phase a = ActorBusy k i" and "ac_channel a = \<lparr>su_id = j, su_op = OpShutdown\<rparr> # rest"
  shows "ac_phase (actor_step env Polls a) = ActorExited"
  using assms by (simp add: poll_def supervised_recv_def route_extra_def)

text \<open>Control operations take effect at the next poll however full the queue is.\<close>

lemma interrupt_passes_the_queue:
  "ac_phase a = ActorBusy k i \<Longrightarrow> ac_channel a = \<lparr>su_id = j, su_op = OpInterrupt\<rparr> # rest \<Longrightarrow>
   ac_interrupt (actor_step env Polls a) \<and> ac_pending (actor_step env Polls a) = ac_pending a"
  by (simp add: poll_def supervised_recv_def route_extra_def log_act_def)

section \<open>A checkpoint comes before every operation that acts\<close>

text \<open>Every beginning of an operation the policy covers is directly preceded by the save of the
  history it begins with, under the next turn label; nothing else saves.\<close>

fun persisted :: "checkpoint_policy option \<Rightarrow> (json \<Rightarrow> string) \<Rightarrow> nat \<Rightarrow> act list \<Rightarrow> bool" where
  "persisted pol render n [] = True"
| "persisted pol render n (Saved l s ok # Began k i es # log) =
     ((case pol of None \<Rightarrow> False | Some p \<Rightarrow> policy_enables k p) \<and>
      l = turn_label (n + 1) \<and> s = render_snapshot render es \<and> persisted pol render (n + 1) log)"
| "persisted pol render n (Saved l s ok # log) = False"
| "persisted pol render n (Began k i es # log) =
     ((case pol of None \<Rightarrow> True | Some p \<Rightarrow> \<not> policy_enables k p) \<and> persisted pol render n log)"
| "persisted pol render n (x # log) = persisted pol render n log"

fun saved_act :: "act \<Rightarrow> (string \<times> string) option" where
  "saved_act (Saved l s _) = Some (l, s)"
| "saved_act _ = None"

fun durable_act :: "string \<Rightarrow> json disk \<Rightarrow> act \<Rightarrow> bool" where
  "durable_act root disk (Saved l s ok) = (if ok then durable_load root l disk = Inr (Some s) else True)"
| "durable_act root disk _ = True"

fun unsaved_act :: "act \<Rightarrow> bool" where
  "unsaved_act (Saved _ _ _) = False"
| "unsaved_act (Began _ _ _) = False"
| "unsaved_act _ = True"

abbreviation saves_of :: "act list \<Rightarrow> (string \<times> string) list" where
  "saves_of l \<equiv> List.map_filter saved_act l"

lemma persisted_append:
  "persisted pol render n xs \<Longrightarrow> persisted pol render (n + length (saves_of xs)) ys \<Longrightarrow>
   persisted pol render n (xs @ ys)"
  by (induction pol render n xs rule: persisted.induct) (simp_all add: List.map_filter_simps)

lemma persisted_unsaved: "list_all unsaved_act xs \<Longrightarrow> persisted pol render n xs \<and> saves_of xs = []"
  by (induction pol render n xs rule: persisted.induct) (simp_all add: List.map_filter_simps)

lemma persisted_no_policy: "persisted None render n xs \<Longrightarrow> saves_of xs = []"
  by (induction "None :: checkpoint_policy option" render n xs rule: persisted.induct)
     (simp_all add: List.map_filter_simps)

lemma durable_unsaved: "list_all unsaved_act xs \<Longrightarrow> list_all (durable_act root disk) xs"
  by (erule list.pred_mono_strong) (erule unsaved_act.elims; simp)

definition store_pairs :: "turn_durability \<Rightarrow> (string \<times> string) list" where
  "store_pairs d = map (\<lambda>c. (cp_label c, cp_data c)) (td_store d)"

definition saves_ok :: "'w actor_env \<Rightarrow> turn_durability option \<Rightarrow> ('w, 'c) actor \<Rightarrow> bool" where
  "saves_ok env d0 a \<longleftrightarrow>
     persisted (map_option td_policy d0) (dv_render env) 0 (ac_log a) \<and>
     ac_seq a = length (saves_of (ac_log a)) \<and>
     map fst (saves_of (ac_log a)) = map turn_label [1..<Suc (ac_seq a)] \<and>
     (case d0 of
        None \<Rightarrow> ac_durability a = None
      | Some d \<Rightarrow>
          (\<exists>store. ac_durability a = Some (d\<lparr>td_store := store\<rparr>) \<and>
             store_pairs (d\<lparr>td_store := store\<rparr>) = store_pairs d @ saves_of (ac_log a)) \<and>
          list_all (durable_act (td_root d) (ac_disk a)) (ac_log a))"

text \<open>Steps that add no save.\<close>

definition keeps_saves :: "('w, 'c) actor \<Rightarrow> ('w, 'c) actor \<Rightarrow> bool" where
  "keeps_saves a b \<longleftrightarrow>
     (\<exists>xs. ac_log b = ac_log a @ xs \<and> list_all unsaved_act xs) \<and>
     ac_durability b = ac_durability a \<and> ac_disk b = ac_disk a \<and> ac_seq b = ac_seq a"

lemma saves_ok_keeps: "saves_ok env d0 a \<Longrightarrow> keeps_saves a b \<Longrightarrow> saves_ok env d0 b"
  unfolding saves_ok_def keeps_saves_def
  by (auto simp: persisted_unsaved durable_unsaved intro: persisted_append split: option.splits)

lemma keeps_saves_same:
  "ac_log b = ac_log a \<Longrightarrow> ac_durability b = ac_durability a \<Longrightarrow> ac_disk b = ac_disk a \<Longrightarrow>
   ac_seq b = ac_seq a \<Longrightarrow> keeps_saves a b"
  by (simp add: keeps_saves_def)

lemma keeps_saves_trans: "keeps_saves a b \<Longrightarrow> keeps_saves b c \<Longrightarrow> keeps_saves a c"
  unfolding keeps_saves_def by (metis append.assoc list_all_append)

lemma keeps_saves_teardown: "keeps_saves a (end_session_lifecycle env a)"
  by (simp add: keeps_saves_def)

lemma keeps_saves_route: "keeps_saves a (snd (route_extra sub a))"
  by (simp add: keeps_saves_def route_extra_def queue_or_reject_def split: wire_op.split)

lemma saved_label_fresh:
  "map fst (saves_of l) = map turn_label [1..<Suc n] \<Longrightarrow> x \<in> set l \<Longrightarrow> saved_act x = Some (label, s) \<Longrightarrow>
   label \<noteq> turn_label (Suc n)"
proof -
  assume labels: "map fst (saves_of l) = map turn_label [1..<Suc n]" and x: "x \<in> set l" "saved_act x = Some (label, s)"
  then have "(label, s) \<in> set (saves_of l)"
    by (auto simp: List.map_filter_def intro!: image_eqI [of _ _ x])
  then have "label \<in> set (map fst (saves_of l))" by force
  then show ?thesis unfolding labels by auto
qed

text \<open>A covered operation: one more snapshot in memory, and on disk when the save succeeded.\<close>

lemma saves_ok_begin:
  assumes ok: "saves_ok env d0 a"
  shows "saves_ok env d0 (begin_op k i (checkpoint_pre_turn env k i a))"
proof (cases d0)
  case None
  then have "checkpoint_pre_turn env k i a = a"
    using ok by (simp add: saves_ok_def checkpoint_pre_turn_def)
  then show ?thesis
    using ok None by (auto simp: saves_ok_def List.map_filter_simps intro: persisted_append)
next
  case (Some d)
  then obtain store where dur: "ac_durability a = Some (d\<lparr>td_store := store\<rparr>)"
    and pairs: "store_pairs (d\<lparr>td_store := store\<rparr>) = store_pairs d @ saves_of (ac_log a)"
    and on: "list_all (durable_act (td_root d) (ac_disk a)) (ac_log a)"
    and per: "persisted (Some (td_policy d)) (dv_render env) 0 (ac_log a)"
    and seq: "ac_seq a = length (saves_of (ac_log a))"
    and labels: "map fst (saves_of (ac_log a)) = map turn_label [1..<Suc (ac_seq a)]"
    using ok by (auto simp: saves_ok_def)
  show ?thesis
  proof (cases "policy_enables k (td_policy d)")
    case False
    then have "checkpoint_pre_turn env k i a = a" using dur by (simp add: checkpoint_pre_turn_def)
    then show ?thesis
      using ok Some False by (auto simp: saves_ok_def List.map_filter_simps intro: persisted_append)
  next
    case True
    let ?l = "turn_label (Suc (ac_seq a))" and ?s = "render_snapshot (dv_render env) (cv_entries (ac_conv a))"
    obtain r disk where save: "durable_save (dv_save env (ac_world a)) (td_root d) ?l ?s (ac_disk a) = (r, disk)"
      by (rule prod.exhaust)
    let ?store = "snd (cps_save ?l ?s store)" and ?b = "begin_op k i (checkpoint_pre_turn env k i a)"
    have b: "ac_log ?b = ac_log a @ [Saved ?l ?s (is_ok r), Began k i (cv_entries (ac_conv a))]"
      "ac_durability ?b = Some (d\<lparr>td_store := ?store\<rparr>)" "ac_disk ?b = disk" "ac_seq ?b = Suc (ac_seq a)"
      using dur True save
      by (auto simp: checkpoint_pre_turn_def checkpoint_turn_def persist_checkpoint_def Let_def split: sum.splits)
    have old: "durable_act (td_root d) disk x" if x: "x \<in> set (ac_log a)" for x
    proof (cases "saved_act x")
      case None
      then show ?thesis by (cases x) simp_all
    next
      case (Some ls)
      obtain l s where ls: "ls = (l, s)" by (rule prod.exhaust)
      have "l \<noteq> ?l" using saved_label_fresh [OF labels x] Some ls by simp
      moreover have "durable_act (td_root d) (ac_disk a) x" using on x by (simp add: list_all_iff)
      ultimately show ?thesis
        using checkpoint_save_frame [of "td_root d" l "dv_save env (ac_world a)" ?l ?s "ac_disk a"] save Some ls
        by (cases x) auto
    qed
    have new: "durable_act (td_root d) disk (Saved ?l ?s (is_ok r))"
      using checkpoint_save_frame [of "td_root d" ?l "dv_save env (ac_world a)" ?l ?s "ac_disk a"] save by simp
    have "persisted (Some (td_policy d)) (dv_render env) 0 (ac_log ?b)"
      unfolding b using per True seq by (intro persisted_append) simp_all
    moreover have "store_pairs (d\<lparr>td_store := ?store\<rparr>) = store_pairs d @ saves_of (ac_log ?b)"
      unfolding b using pairs by (simp add: store_pairs_def cps_save_def Let_def List.map_filter_simps)
    moreover have "list_all (durable_act (td_root d) disk) (ac_log ?b)"
      unfolding b using old new by (simp add: list_all_iff)
    moreover have "map fst (saves_of (ac_log ?b)) = map turn_label [1..<Suc (ac_seq ?b)]"
      unfolding b using labels by (simp add: List.map_filter_simps)
    moreover have "ac_seq ?b = length (saves_of (ac_log ?b))"
      unfolding b using seq by (simp add: List.map_filter_simps)
    ultimately show ?thesis
      unfolding saves_ok_def Some b(2,3) by auto
  qed
qed

lemma saves_ok_serve: "saves_ok env d0 a \<Longrightarrow> saves_ok env d0 (serve env sub a)"
proof -
  assume ok: "saves_ok env d0 a"
  have turn: "saves_ok env d0 (a\<lparr>ac_children := ch, ac_conv := cv\<rparr>)" for ch cv
    by (rule saves_ok_keeps [OF ok keeps_saves_same]) simp_all
  have down: "saves_ok env d0 (end_session_lifecycle env (a\<lparr>ac_interrupt := True\<rparr>))"
    by (rule saves_ok_keeps [OF ok]) (simp add: keeps_saves_def)
  show ?thesis
    using ok turn down
    by (auto simp: serve_def run_user_turn_def run_compact_def
        intro: saves_ok_begin saves_ok_keeps [OF ok keeps_saves_same] split: wire_op.split prod.split)
qed

lemma saves_ok_poll: "saves_ok env d0 a \<Longrightarrow> saves_ok env d0 (poll env a)"
proof -
  assume ok: "saves_ok env d0 a"
  have loop: "saves_ok env d0 (run_loop_step env a)"
    using ok
    by (auto simp: run_loop_step_def intro!: saves_ok_serve intro: saves_ok_keeps [OF ok keeps_saves_teardown] split: list.split)
       (rule saves_ok_keeps [OF ok], simp add: keeps_saves_def)+
  have recv: "saves_ok env d0 (supervised_recv env k i a)" for k i
  proof (cases "ac_channel a")
    case Nil
    then show ?thesis using ok
      by (auto simp: supervised_recv_def intro: saves_ok_keeps [OF ok keeps_saves_same])
  next
    case (Cons sub rest)
    have "saves_ok env d0 (snd (route_extra sub (a\<lparr>ac_channel := rest\<rparr>)))"
      by (rule saves_ok_keeps [OF ok keeps_saves_trans [OF keeps_saves_same keeps_saves_route]]) simp_all
    then show ?thesis using Cons
      by (auto simp: supervised_recv_def intro: saves_ok_keeps [OF _ keeps_saves_teardown] split: prod.split)
  qed
  show ?thesis using ok loop recv by (simp add: poll_def split: phase.split)
qed

lemma saves_ok_step: "saves_ok env d0 a \<Longrightarrow> saves_ok env d0 (actor_step env x a)"
proof (cases x)
  case Polls
  assume "saves_ok env d0 a"
  then show ?thesis using Polls by (simp add: saves_ok_poll)
next
  case (OpReturns failure)
  assume ok: "saves_ok env d0 a"
  have "saves_ok env d0 (op_settles k i failure a)" for k i
    by (rule saves_ok_keeps [OF ok keeps_saves_same]) simp_all
  then show ?thesis using OpReturns ok
    by (auto simp: op_returns_def intro: saves_ok_keeps [OF _ keeps_saves_teardown]
        saves_ok_keeps [OF ok keeps_saves_same] split: phase.split)
next
  case DrainExpires
  assume "saves_ok env d0 a"
  then show ?thesis using DrainExpires
    by (auto intro: saves_ok_keeps [OF _ keeps_saves_teardown] split: phase.split)
qed (erule saves_ok_keeps,
     simp add: keeps_saves_def client_submit_def client_drop_def abort_lands_def progress_def client_steer_def
       client_inject_def client_cancel_inbox_def split: phase.split option.split prod.split)+

interpretation saves: machine "saves_ok env d0" "actor_step env" for env d0
  by unfold_locales (rule saves_ok_step)

lemma spawn_saves: "saves_ok env durability (actor_spawn env w conv children ib durability disk dir)"
proof -
  have "ac_seq (actor_spawn env w conv children ib durability disk dir) = 0"
    "ac_durability (actor_spawn env w conv children ib durability disk dir) = durability"
    by (simp_all add: actor_spawn_def Let_def split: option.split)
  moreover have "\<exists>store. d = d\<lparr>td_store := store\<rparr> \<and> store_pairs (d\<lparr>td_store := store\<rparr>) = store_pairs d" for d
    by (rule exI [of _ "td_store d"]) simp
  ultimately show ?thesis
    by (auto simp: saves_ok_def List.map_filter_simps split: option.split)
qed

text \<open>C18: Persist, then act. In every run, each turn or compaction the policy covers begins directly after
  the save of the very history it begins with, under the next turn label, and nothing else saves;
  the in-memory store is the initial one with those snapshots appended in order; and every save
  that raised no warning can be loaded from disk, at every later time, with its own snapshot.\<close>

theorem actor_persists_before_acting:
  "let a = fold (actor_step env) signals (actor_spawn env w conv children ib durability disk dir)
   in persisted (map_option td_policy durability) (dv_render env) 0 (ac_log a) \<and>
      (case (durability, ac_durability a) of
         (None, None) \<Rightarrow> saves_of (ac_log a) = []
       | (Some d0, Some d) \<Rightarrow>
           store_pairs d = store_pairs d0 @ saves_of (ac_log a) \<and>
           list_all (durable_act (td_root d0) (ac_disk a)) (ac_log a)
       | _ \<Rightarrow> False)"
proof -
  let ?a = "fold (actor_step env) signals (actor_spawn env w conv children ib durability disk dir)"
  have ok: "saves_ok env durability ?a" by (rule saves.run_inv [OF spawn_saves])
  have "durability = None \<Longrightarrow> saves_of (ac_log ?a) = []"
    using ok persisted_no_policy [of "dv_render env" 0 "ac_log ?a"] by (simp add: saves_ok_def)
  with ok show ?thesis by (auto simp: saves_ok_def Let_def split: option.splits)
qed

section \<open>Rewinding cuts at turn boundaries\<close>

lemma filter_upt_below:
  assumes "k < length (filter P [0..<n])"
  shows "filter P [0..<filter P [0..<n] ! k] = take k (filter P [0..<n])"
    and "P (filter P [0..<n] ! k)" and "filter P [0..<n] ! k < n"
proof -
  let ?ps = "filter P [0..<n]"
  let ?c = "?ps ! k"
  have c: "?c \<in> set ?ps" using assms by (rule nth_mem)
  then show "P ?c" "?c < n" by auto
  then have "[0..<n] = [0..<?c] @ ?c # [Suc ?c..<n]"
    using upt_add_eq_append [of 0 ?c "n - ?c"] upt_conv_Cons [of ?c n] by simp
  then have split: "?ps = filter P [0..<?c] @ ?c # filter P [Suc ?c..<n]"
    using \<open>P ?c\<close> by (metis filter.simps(2) filter_append)
  let ?A = "filter P [0..<?c]"
  have "length ?A < length ?ps" by (subst split) simp
  moreover have "?ps ! length ?A = ?c" by (subst (1) split) (simp add: nth_append)
  ultimately have "length ?A = k"
    using assms nth_eq_iff_index_eq [of ?ps "length ?A" k] by simp
  then show "?A = take k ?ps" by (metis append_eq_conv_conj split)
qed

lemma user_positions_take:
  assumes "k < length (user_positions es)"
  shows "user_positions (take (user_positions es ! k) es) = take k (user_positions es)"
    and "is_user_turn (es ! (user_positions es ! k))" and "user_positions es ! k < length es"
proof -
  let ?c = "user_positions es ! k"
  note below = filter_upt_below [of k "\<lambda>i. is_user_turn (es ! i)" "length es", folded user_positions_def, OF assms]
  show "is_user_turn (es ! ?c)" "?c < length es" using below by simp_all
  have "user_positions (take ?c es) = filter (\<lambda>i. is_user_turn (take ?c es ! i)) [0..<?c]"
    using below(3) by (simp add: user_positions_def)
  also have "\<dots> = filter (\<lambda>i. is_user_turn (es ! i)) [0..<?c]" by (rule filter_cong) simp_all
  finally show "user_positions (take ?c es) = take k (user_positions es)" using below(1) by simp
qed

text \<open>A user turn answers no call, so a cut before it splits no pair.\<close>

lemma paired_take:
  "paired es \<Longrightarrow> n < length es \<Longrightarrow> entry_results (es ! n) = [] \<Longrightarrow> paired (take n es)"
proof (induction es arbitrary: n)
  case (Cons e es)
  show ?case
  proof (cases n)
    case (Suc m)
    then have "paired (take m es)" using Cons by (intro Cons.IH) simp_all
    moreover obtain r rs where es: "es = r # rs" using Cons.prems(2) Suc by (cases es) simp_all
    then have "entry_uses e = [] \<or> (case take m es of [] \<Rightarrow> False | r # _ \<Rightarrow> entry_results r = entry_uses e)"
      using Cons.prems Suc by (cases m) auto
    ultimately show ?thesis using Suc by simp
  qed simp
qed simp

lemma user_turn_no_results: "is_user_turn e \<Longrightarrow> entry_results e = []"
  by (simp add: is_user_turn_def split: if_splits)

text \<open>C20: Rewinding cuts the history where an entry that the code takes for a user turn begins: a
  user-role entry with text or an image, no tool result, no reminder and not the continuation prompt.
  It drops as many of those entries as asked for, as far as there are any, each with everything after
  it; what stays is a prefix of the history with that many of them fewer; with nothing to drop
  nothing changes; and a history in which every call has its result keeps that. The notice of a
  finished child and the summary of a compaction are taken for user turns too, as the two theorems
  below show.\<close>

theorem rewind_drops_whole_turns:
  "case rewind_conversation turns conv of (removed, conv') \<Rightarrow>
     removed = min turns (length (user_positions (cv_entries conv))) \<and>
     user_positions (cv_entries conv') =
       take (length (user_positions (cv_entries conv)) - removed) (user_positions (cv_entries conv)) \<and>
     prefix (cv_entries conv') (cv_entries conv) \<and>
     (if removed = 0 then conv' = conv else is_user_turn (cv_entries conv ! length (cv_entries conv'))) \<and>
     (if paired (cv_entries conv) then paired (cv_entries conv') else True)"
proof -
  let ?es = "cv_entries conv"
  let ?n = "min turns (length (user_positions ?es))"
  show ?thesis
  proof (cases "?n = 0")
    case True
    then show ?thesis by (auto simp: rewind_conversation_def Let_def)
  next
    case False
    let ?k = "length (user_positions ?es) - ?n"
    have k: "?k < length (user_positions ?es)" using False by linarith
    note cut = user_positions_take [OF k]
    have "paired ?es \<Longrightarrow> paired (take (user_positions ?es ! ?k) ?es)"
      using cut(2,3) by (intro paired_take) (simp_all add: user_turn_no_results)
    then show ?thesis
      using False cut(1,2,3)
      by (simp add: rewind_conversation_def Let_def replace_history_def take_is_prefix del: min_less_iff_conj min_def)
  qed
qed

text \<open>The notice of a finished child enters the history as an entry of its own and counts as a user
  turn, so a rewind by one turn may drop no prompt of the user.\<close>

theorem child_notice_counts_as_turn:
  "fst (rewind_conversation 2 (fold (push User) [''fix the bug'', ''child-1 finished'', ''go on''] (conv_new False))) = 2 \<and>
   cv_entries (snd (rewind_conversation 2 (fold (push User) [''fix the bug'', ''child-1 finished'', ''go on''] (conv_new False)))) =
     [\<lparr>he_role = User, he_blocks = [Text ''fix the bug'']\<rparr>]"
  by code_simp

text \<open>The entry a compaction puts in front of what it keeps (\<open>do_compact\<close>) is a plain user text, so it
  counts as a user turn as well, and a rewind that asks for one turn more than the user typed since
  drops the summary: the history is empty then.\<close>

theorem rewind_drops_the_summary:
  "let s = \<lparr>he_role = User, he_blocks = [Text ''Summary of the earlier work'']\<rparr>;
       conv = push User ''go on'' (replace_history [s] (conv_new False))
   in is_user_turn s \<and> rewind_conversation 1 conv = (1, replace_history [s] conv) \<and>
      fst (rewind_conversation 2 conv) = 2 \<and> cv_entries (snd (rewind_conversation 2 conv)) = []"
  by code_simp

text \<open>Every summary without the reminder marker is one, whatever it says.\<close>

lemma summary_is_user_turn:
  "is_user_turn \<lparr>he_role = User, he_blocks = [Text t]\<rparr> \<longleftrightarrow>
     \<not> contains t SYSTEM_REMINDER_OPEN \<and> t \<noteq> CONTINUATION_PROMPT"
  by (simp add: is_user_turn_def entry_results_def prose_def)

end
