(* ===== verification/Jobs.thy ===== *)
theory Jobs
  imports Child_Runtime
begin

text \<open>
  Background shell jobs (\<open>crates/action/jobs/src/lib.rs\<close>): the table with its per-owner cap, the driver
  of one job from spawn to reap, cancellation, the bounded log, and the completion notice filed on
  the child runtime's queue.

  A driver is a state machine over what happens to its process; the table is a machine over service
  calls and driver events in any order. A termination takes several steps: the tree kill runs on the
  blocking pool, where nothing can take it back, and the driver that waits for it may be cut short
  by a cancel or a panic. Setting the finished state and filing the notice is one step:
  nothing but waking waiters happens between them, and \<open>mark_notified\<close> decides under the same lock.
  Bytes are characters, decoding them to text is a parameter. The acts of a slot record what its
  driver did to its process, and the two counts record calls of \<open>mark_notified\<close> before and after the
  end and the notices filed; nothing reads them but the properties.
\<close>

section \<open>Slots and snapshots\<close>

definition MAX_JOBS_PER_OWNER :: nat where
  "MAX_JOBS_PER_OWNER = 10"

definition MAX_TRACKED_JOBS :: nat where
  "MAX_TRACKED_JOBS = 64"

definition MAX_LOG_BYTES :: nat where
  "MAX_LOG_BYTES = 64 * 1024"

definition LOG_TAIL_BYTES :: nat where
  "LOG_TAIL_BYTES = 8 * 1024"

definition MAX_WAIT_MS :: nat where
  "MAX_WAIT_MS = 300000"

record job_request =
  jr_owner :: string
  jr_command :: string
  jr_timeout_ms :: "nat option"
  jr_foreground :: bool

datatype job_error = AtCapacity

datatype job_state = JobRunning | JobFinished

record job_snapshot =
  jn_id :: string
  jn_state :: job_state
  jn_exit_code :: "int option"
  jn_cancelled :: bool
  jn_timed_out :: bool
  jn_log_tail :: string

definition show_int :: "int \<Rightarrow> string" where
  "show_int n = (if n < 0 then ''-'' @ show_nat (nat (- n)) else show_nat (nat n))"

definition status_line :: "job_snapshot \<Rightarrow> string" where
  "status_line s =
     (case jn_state s of
        JobRunning \<Rightarrow> ''job '' @ jn_id s @ '': running''
      | JobFinished \<Rightarrow>
          if jn_cancelled s then ''job '' @ jn_id s @ '': finished (cancelled)''
          else if jn_timed_out s then ''job '' @ jn_id s @ '': finished (timed out)''
          else (case jn_exit_code s of
                  Some code \<Rightarrow> ''job '' @ jn_id s @ '': finished (exit '' @ show_int code @ '')''
                | None \<Rightarrow> ''job '' @ jn_id s @ '': finished (signal-killed)''))"

definition is_failure :: "job_snapshot \<Rightarrow> bool" where
  "is_failure s \<longleftrightarrow>
     jn_state s = JobFinished \<and> \<not> jn_cancelled s \<and> (jn_timed_out s \<or> jn_exit_code s \<noteq> Some 0)"

text \<open>Where the driver of a job is: before its start check, with a process not yet checked for a raced
  cancel, waiting for the process, terminating it, past it with the status it has, and gone. A
  termination has the place it was called from, and waits first for the tree kill, then for the shell.\<close>

datatype kill_site = KillRaced | KillCancelled | KillDeadline

datatype kill_phase = AwaitsTreeKill | AwaitsReap

datatype job_driver =
    DrvStart
  | DrvChild nat
  | DrvWaits nat
  | DrvKills kill_site nat kill_phase
  | DrvDrains "int option"
  | DrvGone

text \<open>What was done to the process of a job; \<open>Dropped\<close> is a handle dropped by a panic, after which the
  runtime kills and reaps the shell by itself.\<close>

datatype process_act = Launched nat | TreeKilled nat | Reaped nat | Dropped nat

record job_slot =
  js_owner :: string
  js_command :: string
  js_timeout :: "nat option"
  js_state :: job_state
  js_exit_code :: "int option"
  js_cancelled :: bool
  js_cancel_permit :: bool
  js_timed_out :: bool
  js_foreground :: bool
  js_log :: string
  js_draining :: bool
  js_driver :: job_driver
  js_stray :: "nat list"
  js_acts :: "process_act list"
  js_started_quiet :: bool
  js_marks :: "nat \<times> nat"
  js_filed :: nat

definition job_slot_new :: "job_request \<Rightarrow> job_slot" where
  "job_slot_new r =
     \<lparr>js_owner = jr_owner r, js_command = jr_command r, js_timeout = jr_timeout_ms r, js_state = JobRunning,
      js_exit_code = None, js_cancelled = False, js_cancel_permit = False, js_timed_out = False,
      js_foreground = jr_foreground r, js_log = [], js_draining = False, js_driver = DrvStart, js_stray = [], js_acts = [],
      js_started_quiet = jr_foreground r, js_marks = (0, 0), js_filed = 0\<rparr>"

definition slot_running :: "job_slot \<Rightarrow> bool" where
  "slot_running slot \<longleftrightarrow> js_state slot = JobRunning"

text \<open>The log keeps its tail.\<close>

definition append_log :: "string \<Rightarrow> job_slot \<Rightarrow> job_slot" where
  "append_log bytes slot =
     (let log = js_log slot @ bytes
      in slot\<lparr>js_log := (if length log > MAX_LOG_BYTES then drop (length log - MAX_LOG_BYTES) log else log)\<rparr>)"

text \<open>The start of the tail moves past continuation bytes.\<close>

definition continuation :: "char \<Rightarrow> bool" where
  "continuation c \<longleftrightarrow> char_code c div 64 = 2"

definition tail_text :: "(string \<Rightarrow> string) \<Rightarrow> string \<Rightarrow> string" where
  "tail_text lossy log = lossy (dropWhile continuation (drop (length log - LOG_TAIL_BYTES) log))"

definition job_snapshot_of :: "(string \<Rightarrow> string) \<Rightarrow> string \<Rightarrow> job_slot \<Rightarrow> job_snapshot" where
  "job_snapshot_of lossy i slot =
     \<lparr>jn_id = i, jn_state = js_state slot, jn_exit_code = js_exit_code slot, jn_cancelled = js_cancelled slot,
      jn_timed_out = js_timed_out slot, jn_log_tail = tail_text lossy (js_log slot)\<rparr>"

section \<open>The driver\<close>

text \<open>The terminal record; the flag says that a notice is filed.\<close>

definition job_finish :: "int option \<Rightarrow> job_slot \<Rightarrow> bool \<times> job_slot" where
  "job_finish exit_code slot =
     (let notify = \<not> js_foreground slot
      in (notify, slot\<lparr>js_exit_code := exit_code, js_state := JobFinished, js_driver := DrvGone,
                       js_filed := js_filed slot + (if notify then 1 else 0)\<rparr>))"

text \<open>\<open>kill_and_reap\<close> sends the tree kill to the blocking pool and waits for it; when it has landed it
  kills the shell itself and reaps it. The status is the code of the reap, or nothing when the wait
  failed. After the raced check the job is over then; elsewhere its pipes are drained first.\<close>

definition kill_and_reap :: "kill_site \<Rightarrow> nat \<Rightarrow> job_slot \<Rightarrow> job_slot" where
  "kill_and_reap site pid slot = slot\<lparr>js_driver := DrvKills site pid AwaitsTreeKill\<rparr>"

definition tree_kill_lands :: "kill_site \<Rightarrow> nat \<Rightarrow> job_slot \<Rightarrow> job_slot" where
  "tree_kill_lands site pid slot =
     slot\<lparr>js_driver := DrvKills site pid AwaitsReap, js_acts := js_acts slot @ [TreeKilled pid]\<rparr>"

definition reap_killed :: "kill_site \<Rightarrow> nat \<Rightarrow> (string, int option) result \<Rightarrow> job_slot \<Rightarrow> bool \<times> job_slot" where
  "reap_killed site pid r slot =
     (let slot' = (if is_ok r then slot\<lparr>js_acts := js_acts slot @ [Reaped pid]\<rparr> else slot);
          status = (case r of Inl e \<Rightarrow> None | Inr code \<Rightarrow> code)
      in if site = KillRaced then job_finish None slot'
         else (False, slot'\<lparr>js_driver := DrvDrains status\<rparr>))"

text \<open>Dropping a termination does not stop a tree kill that is on the pool: it lands later.\<close>

definition drop_kill :: "job_slot \<Rightarrow> job_slot" where
  "drop_kill slot =
     (case js_driver slot of
        DrvKills site pid AwaitsTreeKill \<Rightarrow> slot\<lparr>js_stray := js_stray slot @ [pid]\<rparr>
      | _ \<Rightarrow> slot)"

text \<open>A panic drops the handle of a process that was not reaped.\<close>

definition drop_child :: "job_slot \<Rightarrow> job_slot" where
  "drop_child slot =
     (case js_driver slot of
        DrvChild pid \<Rightarrow> slot\<lparr>js_acts := js_acts slot @ [Dropped pid]\<rparr>
      | DrvWaits pid \<Rightarrow> slot\<lparr>js_acts := js_acts slot @ [Dropped pid]\<rparr>
      | DrvKills site pid phase \<Rightarrow> slot\<lparr>js_acts := js_acts slot @ [Dropped pid]\<rparr>
      | _ \<Rightarrow> slot)"

text \<open>What happens to a driver: it starts, with a process or an error; it checks for a raced cancel; its
  process writes, exits, cannot be waited for, or meets the deadline; it sees a cancel; the tree kill
  it waits for lands; it reaps the killed shell; its pipes end; it panics; and a tree kill nobody
  waits for any more lands. The cancel is looked at first, so a driver whose cancel is pending sees
  no exit and no end of the termination the deadline began, but is taken out of it.\<close>

datatype job_event =
    EvStart "(string, nat) result"
  | EvCheck
  | EvOutput string
  | EvCancel
  | EvExit "int option"
  | EvWaitFails string
  | EvDeadline
  | EvTreeKill
  | EvReap "(string, int option) result"
  | EvDrained
  | EvPanic
  | EvStrayKill

fun drive :: "job_event \<Rightarrow> job_slot \<Rightarrow> bool \<times> job_slot" where
  "drive (EvStart r) slot =
     (if js_driver slot \<noteq> DrvStart then (False, slot)
      else if js_cancelled slot then job_finish None slot
      else (case r of
              Inl e \<Rightarrow> job_finish None (append_log (''failed to spawn shell: '' @ e @ [newline]) slot)
            | Inr pid \<Rightarrow> (False, slot\<lparr>js_driver := DrvChild pid, js_acts := js_acts slot @ [Launched pid]\<rparr>)))"
| "drive EvCheck slot =
     (case js_driver slot of
        DrvChild pid \<Rightarrow>
          if js_cancelled slot then (False, kill_and_reap KillRaced pid slot)
          else (False, slot\<lparr>js_driver := DrvWaits pid, js_draining := True\<rparr>)
      | _ \<Rightarrow> (False, slot))"
| "drive (EvOutput bytes) slot = (False, if js_draining slot then append_log bytes slot else slot)"
| "drive EvCancel slot =
     (case js_driver slot of
        DrvWaits pid \<Rightarrow>
          if js_cancel_permit slot
          then (False, kill_and_reap KillCancelled pid (slot\<lparr>js_cancel_permit := False\<rparr>))
          else (False, slot)
      | DrvKills KillDeadline pid phase \<Rightarrow>
          if js_cancel_permit slot
          then (False, kill_and_reap KillCancelled pid (drop_kill (slot\<lparr>js_cancel_permit := False\<rparr>)))
          else (False, slot)
      | _ \<Rightarrow> (False, slot))"
| "drive (EvExit status) slot =
     (case js_driver slot of
        DrvWaits pid \<Rightarrow>
          if js_cancel_permit slot then (False, slot)
          else (False, slot\<lparr>js_driver := DrvDrains status, js_acts := js_acts slot @ [Reaped pid]\<rparr>)
      | _ \<Rightarrow> (False, slot))"
| "drive (EvWaitFails e) slot =
     (case js_driver slot of
        DrvWaits pid \<Rightarrow>
          if js_cancel_permit slot then (False, slot)
          else (False, (append_log (''failed waiting on shell: '' @ e @ [newline]) slot)\<lparr>js_driver := DrvDrains None\<rparr>)
      | _ \<Rightarrow> (False, slot))"
| "drive EvDeadline slot =
     (case js_driver slot of
        DrvWaits pid \<Rightarrow>
          if js_cancel_permit slot \<or> js_timeout slot = None then (False, slot)
          else (False, kill_and_reap KillDeadline pid (slot\<lparr>js_timed_out := True\<rparr>))
      | _ \<Rightarrow> (False, slot))"
| "drive EvTreeKill slot =
     (case js_driver slot of
        DrvKills site pid AwaitsTreeKill \<Rightarrow> (False, tree_kill_lands site pid slot)
      | _ \<Rightarrow> (False, slot))"
| "drive (EvReap r) slot =
     (case js_driver slot of
        DrvKills site pid AwaitsReap \<Rightarrow>
          if site = KillDeadline \<and> js_cancel_permit slot then (False, slot) else reap_killed site pid r slot
      | _ \<Rightarrow> (False, slot))"
| "drive EvDrained slot =
     (case js_driver slot of
        DrvDrains status \<Rightarrow> job_finish status (slot\<lparr>js_draining := False\<rparr>)
      | _ \<Rightarrow> (False, slot))"
| "drive EvPanic slot =
     (if js_driver slot = DrvGone then (False, slot) else job_finish None (drop_child (drop_kill slot)))"
| "drive EvStrayKill slot =
     (case js_stray slot of
        [] \<Rightarrow> (False, slot)
      | pid # pids \<Rightarrow> (False, slot\<lparr>js_stray := pids, js_acts := js_acts slot @ [TreeKilled pid]\<rparr>))"

section \<open>The service\<close>

record 'c job_service =
  jv_jobs :: "(string, job_slot) tbl"
  jv_next :: nat
  jv_children :: "'c child_runtime"

definition job_service_new :: "'c child_runtime \<Rightarrow> 'c job_service" where
  "job_service_new children = \<lparr>jv_jobs = [], jv_next = 0, jv_children = children\<rparr>"

definition running_of :: "string \<Rightarrow> (string, job_slot) tbl \<Rightarrow> nat" where
  "running_of owner jobs = length (filter (\<lambda>(_, slot). js_owner slot = owner \<and> slot_running slot) jobs)"

definition job_spawn :: "job_request \<Rightarrow> 'c job_service \<Rightarrow> (job_error, string) result \<times> 'c job_service" where
  "job_spawn r sv =
     (if MAX_JOBS_PER_OWNER \<le> running_of (jr_owner r) (jv_jobs sv) then (Inl AtCapacity, sv)
      else
        let jobs = (if MAX_TRACKED_JOBS \<le> length (jv_jobs sv)
                    then filter (\<lambda>(_, slot). slot_running slot) (jv_jobs sv) else jv_jobs sv);
            n = jv_next sv + 1; i = ''job-'' @ show_nat n
        in (Inr i, sv\<lparr>jv_jobs := tbl_insert i (job_slot_new r) jobs, jv_next := n\<rparr>))"

definition job_read :: "(string \<Rightarrow> string) \<Rightarrow> string \<Rightarrow> 'c job_service \<Rightarrow> job_snapshot option" where
  "job_read lossy i sv = map_option (job_snapshot_of lossy i) (map_of (jv_jobs sv) i)"

record job_overview =
  jo_id :: string
  jo_command :: string
  jo_owner :: string
  jo_snapshot :: job_snapshot

definition job_index :: "string \<Rightarrow> nat" where
  "job_index i =
     (case Option.bind (strip_prefix i ''job-'') (parse_uint (max_of 64)) of Some n \<Rightarrow> n | None \<Rightarrow> max_of 64)"

definition overview :: "(string \<Rightarrow> string) \<Rightarrow> 'c job_service \<Rightarrow> job_overview list" where
  "overview lossy sv =
     map (\<lambda>(i, slot). \<lparr>jo_id = i, jo_command = js_command slot, jo_owner = js_owner slot,
                       jo_snapshot = job_snapshot_of lossy i slot\<rparr>)
       (sort_key (\<lambda>(i, _). job_index i) (jv_jobs sv))"

text \<open>One wait: the snapshot at once when the job is over, else what the slot has become after at most
  the limit; the waiter holds the slot, which the table may drop meanwhile.\<close>

definition wait_limit :: "nat \<Rightarrow> nat" where
  "wait_limit timeout_ms = min timeout_ms MAX_WAIT_MS"

definition job_wait ::
    "(string \<Rightarrow> string) \<Rightarrow> string \<Rightarrow> nat \<Rightarrow>
     (nat \<Rightarrow> job_slot \<Rightarrow> 'c job_service \<Rightarrow> job_slot \<times> 'c job_service) \<Rightarrow> 'c job_service \<Rightarrow>
     job_snapshot option \<times> 'c job_service" where
  "job_wait lossy i timeout_ms sleeps sv =
     (case map_of (jv_jobs sv) i of
        None \<Rightarrow> (None, sv)
      | Some slot \<Rightarrow>
          if \<not> slot_running slot then (Some (job_snapshot_of lossy i slot), sv)
          else (case sleeps (wait_limit timeout_ms) slot sv of
                  (slot', sv') \<Rightarrow> (Some (job_snapshot_of lossy i slot'), sv')))"

definition put_slot :: "string \<Rightarrow> bool \<times> job_slot \<Rightarrow> 'c job_service \<Rightarrow> 'c job_service" where
  "put_slot i r sv =
     (case r of (notify, slot) \<Rightarrow>
        let sv' = sv\<lparr>jv_jobs := tbl_insert i slot (jv_jobs sv)\<rparr>
        in if notify then sv'\<lparr>jv_children := notify_completion (i @ '' finished'') (jv_children sv')\<rparr> else sv')"

definition mark_slot :: "job_slot \<Rightarrow> bool \<times> job_slot" where
  "mark_slot slot =
     (let ended_quiet = \<not> slot_running slot
      in (ended_quiet, slot\<lparr>js_foreground := False,
            js_marks := (if ended_quiet then (fst (js_marks slot), snd (js_marks slot) + 1)
                         else (fst (js_marks slot) + 1, snd (js_marks slot))),
            js_filed := js_filed slot + (if ended_quiet then 1 else 0)\<rparr>))"

definition mark_notified :: "string \<Rightarrow> 'c job_service \<Rightarrow> bool \<times> 'c job_service" where
  "mark_notified i sv =
     (case map_of (jv_jobs sv) i of
        None \<Rightarrow> (False, sv)
      | Some slot \<Rightarrow> (True, put_slot i (mark_slot slot) sv))"

definition cancel_slot :: "job_slot \<Rightarrow> bool \<times> job_slot" where
  "cancel_slot slot =
     (False, if js_cancelled slot then slot else slot\<lparr>js_cancelled := True, js_cancel_permit := True\<rparr>)"

definition job_cancel :: "string \<Rightarrow> 'c job_service \<Rightarrow> bool \<times> 'c job_service" where
  "job_cancel i sv =
     (case map_of (jv_jobs sv) i of
        None \<Rightarrow> (False, sv)
      | Some slot \<Rightarrow> (True, put_slot i (cancel_slot slot) sv))"

definition job_drive :: "string \<Rightarrow> job_event \<Rightarrow> 'c job_service \<Rightarrow> 'c job_service" where
  "job_drive i ev sv =
     (case map_of (jv_jobs sv) i of None \<Rightarrow> sv | Some slot \<Rightarrow> put_slot i (drive ev slot) sv)"

datatype job_call = JobSpawn job_request | JobCancel string | JobMark string | JobDrive string job_event | JobDrain

fun job_step :: "job_call \<Rightarrow> 'c job_service \<Rightarrow> 'c job_service" where
  "job_step (JobSpawn r) sv = snd (job_spawn r sv)"
| "job_step (JobCancel i) sv = snd (job_cancel i sv)"
| "job_step (JobMark i) sv = snd (mark_notified i sv)"
| "job_step (JobDrive i ev) sv = job_drive i ev sv"
| "job_step JobDrain sv = sv\<lparr>jv_children := snd (drain_notifications (jv_children sv))\<rparr>"

section \<open>The log keeps the newest bytes\<close>

lemma append_log_drop:
  "js_log (append_log bytes slot) = drop (length (js_log slot @ bytes) - MAX_LOG_BYTES) (js_log slot @ bytes)"
  by (simp add: append_log_def Let_def)

lemma append_logs:
  "length (js_log slot) \<le> MAX_LOG_BYTES \<Longrightarrow>
   js_log (fold append_log chunks slot) =
     drop (length (js_log slot @ concat chunks) - MAX_LOG_BYTES) (js_log slot @ concat chunks)"
proof (induction chunks arbitrary: slot)
  case (Cons c cs)
  let ?l = "js_log slot @ c"
  have "length (js_log (append_log c slot)) \<le> MAX_LOG_BYTES" by (simp add: append_log_drop)
  from Cons.IH [OF this] have "js_log (fold append_log (c # cs) slot) =
      drop (length (js_log (append_log c slot)) + length (concat cs) - MAX_LOG_BYTES)
        (js_log (append_log c slot) @ concat cs)" by simp
  also have "js_log (append_log c slot) @ concat cs = drop (length ?l - MAX_LOG_BYTES) (?l @ concat cs)"
    by (simp add: append_log_drop)
  also have "drop (length (js_log (append_log c slot)) + length (concat cs) - MAX_LOG_BYTES)
      (drop (length ?l - MAX_LOG_BYTES) (?l @ concat cs)) =
      drop (length (?l @ concat cs) - MAX_LOG_BYTES) (?l @ concat cs)"
    unfolding drop_drop by (rule arg_cong [where f = "\<lambda>n. drop n _"]) (simp add: append_log_drop)
  finally show ?case by simp
qed simp

section \<open>Invariant of a slot\<close>

text \<open>What may happen to a process after its launch. As a rule one tree kill at most, and before the
  reap. When a cancel came after the deadline, a second tree kill, the one dropped with the deadline's
  termination, may land at any point, after the reap too. After a panic the runtime has the shell, and
  what was on its way still lands.\<close>

definition one_kill :: "nat \<Rightarrow> process_act list list" where
  "one_kill p = [[], [TreeKilled p], [Reaped p], [TreeKilled p, Reaped p]]"

definition two_kills :: "nat \<Rightarrow> process_act list list" where
  "two_kills p =
     [[TreeKilled p], [TreeKilled p, TreeKilled p], [TreeKilled p, Reaped p],
      [TreeKilled p, TreeKilled p, Reaped p], [TreeKilled p, Reaped p, TreeKilled p]]"

definition kill_around_drop :: "nat \<Rightarrow> process_act list list" where
  "kill_around_drop p = [[Dropped p], [TreeKilled p, Dropped p], [Dropped p, TreeKilled p]]"

definition kills_around_drop :: "nat \<Rightarrow> process_act list list" where
  "kills_around_drop p =
     [[TreeKilled p, TreeKilled p, Dropped p], [TreeKilled p, Dropped p, TreeKilled p],
      [Dropped p, TreeKilled p, TreeKilled p]]"

definition orderly :: "bool \<Rightarrow> process_act list \<Rightarrow> bool" where
  "orderly cut_short acts =
     (case acts of
        [] \<Rightarrow> True
      | Launched p # xs \<Rightarrow>
          xs \<in> set (one_kill p) \<or> xs \<in> set (kill_around_drop p) \<or>
          cut_short \<and> (xs \<in> set (two_kills p) \<or> xs \<in> set (kills_around_drop p))
      | _ \<Rightarrow> False)"

text \<open>The same with the tree kills still on their way, for each place of the driver.\<close>

fun acts_fit :: "bool \<Rightarrow> job_driver \<Rightarrow> nat list \<Rightarrow> process_act list \<Rightarrow> bool" where
  "acts_fit over DrvStart stray acts = (acts = [] \<and> stray = [])"
| "acts_fit over (DrvChild p) stray acts = (acts = [Launched p] \<and> stray = [])"
| "acts_fit over (DrvWaits p) stray acts = (acts = [Launched p] \<and> stray = [])"
| "acts_fit over (DrvKills site p AwaitsTreeKill) stray acts =
     (acts = [Launched p] \<and> stray = [] \<or>
      over \<and> site = KillCancelled \<and>
        (acts = [Launched p] \<and> stray = [p] \<or> acts = [Launched p, TreeKilled p] \<and> stray = []))"
| "acts_fit over (DrvKills site p AwaitsReap) stray acts =
     (acts = [Launched p, TreeKilled p] \<and> stray = [] \<or>
      over \<and> site = KillCancelled \<and>
        (acts = [Launched p, TreeKilled p] \<and> stray = [p] \<or>
         acts = [Launched p, TreeKilled p, TreeKilled p] \<and> stray = []))"
| "acts_fit over d stray acts =
     (case stray of
        [] \<Rightarrow> orderly over acts
      | [p] \<Rightarrow>
          acts = [Launched p, Dropped p] \<or>
          over \<and> (acts = [Launched p, TreeKilled p] \<or> acts = [Launched p, TreeKilled p, Reaped p] \<or>
                 acts = [Launched p, TreeKilled p, Dropped p] \<or> acts = [Launched p, Dropped p, TreeKilled p])
      | [p, q] \<Rightarrow> q = p \<and> over \<and> acts = [Launched p, Dropped p]
      | _ \<Rightarrow> False)"

text \<open>The notices a slot owes: one at its end unless it was quiet then, one for each later arming.\<close>

definition notices_due :: "job_slot \<Rightarrow> nat" where
  "notices_due slot =
     (if slot_running slot then 0
      else (if js_started_quiet slot \<and> fst (js_marks slot) = 0 then 0 else 1) + snd (js_marks slot))"

definition notices_ok :: "job_slot \<Rightarrow> bool" where
  "notices_ok slot \<longleftrightarrow>
     (js_foreground slot \<longleftrightarrow> js_started_quiet slot \<and> js_marks slot = (0, 0)) \<and>
     (slot_running slot \<longrightarrow> snd (js_marks slot) = 0) \<and> js_filed slot = notices_due slot"

definition cut_short :: "job_slot \<Rightarrow> bool" where
  "cut_short slot \<longleftrightarrow> js_timed_out slot \<and> js_cancelled slot"

text \<open>A cancel is pending only for a cancelled job, and a deadline ends only a timed out one.\<close>

fun at_deadline :: "job_driver \<Rightarrow> bool" where
  "at_deadline (DrvKills site p phase) = (site = KillDeadline)"
| "at_deadline _ = False"

definition flags_ok :: "job_slot \<Rightarrow> bool" where
  "flags_ok slot \<longleftrightarrow>
     (js_cancel_permit slot \<longrightarrow> js_cancelled slot) \<and> (at_deadline (js_driver slot) \<longrightarrow> js_timed_out slot)"

definition slot_acts_ok :: "job_slot \<Rightarrow> bool" where
  "slot_acts_ok slot \<longleftrightarrow>
     acts_fit (cut_short slot) (js_driver slot) (js_stray slot) (js_acts slot) \<and> flags_ok slot"

definition job_ok :: "job_slot \<Rightarrow> bool" where
  "job_ok slot \<longleftrightarrow>
     (slot_running slot \<longleftrightarrow> js_driver slot \<noteq> DrvGone) \<and> slot_acts_ok slot \<and>
     length (js_log slot) \<le> MAX_LOG_BYTES \<and> notices_ok slot"

lemma notices_ok_same:
  "notices_ok slot \<Longrightarrow> js_foreground s = js_foreground slot \<Longrightarrow> js_started_quiet s = js_started_quiet slot \<Longrightarrow>
   js_marks s = js_marks slot \<Longrightarrow> js_filed s = js_filed slot \<Longrightarrow> js_state s = js_state slot \<Longrightarrow> notices_ok s"
  by (simp add: notices_ok_def notices_due_def slot_running_def)

lemma orderly_mono: "orderly over acts \<Longrightarrow> (over \<Longrightarrow> over') \<Longrightarrow> orderly over' acts"
  by (auto simp: orderly_def split: list.splits process_act.splits)

lemmas act_shapes = orderly_def one_kill_def two_kills_def kill_around_drop_def kills_around_drop_def

lemma acts_fit_mono: "acts_fit over d stray acts \<Longrightarrow> (over \<Longrightarrow> over') \<Longrightarrow> acts_fit over' d stray acts"
  by (cases "(over, d, stray, acts)" rule: acts_fit.cases) (auto intro: orderly_mono split: list.splits)

lemma acts_fit_orderly: "acts_fit over d stray acts \<Longrightarrow> orderly over acts"
  by (cases "(over, d, stray, acts)" rule: acts_fit.cases) (auto simp: act_shapes split: list.splits)

lemma slot_acts_same:
  "slot_acts_ok slot \<Longrightarrow> js_driver s = js_driver slot \<Longrightarrow> js_acts s = js_acts slot \<Longrightarrow> js_stray s = js_stray slot \<Longrightarrow>
   js_cancelled s = js_cancelled slot \<Longrightarrow> js_timed_out s = js_timed_out slot \<Longrightarrow>
   js_cancel_permit s = js_cancel_permit slot \<Longrightarrow> slot_acts_ok s"
  by (simp add: slot_acts_ok_def flags_ok_def cut_short_def)

lemma job_ok_new [simp]: "job_ok (job_slot_new r)"
  by (simp add: job_ok_def job_slot_new_def slot_running_def notices_ok_def notices_due_def slot_acts_ok_def flags_ok_def)

lemma append_log_frame [simp]:
  "js_state (append_log b slot) = js_state slot" "js_driver (append_log b slot) = js_driver slot"
  "js_acts (append_log b slot) = js_acts slot" "js_foreground (append_log b slot) = js_foreground slot"
  "js_started_quiet (append_log b slot) = js_started_quiet slot" "js_marks (append_log b slot) = js_marks slot"
  "js_filed (append_log b slot) = js_filed slot" "js_owner (append_log b slot) = js_owner slot"
  "js_cancelled (append_log b slot) = js_cancelled slot" "js_timed_out (append_log b slot) = js_timed_out slot"
  "js_stray (append_log b slot) = js_stray slot" "js_cancel_permit (append_log b slot) = js_cancel_permit slot"
  by (simp_all add: append_log_def Let_def)

lemma append_log_ok: "job_ok slot \<Longrightarrow> job_ok (append_log b slot)"
  unfolding job_ok_def
  by (auto simp: slot_running_def append_log_drop intro: notices_ok_same slot_acts_same)

lemma job_ok_orderly: "job_ok slot \<Longrightarrow> orderly (cut_short slot) (js_acts slot)"
  by (auto simp: job_ok_def slot_acts_ok_def intro: acts_fit_orderly)

lemma job_ok_log: "job_ok slot \<Longrightarrow> length (js_log slot) \<le> MAX_LOG_BYTES"
  by (simp add: job_ok_def)

lemma job_ok_filed: "job_ok slot \<Longrightarrow> js_filed slot = notices_due slot"
  by (simp add: job_ok_def notices_ok_def)

text \<open>A step of a live driver that touches neither its log, nor its state, nor its notices.\<close>

definition same_books :: "job_slot \<Rightarrow> job_slot \<Rightarrow> bool" where
  "same_books slot s \<longleftrightarrow>
     js_state s = js_state slot \<and> js_log s = js_log slot \<and> js_foreground s = js_foreground slot \<and>
     js_started_quiet s = js_started_quiet slot \<and> js_marks s = js_marks slot \<and> js_filed s = js_filed slot"

lemma job_ok_move:
  "job_ok slot \<Longrightarrow> same_books slot s \<Longrightarrow> slot_acts_ok s \<Longrightarrow> (js_driver s = DrvGone \<longleftrightarrow> js_driver slot = DrvGone) \<Longrightarrow>
   job_ok s"
  by (auto simp: job_ok_def same_books_def slot_running_def intro: notices_ok_same)

text \<open>The end of a live driver with its process accounted for.\<close>

lemma job_finish_ok:
  assumes ok: "job_ok slot" and live: "js_driver slot \<noteq> DrvGone" and books: "same_books slot s"
    and acts: "slot_acts_ok (s\<lparr>js_driver := DrvGone\<rparr>)"
  shows "job_ok (snd (job_finish code s))"
proof -
  have run: "slot_running slot" using ok live by (simp add: job_ok_def)
  then have "notices_ok (snd (job_finish code s))"
    using ok books
    by (cases "js_marks slot")
       (auto simp: job_ok_def notices_ok_def notices_due_def job_finish_def slot_running_def same_books_def)
  moreover have "slot_acts_ok (snd (job_finish code s))"
    by (rule slot_acts_same [OF acts]) (simp_all add: job_finish_def Let_def)
  ultimately show ?thesis
    using ok books by (simp add: job_ok_def job_finish_def slot_running_def same_books_def Let_def)
qed

lemma job_ok_acts: "job_ok slot \<Longrightarrow> slot_acts_ok slot"
  by (simp add: job_ok_def)

lemma same_books_refl [simp]: "same_books slot slot"
  by (simp add: same_books_def)

lemma drains_fit: "acts_fit over (DrvDrains status) stray acts \<longleftrightarrow> acts_fit over DrvGone stray acts"
  by (simp split: list.split)

text \<open>What a process can look like when its termination is over, is dropped, or was never needed.\<close>

lemma fit_waits_drains:
  "acts_fit over (DrvWaits p) stray acts \<Longrightarrow> acts_fit over (DrvDrains status) stray acts"
  "acts_fit over (DrvWaits p) stray acts \<Longrightarrow> acts_fit over (DrvDrains status) stray (acts @ [Reaped p])"
  by (auto simp: act_shapes)

lemma fit_reaped:
  "acts_fit over (DrvKills site p AwaitsReap) stray acts \<Longrightarrow> acts_fit over DrvGone stray acts"
  "acts_fit over (DrvKills site p AwaitsReap) stray acts \<Longrightarrow> acts_fit over DrvGone stray (acts @ [Reaped p])"
  by (auto simp: act_shapes)

lemma fit_landed:
  "acts_fit over (DrvKills site p AwaitsTreeKill) stray acts \<Longrightarrow>
   acts_fit over (DrvKills site p AwaitsReap) stray (acts @ [TreeKilled p])"
  by auto

lemma fit_cut_short:
  "acts_fit over (DrvKills KillDeadline p AwaitsTreeKill) stray acts \<Longrightarrow>
   acts_fit True (DrvKills KillCancelled p AwaitsTreeKill) (stray @ [p]) acts"
  "acts_fit over (DrvKills KillDeadline p AwaitsReap) stray acts \<Longrightarrow>
   acts_fit True (DrvKills KillCancelled p AwaitsTreeKill) stray acts"
  by auto

lemma fit_panics:
  "acts_fit over (DrvKills site p AwaitsTreeKill) stray acts \<Longrightarrow> acts_fit over DrvGone (stray @ [p]) (acts @ [Dropped p])"
  "acts_fit over (DrvKills site p AwaitsReap) stray acts \<Longrightarrow> acts_fit over DrvGone stray (acts @ [Dropped p])"
  "acts_fit over (DrvChild p) stray acts \<Longrightarrow> acts_fit over DrvGone stray (acts @ [Dropped p])"
  "acts_fit over (DrvWaits p) stray acts \<Longrightarrow> acts_fit over DrvGone stray (acts @ [Dropped p])"
  "acts_fit over DrvStart stray acts \<Longrightarrow> acts_fit over DrvGone stray acts"
  by (auto simp: act_shapes)

lemma fit_stray_live:
  "acts_fit over (DrvKills site p AwaitsTreeKill) (q # stray) acts \<Longrightarrow>
   acts_fit over (DrvKills site p AwaitsTreeKill) stray (acts @ [TreeKilled q])"
  "acts_fit over (DrvKills site p AwaitsReap) (q # stray) acts \<Longrightarrow>
   acts_fit over (DrvKills site p AwaitsReap) stray (acts @ [TreeKilled q])"
  by auto

lemma fit_stray_gone:
  "acts_fit over DrvGone (q # stray) acts \<Longrightarrow> acts_fit over DrvGone stray (acts @ [TreeKilled q])"
  by (auto simp: act_shapes split: list.splits)

lemma fit_stray: "acts_fit over d (q # stray) acts \<Longrightarrow> acts_fit over d stray (acts @ [TreeKilled q])"
proof (cases d)
  case (DrvKills site p phase)
  then show "acts_fit over d (q # stray) acts \<Longrightarrow> ?thesis" by (cases phase) (use fit_stray_live in auto)
next
  case (DrvDrains status)
  then show "acts_fit over d (q # stray) acts \<Longrightarrow> ?thesis" using fit_stray_gone drains_fit by metis
next
  case DrvGone
  then show "acts_fit over d (q # stray) acts \<Longrightarrow> ?thesis" using fit_stray_gone by metis
qed simp_all

subsection \<open>Every event keeps a slot well\<close>

lemma drive_start_ok: "job_ok slot \<Longrightarrow> job_ok (snd (drive (EvStart r) slot))"
proof -
  assume ok: "job_ok slot"
  show ?thesis
  proof (cases "js_driver slot = DrvStart")
    case True
    have fit: "js_acts slot = []" "js_stray slot = []" "flags_ok slot"
      using job_ok_acts [OF ok] True by (simp_all add: slot_acts_ok_def)
    have fin: "job_ok (snd (job_finish None s))" if "job_ok s" "js_acts s = []" "js_stray s = []" "js_driver s = DrvStart" for s
      using that job_ok_acts [OF that(1)]
      by (intro job_finish_ok [OF that(1)]) (simp_all add: slot_acts_ok_def flags_ok_def act_shapes)
    have "job_ok (slot\<lparr>js_driver := DrvChild pid, js_acts := js_acts slot @ [Launched pid]\<rparr>)" for pid
      using fit True by (intro job_ok_move [OF ok]) (simp_all add: same_books_def slot_acts_ok_def flags_ok_def)
    then show ?thesis
      using True fit fin [OF ok] fin [OF append_log_ok [OF ok]] by (simp split: sum.split)
  qed (use ok in simp)
qed

lemma drive_wait_ok:
  assumes ok: "job_ok slot" and waits: "js_driver slot = DrvWaits pid"
  shows "job_ok (slot\<lparr>js_driver := DrvDrains status, js_acts := js_acts slot @ [Reaped pid]\<rparr>)"
    and "job_ok (slot\<lparr>js_driver := DrvDrains status\<rparr>)"
    and "job_ok (kill_and_reap KillDeadline pid (slot\<lparr>js_timed_out := True\<rparr>))"
    and "js_cancel_permit slot \<Longrightarrow> job_ok (kill_and_reap KillCancelled pid (slot\<lparr>js_cancel_permit := False\<rparr>))"
proof -
  have fit: "acts_fit (cut_short slot) (DrvWaits pid) (js_stray slot) (js_acts slot)" and flags: "flags_ok slot"
    using job_ok_acts [OF ok] waits by (simp_all add: slot_acts_ok_def)
  have over: "cut_short (slot\<lparr>js_driver := d, js_acts := acts\<rparr>) = cut_short slot"
    "cut_short (slot\<lparr>js_driver := d\<rparr>) = cut_short slot" for d acts
    by (simp_all add: cut_short_def)
  show "job_ok (slot\<lparr>js_driver := DrvDrains status, js_acts := js_acts slot @ [Reaped pid]\<rparr>)"
    using fit_waits_drains(2) [OF fit] flags waits
    by (intro job_ok_move [OF ok]) (simp_all add: same_books_def slot_acts_ok_def flags_ok_def over del: acts_fit.simps)
  show "job_ok (slot\<lparr>js_driver := DrvDrains status\<rparr>)"
    using fit_waits_drains(1) [OF fit] flags waits
    by (intro job_ok_move [OF ok]) (simp_all add: same_books_def slot_acts_ok_def flags_ok_def over del: acts_fit.simps)
  show "job_ok (kill_and_reap KillDeadline pid (slot\<lparr>js_timed_out := True\<rparr>))"
    using fit flags waits
    by (intro job_ok_move [OF ok]) (simp_all add: same_books_def slot_acts_ok_def flags_ok_def kill_and_reap_def)
  show "job_ok (kill_and_reap KillCancelled pid (slot\<lparr>js_cancel_permit := False\<rparr>))" if "js_cancel_permit slot"
    using fit flags waits
    by (intro job_ok_move [OF ok]) (simp_all add: same_books_def slot_acts_ok_def flags_ok_def kill_and_reap_def)
qed

lemma drive_cancel_ok: "job_ok slot \<Longrightarrow> job_ok (snd (drive EvCancel slot))"
proof (cases "js_driver slot")
  case (DrvKills site pid phase)
  assume ok: "job_ok slot"
  show ?thesis
  proof (cases "site = KillDeadline \<and> js_cancel_permit slot")
    case True
    have over: "cut_short slot"
      using job_ok_acts [OF ok] DrvKills True by (simp_all add: slot_acts_ok_def flags_ok_def cut_short_def)
    have fit: "acts_fit (cut_short slot) (DrvKills KillDeadline pid phase) (js_stray slot) (js_acts slot)"
      using job_ok_acts [OF ok] DrvKills True unfolding slot_acts_ok_def by simp
    have "job_ok (kill_and_reap KillCancelled pid (drop_kill (slot\<lparr>js_cancel_permit := False\<rparr>)))"
      using fit_cut_short [of "cut_short slot" pid "js_stray slot" "js_acts slot"] fit over DrvKills True
      by (intro job_ok_move [OF ok]; cases phase)
         (simp_all add: same_books_def slot_acts_ok_def flags_ok_def kill_and_reap_def drop_kill_def cut_short_def
            del: acts_fit.simps)
    then show ?thesis using DrvKills True by simp
  next
    case False
    then show ?thesis using ok DrvKills by (cases site) auto
  qed
next
  case (DrvWaits pid)
  assume ok: "job_ok slot"
  then show ?thesis using DrvWaits drive_wait_ok(4) [OF ok DrvWaits] by simp
qed simp_all

lemma drive_reap_ok: "job_ok slot \<Longrightarrow> job_ok (snd (drive (EvReap r) slot))"
proof (cases "\<exists>site pid. js_driver slot = DrvKills site pid AwaitsReap")
  case True
  assume ok: "job_ok slot"
  from True obtain site pid where d: "js_driver slot = DrvKills site pid AwaitsReap" by blast
  have fit: "acts_fit (cut_short slot) (DrvKills site pid AwaitsReap) (js_stray slot) (js_acts slot)" and flags: "flags_ok slot"
    using job_ok_acts [OF ok] d by (simp_all add: slot_acts_ok_def)
  let ?s = "if is_ok r then slot\<lparr>js_acts := js_acts slot @ [Reaped pid]\<rparr> else slot"
  have gone: "slot_acts_ok (?s\<lparr>js_driver := DrvGone\<rparr>)" and drains: "slot_acts_ok (?s\<lparr>js_driver := DrvDrains st\<rparr>)" for st
    using fit_reaped [OF fit] flags drains_fit [of "cut_short slot" st]
    by (simp_all add: slot_acts_ok_def flags_ok_def cut_short_def del: acts_fit.simps)
  have "job_ok (snd (reap_killed site pid r slot))"
  proof (cases "site = KillRaced")
    case True
    then show ?thesis
      using job_finish_ok [OF ok _ _ gone, of None] d by (simp add: reap_killed_def Let_def same_books_def)
  next
    case False
    have "job_ok (?s\<lparr>js_driver := DrvDrains st\<rparr>)" for st
      using drains d by (intro job_ok_move [OF ok]) (simp_all add: same_books_def)
    then show ?thesis using False by (simp add: reap_killed_def Let_def)
  qed
  then show ?thesis using d ok by simp
next
  case False
  assume "job_ok slot"
  then show ?thesis using False by (auto split: job_driver.split kill_phase.split)
qed

lemma drive_panic_ok: "job_ok slot \<Longrightarrow> job_ok (snd (drive EvPanic slot))"
proof (cases "js_driver slot = DrvGone")
  case False
  assume ok: "job_ok slot"
  let ?s = "drop_child (drop_kill slot)"
  have fit: "acts_fit (cut_short slot) (js_driver slot) (js_stray slot) (js_acts slot)" and flags: "flags_ok slot"
    using job_ok_acts [OF ok] by (simp_all add: slot_acts_ok_def)
  have over: "cut_short (?s\<lparr>js_driver := DrvGone\<rparr>) = cut_short slot"
    by (simp add: cut_short_def drop_child_def drop_kill_def split: job_driver.split kill_phase.split)
  have "acts_fit (cut_short slot) DrvGone (js_stray ?s) (js_acts ?s)"
  proof (cases "js_driver slot")
    case (DrvKills site pid phase)
    then show ?thesis
      using fit fit_panics(1,2) [of "cut_short slot" site pid "js_stray slot" "js_acts slot"]
      by (cases phase) (simp_all add: drop_child_def drop_kill_def del: acts_fit.simps)
  next
    case (DrvDrains status)
    then show ?thesis using fit drains_fit [of "cut_short slot" status]
      by (simp add: drop_child_def drop_kill_def del: acts_fit.simps)
  qed (use fit False fit_panics(3-5) in \<open>simp_all add: drop_child_def drop_kill_def act_shapes\<close>)
  then have acts: "slot_acts_ok (?s\<lparr>js_driver := DrvGone\<rparr>)"
    using flags unfolding slot_acts_ok_def over
    by (simp add: flags_ok_def drop_child_def drop_kill_def split: job_driver.split kill_phase.split del: acts_fit.simps)
  have "same_books slot ?s"
    by (simp add: same_books_def drop_child_def drop_kill_def split: job_driver.split kill_phase.split)
  from job_finish_ok [OF ok False this acts] show ?thesis using False by simp
qed simp

lemma drive_ok: "job_ok slot \<Longrightarrow> job_ok (snd (drive ev slot))"
proof (cases ev)
  case (EvStart r)
  then show "job_ok slot \<Longrightarrow> ?thesis" using drive_start_ok by metis
next
  case EvCheck
  assume ok: "job_ok slot"
  show ?thesis
  proof (cases "js_driver slot")
    case (DrvChild pid)
    then have fit: "js_acts slot = [Launched pid]" "js_stray slot = []" "flags_ok slot"
      using job_ok_acts [OF ok] by (simp_all add: slot_acts_ok_def)
    have "job_ok (kill_and_reap KillRaced pid slot)" "job_ok (slot\<lparr>js_driver := DrvWaits pid, js_draining := True\<rparr>)"
      using fit DrvChild
      by (intro job_ok_move [OF ok]; simp add: same_books_def slot_acts_ok_def flags_ok_def kill_and_reap_def)+
    then show ?thesis using EvCheck DrvChild by simp
  qed (use EvCheck ok in simp_all)
next
  case (EvOutput b)
  assume ok: "job_ok slot"
  then show ?thesis using EvOutput append_log_ok [OF ok, of b] by simp
next
  case EvCancel
  then show "job_ok slot \<Longrightarrow> ?thesis" using drive_cancel_ok by metis
next
  case (EvExit status)
  assume ok: "job_ok slot"
  then show ?thesis using EvExit drive_wait_ok(1) [OF ok] by (simp split: job_driver.split)
next
  case (EvWaitFails e)
  assume ok: "job_ok slot"
  then show ?thesis using EvWaitFails drive_wait_ok(2) [OF append_log_ok [OF ok]] by (simp split: job_driver.split)
next
  case EvDeadline
  assume ok: "job_ok slot"
  then show ?thesis using EvDeadline drive_wait_ok(3) [OF ok] by (simp split: job_driver.split)
next
  case EvTreeKill
  assume ok: "job_ok slot"
  have "job_ok (tree_kill_lands site pid slot)" if d: "js_driver slot = DrvKills site pid AwaitsTreeKill" for site pid
  proof -
    have fit: "acts_fit (cut_short slot) (DrvKills site pid AwaitsTreeKill) (js_stray slot) (js_acts slot)" "flags_ok slot"
      using job_ok_acts [OF ok] d by (simp_all add: slot_acts_ok_def)
    show ?thesis
      using fit_landed [OF fit(1)] fit(2) d
      by (intro job_ok_move [OF ok])
         (simp_all add: same_books_def slot_acts_ok_def flags_ok_def cut_short_def tree_kill_lands_def
            del: acts_fit.simps)
  qed
  then show ?thesis using EvTreeKill ok by (simp split: job_driver.split kill_phase.split)
next
  case (EvReap r)
  then show "job_ok slot \<Longrightarrow> ?thesis" using drive_reap_ok by metis
next
  case EvDrained
  assume ok: "job_ok slot"
  have "job_ok (snd (job_finish status (slot\<lparr>js_draining := False\<rparr>)))" if d: "js_driver slot = DrvDrains status" for status
    using job_ok_acts [OF ok] d drains_fit [of "cut_short slot" status]
    by (intro job_finish_ok [OF ok])
       (simp_all add: same_books_def slot_acts_ok_def flags_ok_def cut_short_def del: acts_fit.simps)
  then show ?thesis using EvDrained ok by (simp split: job_driver.split)
next
  case EvPanic
  then show "job_ok slot \<Longrightarrow> ?thesis" using drive_panic_ok by metis
next
  case EvStrayKill
  assume ok: "job_ok slot"
  have "job_ok (slot\<lparr>js_stray := pids, js_acts := js_acts slot @ [TreeKilled pid]\<rparr>)" if s: "js_stray slot = pid # pids" for pid pids
    using job_ok_acts [OF ok] s fit_stray [of "cut_short slot" "js_driver slot" pid pids "js_acts slot"]
    by (intro job_ok_move [OF ok])
       (simp_all add: same_books_def slot_acts_ok_def flags_ok_def cut_short_def del: acts_fit.simps)
  then show ?thesis using EvStrayKill ok by (simp split: list.split)
qed

lemma mark_ok: "job_ok slot \<Longrightarrow> job_ok (snd (mark_slot slot))"
  by (cases "js_marks slot")
     (auto simp: mark_slot_def Let_def job_ok_def slot_running_def notices_ok_def notices_due_def intro: slot_acts_same)

lemma cancel_ok: "job_ok slot \<Longrightarrow> job_ok (snd (cancel_slot slot))"
proof -
  assume ok: "job_ok slot"
  have "slot_acts_ok (slot\<lparr>js_cancelled := True, js_cancel_permit := True\<rparr>)"
    using job_ok_acts [OF ok] acts_fit_mono [of "cut_short slot" "js_driver slot" "js_stray slot" "js_acts slot"]
    by (auto simp: slot_acts_ok_def flags_ok_def cut_short_def simp del: acts_fit.simps)
  then have "job_ok (slot\<lparr>js_cancelled := True, js_cancel_permit := True\<rparr>)"
    by (intro job_ok_move [OF ok]) (simp_all add: same_books_def)
  then show ?thesis using ok by (simp add: cancel_slot_def)
qed

section \<open>Invariant of the table\<close>

definition jobs_inv :: "'c job_service \<Rightarrow> bool" where
  "jobs_inv sv \<longleftrightarrow>
     list_all (\<lambda>(_, slot). job_ok slot) (jv_jobs sv) \<and>
     (\<forall>owner. running_of owner (jv_jobs sv) \<le> MAX_JOBS_PER_OWNER)"

lemma running_of_insert:
  assumes "map_of jobs i = Some old" and "js_owner new = js_owner old"
    and "slot_running new \<Longrightarrow> slot_running old"
  shows "running_of owner (tbl_insert i new jobs) \<le> running_of owner jobs"
  using assms by (induction i new jobs rule: tbl_insert.induct) (auto simp: running_of_def split: if_splits)

lemma running_of_add:
  "running_of owner (tbl_insert i new jobs) \<le> (if js_owner new = owner then 1 else 0) + running_of owner jobs"
  by (induction i new jobs rule: tbl_insert.induct) (auto simp: running_of_def)

lemma running_of_filter: "running_of owner (filter P jobs) \<le> running_of owner jobs"
  by (induction jobs) (auto simp: running_of_def)

lemma jobs_inv_put:
  assumes inv: "jobs_inv sv" and old: "map_of (jv_jobs sv) i = Some old"
    and ok: "job_ok (snd r)" and "js_owner (snd r) = js_owner old" and "slot_running (snd r) \<Longrightarrow> slot_running old"
  shows "jobs_inv (put_slot i r sv)"
proof -
  have "running_of owner (tbl_insert i (snd r) (jv_jobs sv)) \<le> MAX_JOBS_PER_OWNER" for owner
    using running_of_insert [OF old assms(4,5), of owner] inv unfolding jobs_inv_def by (meson le_trans)
  moreover have "list_all (\<lambda>(_, slot). job_ok slot) (tbl_insert i (snd r) (jv_jobs sv))"
    using inv ok by (auto simp: jobs_inv_def intro: list_all_tbl_insert)
  moreover have "jv_jobs (put_slot i r sv) = tbl_insert i (snd r) (jv_jobs sv)"
    by (simp add: put_slot_def Let_def split: prod.split)
  ultimately show ?thesis by (simp add: jobs_inv_def)
qed

lemma jobs_inv_spawn: "jobs_inv sv \<Longrightarrow> jobs_inv (snd (job_spawn r sv))"
proof (cases "MAX_JOBS_PER_OWNER \<le> running_of (jr_owner r) (jv_jobs sv)")
  case False
  assume inv: "jobs_inv sv"
  let ?jobs = "if MAX_TRACKED_JOBS \<le> length (jv_jobs sv)
    then filter (\<lambda>(_, slot). slot_running slot) (jv_jobs sv) else jv_jobs sv"
  let ?i = "''job-'' @ show_nat (jv_next sv + 1)"
  have "running_of owner ?jobs \<le> running_of owner (jv_jobs sv)" for owner
    by (simp add: running_of_filter)
  moreover have "running_of owner (tbl_insert ?i (job_slot_new r) ?jobs) \<le>
      (if jr_owner r = owner then 1 else 0) + running_of owner ?jobs" for owner
    using running_of_add [of owner ?i "job_slot_new r" ?jobs] by (simp add: job_slot_new_def)
  ultimately have add: "running_of owner (tbl_insert ?i (job_slot_new r) ?jobs) \<le>
      (if jr_owner r = owner then 1 else 0) + running_of owner (jv_jobs sv)" for owner
    by (meson add_left_mono le_trans)
  have "running_of owner (tbl_insert ?i (job_slot_new r) ?jobs) \<le> MAX_JOBS_PER_OWNER" for owner
  proof (cases "jr_owner r = owner")
    case True
    then show ?thesis using add [of owner] False by simp
  next
    case other: False
    have "running_of owner (jv_jobs sv) \<le> MAX_JOBS_PER_OWNER" using inv by (simp add: jobs_inv_def)
    then show ?thesis using add [of owner] other by simp
  qed
  moreover have "list_all (\<lambda>(_, slot). job_ok slot) ?jobs"
    using inv by (auto simp: jobs_inv_def list_all_iff)
  then have "list_all (\<lambda>(_, slot). job_ok slot) (tbl_insert ?i (job_slot_new r) ?jobs)"
    by (auto intro: list_all_tbl_insert)
  ultimately show ?thesis
    using False by (simp add: job_spawn_def jobs_inv_def Let_def del: tbl_insert.simps)
qed (simp add: job_spawn_def)

lemma drive_keeps:
  "js_owner (snd (drive ev slot)) = js_owner slot"
  "slot_running (snd (drive ev slot)) \<Longrightarrow> slot_running slot"
  by (cases ev; auto simp: job_finish_def kill_and_reap_def tree_kill_lands_def reap_killed_def drop_kill_def drop_child_def
        slot_running_def Let_def split: job_driver.splits kill_site.splits kill_phase.splits sum.splits list.splits if_splits)+

lemma jobs_inv_step: "jobs_inv sv \<Longrightarrow> jobs_inv (job_step x sv)"
proof (cases x)
  case (JobSpawn r)
  assume "jobs_inv sv"
  then show ?thesis using JobSpawn by (simp add: jobs_inv_spawn)
next
  case (JobDrive i ev)
  assume inv: "jobs_inv sv"
  show ?thesis
  proof (cases "map_of (jv_jobs sv) i")
    case (Some slot)
    then have "job_ok slot" using inv by (auto simp: jobs_inv_def dest: list_all_map_of)
    then show ?thesis
      using jobs_inv_put [OF inv Some drive_ok drive_keeps] JobDrive Some by (simp add: job_drive_def)
  qed (use inv JobDrive in \<open>simp add: job_drive_def\<close>)
next
  case (JobMark i)
  assume inv: "jobs_inv sv"
  show ?thesis
  proof (cases "map_of (jv_jobs sv) i")
    case (Some slot)
    then have "job_ok slot" using inv by (auto simp: jobs_inv_def dest: list_all_map_of)
    then have "jobs_inv (put_slot i (mark_slot slot) sv)"
      using Some by (intro jobs_inv_put [OF inv Some mark_ok]) (simp_all add: mark_slot_def slot_running_def Let_def)
    then show ?thesis using JobMark Some by (simp add: mark_notified_def)
  qed (use inv JobMark in \<open>simp add: mark_notified_def\<close>)
next
  case (JobCancel i)
  assume inv: "jobs_inv sv"
  show ?thesis
  proof (cases "map_of (jv_jobs sv) i")
    case (Some slot)
    then have "job_ok slot" using inv by (auto simp: jobs_inv_def dest: list_all_map_of)
    then have "jobs_inv (put_slot i (cancel_slot slot) sv)"
      using Some by (intro jobs_inv_put [OF inv Some cancel_ok]) (simp_all add: cancel_slot_def slot_running_def split: if_splits)
    then show ?thesis using JobCancel Some by (simp add: job_cancel_def)
  qed (use inv JobCancel in \<open>simp add: job_cancel_def\<close>)
next
  case JobDrain
  assume "jobs_inv sv"
  then show ?thesis using JobDrain by (simp add: jobs_inv_def)
qed

interpretation jobs: machine "jobs_inv :: 'c job_service \<Rightarrow> bool" job_step
  by unfold_locales (rule jobs_inv_step)

lemma jobs_inv_new [simp]: "jobs_inv (job_service_new children)"
  by (simp add: jobs_inv_def job_service_new_def running_of_def)

text \<open>C23: Jobs stay within their caps and are terminated in order, one interleaving apart. After any
  calls, in any interleaving with the drivers, no owner has more than ten jobs running and no log
  exceeds its cap. What is done to a process after its launch is nothing, a reap, one tree kill, or one
  tree kill and then the reap, so that no kill follows the reap that frees the process id; a driver that
  panics leaves the shell to the runtime, with one tree kill before or after. Only for a job both timed
  out and cancelled may a second tree kill land, at any point: the cancel takes the driver out of the
  termination the deadline began, whose tree kill still runs.
\<close>

theorem jobs_capped_and_orderly:
  "running_of owner (jv_jobs (fold job_step calls (job_service_new children))) \<le> 10 \<and>
   list_all (\<lambda>(_, slot). length (js_log slot) \<le> 65536 \<and> orderly (js_timed_out slot \<and> js_cancelled slot) (js_acts slot))
     (jv_jobs (fold job_step calls (job_service_new children)))"
proof -
  have inv: "jobs_inv (fold job_step calls (job_service_new children))" by (rule jobs.run_inv) simp
  then have "list_all (\<lambda>(_, slot). job_ok slot) (jv_jobs (fold job_step calls (job_service_new children)))"
    by (simp add: jobs_inv_def)
  then have "list_all (\<lambda>(_, slot). length (js_log slot) \<le> 65536 \<and>
       orderly (js_timed_out slot \<and> js_cancelled slot) (js_acts slot))
     (jv_jobs (fold job_step calls (job_service_new children)))"
  proof (rule list.pred_mono_strong)
    fix x :: "string \<times> job_slot"
    assume "case x of (_, slot) \<Rightarrow> job_ok slot"
    then show "case x of (_, slot) \<Rightarrow> length (js_log slot) \<le> 65536 \<and>
       orderly (js_timed_out slot \<and> js_cancelled slot) (js_acts slot)"
      using job_ok_orderly [of "snd x"] job_ok_log [of "snd x"]
      by (auto simp: cut_short_def MAX_LOG_BYTES_def split: prod.splits)
  qed
  with inv show ?thesis by (simp add: jobs_inv_def MAX_JOBS_PER_OWNER_def)
qed

text \<open>That interleaving: the deadline's tree kill is dropped by a cancel and lands after the reap, when
  the process id may be another process's.\<close>

definition timed_request :: job_request where
  "timed_request = \<lparr>jr_owner = ''s1'', jr_command = ''sleep 30'', jr_timeout_ms = Some 1000, jr_foreground = False\<rparr>"

theorem cancel_in_the_deadline_kills_twice:
  "let drives = fold (\<lambda>ev slot. snd (drive ev slot));
       waiting = drives [EvStart (Inr 7), EvCheck, EvDeadline] (job_slot_new timed_request);
       slot = drives [EvCancel, EvTreeKill, EvReap (Inr None), EvDrained, EvStrayKill] (snd (cancel_slot waiting))
   in js_state slot = JobFinished \<and> js_acts slot = [Launched 7, TreeKilled 7, Reaped 7, TreeKilled 7]"
  by (simp add: Let_def timed_request_def job_slot_new_def cancel_slot_def kill_and_reap_def drop_kill_def
      tree_kill_lands_def reap_killed_def job_finish_def)

text \<open>The end of a job is announced once. In every interleaving of its driver with the calls on it, a
  tracked job that runs has filed no notice; a finished one that was started in the background and
  never armed has filed one; and one started quiet has filed as many as it was armed, when that was
  at most once, whichever came first, the arming or the end.
\<close>

theorem jobs_announced_once:
  "list_all (\<lambda>(_, slot).
      if slot_running slot then js_filed slot = 0
      else if \<not> js_started_quiet slot \<and> js_marks slot = (0, 0) then js_filed slot = 1
      else if js_started_quiet slot \<and> fst (js_marks slot) + snd (js_marks slot) \<le> 1
      then js_filed slot = fst (js_marks slot) + snd (js_marks slot) else True)
     (jv_jobs (fold job_step calls (job_service_new children)))"
proof -
  have "jobs_inv (fold job_step calls (job_service_new children))" by (rule jobs.run_inv) simp
  then have "list_all (\<lambda>(_, slot). job_ok slot) (jv_jobs (fold job_step calls (job_service_new children)))"
    by (simp add: jobs_inv_def)
  then show ?thesis
    by (rule list.pred_mono_strong)
       (auto simp: job_ok_filed notices_due_def prod_eq_iff)
qed

text \<open>A cancel that comes after the end still marks the job cancelled, so a failure reads as a stop.\<close>

theorem late_cancel_hides_failure:
  "let slot = snd (drive EvDrained (snd (drive (EvExit (Some 1)) (snd (drive EvCheck
       (snd (drive (EvStart (Inr 7)) (job_slot_new r))))))))
   in js_state slot = JobFinished \<and> is_failure (job_snapshot_of lossy i slot) \<and>
      \<not> is_failure (job_snapshot_of lossy i (snd (cancel_slot slot))) \<and>
      status_line (job_snapshot_of lossy i (snd (cancel_slot slot))) = ''job '' @ i @ '': finished (cancelled)''"
  by (simp add: Let_def job_slot_new_def job_finish_def cancel_slot_def is_failure_def job_snapshot_of_def status_line_def)

end
