(* ===== verification/Scheduler.thy ===== *)
theory Scheduler
  imports Prelude
begin

text \<open>
  Scheduling primitives (\<open>crates/runtime/scheduler/src/lib.rs\<close>): the priority queue, the delay queue, cron
  expressions with their edge-triggered driver, the concurrency gate; and the durable cron entries
  (\<open>crates/runtime/scheduler/src/durable.rs\<close>). Clocks are arguments, as in the code. The store file is one
  cell that is missing, unreadable, not valid JSON, or holds entries; the outcome of a write is an
  argument, and a failed write leaves the cell, since the code stages and renames.
\<close>

section \<open>Priority queue\<close>

datatype priority = PLow | PNormal | PHigh

record queued_task =
  qt_id :: string
  qt_priority :: priority
  qt_label :: string

record task_queue =
  tq_high :: "queued_task list"
  tq_normal :: "queued_task list"
  tq_low :: "queued_task list"

definition tq_new :: task_queue where
  "tq_new = \<lparr>tq_high = [], tq_normal = [], tq_low = []\<rparr>"

definition tq_push :: "queued_task \<Rightarrow> task_queue \<Rightarrow> task_queue" where
  "tq_push t q =
     (case qt_priority t of
        PHigh \<Rightarrow> q\<lparr>tq_high := tq_high q @ [t]\<rparr>
      | PNormal \<Rightarrow> q\<lparr>tq_normal := tq_normal q @ [t]\<rparr>
      | PLow \<Rightarrow> q\<lparr>tq_low := tq_low q @ [t]\<rparr>)"

definition tq_pop :: "task_queue \<Rightarrow> queued_task option \<times> task_queue" where
  "tq_pop q =
     (case tq_high q of
        t # ts \<Rightarrow> (Some t, q\<lparr>tq_high := ts\<rparr>)
      | [] \<Rightarrow>
          (case tq_normal q of
             t # ts \<Rightarrow> (Some t, q\<lparr>tq_normal := ts\<rparr>)
           | [] \<Rightarrow>
               (case tq_low q of
                  t # ts \<Rightarrow> (Some t, q\<lparr>tq_low := ts\<rparr>)
                | [] \<Rightarrow> (None, q))))"

definition tq_len :: "task_queue \<Rightarrow> nat" where
  "tq_len q = length (tq_high q) + length (tq_normal q) + length (tq_low q)"

definition tq_is_empty :: "task_queue \<Rightarrow> bool" where
  "tq_is_empty q \<longleftrightarrow> tq_len q = 0"

subsection \<open>Specification: the tasks in arrival order\<close>

fun prio_rank :: "priority \<Rightarrow> nat" where
  "prio_rank PLow = 0"
| "prio_rank PNormal = 1"
| "prio_rank PHigh = 2"

text \<open>The first arrival among those of the highest priority present.\<close>

definition first_best :: "queued_task list \<Rightarrow> queued_task option" where
  "first_best ts =
     List.find (\<lambda>t. list_all (\<lambda>u. prio_rank (qt_priority u) \<le> prio_rank (qt_priority t)) ts) ts"

definition spec_pop :: "queued_task list \<Rightarrow> queued_task option \<times> queued_task list" where
  "spec_pop ts = (case first_best ts of None \<Rightarrow> (None, ts) | Some t \<Rightarrow> (Some t, remove1 t ts))"

text \<open>The queue of a list of arrivals: its levels are the tasks of each priority, in order.\<close>

definition queue_of :: "queued_task list \<Rightarrow> task_queue" where
  "queue_of ts =
     \<lparr>tq_high = filter (\<lambda>t. qt_priority t = PHigh) ts, tq_normal = filter (\<lambda>t. qt_priority t = PNormal) ts,
      tq_low = filter (\<lambda>t. qt_priority t = PLow) ts\<rparr>"

datatype queue_op = Push queued_task | Pop

fun run_queue :: "queue_op list \<Rightarrow> task_queue \<Rightarrow> queued_task option list" where
  "run_queue [] q = []"
| "run_queue (Push t # xs) q = run_queue xs (tq_push t q)"
| "run_queue (Pop # xs) q = (case tq_pop q of (r, q') \<Rightarrow> r # run_queue xs q')"

fun run_spec :: "queue_op list \<Rightarrow> queued_task list \<Rightarrow> queued_task option list" where
  "run_spec [] ts = []"
| "run_spec (Push t # xs) ts = run_spec xs (ts @ [t])"
| "run_spec (Pop # xs) ts = (case spec_pop ts of (r, ts') \<Rightarrow> r # run_spec xs ts')"

lemma queue_of_push: "tq_push t (queue_of ts) = queue_of (ts @ [t])"
  by (cases "qt_priority t") (simp_all add: tq_push_def queue_of_def)

text \<open>The head of a level is the first arrival of that priority; removing it takes it off that level
  only.\<close>

lemma find_level:
  assumes "filter (\<lambda>t. qt_priority t = p) ts = t # rest"
    and "list_all (\<lambda>u. prio_rank (qt_priority u) \<le> prio_rank p) ts"
  shows "first_best ts = Some t"
proof -
  have same: "list_all (\<lambda>u. prio_rank (qt_priority u) \<le> prio_rank (qt_priority v)) ts \<longleftrightarrow> qt_priority v = p"
    if "v \<in> set ts" for v
  proof
    have "t \<in> set (filter (\<lambda>t. qt_priority t = p) ts)" unfolding assms(1) by simp
    then have t: "t \<in> set ts" "qt_priority t = p" by simp_all
    assume "list_all (\<lambda>u. prio_rank (qt_priority u) \<le> prio_rank (qt_priority v)) ts"
    then have "prio_rank p \<le> prio_rank (qt_priority v)" using t by (auto simp: list_all_iff)
    moreover have "prio_rank (qt_priority v) \<le> prio_rank p" using assms(2) that by (auto simp: list_all_iff)
    ultimately show "qt_priority v = p" by (cases p; cases "qt_priority v") simp_all
  qed (use assms(2) in simp)
  have "first_best ts = List.find (\<lambda>v. qt_priority v = p) ts"
    unfolding first_best_def using same by (intro find_cong) simp_all
  also have "\<dots> = Some t" using assms(1) by (induction ts) (auto split: if_splits)
  finally show ?thesis .
qed

lemma remove1_level:
  assumes level: "filter (\<lambda>t. qt_priority t = p) ts = t # rest"
  shows "filter (\<lambda>t. qt_priority t = p) (remove1 t ts) = rest"
    and "p' \<noteq> p \<Longrightarrow> filter (\<lambda>t. qt_priority t = p') (remove1 t ts) = filter (\<lambda>t. qt_priority t = p') ts"
proof -
  have "t \<in> set (filter (\<lambda>t. qt_priority t = p) ts)" unfolding level by simp
  then have "qt_priority t = p" by simp
  then show "filter (\<lambda>t. qt_priority t = p) (remove1 t ts) = rest"
    "p' \<noteq> p \<Longrightarrow> filter (\<lambda>t. qt_priority t = p') (remove1 t ts) = filter (\<lambda>t. qt_priority t = p') ts"
    using level by (simp_all add: filter_remove1 remove1_idem)
qed

lemma queue_of_pop: "tq_pop (queue_of ts) = (fst (spec_pop ts), queue_of (snd (spec_pop ts)))"
proof -
  note levels = queue_of_def tq_pop_def spec_pop_def
  show ?thesis
  proof (cases "filter (\<lambda>t. qt_priority t = PHigh) ts")
    case (Cons t rest)
    have "list_all (\<lambda>u. prio_rank (qt_priority u) \<le> prio_rank PHigh) ts"
    proof (rule list_all_iff [THEN iffD2], rule ballI)
      fix u show "prio_rank (qt_priority u) \<le> prio_rank PHigh" by (cases "qt_priority u") simp_all
    qed
    from find_level [OF Cons this] show ?thesis
      using remove1_level [OF Cons] Cons by (simp add: levels)
  next
    case high: Nil
    show ?thesis
    proof (cases "filter (\<lambda>t. qt_priority t = PNormal) ts")
      case (Cons t rest)
      have "list_all (\<lambda>u. prio_rank (qt_priority u) \<le> prio_rank PNormal) ts"
      proof (rule list_all_iff [THEN iffD2], rule ballI)
        fix u assume "u \<in> set ts"
        then show "prio_rank (qt_priority u) \<le> prio_rank PNormal"
          using high by (cases "qt_priority u") (auto simp: filter_empty_conv)
      qed
      from find_level [OF Cons this] show ?thesis
        using remove1_level [OF Cons] Cons high by (simp add: levels)
    next
      case normal: Nil
      have low: "list_all (\<lambda>u. qt_priority u = PLow) ts"
      proof (rule list_all_iff [THEN iffD2], rule ballI)
        fix u assume "u \<in> set ts"
        then show "qt_priority u = PLow"
          using high normal by (cases "qt_priority u") (auto simp: filter_empty_conv)
      qed
      show ?thesis
      proof (cases ts)
        case Nil
        then show ?thesis by (simp add: levels first_best_def)
      next
        case (Cons t rest)
        have all: "filter (\<lambda>t. qt_priority t = PLow) ts = t # rest"
          using low Cons by (simp add: filter_id_conv list_all_iff)
        have "list_all (\<lambda>u. prio_rank (qt_priority u) \<le> prio_rank PLow) ts"
          using low by (rule list.pred_mono_strong) simp
        from find_level [OF all this] show ?thesis
          using remove1_level [OF all] all high normal by (simp add: levels)
      qed
    qed
  qed
qed

text \<open>C24: The task queue implements its specification. Fed any sequence of pushes and pops, the three-level
  queue answers every pop as the list of arrivals does: with the earliest arrival among the tasks of
  the highest priority that wait, and with nothing when nothing waits.
\<close>

theorem task_queue_refines_arrivals: "run_queue xs tq_new = run_spec xs []"
proof -
  have "run_queue xs (queue_of ts) = run_spec xs ts" for ts
  proof (induction xs arbitrary: ts)
    case (Cons x xs)
    then show ?case by (cases x) (simp_all add: queue_of_push queue_of_pop split_beta)
  qed simp
  from this [of "[]"] show ?thesis by (simp add: queue_of_def tq_new_def)
qed

section \<open>Delay queue\<close>

record delayed_task =
  dt_id :: string
  dt_not_before :: nat

definition dq_push :: "delayed_task \<Rightarrow> delayed_task list \<Rightarrow> delayed_task list" where
  "dq_push t q = q @ [t]"

definition dq_pop_due :: "nat \<Rightarrow> delayed_task list \<Rightarrow> delayed_task list \<times> delayed_task list" where
  "dq_pop_due now q = List.partition (\<lambda>t. dt_not_before t \<le> now) q"

text \<open>Nothing is due early, nothing due stays, nothing is lost.\<close>

lemma dq_pop_due_exact:
  "case dq_pop_due now q of (due, later) \<Rightarrow>
     list_all (\<lambda>t. dt_not_before t \<le> now) due \<and> list_all (\<lambda>t. now < dt_not_before t) later \<and>
     set due \<union> set later = set q \<and> length due + length later = length q"
  by (auto simp: dq_pop_due_def list_all_iff partition_filter_conv comp_def sum_length_filter_compl)

section \<open>Cron expressions\<close>

datatype schedule_error = InvalidCron string

datatype cron_field = CronAny | CronExact nat

definition cron_field_parse :: "string \<Rightarrow> (schedule_error, cron_field) result" where
  "cron_field_parse t =
     (if t = ''*'' then Inr CronAny
      else (case parse_uint 255 t of Some n \<Rightarrow> Inr (CronExact n) | None \<Rightarrow> Inl (InvalidCron t)))"

fun exact_value :: "cron_field \<Rightarrow> nat option" where
  "exact_value CronAny = None"
| "exact_value (CronExact n) = Some n"

fun cron_field_matches :: "cron_field \<Rightarrow> nat \<Rightarrow> bool" where
  "cron_field_matches CronAny v = True"
| "cron_field_matches (CronExact want) v = (want = v)"

record civil_time =
  vt_year :: nat
  vt_minute :: nat
  vt_hour :: nat
  vt_day :: nat
  vt_month :: nat
  vt_weekday :: nat

record cron_spec =
  cn_minute :: cron_field
  cn_hour :: cron_field
  cn_day :: cron_field
  cn_month :: cron_field
  cn_weekday :: cron_field

definition in_cron_range :: "cron_field \<Rightarrow> nat \<Rightarrow> nat \<Rightarrow> bool" where
  "in_cron_range f lo hi \<longleftrightarrow> (case exact_value f of None \<Rightarrow> True | Some v \<Rightarrow> lo \<le> v \<and> v \<le> hi)"

definition cron_in_range :: "cron_spec \<Rightarrow> bool" where
  "cron_in_range spec \<longleftrightarrow>
     in_cron_range (cn_minute spec) 0 59 \<and> in_cron_range (cn_hour spec) 0 23 \<and>
     in_cron_range (cn_day spec) 1 31 \<and> in_cron_range (cn_month spec) 1 12 \<and>
     in_cron_range (cn_weekday spec) 0 6"

definition cron_parse :: "string \<Rightarrow> (schedule_error, cron_spec) result" where
  "cron_parse t =
     (case map_result cron_field_parse (split_whitespace t) of
        Inl e \<Rightarrow> (if length (split_whitespace t) \<noteq> 5 then Inl (InvalidCron t) else Inl e)
      | Inr [mi, ho, da, mo, we] \<Rightarrow>
          let spec = \<lparr>cn_minute = mi, cn_hour = ho, cn_day = da, cn_month = mo, cn_weekday = we\<rparr>
          in if cron_in_range spec then Inr spec else Inl (InvalidCron t)
      | Inr _ \<Rightarrow> Inl (InvalidCron t))"

definition cron_matches :: "cron_spec \<Rightarrow> civil_time \<Rightarrow> bool" where
  "cron_matches spec t \<longleftrightarrow>
     cron_field_matches (cn_minute spec) (vt_minute t) \<and> cron_field_matches (cn_hour spec) (vt_hour t) \<and>
     cron_field_matches (cn_day spec) (vt_day t) \<and> cron_field_matches (cn_month spec) (vt_month t) \<and>
     cron_field_matches (cn_weekday spec) (vt_weekday t)"

text \<open>The range check keeps out every day number no month has, but not a day its month has not.\<close>

definition month_days :: "nat \<Rightarrow> nat" where
  "month_days m = (if m = 2 then 29 else if m \<in> {4, 6, 9, 11} then 30 else 31)"

theorem dead_cron_accepted:
  "(case cron_parse ''0 0 31 2 *'' of
      Inr spec \<Rightarrow> (if cron_matches spec t then month_days (vt_month t) < vt_day t else True)
    | Inl _ \<Rightarrow> False)"
proof -
  have "cron_parse ''0 0 31 2 *'' =
      Inr \<lparr>cn_minute = CronExact 0, cn_hour = CronExact 0, cn_day = CronExact 31, cn_month = CronExact 2, cn_weekday = CronAny\<rparr>"
    by code_simp
  then show ?thesis by (simp add: cron_matches_def month_days_def)
qed

subsection \<open>The edge-triggered driver\<close>

record cron_daemon =
  cd_spec :: cron_spec
  cd_last_fired :: "civil_time option"

definition daemon_new :: "cron_spec \<Rightarrow> cron_daemon" where
  "daemon_new spec = \<lparr>cd_spec = spec, cd_last_fired = None\<rparr>"

definition daemon_tick :: "civil_time \<Rightarrow> cron_daemon \<Rightarrow> bool \<times> cron_daemon" where
  "daemon_tick t d =
     (if \<not> cron_matches (cd_spec d) t then (False, d)
      else if cd_last_fired d = Some t then (False, d)
      else (True, d\<lparr>cd_last_fired := Some t\<rparr>))"

fun daemon_fires :: "civil_time list \<Rightarrow> cron_daemon \<Rightarrow> civil_time list" where
  "daemon_fires [] d = []"
| "daemon_fires (t # ts) d =
     (case daemon_tick t d of (fired, d') \<Rightarrow> (if fired then [t] else []) @ daemon_fires ts d')"

lemma daemon_fires_after:
  "daemon_fires ts \<lparr>cd_spec = spec, cd_last_fired = Some t\<rparr> =
   tl (remdups_adj (t # filter (cron_matches spec) ts))"
proof (induction ts arbitrary: t)
  case (Cons u ts)
  show ?case
  proof (cases "cron_matches spec u")
    case True
    have hd: "u # tl (remdups_adj (u # xs)) = remdups_adj (u # xs)" for xs
      by (metis list.collapse list.distinct(1) list.sel(1) remdups_adj_Nil_iff remdups_adj_Cons_alt)
    show ?thesis using True Cons by (simp add: daemon_tick_def hd)
  qed (simp add: daemon_tick_def Cons)
qed simp

text \<open>A cron driver fires once per matching minute. Ticked at any sequence of times, however often
  within a minute, it fires at the matching times with immediate repetitions removed, in order.
\<close>

theorem cron_fires_once_per_minute:
  "daemon_fires ts (daemon_new spec) = remdups_adj (filter (cron_matches spec) ts)"
proof (induction ts)
  case (Cons t ts)
  have hd: "t # tl (remdups_adj (t # xs)) = remdups_adj (t # xs)" for xs
    by (metis list.collapse list.distinct(1) list.sel(1) remdups_adj_Nil_iff remdups_adj_Cons_alt)
  show ?case
    using Cons daemon_fires_after [of ts spec t] by (simp add: daemon_new_def daemon_tick_def hd)
qed simp

section \<open>Concurrency gate\<close>

record gate_limit =
  cl_limit :: nat
  cl_held :: nat

definition limit_new :: "nat \<Rightarrow> gate_limit" where
  "limit_new limit = \<lparr>cl_limit = max limit 1, cl_held = 0\<rparr>"

definition limit_available :: "gate_limit \<Rightarrow> nat" where
  "limit_available g = cl_limit g - cl_held g"

text \<open>\<open>None\<close> while the gate is full and the caller waits.\<close>

definition limit_acquire :: "gate_limit \<Rightarrow> gate_limit option" where
  "limit_acquire g = (if limit_available g = 0 then None else Some (g\<lparr>cl_held := cl_held g + 1\<rparr>))"

definition limit_release :: "gate_limit \<Rightarrow> gate_limit" where
  "limit_release g = g\<lparr>cl_held := cl_held g - 1\<rparr>"

lemma limit_acquire_bound: "limit_acquire g = Some g' \<Longrightarrow> cl_held g' \<le> cl_limit g'"
  by (auto simp: limit_acquire_def limit_available_def split: if_splits)

section \<open>Durable entries\<close>

record schedule_entry =
  sh_id :: string
  sh_cron :: string
  sh_input :: string

datatype schedule_store = NoStore | UnreadableStore | CorruptStore | Stored "schedule_entry list" nat

datatype schedule_persist_error = PersistInvalidCron string | PersistDegraded | PersistIo string

record scheduler =
  sd_file :: bool
  sd_entries :: "schedule_entry list"
  sd_next :: nat
  sd_degraded :: bool
  sd_interrupted :: bool

definition scheduler_default :: scheduler where
  "scheduler_default = \<lparr>sd_file = False, sd_entries = [], sd_next = 1, sd_degraded = False, sd_interrupted = False\<rparr>"

definition load_or_default :: "schedule_store \<Rightarrow> scheduler" where
  "load_or_default store =
     (case store of
        NoStore \<Rightarrow> scheduler_default\<lparr>sd_file := True\<rparr>
      | Stored es n \<Rightarrow> \<lparr>sd_file = True, sd_entries = es, sd_next = max n 1, sd_degraded = False, sd_interrupted = True\<rparr>
      | _ \<Rightarrow> scheduler_default\<lparr>sd_file := True, sd_degraded := True, sd_interrupted := True\<rparr>)"

definition persist_snapshot ::
    "string option \<Rightarrow> schedule_entry list \<Rightarrow> nat \<Rightarrow> scheduler \<Rightarrow> schedule_store \<Rightarrow>
     (schedule_persist_error, unit) result \<times> schedule_store" where
  "persist_snapshot fault es n sd store =
     (if \<not> sd_file sd then (Inr (), store)
      else if sd_degraded sd then (Inl PersistDegraded, store)
      else (case fault of Some m \<Rightarrow> (Inl (PersistIo m), store) | None \<Rightarrow> (Inr (), Stored es n)))"

definition sched_add ::
    "string option \<Rightarrow> string \<Rightarrow> string \<Rightarrow> scheduler \<times> schedule_store \<Rightarrow>
     (schedule_persist_error, schedule_entry) result \<times> scheduler \<times> schedule_store" where
  "sched_add fault cron input s =
     (case s of (sd, store) \<Rightarrow>
        if \<not> is_ok (cron_parse cron) then (Inl (PersistInvalidCron cron), s)
        else
          let entry = \<lparr>sh_id = ''sched-'' @ show_nat (sd_next sd), sh_cron = cron, sh_input = input\<rparr>;
              es = sd_entries sd @ [entry]
          in case persist_snapshot fault es (sd_next sd + 1) sd store of
               (Inl e, store') \<Rightarrow> (Inl e, sd, store')
             | (Inr _, store') \<Rightarrow> (Inr entry, sd\<lparr>sd_next := sd_next sd + 1, sd_entries := es\<rparr>, store'))"

definition sched_remove ::
    "string option \<Rightarrow> string \<Rightarrow> scheduler \<times> schedule_store \<Rightarrow>
     (schedule_persist_error, bool) result \<times> scheduler \<times> schedule_store" where
  "sched_remove fault i s =
     (case s of (sd, store) \<Rightarrow>
        let es = filter (\<lambda>e. sh_id e \<noteq> i) (sd_entries sd)
        in if length es = length (sd_entries sd) then (Inr False, s)
           else (case persist_snapshot fault es (sd_next sd) sd store of
                   (Inl e, store') \<Rightarrow> (Inl e, sd, store')
                 | (Inr _, store') \<Rightarrow> (Inr True, sd\<lparr>sd_entries := es\<rparr>, store')))"

datatype sched_op = SchedAdd "string option" string string | SchedRemove "string option" string

fun sched_step :: "sched_op \<Rightarrow> scheduler \<times> schedule_store \<Rightarrow> scheduler \<times> schedule_store" where
  "sched_step (SchedAdd fault cron input) s = snd (sched_add fault cron input s)"
| "sched_step (SchedRemove fault i) s = snd (sched_remove fault i s)"

text \<open>What a scheduler over a store file agrees on with the file it would be reloaded from.\<close>

definition in_step :: "schedule_store \<Rightarrow> scheduler \<times> schedule_store \<Rightarrow> bool" where
  "in_step store0 s \<longleftrightarrow>
     (case s of (sd, store) \<Rightarrow>
        sd_file sd \<and> 1 \<le> sd_next sd \<and> sd_degraded sd = sd_degraded (load_or_default store) \<and>
        sd_entries sd = sd_entries (load_or_default store) \<and> sd_next sd = sd_next (load_or_default store) \<and>
        (sd_degraded sd \<longrightarrow> store = store0))"

lemma in_step_load: "in_step store (load_or_default store, store)"
  by (simp add: in_step_def load_or_default_def scheduler_default_def split: schedule_store.split)

lemma in_step_step: "in_step store0 s \<Longrightarrow> in_step store0 (sched_step x s)"
  by (cases s; cases x)
     (auto simp: in_step_def sched_add_def sched_remove_def persist_snapshot_def Let_def
        load_or_default_def split: option.splits)

interpretation schedules: machine "in_step store0" sched_step for store0
  by unfold_locales (rule in_step_step)

text \<open>C25: The schedule survives a restart and is never overwritten blindly. After any adds and removals,
  succeeding or failing, on a scheduler loaded from a store, loading the store again gives the same
  entries and the same next id; and a scheduler that could not read its store has left it untouched.
\<close>

theorem schedule_survives_restart:
  "case fold sched_step xs (load_or_default store, store) of (sd, store') \<Rightarrow>
     sd_entries (load_or_default store') = sd_entries sd \<and> sd_next (load_or_default store') = sd_next sd \<and>
     (if sd_degraded sd then store' = store else True)"
  using schedules.run_inv [OF in_step_load, of store xs] by (auto simp: in_step_def split: prod.splits)

text \<open>A failed operation changes neither the entries nor the store.\<close>

lemma sched_failure_changes_nothing:
  "(case sched_add fault cron input s of (Inl _, s') \<Rightarrow> s' = s | _ \<Rightarrow> True) \<and>
   (case sched_remove fault i s of (Inl _, s') \<Rightarrow> s' = s | _ \<Rightarrow> True)"
  by (cases s)
     (auto simp: sched_add_def sched_remove_def persist_snapshot_def Let_def split: option.splits sum.splits if_splits)

end
