(* ===== verification/File_Text.thy ===== *)
theory File_Text
  imports Prelude
begin

text \<open>
  The text routines behind the file tools, \<open>crates/capabilities/tools/src/fs/edit.rs\<close> and
  \<open>read.rs\<close>: counting and replacing an exact string, the whitespace-insensitive line-block
  fallback, and the bounded edit distance behind the file-name suggestions. The
  two float tests of the fallback are written over the integers: for line counts
  below \<open>2 ^ 49\<close> (a file here has at most \<open>2 ^ 20\<close> bytes) the quotient of
  two counts is at least the double \<open>0.7\<close> exactly when ten times the first is at least seven
  times the second.
\<close>

section \<open>Exact matches\<close>

text \<open>\<open>str::matches(..).count()\<close>: matches from the left that do not overlap.\<close>

function count_matches :: "string \<Rightarrow> string \<Rightarrow> nat" where
  "count_matches p s =
     (if p = [] then length s + 1
      else (case find_str p s of None \<Rightarrow> 0 | Some i \<Rightarrow> Suc (count_matches p (drop (i + length p) s))))"
  by auto
termination
proof (relation "measure (\<lambda>(p, s). length s)", simp, clarsimp)
  fix p s :: string and i
  assume "p \<noteq> []" and "find_str p s = Some i"
  then show "length s - (i + length p) < length s"
    using find_str_prefix [of p s i] by (cases s) (auto simp: prefix_def)
qed

declare count_matches.simps [simp del]

text \<open>\<open>replacen(.., 1)\<close>.\<close>

definition replace_first :: "string \<Rightarrow> string \<Rightarrow> string \<Rightarrow> string" where
  "replace_first p q s =
     (case find_str p s of None \<Rightarrow> s | Some i \<Rightarrow> take i s @ q @ drop (i + length p) s)"

section \<open>The line-block fallback\<close>

definition FUZZY_MAX_BYTES :: nat where
  "FUZZY_MAX_BYTES = 1024 * 1024"

definition NEAR_MISS_MIN_RATIO :: "nat \<times> nat" where
  "NEAR_MISS_MIN_RATIO = (7, 10)"

datatype fuzzy_outcome =
    Replaced string
  | Ambiguous nat
  | NearMiss nat nat
  | NotFound

text \<open>\<open>split_inclusive\<close> on newlines: every piece but the last ends with one, no piece is empty.\<close>

fun split_inclusive :: "string \<Rightarrow> string list" where
  "split_inclusive [] = []"
| "split_inclusive (c # cs) =
     (if c = newline then [c] # split_inclusive cs
      else (case split_inclusive cs of [] \<Rightarrow> [[c]] | w # ws \<Rightarrow> (c # w) # ws))"

definition strip_newline :: "string \<Rightarrow> string" where
  "strip_newline s = (case strip_suffix s [newline] of Some t \<Rightarrow> t | None \<Rightarrow> s)"

definition equal_counts :: "string list \<Rightarrow> string list \<Rightarrow> nat list" where
  "equal_counts file_lines trimmed_old =
     map (\<lambda>start. length (filter (\<lambda>i. trim (file_lines ! (start + i)) = trimmed_old ! i) [0..<length trimmed_old]))
       [0..<length file_lines - length trimmed_old + 1]"

definition full_windows :: "nat list \<Rightarrow> nat \<Rightarrow> nat list" where
  "full_windows counts n = map fst (filter (\<lambda>(_, eq). eq = n) (enumerate 0 counts))"

text \<open>The ending the replacement is joined with.\<close>

definition line_ending :: "string option \<Rightarrow> string" where
  "line_ending stripped =
     (case stripped of
        Some line \<Rightarrow> if ends_with line [carriage_return] then [carriage_return, newline] else [newline]
      | None \<Rightarrow> [])"

definition window_ending :: "string list \<Rightarrow> nat \<Rightarrow> string" where
  "window_ending file_lines start =
     (case strip_suffix (file_lines ! start) [newline] of
        Some first \<Rightarrow> line_ending (Some first)
      | None \<Rightarrow> if start = 0 then [] else line_ending (strip_suffix (file_lines ! (start - 1)) [newline]))"

definition trim_cr :: "string \<Rightarrow> string" where
  "trim_cr s = trim_end_matches (\<lambda>c. c = carriage_return) s"

definition fuzzy_replacement :: "string list \<Rightarrow> nat \<Rightarrow> nat \<Rightarrow> string \<Rightarrow> string" where
  "fuzzy_replacement file_lines start n new_string =
     (let ending = window_ending file_lines start;
          body = trim_cr (strip_newline new_string)
      in join ending (map trim_cr (split_on (\<lambda>c. c = newline) body)) @
         (if ends_with (file_lines ! (start + n - 1)) [newline] then ending else []))"

text \<open>\<open>max_by_key\<close> returns the last of the largest.\<close>

definition best_window :: "nat list \<Rightarrow> nat \<times> nat" where
  "best_window counts =
     (if counts = [] then (0, 0)
      else fold (\<lambda>(i, eq) (bi, best). if best \<le> eq then (i, eq) else (bi, best))
             (enumerate 1 (tl counts)) (0, hd counts))"

definition near_miss :: "nat list \<Rightarrow> nat \<Rightarrow> fuzzy_outcome" where
  "near_miss counts n =
     (case best_window counts of (start, best) \<Rightarrow>
        if fst NEAR_MISS_MIN_RATIO * n \<le> snd NEAR_MISS_MIN_RATIO * best
        then NearMiss (start + 1) (100 * best div n) else NotFound)"

definition fuzzy_line_replace :: "string \<Rightarrow> string \<Rightarrow> string \<Rightarrow> fuzzy_outcome" where
  "fuzzy_line_replace s old_string new_string =
     (let file_lines = split_inclusive s;
          old_lines = map strip_newline (split_inclusive old_string);
          trimmed_old = map trim old_lines; n = length old_lines
      in if old_lines = [] \<or> length file_lines < n then NotFound
         else
           let counts = equal_counts file_lines trimmed_old; full = full_windows counts n
           in case full of
                [start] \<Rightarrow>
                  let offset = sum_list (map length (take start file_lines));
                      window_len = sum_list (map length (take n (drop start file_lines)))
                  in Replaced (take offset s @ fuzzy_replacement file_lines start n new_string @
                               drop (offset + window_len) s)
              | _ # _ # _ \<Rightarrow> Ambiguous (length full)
              | [] \<Rightarrow> near_miss counts n)"

section \<open>Bounded edit distance\<close>

text \<open>One row of the table: the entries above, from the left, and the running minimum.\<close>

fun distance_row :: "char \<Rightarrow> string \<Rightarrow> nat list \<Rightarrow> nat list \<Rightarrow> nat \<Rightarrow> nat list \<times> nat" where
  "distance_row ca (cb # cs) (p # p' # ps) current row_min =
     (let substitute = p + (if ca \<noteq> cb then 1 else 0);
          v = min (min (p' + 1) substitute) (last current + 1)
      in distance_row ca cs (p' # ps) (current @ [v]) (min row_min v))"
| "distance_row ca _ _ current row_min = (current, row_min)"

fun distance_rows :: "nat \<Rightarrow> string \<Rightarrow> string \<Rightarrow> nat \<Rightarrow> nat list \<Rightarrow> nat" where
  "distance_rows i [] b budget previous = previous ! length b"
| "distance_rows i (ca # a) b budget previous =
     (case distance_row ca b previous [i + 1] (i + 1) of (current, row_min) \<Rightarrow>
        if budget < row_min then budget + 1 else distance_rows (i + 1) a b budget current)"

definition edit_distance :: "string \<Rightarrow> string \<Rightarrow> nat \<Rightarrow> nat" where
  "edit_distance a b budget = distance_rows 0 a b budget [0..<length b + 1]"

section \<open>What the routines compute\<close>

subsection \<open>Exact matches\<close>

lemma find_str_first: "find_str p s = Some i \<Longrightarrow> j < i \<Longrightarrow> \<not> prefix p (drop j s)"
proof (induction s arbitrary: i j)
  case (Cons c cs)
  then show ?case by (cases j) (auto split: if_splits)
qed (auto split: if_splits)

lemma find_str_cut:
  "find_str p s = Some i \<Longrightarrow> s = take i s @ p @ drop (i + length p) s"
  using find_str_prefix [of p s i]
  by (metis append_take_drop_id append_eq_conv_conj drop_drop prefix_def add.commute)

lemma count_matches_0: "p \<noteq> [] \<Longrightarrow> count_matches p s = 0 \<longleftrightarrow> find_str p s = None"
  by (subst count_matches.simps) (auto split: option.splits)

lemma count_matches_1:
  assumes "p \<noteq> []" and "count_matches p s = 1"
  shows "\<exists>pre post. s = pre @ p @ post \<and> replace_first p q s = pre @ q @ post \<and>
           find_str p s = Some (length pre) \<and> find_str p post = None"
proof -
  from assms obtain i where i: "find_str p s = Some i" "count_matches p (drop (i + length p) s) = 0"
    by (subst (asm) count_matches.simps) (auto split: option.splits)
  then have "find_str p (drop (i + length p) s) = None" using assms(1) count_matches_0 by blast
  moreover have "length (take i s) = i" using find_str_prefix [OF i(1)] by simp
  ultimately show ?thesis
    using i find_str_cut [OF i(1)]
    by (intro exI [of _ "take i s"] exI [of _ "drop (i + length p) s"]) (simp add: replace_first_def)
qed

subsection \<open>Lines\<close>

lemma concat_split_inclusive [simp]: "concat (split_inclusive s) = s"
  by (induction s) (auto split: list.splits)

lemma split_inclusive_Nil_iff [simp]: "split_inclusive s = [] \<longleftrightarrow> s = []"
  by (cases s) (auto split: list.splits)

lemma split_inclusive_append:
  "x = [] \<or> last x = newline \<Longrightarrow> split_inclusive (x @ y) = split_inclusive x @ split_inclusive y"
proof (induction x)
  case (Cons c x)
  show ?case
  proof (cases "x = []")
    case False
    then have "split_inclusive (x @ y) = split_inclusive x @ split_inclusive y" using Cons by auto
    moreover have "split_inclusive x \<noteq> []" using False by simp
    ultimately show ?thesis by (auto split: list.splits)
  qed (use Cons in simp)
qed simp

text \<open>All pieces but the last end with a newline.\<close>

lemma split_inclusive_ends:
  "Suc i < length (split_inclusive s) \<Longrightarrow> ends_with (split_inclusive s ! i) [newline]"
proof (induction s arbitrary: i)
  case (Cons c s)
  show ?case
  proof (cases "c = newline")
    case True
    with Cons show ?thesis by (cases i) (auto simp: ends_with_def)
  next
    case False
    with Cons.prems obtain w ws where w: "split_inclusive s = w # ws" by (auto split: list.splits)
    show ?thesis
      using Cons.IH [of i] Cons.prems False w
      by (cases i) (auto simp: ends_with_def suffix_Cons)
  qed
qed simp

definition line_ok :: "string \<Rightarrow> bool" where
  "line_ok l \<longleftrightarrow> l \<noteq> [] \<and> newline \<notin> set (butlast l)"

definition lines_ok :: "string list \<Rightarrow> bool" where
  "lines_ok ls \<longleftrightarrow> list_all line_ok ls \<and> list_all (\<lambda>l. last l = newline) (butlast ls)"

lemma lines_ok_split [simp]: "lines_ok (split_inclusive s)"
proof (induction s)
  case (Cons c s)
  show ?case
  proof (cases "split_inclusive s")
    case Nil
    then show ?thesis by (simp add: lines_ok_def line_ok_def)
  next
    case (Cons w ws)
    with Cons.IH show ?thesis by (auto simp: lines_ok_def line_ok_def split: if_splits)
  qed
qed (simp add: lines_ok_def)

lemma in_butlast_take: "x \<in> set (butlast (take k ls)) \<Longrightarrow> x \<in> set (butlast ls)"
  by (induction ls arbitrary: k) (auto simp: take_Cons' split: if_splits)

lemma lines_ok_take: "lines_ok ls \<Longrightarrow> lines_ok (take k ls)"
  by (auto simp: lines_ok_def list_all_iff dest: in_set_takeD in_butlast_take)

lemma lines_ok_drop: "lines_ok ls \<Longrightarrow> lines_ok (drop k ls)"
  by (auto simp: lines_ok_def list_all_iff butlast_drop dest: in_set_dropD)

lemma split_inclusive_line: "line_ok l \<Longrightarrow> split_inclusive l = [l]"
proof (induction l)
  case (Cons c l)
  then show ?case by (cases "l = []") (auto simp: line_ok_def split: list.splits if_splits)
qed (simp add: line_ok_def)

lemma split_inclusive_concat: "lines_ok ls \<Longrightarrow> split_inclusive (concat ls) = ls"
proof (induction ls)
  case (Cons l ls)
  then have l: "line_ok l" "ls \<noteq> [] \<Longrightarrow> last l = newline" "lines_ok ls"
    by (auto simp: lines_ok_def split: if_splits)
  show ?case
  proof (cases "ls = []")
    case False
    with l Cons.IH show ?thesis by (simp add: split_inclusive_append split_inclusive_line)
  qed (use l in \<open>simp add: split_inclusive_line\<close>)
qed simp

subsection \<open>The fallback\<close>

text \<open>Where the block of old lines stands in a text, line by line and up to outer white space.\<close>

definition block_starts :: "string \<Rightarrow> string \<Rightarrow> nat list" where
  "block_starts s old_string =
     (let ls = split_inclusive s; os = split_inclusive old_string
      in filter (\<lambda>k. map trim (take (length os) (drop k ls)) = map trim os) [0..<length ls])"

lemma trim_strip_newline [simp]: "trim (strip_newline s) = trim s"
proof -
  have ws: "is_ws newline" by (simp add: is_ws_def newline_def char_code_def)
  have "trim (t @ [newline]) = trim t" for t
  proof (cases "\<forall>c \<in> set t. is_ws c")
    case True
    then show ?thesis
      using ws by (auto simp: trim_def trim_start_def trim_end_def dropWhile_append dest: set_dropWhileD)
  next
    case False
    then show ?thesis using ws by (auto simp: trim_def trim_start_def trim_end_def dropWhile_append)
  qed
  then show ?thesis
    by (auto simp: strip_newline_def strip_suffix_def suffix_def split: option.splits)
qed

lemma length_filter_all: "length (filter P xs) = length xs \<longleftrightarrow> (\<forall>x \<in> set xs. P x)"
  by (metis filter_True filter_id_conv length_filter_less nat_neq_iff)

lemma full_windows_map: "full_windows (map f [0..<m]) n = filter (\<lambda>k. f k = n) [0..<m]"
  by (simp add: full_windows_def enumerate_map_upt filter_map o_def split_def)

lemma equal_counts_full:
  assumes "length os = n" and "0 < n" and "n \<le> length ls"
  shows "full_windows (equal_counts ls os) n =
         filter (\<lambda>k. map trim (take n (drop k ls)) = os) [0..<length ls]"
proof -
  let ?f = "\<lambda>start. length (filter (\<lambda>i. trim (ls ! (start + i)) = os ! i) [0..<n])"
  let ?P = "\<lambda>k. map trim (take n (drop k ls)) = os"
  have full: "?f k = n \<longleftrightarrow> ?P k" if "k + n \<le> length ls" for k
  proof -
    have "?f k = n \<longleftrightarrow> (\<forall>i < n. trim (ls ! (k + i)) = os ! i)"
      using length_filter_all [of "\<lambda>i. trim (ls ! (k + i)) = os ! i" "[0..<n]"] by auto
    also have "\<dots> \<longleftrightarrow> ?P k" using that assms(1) by (simp add: list_eq_iff_nth_eq)
    finally show ?thesis .
  qed
  have short: "\<not> ?P k" if "length ls < k + n" for k
    using that assms by (auto dest!: arg_cong [of _ _ length])
  let ?m = "length ls - n + 1"
  have "filter ?P [0..<length ls] = filter ?P [0..<?m] @ filter ?P [?m..<length ls]"
  proof -
    have "?m + (n - 1) = length ls" using assms by simp
    moreover have "[0..<?m + (n - 1)] = [0..<?m] @ [?m..<?m + (n - 1)]" by (rule upt_add_eq_append) simp
    ultimately show ?thesis by (simp only: filter_append)
  qed
  also have "filter ?P [?m..<length ls] = []"
  proof (rule filter_False, rule ballI)
    fix k assume "k \<in> set [?m..<length ls]"
    then have "length ls < k + n" using assms by auto
    then show "\<not> ?P k" by (rule short)
  qed
  also have "filter ?P [0..<?m] = filter (\<lambda>k. ?f k = n) [0..<?m]"
  proof (rule filter_cong [OF refl])
    fix k assume "k \<in> set [0..<?m]"
    then have "k + n \<le> length ls" using assms by auto
    then show "?P k = (?f k = n)" by (rule full [symmetric])
  qed
  finally show ?thesis
    by (simp only: equal_counts_def full_windows_map assms(1) append_Nil2)
qed

lemma length_concat_take: "sum_list (map length xs) = length (concat xs)"
  by (simp add: length_concat)

lemma cut_concat:
  "take (sum_list (map length (take k ls))) (concat ls) = concat (take k ls)"
  "drop (sum_list (map length (take k ls)) + sum_list (map length (take n (drop k ls)))) (concat ls) =
   concat (drop (k + n) ls)"
proof -
  have "concat ls = concat (take k ls) @ concat (drop k ls)"
    by (metis append_take_drop_id concat_append)
  moreover have "concat (drop k ls) = concat (take n (drop k ls)) @ concat (drop (k + n) ls)"
    by (metis add.commute append_take_drop_id concat_append drop_drop)
  ultimately show
    "take (sum_list (map length (take k ls))) (concat ls) = concat (take k ls)"
    "drop (sum_list (map length (take k ls)) + sum_list (map length (take n (drop k ls)))) (concat ls) =
     concat (drop (k + n) ls)"
    by (simp_all add: length_concat_take)
qed

lemma best_window_fold:
  fixes best :: nat
  shows "best \<le> snd (fold (\<lambda>(i, eq) (bi, best). if best \<le> eq then (i, eq) else (bi, best)) xs (bi, best)) \<and>
   list_all (\<lambda>(_, eq). eq \<le> snd (fold (\<lambda>(i, eq) (bi, best). if best \<le> eq then (i, eq) else (bi, best)) xs (bi, best))) xs \<and>
   fold (\<lambda>(i, eq) (bi, best). if best \<le> eq then (i, eq) else (bi, best)) xs (bi, best) \<in> insert (bi, best) (set xs)"
proof (induction xs arbitrary: bi best)
  case (Cons x xs)
  obtain i eq where x: "x = (i, eq)" by (cases x)
  show ?case
  proof (cases "best \<le> eq")
    case True
    with Cons.IH [of eq i] show ?thesis by (auto simp: x split: if_splits)
  next
    case False
    with Cons.IH [of best bi] show ?thesis by (auto simp: x split: if_splits)
  qed
qed simp

text \<open>The named window is one with the most equal lines.\<close>

lemma best_window_max:
  assumes "counts \<noteq> []" and "best_window counts = (k, m)"
  shows "k < length counts \<and> counts ! k = m \<and> list_all (\<lambda>c. c \<le> m) counts"
proof -
  obtain c cs where c: "counts = c # cs" using assms(1) by (cases counts) auto
  let ?g = "\<lambda>(i, eq) (bi, best). if best \<le> eq then (i, eq) else (bi :: nat, best :: nat)"
  have km: "fold ?g (enumerate 1 cs) (0, c) = (k, m)" using assms c by (simp add: best_window_def)
  have "c \<le> m" "list_all (\<lambda>(_, eq). eq \<le> m) (enumerate 1 cs)" "(k, m) \<in> insert (0, c) (set (enumerate 1 cs))"
    using best_window_fold [of c "enumerate 1 cs" 0] unfolding km by simp_all
  moreover from this(2) have "list_all (\<lambda>x. x \<le> m) cs"
    by (auto simp: list_all_length nth_enumerate_eq split_def)
  ultimately show ?thesis by (auto simp: c in_set_enumerate_eq nth_Cons')
qed

lemma window_ending_newline:
  assumes "k + n \<le> length (split_inclusive s)" and "0 < n"
    and "ends_with (split_inclusive s ! (k + n - 1)) [newline]"
  shows "window_ending (split_inclusive s) k \<noteq> [] \<and> last (window_ending (split_inclusive s) k) = newline"
proof -
  have "ends_with (split_inclusive s ! k) [newline]"
  proof (cases "n = 1")
    case False
    with assms show ?thesis by (intro split_inclusive_ends) simp
  qed (use assms in simp)
  then show ?thesis
    by (simp add: window_ending_def strip_suffix_def ends_with_def line_ending_def)
qed

lemma last_ends_with: "ends_with x [c] \<Longrightarrow> last x = c"
  by (auto simp: ends_with_def suffix_def)

lemma split_inclusive_window:
  assumes "k + n \<le> length (split_inclusive s)" and "0 < n"
  shows "split_inclusive (concat (take k (split_inclusive s)) @ fuzzy_replacement (split_inclusive s) k n t @
            concat (drop (k + n) (split_inclusive s))) =
         take k (split_inclusive s) @ split_inclusive (fuzzy_replacement (split_inclusive s) k n t) @
         drop (k + n) (split_inclusive s)"
proof -
  let ?ls = "split_inclusive s" and ?r = "fuzzy_replacement (split_inclusive s) k n t"
  have lines: "split_inclusive (concat (take k ?ls)) = take k ?ls" "split_inclusive (concat (drop (k + n) ?ls)) = drop (k + n) ?ls"
    by (simp_all add: split_inclusive_concat lines_ok_take lines_ok_drop)
  have "concat (take k ?ls) = [] \<or> last (concat (take k ?ls)) = newline"
  proof (cases k)
    case (Suc j)
    with assms have "concat (take k ?ls) = concat (take j ?ls) @ ?ls ! j" "ends_with (?ls ! j) [newline]"
      by (simp_all add: take_Suc_conv_app_nth split_inclusive_ends)
    then show ?thesis by (auto simp: ends_with_def suffix_def)
  qed simp
  then have pre: "split_inclusive (concat (take k ?ls) @ y) = take k ?ls @ split_inclusive y" for y
    using lines by (simp add: split_inclusive_append)
  show ?thesis
  proof (cases "ends_with (?ls ! (k + n - 1)) [newline]")
    case True
    then have "?r \<noteq> [] \<and> last ?r = newline"
      using window_ending_newline [OF assms True] by (simp add: fuzzy_replacement_def Let_def)
    then show ?thesis using pre lines by (simp add: split_inclusive_append)
  next
    case False
    then have "k + n = length ?ls"
      using split_inclusive_ends [of "k + n - 1" s] assms by fastforce
    then show ?thesis using pre by simp
  qed
qed

lemma block_starts_bound:
  assumes "k \<in> set (block_starts s old)" shows "k + length (split_inclusive old) \<le> length (split_inclusive s)"
  using assms by (auto simp: block_starts_def Let_def dest!: arg_cong [of _ _ length])

definition near_miss_ok :: "fuzzy_outcome \<Rightarrow> nat \<Rightarrow> nat \<Rightarrow> bool" where
  "near_miss_ok r n m =
     (case r of
        NearMiss line percent \<Rightarrow> 1 \<le> line \<and> line + n \<le> m + 1 \<and> 70 \<le> percent \<and> percent < 100
      | NotFound \<Rightarrow> True
      | _ \<Rightarrow> False)"

lemma near_miss_bounds:
  assumes "full_windows (equal_counts ls os) n = []" and "length os = n" and "0 < n" and "n \<le> length ls"
  shows "near_miss_ok (near_miss (equal_counts ls os) n) n (length ls)"
proof -
  let ?cs = "equal_counts ls os"
  obtain k best where k: "best_window ?cs = (k, best)" by fastforce
  have len: "length ?cs = length ls - n + 1" using assms(2) by (simp add: equal_counts_def)
  then have kb: "k < length ?cs" "?cs ! k = best" using best_window_max [OF _ k] by force+
  have "best \<le> n"
    using kb assms(2) len unfolding equal_counts_def
    by (auto simp: nth_append simp del: upt_Suc intro: order_trans [OF length_filter_le])
  moreover have "best \<noteq> n"
    using assms(1) kb by (auto simp: full_windows_def filter_empty_conv in_set_enumerate_eq)
  ultimately have "best < n" by simp
  then have "100 * best div n < 100" by (simp add: div_less_iff_less_mult assms(3) mult.commute)
  moreover have "70 \<le> 100 * best div n" if "7 * n \<le> 10 * best"
    using that assms(3) by (simp add: less_eq_div_iff_mult_less_eq)
  ultimately show ?thesis
    using kb(1) len assms(4) by (auto simp: near_miss_def k near_miss_ok_def NEAR_MISS_MIN_RATIO_def)
qed

text \<open>The fallback replaces exactly when one block of lines matches, and then keeps every other line.\<close>

theorem fuzzy_line_replace_exact:
  "if old = [] then fuzzy_line_replace s old new = NotFound
   else let ls = split_inclusive s; n = length (split_inclusive old); starts = block_starts s old
        in case fuzzy_line_replace s old new of
             Replaced u \<Rightarrow>
               (case starts of
                  [k] \<Rightarrow> split_inclusive u = take k ls @ split_inclusive (fuzzy_replacement ls k n new) @ drop (k + n) ls
                | _ \<Rightarrow> False)
           | Ambiguous m \<Rightarrow> m = length starts \<and> 2 \<le> m
           | NearMiss line percent \<Rightarrow> starts = [] \<and> 1 \<le> line \<and> line + n \<le> length ls + 1 \<and> 70 \<le> percent \<and> percent < 100
           | NotFound \<Rightarrow> starts = []"
proof (cases "old = []")
  case False
  let ?ls = "split_inclusive s" and ?os = "map trim (split_inclusive old)" and ?n = "length (split_inclusive old)"
  let ?counts = "equal_counts ?ls ?os"
  have n: "0 < ?n" using False by simp
  have os: "map (trim \<circ> strip_newline) (split_inclusive old) = ?os" by simp
  show ?thesis
  proof (cases "length ?ls < ?n")
    case True
    then have "block_starts s old = []" using block_starts_bound [of _ s old] by (cases "block_starts s old") force+
    with True False show ?thesis by (simp add: fuzzy_line_replace_def Let_def)
  next
    case long: False
    then have full: "full_windows ?counts ?n = block_starts s old"
      using equal_counts_full [of ?os ?n ?ls] n by (simp add: block_starts_def Let_def)
    have fuzzy: "fuzzy_line_replace s old new =
        (case block_starts s old of
           [start] \<Rightarrow> Replaced (concat (take start ?ls) @ fuzzy_replacement ?ls start ?n new @ concat (drop (start + ?n) ?ls))
         | _ # _ # _ \<Rightarrow> Ambiguous (length (block_starts s old))
         | [] \<Rightarrow> near_miss ?counts ?n)"
      using cut_concat(1) [where ls = ?ls] cut_concat(2) [where ls = ?ls and n = ?n] False long
      by (simp add: fuzzy_line_replace_def Let_def full os split: list.splits)
    consider (none) "block_starts s old = []" | (one) k where "block_starts s old = [k]"
      | (many) "2 \<le> length (block_starts s old)"
      by (cases "block_starts s old"; cases "tl (block_starts s old)") auto
    then show ?thesis
    proof cases
      case none
      have "near_miss_ok (near_miss ?counts ?n) ?n (length ?ls)"
        by (rule near_miss_bounds) (use none full n long in auto)
      with none False fuzzy show ?thesis by (simp add: Let_def near_miss_ok_def split: fuzzy_outcome.splits)
    next
      case one
      then have "k + ?n \<le> length ?ls" using block_starts_bound [of k s old] by simp
      with one False fuzzy n show ?thesis by (simp add: split_inclusive_window Let_def)
    next
      case many
      with False fuzzy show ?thesis by (auto simp: Let_def split: list.splits)
    qed
  qed
qed (simp add: fuzzy_line_replace_def Let_def)

text \<open>Lines with different endings are joined by the window's own; a last line without an ending joins
  the new lines with nothing.\<close>

theorem fuzzy_drops_line_breaks:
  "fuzzy_line_replace ''foo'' '' foo'' (''a'' @ [newline] @ ''b'') = Replaced ''ab''"
  by code_simp

subsection \<open>Edit scripts\<close>

text \<open>A script pairs characters of the two words, or one with nothing; a pair of different ends costs one.\<close>

type_synonym script = "(char option \<times> char option) list"

definition is_script :: "string \<Rightarrow> string \<Rightarrow> script \<Rightarrow> bool" where
  "is_script a b al \<longleftrightarrow> List.map_filter fst al = a \<and> List.map_filter snd al = b"

definition script_cost :: "script \<Rightarrow> nat" where
  "script_cost al = length (filter (\<lambda>(x, y). x \<noteq> y) al)"

definition least_cost :: "string \<Rightarrow> string \<Rightarrow> nat \<Rightarrow> bool" where
  "least_cost a b d \<longleftrightarrow> (\<exists>al. is_script a b al \<and> script_cost al = d) \<and> (\<forall>al. is_script a b al \<longrightarrow> d \<le> script_cost al)"

fun lev :: "string \<Rightarrow> string \<Rightarrow> nat" where
  "lev [] ys = length ys"
| "lev (x # xs) [] = length (x # xs)"
| "lev (x # xs) (y # ys) =
     min (min (lev xs (y # ys) + 1) (lev xs ys + (if x \<noteq> y then 1 else 0))) (lev (x # xs) ys + 1)"

lemma script_simps [simp]:
  "script_cost [] = 0" "script_cost ((x, y) # al) = (if x \<noteq> y then 1 else 0) + script_cost al"
  "is_script a b [] \<longleftrightarrow> a = [] \<and> b = []"
  "is_script a b ((None, None) # al) \<longleftrightarrow> is_script a b al"
  "is_script a b ((Some c, None) # al) \<longleftrightarrow> (\<exists>a'. a = c # a' \<and> is_script a' b al)"
  "is_script a b ((None, Some d) # al) \<longleftrightarrow> (\<exists>b'. b = d # b' \<and> is_script a b' al)"
  "is_script a b ((Some c, Some d) # al) \<longleftrightarrow> (\<exists>a' b'. a = c # a' \<and> b = d # b' \<and> is_script a' b' al)"
  by (auto simp: script_cost_def is_script_def List.map_filter_simps)

lemma lev_Nil2 [simp]: "lev xs [] = length xs"
  by (cases xs) simp_all

lemma lev_drop: "lev (x # xs) ys \<le> lev xs ys + 1"
  by (cases ys) auto

lemma lev_drop2: "lev xs (y # ys) \<le> lev xs ys + 1"
  by (cases xs) auto

lemma lev_least: "is_script a b al \<Longrightarrow> lev a b \<le> script_cost al"
proof (induction al arbitrary: a b)
  case (Cons p al)
  obtain x y where p: "p = (x, y)" by (cases p)
  show ?case
  proof (cases x; cases y)
    fix c assume "x = None" "y = Some c"
    with Cons p show ?thesis by (auto intro!: order_trans [OF lev_drop2])
  next
    fix c assume "x = Some c" "y = None"
    with Cons p show ?thesis by (auto intro!: order_trans [OF lev_drop])
  next
    fix c d assume "x = Some c" "y = Some d"
    with Cons p show ?thesis by (fastforce simp: min_le_iff_disj)
  qed (use Cons p in auto)
qed simp

lemma lev_attained: "\<exists>al. is_script a b al \<and> script_cost al = lev a b"
proof (induction a b rule: lev.induct)
  case (1 ys)
  show ?case
    by (rule exI [of _ "map (\<lambda>y. (None, Some y)) ys"]) (induction ys, auto)
next
  case (2 x xs)
  show ?case
    by (rule exI [of _ "map (\<lambda>y. (Some y, None)) (x # xs)"]) (induction xs arbitrary: x, auto)
next
  case (3 x xs y ys)
  then obtain al1 al2 al3 where
    "is_script xs (y # ys) al1" "script_cost al1 = lev xs (y # ys)"
    "is_script xs ys al2" "script_cost al2 = lev xs ys"
    "is_script (x # xs) ys al3" "script_cost al3 = lev (x # xs) ys" by blast
  then have
    "is_script (x # xs) (y # ys) ((Some x, None) # al1)" "script_cost ((Some x, None) # al1) = lev xs (y # ys) + 1"
    "is_script (x # xs) (y # ys) ((Some x, Some y) # al2)"
    "script_cost ((Some x, Some y) # al2) = lev xs ys + (if x \<noteq> y then 1 else 0)"
    "is_script (x # xs) (y # ys) ((None, Some y) # al3)" "script_cost ((None, Some y) # al3) = lev (x # xs) ys + 1"
    by auto
  then show ?case by (simp only: lev.simps) (metis min_def)
qed

lemma lev_least_cost: "least_cost a b (lev a b)"
  by (simp add: least_cost_def lev_attained lev_least)

lemma script_rev: "is_script (rev a) (rev b) (rev al) \<longleftrightarrow> is_script a b al" "script_cost (rev al) = script_cost al"
  by (auto simp: is_script_def script_cost_def rev_filter [symmetric] List.map_filter_def rev_map [symmetric])

lemma least_cost_rev: "least_cost (rev a) (rev b) d \<longleftrightarrow> least_cost a b d"
  unfolding least_cost_def by (metis rev_rev_ident script_rev)

subsection \<open>The rows of the table\<close>

definition lev_row :: "string \<Rightarrow> string \<Rightarrow> nat list" where
  "lev_row ra b = map (\<lambda>j. lev ra (rev (take j b))) [0..<length b + 1]"

lemma distance_row_spec:
  assumes "b = bs @ cs"
  shows "distance_row ca cs (map (\<lambda>j. lev ra (rev (take j b))) [length bs..<length b + 1])
           (map (\<lambda>j. lev (ca # ra) (rev (take j b))) [0..<length bs + 1])
           (Min (set (map (\<lambda>j. lev (ca # ra) (rev (take j b))) [0..<length bs + 1]))) =
         (lev_row (ca # ra) b, Min (set (lev_row (ca # ra) b)))"
  using assms
proof (induction cs arbitrary: bs)
  case Nil
  then show ?case by (simp add: lev_row_def)
next
  case (Cons c cs)
  let ?f = "\<lambda>j. lev ra (rev (take j b))" and ?g = "\<lambda>j. lev (ca # ra) (rev (take j b))" and ?k = "length bs"
  have b: "b = (bs @ [c]) @ cs" using Cons.prems by simp
  have "[?k..<length b + 1] = ?k # (?k + 1) # [?k + 2..<length b + 1]"
    using b by (simp add: upt_conv_Cons del: upt_Suc)
  then have up: "map ?f [?k..<length b + 1] = ?f ?k # ?f (?k + 1) # map ?f [?k + 2..<length b + 1]"
    by (simp only: list.map)
  have "[length (bs @ [c])..<length b + 1] = (?k + 1) # [?k + 2..<length b + 1]"
    using b by (simp add: upt_conv_Cons del: upt_Suc)
  then have up': "?f (?k + 1) # map ?f [?k + 2..<length b + 1] = map ?f [length (bs @ [c])..<length b + 1]"
    by (simp only: list.map)
  have v: "min (min (?f (?k + 1) + 1) (?f ?k + (if ca \<noteq> c then 1 else 0))) (last (map ?g [0..<?k + 1]) + 1) = ?g (?k + 1)"
    using b by simp
  have row: "map ?g [0..<?k + 1] @ [?g (?k + 1)] = map ?g [0..<length (bs @ [c]) + 1]" by simp
  have m: "min (Min (set (map ?g [0..<?k + 1]))) (?g (?k + 1)) = Min (set (map ?g [0..<length (bs @ [c]) + 1]))"
    unfolding row [symmetric] by (simp add: min.commute del: upt_Suc)
  show ?case
    unfolding up unfolding distance_row.simps Let_def v row m unfolding up' by (rule Cons.IH) (use b in simp)
qed

lemma distance_row_row: "distance_row ca b (lev_row ra b) [length ra + 1] (length ra + 1) = (lev_row (ca # ra) b, Min (set (lev_row (ca # ra) b)))"
  using distance_row_spec [of b "[]" b ca ra] by (simp add: lev_row_def)

lemma row_grows:
  assumes "\<forall>j \<le> length b. k < lev r (rev (take j b))" and "j \<le> length b"
  shows "k < lev (x # r) (rev (take j b))"
  using assms(2)
proof (induction j)
  case 0
  show ?case using assms(1) by (auto dest: spec [of _ 0])
next
  case (Suc j)
  then have j: "rev (take (Suc j) b) = b ! j # rev (take j b)" by (simp add: take_Suc_conv_app_nth)
  show ?case
    using Suc assms(1) [rule_format, of j] assms(1) [rule_format, of "Suc j"] by (simp add: j min_def)
qed

lemma rows_grow:
  "\<forall>j \<le> length b. k < lev r (rev (take j b)) \<Longrightarrow> j \<le> length b \<Longrightarrow> k < lev (rev a @ r) (rev (take j b))"
  by (induction a arbitrary: r) (auto intro: row_grows)

lemma distance_rows_spec:
  assumes "n = distance_rows (length ra) a b k (lev_row ra b)"
  shows "if n \<le> k then n = lev (rev a @ ra) (rev b) else k < lev (rev a @ ra) (rev b)"
  using assms
proof (induction a arbitrary: ra)
  case Nil
  then show ?case by (simp add: lev_row_def del: upt_Suc)
next
  case (Cons ca a)
  show ?case
  proof (cases "k < Min (set (lev_row (ca # ra) b))")
    case True
    then have "\<forall>j \<le> length b. k < lev (ca # ra) (rev (take j b))"
      by (simp add: lev_row_def del: upt_Suc)
    from rows_grow [OF this, of "length b" a] Cons.prems True show ?thesis
      by (simp add: distance_row_row [of ca b ra, simplified])
  next
    case False
    with Cons.prems have "n = distance_rows (length (ca # ra)) a b k (lev_row (ca # ra) b)"
      by (simp add: distance_row_row [of ca b ra, simplified])
    from Cons.IH [OF this] show ?thesis by simp
  qed
qed

definition no_script_within :: "string \<Rightarrow> string \<Rightarrow> nat \<Rightarrow> bool" where
  "no_script_within a b k \<longleftrightarrow> (\<forall>al. is_script a b al \<longrightarrow> k < script_cost al)"

text \<open>C29: The bounded edit distance is exact within its budget. When the returned number is within the budget
  it is the least cost of a script of replacements, insertions and deletions that turns one name into
  the other; otherwise no script is within the budget.\<close>

theorem edit_distance_correct:
  "if edit_distance a b k \<le> k then least_cost a b (edit_distance a b k) else no_script_within a b k"
proof -
  have "lev_row [] b = [0..<length b + 1]"
    by (rule nth_equalityI) (simp_all add: lev_row_def del: upt_Suc)
  then have row: "distance_rows (length []) a b k (lev_row [] b) = edit_distance a b k"
    by (simp add: edit_distance_def del: upt_Suc)
  have spec: "if edit_distance a b k \<le> k then edit_distance a b k = lev (rev a) (rev b) else k < lev (rev a) (rev b)"
    using distance_rows_spec [OF refl, of "[]" a b k] unfolding row by (simp only: append_Nil2)
  have least: "least_cost a b (lev (rev a) (rev b))"
    using lev_least_cost [of "rev a" "rev b"] by (simp add: least_cost_rev)
  show ?thesis
  proof (cases "edit_distance a b k \<le> k")
    case True
    with spec least show ?thesis by simp
  next
    case False
    with spec least show ?thesis by (auto simp: least_cost_def no_script_within_def)
  qed
qed

end
