(* ===== verification/File_Tools.thy ===== *)
theory File_Tools
  imports File_Text "HOL-Library.Product_Lexorder" "HOL-Library.List_Lexorder" "HOL-Library.Char_ord"
begin

text \<open>
  The file tools \<open>read\<close>, \<open>write\<close> and \<open>edit\<close> with the ledger they
  share, and the deliverables manifest: \<open>fs/mod.rs\<close>, \<open>fs/read.rs\<close>,
  \<open>fs/write.rs\<close>, \<open>fs/edit.rs\<close> and \<open>fs/present.rs\<close> of
  \<open>crates/capabilities/tools/src\<close>. The disk is a table of paths; every system call may fail as the
  environment says. Path resolution is a parameter here (see \<open>Path_Guard\<close>). Others may change the
  disk between the calls of a session and inside one, at every point where the call looks at the disk
  again: between the first look and the freshness check, before the file is loaded, before the
  overwrite, and between the overwrite and the look that records it. Only the staging file is nobody
  else's while it exists. The calls of one session come one after another.
\<close>

section \<open>The disk\<close>

type_synonym path = "string list"

text \<open>A file that is not UTF-8 keeps its length only.\<close>

datatype file_data = TextData string | BinaryData nat

fun data_len :: "file_data \<Rightarrow> nat" where
  "data_len (TextData s) = byte_len s"
| "data_len (BinaryData n) = n"

text \<open>A file carries its modification time, when the file system has them.\<close>

datatype fs_node = DirNode | FileNode file_data "nat option"

fun node_len :: "fs_node \<Rightarrow> nat" where
  "node_len DirNode = 0"
| "node_len (FileNode data _) = data_len data"

record disk =
  dk_nodes :: "(path, fs_node) tbl"
  dk_clock :: "nat option"
  dk_seq :: nat

datatype io_op = StatOp | FreshStatOp | RefreshStatOp | ReadOp | ListOp | MkdirOp | WriteOp | RenameOp | CleanupOp

datatype io_fault = Missing | IoError string

text \<open>The environment of one call: which system calls fail, what a failing write leaves in the staging
  file, the process id.\<close>

record io_env =
  ie_fault :: "io_op \<Rightarrow> io_fault option"
  ie_partial :: "file_data option"
  ie_pid :: nat

definition show_path :: "path \<Rightarrow> string" where
  "show_path p = ''/'' @ join ''/'' p"

definition stat :: "io_env \<Rightarrow> io_op \<Rightarrow> path \<Rightarrow> disk \<Rightarrow> (io_fault, fs_node) result" where
  "stat env call p d =
     (case ie_fault env call of
        Some e \<Rightarrow> Inl e
      | None \<Rightarrow> (case map_of (dk_nodes d) p of None \<Rightarrow> Inl Missing | Some n \<Rightarrow> Inr n))"

text \<open>What others do at the points of a call: they leave a file or a directory, with any time stamp,
  remove one, or the clock moves.\<close>

datatype moment = BeforeCheck | BeforeLoad | BeforeStore | BeforeRefresh

datatype outside = Leaves path fs_node | Removes path | ClockIs "nat option"

type_synonym meddling = "moment \<Rightarrow> outside list"

definition put_node :: "path \<Rightarrow> fs_node \<Rightarrow> disk \<Rightarrow> disk" where
  "put_node p n d = d\<lparr>dk_nodes := tbl_insert p n (dk_nodes d)\<rparr>"

definition drop_node :: "path \<Rightarrow> disk \<Rightarrow> disk" where
  "drop_node p d = d\<lparr>dk_nodes := tbl_remove p (dk_nodes d)\<rparr>"

fun meddle :: "outside \<Rightarrow> disk \<Rightarrow> disk" where
  "meddle (Leaves p n) d = put_node p n d"
| "meddle (Removes p) d = drop_node p d"
| "meddle (ClockIs t) d = d\<lparr>dk_clock := t\<rparr>"

definition disturbed :: "outside list \<Rightarrow> disk \<Rightarrow> disk" where
  "disturbed xs d = fold meddle xs d"

definition undisturbed :: meddling where
  "undisturbed = (\<lambda>_. [])"

text \<open>The bytes of a file.\<close>

definition load :: "io_env \<Rightarrow> path \<Rightarrow> disk \<Rightarrow> (io_fault, file_data) result" where
  "load env p d =
     (case ie_fault env ReadOp of
        Some e \<Rightarrow> Inl e
      | None \<Rightarrow>
          (case map_of (dk_nodes d) p of
             None \<Rightarrow> Inl Missing
           | Some DirNode \<Rightarrow> Inl (IoError ''Is a directory (os error 21)'')
           | Some (FileNode data _) \<Rightarrow> Inr data))"

fun fault_text :: "io_fault \<Rightarrow> string" where
  "fault_text Missing = ''No such file or directory (os error 2)''"
| "fault_text (IoError m) = m"

section \<open>Limits and outputs\<close>

definition MAX_LINES :: nat where
  "MAX_LINES = 2000"

definition MAX_BYTES :: nat where
  "MAX_BYTES = 50 * 1024"

definition MAX_READ_BYTES :: nat where
  "MAX_READ_BYTES = 4 * 1024 * 1024"

definition MAX_WRITE_BYTES :: nat where
  "MAX_WRITE_BYTES = 10 * 1024 * 1024"

text \<open>A tool's output: its text, and whether it is an error for the model. An \<open>Inl\<close> around it is an
  input or output failure of the implementation.\<close>

type_synonym tool_output = "string \<times> bool"

definition ok_output :: "string \<Rightarrow> tool_output" where
  "ok_output s = (s, False)"

definition err_output :: "string \<Rightarrow> tool_output" where
  "err_output s = (s, True)"

definition req_str :: "json \<Rightarrow> string \<Rightarrow> (tool_output, string) result" where
  "req_str input k =
     (case json_str_at k input of
        Some s \<Rightarrow> Inr s
      | None \<Rightarrow> Inl (err_output (''missing or invalid parameter '' @ [quote_char] @ k @ [quote_char] @ '' (string required)'')))"

definition opt_usize :: "json \<Rightarrow> string \<Rightarrow> (tool_output, nat option) result" where
  "opt_usize input k =
     (case json_get k input of
        None \<Rightarrow> Inr None
      | Some JNull \<Rightarrow> Inr None
      | Some v \<Rightarrow>
          (case json_as_u64 v of
             Some n \<Rightarrow> Inr (Some n)
           | None \<Rightarrow> Inl (err_output (''invalid parameter '' @ [quote_char] @ k @ [quote_char] @ '' (non-negative integer required)''))))"

text \<open>Outcomes of path resolution: a refusal for the model, or a failure.\<close>

datatype resolve_error = Refused string | ResolveIo string

definition resolve_path ::
    "(string \<Rightarrow> (resolve_error, path) result) \<Rightarrow> string \<Rightarrow> (string, (tool_output, path) result) result" where
  "resolve_path resolve s =
     (case resolve s of
        Inr p \<Rightarrow> Inr (Inr p)
      | Inl (Refused m) \<Rightarrow> Inr (Inl (err_output m))
      | Inl (ResolveIo m) \<Rightarrow> Inl m)"

section \<open>The ledger\<close>

text \<open>What the session last saw: modification time and length of each file.\<close>

type_synonym ledger = "(path, nat \<times> nat) tbl"

fun fingerprint :: "fs_node \<Rightarrow> (nat \<times> nat) option" where
  "fingerprint (FileNode data (Some mtime)) = Some (mtime, data_len data)"
| "fingerprint _ = None"

definition ledger_record :: "path \<Rightarrow> fs_node \<Rightarrow> ledger \<Rightarrow> ledger" where
  "ledger_record p n l = (case fingerprint n of Some fp \<Rightarrow> tbl_insert p fp l | None \<Rightarrow> l)"

definition ledger_refresh :: "io_env \<Rightarrow> path \<Rightarrow> disk \<Rightarrow> ledger \<Rightarrow> ledger" where
  "ledger_refresh env p d l = (case stat env RefreshStatOp p d of Inr n \<Rightarrow> ledger_record p n l | Inl _ \<Rightarrow> l)"

definition check_fresh :: "io_env \<Rightarrow> path \<Rightarrow> disk \<Rightarrow> ledger \<Rightarrow> tool_output option" where
  "check_fresh env p d l =
     (case map_of l p of
        None \<Rightarrow> None
      | Some expected \<Rightarrow>
          (case stat env FreshStatOp p d of
             Inl _ \<Rightarrow> None
           | Inr n \<Rightarrow>
               if fingerprint n = Some expected then None
               else Some (err_output (show_path p @ '' changed on disk since it was last read; re-read it before writing''))))"

section \<open>Atomic overwrite\<close>

definition staging_file :: "io_env \<Rightarrow> path \<Rightarrow> disk \<Rightarrow> path" where
  "staging_file env p d =
     butlast p @ [''.'' @ (if p = [] then ''file'' else last p) @ ''.'' @ show_nat (ie_pid env) @ ''.'' @ show_nat (dk_seq d) @ ''.tmp'']"

definition clean_up :: "io_env \<Rightarrow> path \<Rightarrow> disk \<Rightarrow> disk" where
  "clean_up env tmp d = (if ie_fault env CleanupOp = None then drop_node tmp d else d)"

definition atomic_write :: "io_env \<Rightarrow> path \<Rightarrow> string \<Rightarrow> disk \<Rightarrow> (string, unit) result \<times> disk" where
  "atomic_write env p content d =
     (let tmp = staging_file env p d; d1 = d\<lparr>dk_seq := dk_seq d + 1\<rparr>
      in case ie_fault env WriteOp of
           Some e \<Rightarrow>
             let d2 = (case ie_partial env of Some part \<Rightarrow> put_node tmp (FileNode part (dk_clock d)) d1 | None \<Rightarrow> d1)
             in (Inl (fault_text e), clean_up env tmp d2)
         | None \<Rightarrow>
             let n = FileNode (TextData content) (dk_clock d); d2 = put_node tmp n d1
             in case ie_fault env RenameOp of
                  Some e \<Rightarrow> (Inl (fault_text e), clean_up env tmp d2)
                | None \<Rightarrow> (Inr (), put_node p n (drop_node tmp d2)))"

text \<open>\<open>create_dir_all\<close>: the missing ancestors, outermost first.\<close>

fun make_dirs :: "path list \<Rightarrow> disk \<Rightarrow> (string, unit) result \<times> disk" where
  "make_dirs [] d = (Inr (), d)"
| "make_dirs (p # ps) d =
     (case map_of (dk_nodes d) p of
        Some DirNode \<Rightarrow> make_dirs ps d
      | Some (FileNode _ _) \<Rightarrow> (Inl ''File exists (os error 17)'', d)
      | None \<Rightarrow> make_dirs ps (put_node p DirNode d))"

definition ancestors :: "path \<Rightarrow> path list" where
  "ancestors p = map (\<lambda>n. take n p) [1..<length p]"

definition create_dir_all :: "io_env \<Rightarrow> path \<Rightarrow> disk \<Rightarrow> (string, unit) result \<times> disk" where
  "create_dir_all env p d =
     (case ie_fault env MkdirOp of Some e \<Rightarrow> (Inl (fault_text e), d) | None \<Rightarrow> make_dirs (ancestors p) d)"

section \<open>write\<close>

type_synonym file_session = "ledger \<times> disk"

text \<open>The overwrite, and the look at what is there then.\<close>

definition store_text ::
    "meddling \<Rightarrow> io_env \<Rightarrow> path \<Rightarrow> string \<Rightarrow> string \<Rightarrow> file_session \<Rightarrow> (string, tool_output) result \<times> file_session" where
  "store_text others env p content done_text s =
     (case s of (l, d) \<Rightarrow>
        (case atomic_write env p content (disturbed (others BeforeStore) d) of
           (Inl e, d') \<Rightarrow> (Inl e, (l, d'))
         | (Inr _, d') \<Rightarrow>
             let d'' = disturbed (others BeforeRefresh) d'
             in (Inr (ok_output done_text), (ledger_refresh env p d'' l, d''))))"

definition write_at ::
    "meddling \<Rightarrow> io_env \<Rightarrow> path \<Rightarrow> string \<Rightarrow> file_session \<Rightarrow> (string, tool_output) result \<times> file_session" where
  "write_at others env p content s =
     (case s of (l, d) \<Rightarrow>
        if (case stat env StatOp p d of Inr n \<Rightarrow> n = DirNode | Inl _ \<Rightarrow> False)
        then (Inr (err_output (''path is a directory, cannot write: '' @ show_path p)), s)
        else
          (case create_dir_all env p (disturbed (others BeforeCheck) d) of
             (Inl e, d') \<Rightarrow> (Inl e, (l, d'))
           | (Inr _, d') \<Rightarrow>
               (case check_fresh env p d' l of
                  Some out \<Rightarrow> (Inr out, (l, d'))
                | None \<Rightarrow>
                    store_text others env p content
                      (''wrote '' @ show_nat (byte_len content) @ '' bytes to '' @ show_path p) (l, d'))))"

definition write_execute ::
    "meddling \<Rightarrow> (string \<Rightarrow> (resolve_error, path) result) \<Rightarrow> io_env \<Rightarrow> json \<Rightarrow> file_session \<Rightarrow>
     (string, tool_output) result \<times> file_session" where
  "write_execute others resolve env input s =
     (case req_str input ''path'' of Inl out \<Rightarrow> (Inr out, s) | Inr raw \<Rightarrow>
     (case req_str input ''content'' of Inl out \<Rightarrow> (Inr out, s) | Inr content \<Rightarrow>
        if MAX_WRITE_BYTES < byte_len content
        then (Inr (err_output (''content too large ('' @ show_nat (byte_len content) @ '' bytes, max '' @
                show_nat MAX_WRITE_BYTES @ '')'')), s)
        else
          (case resolve_path resolve raw of
             Inl e \<Rightarrow> (Inl e, s)
           | Inr (Inl out) \<Rightarrow> (Inr out, s)
           | Inr (Inr p) \<Rightarrow> write_at others env p content s)))"

section \<open>edit\<close>

text \<open>What the text becomes, or why it does not change.\<close>

definition edited_text :: "path \<Rightarrow> nat \<Rightarrow> string \<Rightarrow> string \<Rightarrow> string \<Rightarrow> (tool_output, string \<times> string) result" where
  "edited_text p len s old new =
     (let m = count_matches old s
      in if m = 0 then
           (if FUZZY_MAX_BYTES < len
            then Inl (err_output (''old_string not found in '' @ show_path p @ '' (file too large for the fuzzy fallback)''))
            else
              (case fuzzy_line_replace s old new of
                 Replaced updated \<Rightarrow>
                   Inr (updated, ''replaced 1 occurrence in '' @ show_path p @
                     '' (fuzzy line match: whitespace-insensitive; retry with exact text to pin the match)'')
               | Ambiguous k \<Rightarrow>
                   Inl (err_output (''old_string is not unique in '' @ show_path p @
                     '' even whitespace-insensitively: '' @ show_nat k @ '' candidate blocks''))
               | NearMiss line percent \<Rightarrow>
                   Inl (err_output (''old_string not found in '' @ show_path p @ ''; closest line-block near line '' @
                     show_nat line @ '' ('' @ show_nat percent @
                     ''% of lines match after trimming whitespace) - read the exact text there and retry''))
               | NotFound \<Rightarrow> Inl (err_output (''old_string not found in '' @ show_path p))))
         else if m = 1 then Inr (replace_first old new s, ''replaced 1 occurrence in '' @ show_path p)
         else Inl (err_output (''old_string is not unique in '' @ show_path p @ '': '' @ show_nat m @ '' matches'')))"

definition edit_loaded ::
    "meddling \<Rightarrow> io_env \<Rightarrow> path \<Rightarrow> nat \<Rightarrow> string \<Rightarrow> string \<Rightarrow> file_session \<Rightarrow> (string, tool_output) result \<times> file_session" where
  "edit_loaded others env p len old new s =
     (case load env p (snd s) of
        Inl Missing \<Rightarrow> (Inr (err_output (''file not found: '' @ show_path p)), s)
      | Inl (IoError m) \<Rightarrow> (Inl m, s)
      | Inr (BinaryData _) \<Rightarrow> (Inr (err_output (''file is not valid UTF-8 (binary file?): '' @ show_path p)), s)
      | Inr (TextData content) \<Rightarrow>
          (case edited_text p len content old new of
             Inl out \<Rightarrow> (Inr out, s)
           | Inr (updated, done_text) \<Rightarrow> store_text others env p updated done_text s))"

definition edit_at ::
    "meddling \<Rightarrow> io_env \<Rightarrow> path \<Rightarrow> string \<Rightarrow> string \<Rightarrow> file_session \<Rightarrow> (string, tool_output) result \<times> file_session" where
  "edit_at others env p old new s =
     (case s of (l, d) \<Rightarrow>
        (case stat env StatOp p d of
           Inl Missing \<Rightarrow> (Inr (err_output (''file not found: '' @ show_path p)), s)
         | Inl (IoError m) \<Rightarrow> (Inl m, s)
         | Inr DirNode \<Rightarrow> (Inr (err_output (''path is a directory, cannot edit: '' @ show_path p)), s)
         | Inr (FileNode data mtime) \<Rightarrow>
             if MAX_READ_BYTES < data_len data
             then (Inr (err_output (''file too large ('' @ show_nat (data_len data) @ '' bytes), refusing to edit: '' @ show_path p)), s)
             else
               let d' = disturbed (others BeforeCheck) d
               in (case check_fresh env p d' l of
                     Some out \<Rightarrow> (Inr out, (l, d'))
                   | None \<Rightarrow> edit_loaded others env p (data_len data) old new (l, disturbed (others BeforeLoad) d'))))"

definition edit_execute ::
    "meddling \<Rightarrow> (string \<Rightarrow> (resolve_error, path) result) \<Rightarrow> io_env \<Rightarrow> json \<Rightarrow> file_session \<Rightarrow>
     (string, tool_output) result \<times> file_session" where
  "edit_execute others resolve env input s =
     (case req_str input ''path'' of Inl out \<Rightarrow> (Inr out, s) | Inr raw \<Rightarrow>
     (case req_str input ''old_string'' of Inl out \<Rightarrow> (Inr out, s) | Inr old \<Rightarrow>
     (case req_str input ''new_string'' of Inl out \<Rightarrow> (Inr out, s) | Inr new \<Rightarrow>
        if old = [] then (Inr (err_output ''old_string must not be empty''), s)
        else
          (case resolve_path resolve raw of
             Inl e \<Rightarrow> (Inl e, s)
           | Inr (Inl out) \<Rightarrow> (Inr out, s)
           | Inr (Inr p) \<Rightarrow> edit_at others env p old new s))))"

section \<open>read\<close>

definition SUGGEST_SCAN_CAP :: nat where
  "SUGGEST_SCAN_CAP = 1000"

definition SUGGESTION_COUNT :: nat where
  "SUGGESTION_COUNT = 3"

definition siblings :: "path \<Rightarrow> disk \<Rightarrow> string list" where
  "siblings p d = map last (filter (\<lambda>q. q \<noteq> [] \<and> butlast q = butlast p) (tbl_keys (dk_nodes d)))"

text \<open>Names of the directory within a small edit distance of the missing one.\<close>

definition suggestion :: "string \<Rightarrow> string \<Rightarrow> (nat \<times> string) option" where
  "suggestion file_name entry =
     (let budget = min 4 (max 1 (byte_len file_name div 3)); lowered = to_lower file_name; lowered_name = to_lower entry;
          gap = max (length lowered_name) (length lowered) - min (length lowered_name) (length lowered)
      in if entry = file_name \<or> budget < gap then None
         else let distance = edit_distance lowered lowered_name budget
              in if distance \<le> budget then Some (distance, entry) else None)"

definition missing_file_message :: "io_env \<Rightarrow> path \<Rightarrow> disk \<Rightarrow> string" where
  "missing_file_message env p d =
     (let message = ''file not found: '' @ show_path p
      in if p = [] \<or> ie_fault env ListOp \<noteq> None \<or> (butlast p \<noteq> [] \<and> map_of (dk_nodes d) (butlast p) \<noteq> Some DirNode)
         then message
         else
           let candidates = List.map_filter (suggestion (last p)) (take SUGGEST_SCAN_CAP (siblings p d))
           in if candidates = [] then message
              else message @ ''; did you mean: '' @
                   join '', '' (map snd (take SUGGESTION_COUNT (remdups_adj (sort candidates)))) @ ''?'')"

text \<open>A signed integer parameter; \<open>-0\<close> is a float to the JSON library.\<close>

fun json_as_i64 :: "json \<Rightarrow> int option" where
  "json_as_i64 (JNum t) =
     (case t of
        c # ds \<Rightarrow>
          if c = CHR ''-''
          then (case parse_uint (2 ^ 63) ds of Some n \<Rightarrow> if n = 0 then None else Some (- int n) | None \<Rightarrow> None)
          else map_option int (parse_uint (2 ^ 63 - 1) t)
      | [] \<Rightarrow> None)"
| "json_as_i64 _ = None"

definition opt_offset :: "json \<Rightarrow> string \<Rightarrow> (tool_output, int option) result" where
  "opt_offset input k =
     (case json_get k input of
        None \<Rightarrow> Inr None
      | Some JNull \<Rightarrow> Inr None
      | Some v \<Rightarrow>
          (case json_as_i64 v of
             Some n \<Rightarrow> Inr (Some n)
           | None \<Rightarrow> Inl (err_output (''invalid parameter '' @ [quote_char] @ k @ [quote_char] @ '' (integer required)''))))"

text \<open>\<open>truncate\<close> at the last character boundary within the cap.\<close>

fun byte_take :: "nat \<Rightarrow> string \<Rightarrow> string" where
  "byte_take n [] = []"
| "byte_take n (c # cs) = (if byte_len [c] \<le> n then c # byte_take (n - byte_len [c]) cs else [])"

text \<open>The lines shown: the first one's index and the end, or the refusal.\<close>

definition read_window :: "int \<Rightarrow> nat \<Rightarrow> nat \<Rightarrow> (tool_output, nat \<times> nat) result" where
  "read_window raw_offset limit count =
     (let tail = raw_offset < 0; offset = nat \<bar>raw_offset\<bar>
      in if \<not> tail \<and> 0 < offset \<and> count \<le> offset
         then Inl (err_output (''offset '' @ show_nat offset @ '' is beyond end of file ('' @ show_nat count @ '' lines)''))
         else let start = (if tail then count - offset else offset)
              in Inr (start, min (sat_add 64 start limit) count))"

definition read_slice :: "string \<Rightarrow> bool \<Rightarrow> nat \<Rightarrow> nat \<Rightarrow> string" where
  "read_slice s tail start end_line =
     (if \<not> tail \<and> start = 0 \<and> end_line = length (str_lines s) then s
      else join [newline] (take (end_line - start) (drop start (str_lines s))))"

definition read_output :: "string \<Rightarrow> bool \<Rightarrow> nat \<Rightarrow> nat \<Rightarrow> string" where
  "read_output s tail start end_line =
     (let count = length (str_lines s);
          body = read_slice s tail start end_line;
          content = (if tail \<and> 0 < start
                     then ''[showing lines '' @ show_nat (start + 1) @ ''-'' @ show_nat end_line @ '' of '' @ show_nat count @ '']'' @
                          [newline] @ body
                     else body);
          truncated = (\<not> tail \<and> end_line < count) \<or> MAX_BYTES < byte_len content;
          kept = (if MAX_BYTES < byte_len content then byte_take MAX_BYTES content else content)
      in if truncated then kept @ [newline] @ ''[truncated]'' else kept)"

definition read_text :: "json \<Rightarrow> string \<Rightarrow> (tool_output, string) result" where
  "read_text input s =
     (case opt_offset input ''offset'' of
        Inl out \<Rightarrow> Inl out
      | Inr raw \<Rightarrow>
          (case opt_usize input ''limit'' of
             Inl out \<Rightarrow> Inl out
           | Inr l \<Rightarrow>
               let raw_offset = (case raw of Some i \<Rightarrow> i | None \<Rightarrow> 0); limit = (case l of Some n \<Rightarrow> n | None \<Rightarrow> MAX_LINES)
               in if limit = 0 then Inl (err_output (''invalid parameter '' @ [quote_char] @ ''limit'' @ [quote_char] @ '' (must be >= 1)''))
                  else (case read_window raw_offset (min limit MAX_LINES) (length (str_lines s)) of
                          Inl out \<Rightarrow> Inl out
                        | Inr (start, end_line) \<Rightarrow> Inr (read_output s (raw_offset < 0) start end_line))))"

text \<open>The ledger gets the metadata of the first look, the model the bytes of the second.\<close>

definition read_loaded ::
    "io_env \<Rightarrow> path \<Rightarrow> fs_node \<Rightarrow> json \<Rightarrow> file_session \<Rightarrow> (string, tool_output) result \<times> file_session" where
  "read_loaded env p meta input s =
     (case load env p (snd s) of
        Inl Missing \<Rightarrow> (Inr (err_output (missing_file_message env p (snd s))), s)
      | Inl (IoError m) \<Rightarrow> (Inl m, s)
      | Inr (BinaryData _) \<Rightarrow> (Inr (err_output (''file is not valid UTF-8 (binary file?): '' @ show_path p)), s)
      | Inr (TextData content) \<Rightarrow>
          (case read_text input content of
             Inl out \<Rightarrow> (Inr out, s)
           | Inr shown \<Rightarrow> (Inr (ok_output shown), (ledger_record p meta (fst s), snd s))))"

definition read_at ::
    "meddling \<Rightarrow> io_env \<Rightarrow> path \<Rightarrow> json \<Rightarrow> file_session \<Rightarrow> (string, tool_output) result \<times> file_session" where
  "read_at others env p input s =
     (case s of (l, d) \<Rightarrow>
        (case stat env StatOp p d of
           Inl Missing \<Rightarrow> (Inr (err_output (missing_file_message env p d)), s)
         | Inl (IoError m) \<Rightarrow> (Inl m, s)
         | Inr DirNode \<Rightarrow>
             (Inr (err_output (''path is a directory, use glob (pattern '' @ [CHR 0x22] @ (if p = [] then ''.'' else last p) @ ''/*'' @
                [CHR 0x22] @ '') or the shell to list it: '' @ show_path p)), s)
         | Inr (FileNode data mtime) \<Rightarrow>
             if MAX_READ_BYTES < data_len data
             then (Inr (err_output (''file too large ('' @ show_nat (data_len data) @
                     '' bytes), use offset/limit to read parts: '' @ show_path p)), s)
             else read_loaded env p (FileNode data mtime) input (l, disturbed (others BeforeLoad) d)))"

definition read_execute ::
    "meddling \<Rightarrow> (string \<Rightarrow> (resolve_error, path) result) \<Rightarrow> io_env \<Rightarrow> json \<Rightarrow> file_session \<Rightarrow>
     (string, tool_output) result \<times> file_session" where
  "read_execute others resolve env input s =
     (case req_str input ''path'' of Inl out \<Rightarrow> (Inr out, s) | Inr raw \<Rightarrow>
     (case resolve_path resolve raw of
        Inl e \<Rightarrow> (Inl e, s)
      | Inr (Inl out) \<Rightarrow> (Inr out, s)
      | Inr (Inr p) \<Rightarrow> read_at others env p input s))"

section \<open>present\<close>

definition present_record :: "string list \<Rightarrow> string list \<Rightarrow> string list" where
  "present_record new store = fold (\<lambda>p ps. if p \<in> set ps then ps else ps @ [p]) new store"

definition present_manifest :: "string list \<Rightarrow> string" where
  "present_manifest ps =
     ''Presented '' @ show_nat (length ps) @ '' deliverable(s):'' @ concat (map (\<lambda>p. [newline] @ ''- '' @ p) ps)"

fun resolve_all ::
    "(string \<Rightarrow> (resolve_error, path) result) \<Rightarrow> json list \<Rightarrow> (string, (tool_output, string list) result) result" where
  "resolve_all resolve [] = Inr (Inr [])"
| "resolve_all resolve (raw # rest) =
     (case json_as_str raw of
        None \<Rightarrow> Inr (Inl (err_output (''invalid parameter '' @ [quote_char] @ ''paths'' @ [quote_char] @ '' (every entry must be a string)'')))
      | Some s \<Rightarrow>
          (case resolve_path resolve s of
             Inl e \<Rightarrow> Inl e
           | Inr (Inl out) \<Rightarrow> Inr (Inl out)
           | Inr (Inr p) \<Rightarrow>
               (case resolve_all resolve rest of
                  Inr (Inr ps) \<Rightarrow> Inr (Inr (show_path p # ps))
                | r \<Rightarrow> r)))"

definition present_execute ::
    "(string \<Rightarrow> (resolve_error, path) result) \<Rightarrow> json \<Rightarrow> string list \<Rightarrow> (string, tool_output) result \<times> string list" where
  "present_execute resolve input store =
     (case json_get ''paths'' input of
        Some (JArr []) \<Rightarrow> (Inr (err_output ''no paths presented (at least one path required)''), store)
      | Some (JArr paths) \<Rightarrow>
          (case resolve_all resolve paths of
             Inl e \<Rightarrow> (Inl e, store)
           | Inr (Inl out) \<Rightarrow> (Inr out, store)
           | Inr (Inr resolved) \<Rightarrow>
               let store' = present_record resolved store in (Inr (ok_output (present_manifest store')), store'))
      | _ \<Rightarrow> (Inr (err_output (''missing or invalid parameter '' @ [quote_char] @ ''paths'' @ [quote_char] @ '' (array of strings required)'')), store))"

section \<open>What a call does to the files\<close>

definition data_at :: "disk \<Rightarrow> path \<Rightarrow> file_data option" where
  "data_at d p = (case map_of (dk_nodes d) p of Some (FileNode data _) \<Rightarrow> Some data | _ \<Rightarrow> None)"

text \<open>Two disks hold the same files but for the paths of a list.\<close>

definition same_files :: "path list \<Rightarrow> disk \<Rightarrow> disk \<Rightarrow> bool" where
  "same_files ps d d' \<longleftrightarrow> (\<forall>q. q \<notin> set ps \<longrightarrow> data_at d' q = data_at d q)"

lemma same_files_refl [simp]: "same_files ps d d"
  by (simp add: same_files_def)

lemma put_node_simps [simp]:
  "map_of (dk_nodes (put_node p n d)) = (map_of (dk_nodes d))(p \<mapsto> n)"
  "dk_clock (put_node p n d) = dk_clock d" "dk_seq (put_node p n d) = dk_seq d"
  by (simp_all add: put_node_def)

lemma drop_node_simps [simp]:
  "map_of (dk_nodes (drop_node p d)) = (map_of (dk_nodes d))(p := None)"
  "dk_clock (drop_node p d) = dk_clock d" "dk_seq (drop_node p d) = dk_seq d"
  by (simp_all add: drop_node_def)

lemma clean_up_simps [simp]:
  "map_of (dk_nodes (clean_up env tmp d)) =
     (if ie_fault env CleanupOp = None then (map_of (dk_nodes d))(tmp := None) else map_of (dk_nodes d))"
  "dk_clock (clean_up env tmp d) = dk_clock d"
  by (simp_all add: clean_up_def)

lemma atomic_write_ok:
  assumes "atomic_write env p content d = (Inr (), d')"
  shows "map_of (dk_nodes d') = (map_of (dk_nodes d))(staging_file env p d := None, p \<mapsto> FileNode (TextData content) (dk_clock d))"
    and "dk_clock d' = dk_clock d"
  using assms by (auto simp: atomic_write_def Let_def split: option.splits)

text \<open>A failing overwrite touches the staging file only; the staging file that may stay carries the
  present time.\<close>

lemma atomic_write_fails:
  assumes "atomic_write env p content d = (Inl e, d')"
  shows "q \<noteq> staging_file env p d \<Longrightarrow> map_of (dk_nodes d') q = map_of (dk_nodes d) q"
    and "dk_clock d' = dk_clock d"
    and "ie_fault env CleanupOp = None \<Longrightarrow> map_of (dk_nodes d') (staging_file env p d) = None"
    and "map_of (dk_nodes d') q = map_of (dk_nodes d) q \<or> map_of (dk_nodes d') q = None \<or>
           (\<exists>data. map_of (dk_nodes d') q = Some (FileNode data (dk_clock d)))"
  using assms by (auto simp: atomic_write_def Let_def split: option.splits if_splits)

lemma staging_file_other: "staging_file env p d \<noteq> p"
proof (cases "p = []")
  case False
  have "length (last (staging_file env p d)) > length (last p)" using False by (simp add: staging_file_def)
  then show ?thesis by fastforce
qed (simp add: staging_file_def)

lemma make_dirs_nodes:
  "make_dirs ps d = (r, d') \<Longrightarrow>
   (map_of (dk_nodes d') q = map_of (dk_nodes d) q \<or> (map_of (dk_nodes d) q = None \<and> map_of (dk_nodes d') q = Some DirNode)) \<and>
   dk_clock d' = dk_clock d \<and> dk_seq d' = dk_seq d"
proof (induction ps arbitrary: d)
  case (Cons x xs)
  show ?case
  proof (cases "map_of (dk_nodes d) x")
    case none: None
    with Cons.prems have "make_dirs xs (put_node x DirNode d) = (r, d')" by simp
    from Cons.IH [OF this] none show ?thesis by (auto split: if_splits)
  next
    case (Some n)
    with Cons show ?thesis by (cases n) auto
  qed
qed simp

lemma create_dir_all_nodes:
  "create_dir_all env p d = (r, d') \<Longrightarrow>
   (map_of (dk_nodes d') q = map_of (dk_nodes d) q \<or> (map_of (dk_nodes d) q = None \<and> map_of (dk_nodes d') q = Some DirNode)) \<and>
   dk_clock d' = dk_clock d \<and> dk_seq d' = dk_seq d"
  by (auto simp: create_dir_all_def make_dirs_nodes split: option.splits)

lemma create_dir_all_data: "create_dir_all env p d = (r, d') \<Longrightarrow> data_at d' q = data_at d q"
  using create_dir_all_nodes [of env p d r d' q] by (auto simp: data_at_def)

lemma disturbed_nil [simp]: "disturbed [] d = d"
  by (simp add: disturbed_def)

lemma undisturbed_nil [simp]: "undisturbed x = []"
  by (simp add: undisturbed_def)

lemma store_text_Inr:
  "store_text others env p content m (l, d) = (Inr out, (l', d')) \<longleftrightarrow>
   (\<exists>d1. atomic_write env p content (disturbed (others BeforeStore) d) = (Inr (), d1) \<and> out = (m, False) \<and>
         d' = disturbed (others BeforeRefresh) d1 \<and> l' = ledger_refresh env p d' l)"
  by (auto simp: store_text_def ok_output_def Let_def split: prod.splits sum.splits)

lemma store_text_ok:
  assumes "store_text undisturbed env p content m (l, d) = (Inr out, (l', d'))"
  shows "out = (m, False)" and "data_at d' p = Some (TextData content)" and "same_files [p, staging_file env p d] d d'"
    and "data_at d' (staging_file env p d) = None"
  using assms atomic_write_ok(1) [of env p content d d'] staging_file_other [of env p d]
  by (auto simp: store_text_Inr data_at_def same_files_def)

lemma store_text_fails:
  assumes "store_text undisturbed env p content m (l, d) = (Inl e, (l', d'))"
  shows "same_files [staging_file env p d] d d'" and "l' = l"
  using assms
  by (auto simp: store_text_def data_at_def same_files_def atomic_write_fails Let_def split: prod.splits sum.splits)

section \<open>An edit changes one place\<close>

text \<open>One occurrence of the old string, the only one the scan finds, becomes the new string; or the only
  block of lines equal to it up to outer white space is replaced, every other line kept.\<close>

definition edited_once :: "string \<Rightarrow> string \<Rightarrow> string \<Rightarrow> string \<Rightarrow> bool" where
  "edited_once s old new u \<longleftrightarrow>
     (\<exists>pre post. s = pre @ old @ post \<and> u = pre @ new @ post \<and> \<not> contains post old \<and> find_str old s = Some (length pre)) \<or>
     (let ls = split_inclusive s; n = length (split_inclusive old)
      in \<not> contains s old \<and>
         (case block_starts s old of
            [k] \<Rightarrow> split_inclusive u = take k ls @ split_inclusive (fuzzy_replacement ls k n new) @ drop (k + n) ls
          | _ \<Rightarrow> False))"

lemma edited_text_once:
  assumes "edited_text p len s old new = Inr (u, m)" and "old \<noteq> []"
  shows "edited_once s old new u"
proof (cases "count_matches old s = 0")
  case True
  then have "\<not> contains s old" using assms(2) by (simp add: count_matches_0 contains_def)
  moreover have "fuzzy_line_replace s old new = Replaced u"
    using assms True by (auto simp: edited_text_def split: fuzzy_outcome.splits if_splits)
  ultimately show ?thesis
    using fuzzy_line_replace_exact [of old s new] assms(2) by (simp add: edited_once_def Let_def split: list.splits)
next
  case False
  then have "count_matches old s = 1" "u = replace_first old new s"
    using assms by (auto simp: edited_text_def Let_def split: if_splits)
  with count_matches_1 [of old s new] assms(2) show ?thesis by (auto simp: edited_once_def contains_def)
qed

lemma edited_text_refuses: "edited_text p len s old new = Inl out \<Longrightarrow> snd out"
  by (auto simp: edited_text_def Let_def err_output_def split: if_splits fuzzy_outcome.splits)

lemma check_fresh_refuses: "check_fresh env p d l = Some out \<Longrightarrow> snd out"
  by (auto simp: check_fresh_def err_output_def split: option.splits sum.splits if_splits)

text \<open>A call that mutates reaches the overwrite with the ledger's consent; every other ends where it got to.\<close>

lemma load_data: "load env p d = Inr data \<Longrightarrow> data_at d p = Some data"
  by (auto simp: load_def data_at_def split: option.splits fs_node.splits)

lemma edit_loaded_cases:
  assumes "edit_loaded others env p len old new (l, d) = (r, s')" and "old \<noteq> []"
  obtains (quiet) "s' = (l, d)" and "case r of Inr (_, err) \<Rightarrow> err | Inl _ \<Rightarrow> True"
  | (stored) s u m where "data_at d p = Some (TextData s)" and "edited_once s old new u"
      and "store_text others env p u m (l, d) = (r, s')"
proof (cases "load env p d")
  case (Inl e)
  then show ?thesis using quiet assms(1) by (cases e) (auto simp: edit_loaded_def err_output_def)
next
  case (Inr data)
  show ?thesis
  proof (cases data)
    case (BinaryData k)
    then show ?thesis using quiet assms(1) Inr by (auto simp: edit_loaded_def err_output_def)
  next
    case (TextData s)
    show ?thesis
    proof (cases "edited_text p len s old new")
      case (Inl out)
      then show ?thesis
        using quiet assms(1) TextData edited_text_refuses [OF Inl] \<open>load env p d = Inr data\<close>
        by (auto simp: edit_loaded_def split_beta)
    next
      case (Inr um)
      then obtain u m where um: "um = (u, m)" by (cases um)
      then show ?thesis
        using stored [of s u m] assms Inr TextData load_data [OF \<open>load env p d = Inr data\<close>] \<open>load env p d = Inr data\<close>
          edited_text_once [of p len s old new u m]
        by (auto simp: edit_loaded_def)
    qed
  qed
qed

lemma edit_at_cases:
  fixes others d
  defines "d1 \<equiv> disturbed (others BeforeCheck) d"
  defines "d2 \<equiv> disturbed (others BeforeLoad) d1"
  assumes "edit_at others env p old new (l, d) = (r, s')" and "old \<noteq> []"
  obtains (quiet) d' where "s' = (l, d')" and "d' \<in> {d, d1, d2}" and "case r of Inr (_, err) \<Rightarrow> err | Inl _ \<Rightarrow> True"
  | (stored) s u m where "data_at d2 p = Some (TextData s)" and "edited_once s old new u"
      and "check_fresh env p d1 l = None" and "store_text others env p u m (l, d2) = (r, s')"
proof (cases "stat env StatOp p d")
  case (Inl e)
  then show ?thesis using quiet [of d] assms(3) by (cases e) (auto simp: edit_at_def err_output_def)
next
  case (Inr n)
  show ?thesis
  proof (cases n)
    case DirNode
    then show ?thesis using quiet [of d] assms(3) Inr by (auto simp: edit_at_def err_output_def)
  next
    case (FileNode data t)
    show ?thesis
    proof (cases "data_len data \<le> MAX_READ_BYTES \<and> check_fresh env p d1 l = None")
      case False
      then show ?thesis
        using quiet [of d] quiet [of d1] assms(3) Inr FileNode
        by (auto simp: edit_at_def err_output_def Let_def d1_def [symmetric] dest: check_fresh_refuses split: if_splits option.splits)
    next
      case True
      then have "edit_loaded others env p (data_len data) old new (l, d2) = (r, s')"
        using assms(3) Inr FileNode by (simp add: edit_at_def Let_def d1_def [symmetric] d2_def)
      from this assms(4) show ?thesis
        by (cases rule: edit_loaded_cases) (use quiet [of d2] stored True in auto)
    qed
  qed
qed

text \<open>C26: An edit changes one place of one file or nothing. When the call succeeds, the file at the
  resolved path held text, and now holds it with one occurrence of the old string replaced (none left
  behind it, none before it) or with the one line block that equals it up to outer white space replaced;
  no other file differs, the staging file is gone. A refusal changes nothing at all; a failure leaves every
  file but the staging file as it was, and the ledger. This is what the call does by itself, with nobody
  else at the disk meanwhile.\<close>

theorem edit_changes_one_place:
  "case edit_execute undisturbed resolve env input (l, d) of
     (Inr (_, False), (l', d')) \<Rightarrow>
       (case (json_str_at ''path'' input, json_str_at ''old_string'' input, json_str_at ''new_string'' input) of
          (Some raw, Some old, Some new) \<Rightarrow>
            (case resolve raw of
               Inr p \<Rightarrow>
                 (case (data_at d p, data_at d' p) of
                    (Some (TextData s), Some (TextData u)) \<Rightarrow>
                      edited_once s old new u \<and> same_files [p, staging_file env p d] d d' \<and> data_at d' (staging_file env p d) = None
                  | _ \<Rightarrow> False)
             | Inl _ \<Rightarrow> False)
        | _ \<Rightarrow> False)
   | (Inr (_, True), s') \<Rightarrow> s' = (l, d)
   | (Inl _, (l', d')) \<Rightarrow> l' = l \<and> (\<exists>p. same_files [staging_file env p d] d d')"
proof -
  have at: "case edit_at undisturbed env p old new (l, d) of
     (Inr (_, False), (l', d')) \<Rightarrow>
       (case (data_at d p, data_at d' p) of
          (Some (TextData s), Some (TextData u)) \<Rightarrow>
            edited_once s old new u \<and> same_files [p, staging_file env p d] d d' \<and> data_at d' (staging_file env p d) = None
        | _ \<Rightarrow> False)
   | (Inr (_, True), s') \<Rightarrow> s' = (l, d)
   | (Inl _, (l', d')) \<Rightarrow> l' = l \<and> (\<exists>p. same_files [staging_file env p d] d d')" if "old \<noteq> []" for p old new
  proof -
    obtain r l' d' where r: "edit_at undisturbed env p old new (l, d) = (r, (l', d'))" by (metis prod.exhaust)
    then show ?thesis using that
    proof (cases rule: edit_at_cases)
      case quiet
      with r show ?thesis by (auto split: sum.splits prod.splits bool.splits)
    next
      case (stored s u m)
      then have stored: "data_at d p = Some (TextData s)" "edited_once s old new u"
        "store_text undisturbed env p u m (l, d) = (r, (l', d'))" by simp_all
      show ?thesis
      proof (cases r)
        case (Inl e)
        with stored(3) r store_text_fails [of env p u m l d e l' d'] show ?thesis by auto
      next
        case (Inr out)
        with stored r store_text_ok [of env p u m l d out l' d'] show ?thesis by simp
      qed
    qed
  qed
  show ?thesis
  proof (cases "\<exists>raw old new p. json_str_at ''path'' input = Some raw \<and> json_str_at ''old_string'' input = Some old \<and>
                  json_str_at ''new_string'' input = Some new \<and> old \<noteq> [] \<and> resolve raw = Inr p")
    case True
    then obtain raw old new p where args: "json_str_at ''path'' input = Some raw" "json_str_at ''old_string'' input = Some old"
      "json_str_at ''new_string'' input = Some new" "old \<noteq> []" "resolve raw = Inr p" by blast
    then have eq: "edit_execute undisturbed resolve env input (l, d) = edit_at undisturbed env p old new (l, d)"
      by (simp add: edit_execute_def req_str_def resolve_path_def)
    show ?thesis
      using at [OF args(4), where p = p and new = new] unfolding eq args option.case prod.case sum.case .
  next
    case False
    then have "edit_execute undisturbed resolve env input (l, d) = (fst (edit_execute undisturbed resolve env input (l, d)), (l, d)) \<and>
        (case fst (edit_execute undisturbed resolve env input (l, d)) of Inr (_, err) \<Rightarrow> err | Inl _ \<Rightarrow> True)"
      by (auto simp: edit_execute_def req_str_def resolve_path_def err_output_def
          split: option.split sum.split resolve_error.split)
    then obtain r where "edit_execute undisturbed resolve env input (l, d) = (r, (l, d))" "case r of Inr (_, err) \<Rightarrow> err | Inl _ \<Rightarrow> True"
      by blast
    then show ?thesis by (auto split: sum.splits prod.splits bool.splits)
  qed
qed

section \<open>A session never writes over what it has not seen\<close>

text \<open>The calls of a session with what others do between and inside them. The view is a ghost: for each
  path what the session was last shown there or left there, the file its ledger entry was taken from,
  and whether the path is loose, that is whether others left there a file that looks like that one
  (same time, same length), or changed it between an overwrite by the session and the look that
  records it, or the session used it for staging. The next read or overwrite of the path ends that.\<close>

record file_view =
  fv_shown :: "path \<Rightarrow> file_data option"
  fv_node :: "path \<Rightarrow> fs_node option"
  fv_loose :: "path \<Rightarrow> bool"

datatype file_event =
    FileRead meddling io_env path json
  | FileWrite meddling io_env path string
  | FileEdit meddling io_env path string string
  | Outside "outside list"

type_synonym file_run = "file_session \<times> file_view"

fun looks_like :: "fs_node \<Rightarrow> fs_node \<Rightarrow> bool" where
  "looks_like (FileNode a (Some m)) (FileNode b (Some n)) \<longleftrightarrow> m = n \<and> data_len a = data_len b"
| "looks_like _ _ = False"

fun timed :: "fs_node option \<Rightarrow> bool" where
  "timed (Some (FileNode data (Some m))) = True"
| "timed _ = False"

fun touches :: "path \<Rightarrow> outside \<Rightarrow> bool" where
  "touches q (Leaves p n) = (p = q)"
| "touches q (Removes p) = (p = q)"
| "touches q (ClockIs t) = False"

fun disguised :: "file_view \<Rightarrow> path \<Rightarrow> outside \<Rightarrow> bool" where
  "disguised v q (Leaves p n) = (p = q \<and> (case fv_node v q of Some k \<Rightarrow> looks_like k n | None \<Rightarrow> False))"
| "disguised v q _ = False"

definition note_outside :: "outside list \<Rightarrow> file_view \<Rightarrow> file_view" where
  "note_outside xs v = v\<lparr>fv_loose := (\<lambda>q. fv_loose v q \<or> list_ex (disguised v q) xs)\<rparr>"

definition succeeded :: "(string, tool_output) result \<Rightarrow> bool" where
  "succeeded r = (case r of Inr (_, err) \<Rightarrow> \<not> err | Inl _ \<Rightarrow> False)"

definition note_read ::
    "meddling \<Rightarrow> path \<Rightarrow> file_session \<Rightarrow> (string, tool_output) result \<times> file_session \<Rightarrow> file_view \<Rightarrow> file_run" where
  "note_read others p s rs v =
     (case rs of (r, s') \<Rightarrow>
        let v1 = note_outside (others BeforeLoad) v; meta = map_of (dk_nodes (snd s)) p
        in (s', if succeeded r
                then v1\<lparr>fv_shown := (fv_shown v)(p := data_at (snd s') p), fv_loose := (fv_loose v1)(p := False),
                        fv_node := (if timed meta then (fv_node v)(p := meta) else fv_node v)\<rparr>
                else v1))"

definition note_store ::
    "meddling \<Rightarrow> io_env \<Rightarrow> path \<Rightarrow> file_session \<Rightarrow> (string, tool_output) result \<times> file_session \<Rightarrow> file_view \<Rightarrow> file_run" where
  "note_store others env p s rs v =
     (case rs of (r, s') \<Rightarrow>
        let v1 = note_outside (others BeforeCheck @ others BeforeLoad @ others BeforeStore @ others BeforeRefresh) v;
            v2 = v1\<lparr>fv_loose := (fv_loose v1)(staging_file env p (snd s) := True)\<rparr>;
            late = list_ex (touches p) (others BeforeRefresh);
            there = map_of (dk_nodes (snd s')) p
        in (s', if succeeded r
                then v2\<lparr>fv_shown := (fv_shown v)(p := (if late then None else data_at (snd s') p)),
                        fv_loose := (fv_loose v2)(p := late),
                        fv_node := (if ie_fault env RefreshStatOp = None \<and> timed there then (fv_node v)(p := there)
                                    else fv_node v)\<rparr>
                else v2))"

fun file_step :: "file_event \<Rightarrow> file_run \<Rightarrow> file_run" where
  "file_step (FileRead others env p input) (s, v) = note_read others p s (read_at others env p input s) v"
| "file_step (FileWrite others env p content) (s, v) = note_store others env p s (write_at others env p content s) v"
| "file_step (FileEdit others env p old new) (s, v) =
     (if old = [] then (s, v) else note_store others env p s (edit_at others env p old new s) v)"
| "file_step (Outside xs) ((l, d), v) = ((l, disturbed xs d), note_outside xs v)"

text \<open>Every entry of the ledger is the fingerprint of the file of the view; and a file that still has it
  holds what the session saw, but for loose paths.\<close>

definition recorded_ok :: "ledger \<Rightarrow> file_view \<Rightarrow> bool" where
  "recorded_ok l v \<longleftrightarrow>
     (\<forall>q fp. map_of l q = Some fp \<longrightarrow> (\<exists>n. fv_node v q = Some n \<and> fingerprint n = Some fp))"

definition known_at :: "ledger \<Rightarrow> file_view \<Rightarrow> disk \<Rightarrow> path \<Rightarrow> bool" where
  "known_at l v d q \<longleftrightarrow>
     (case map_of (dk_nodes d) q of
        Some n \<Rightarrow>
          (case fingerprint n of
             Some fp \<Rightarrow> if map_of l q = Some fp then fv_loose v q \<or> fv_shown v q = data_at d q else True
           | None \<Rightarrow> True)
      | None \<Rightarrow> True)"

definition seen_ok :: "file_run \<Rightarrow> bool" where
  "seen_ok w = (case w of ((l, d), v) \<Rightarrow> recorded_ok l v \<and> (\<forall>q. known_at l v d q))"

lemma fingerprint_Some: "fingerprint n = Some fp \<longleftrightarrow> (\<exists>data m. n = FileNode data (Some m) \<and> fp = (m, data_len data))"
  by (cases n; cases "case n of FileNode _ t \<Rightarrow> t | _ \<Rightarrow> None") auto

lemma timed_fingerprint: "timed (Some n) \<longleftrightarrow> fingerprint n \<noteq> None"
  by (cases "Some n" rule: timed.cases) auto

lemma looks_like_fingerprint: "looks_like k n \<longleftrightarrow> fingerprint k \<noteq> None \<and> fingerprint k = fingerprint n"
  by (cases "(k, n)" rule: looks_like.cases) auto

lemma disturbed_Cons: "disturbed (x # xs) d = disturbed xs (meddle x d)"
  by (simp add: disturbed_def)

lemma disturbed_append: "disturbed (xs @ ys) d = disturbed ys (disturbed xs d)"
  by (simp add: disturbed_def)

lemma disturbed_seq [simp]: "dk_seq (disturbed xs d) = dk_seq d"
proof (induction xs arbitrary: d)
  case (Cons x xs)
  then show ?case by (cases x) (simp_all add: disturbed_Cons put_node_def drop_node_def)
qed simp

text \<open>What others leave at a path they did not touch, touched, or disguised.\<close>

lemma disturbed_node:
  "map_of (dk_nodes (disturbed xs d)) q = map_of (dk_nodes d) q \<or> map_of (dk_nodes (disturbed xs d)) q = None \<or>
   (\<exists>n. Leaves q n \<in> set xs \<and> map_of (dk_nodes (disturbed xs d)) q = Some n)"
proof (induction xs arbitrary: d)
  case (Cons x xs)
  show ?case
    using Cons.IH [of "meddle x d"] by (cases x) (auto simp: disturbed_Cons put_node_def drop_node_def split: if_splits)
qed simp

lemma disturbed_untouched:
  "\<not> list_ex (touches q) xs \<Longrightarrow> map_of (dk_nodes (disturbed xs d)) q = map_of (dk_nodes d) q"
proof (induction xs arbitrary: d)
  case (Cons x xs)
  then show ?case by (cases x) (auto simp: disturbed_Cons put_node_def drop_node_def)
qed simp

lemma note_outside_simps [simp]:
  "fv_shown (note_outside xs v) = fv_shown v" "fv_node (note_outside xs v) = fv_node v"
  "fv_loose (note_outside xs v) q = (fv_loose v q \<or> list_ex (disguised v q) xs)"
  "recorded_ok l (note_outside xs v) = recorded_ok l v"
  by (simp_all add: note_outside_def recorded_ok_def)

lemma known_loose: "fv_loose v q \<Longrightarrow> known_at l v d q"
  by (simp add: known_at_def split: option.split)

lemma known_atI:
  "(\<And>n fp. map_of (dk_nodes d) q = Some n \<Longrightarrow> fingerprint n = Some fp \<Longrightarrow> map_of l q = Some fp \<Longrightarrow>
     \<not> fv_loose v q \<Longrightarrow> fv_shown v q = data_at d q) \<Longrightarrow> known_at l v d q"
  by (auto simp: known_at_def split: option.split)

lemma known_atD:
  "known_at l v d q \<Longrightarrow> map_of (dk_nodes d) q = Some n \<Longrightarrow> fingerprint n = Some fp \<Longrightarrow> map_of l q = Some fp \<Longrightarrow>
   fv_loose v q \<or> fv_shown v q = data_at d q"
  by (simp add: known_at_def)

text \<open>What others do to a path is seen in its time or length, or makes it loose.\<close>

lemma known_disturbed:
  assumes "recorded_ok l v" and "known_at l v d q" and "list_ex (disguised v q) xs \<Longrightarrow> fv_loose v' q"
    and "fv_loose v q \<Longrightarrow> fv_loose v' q" and "fv_shown v' q = fv_shown v q"
  shows "known_at l v' (disturbed xs d) q"
proof -
  consider (same) "map_of (dk_nodes (disturbed xs d)) q = map_of (dk_nodes d) q"
    | (gone) "map_of (dk_nodes (disturbed xs d)) q = None"
    | (new) n where "Leaves q n \<in> set xs" "map_of (dk_nodes (disturbed xs d)) q = Some n"
    using disturbed_node [of xs d q] by metis
  then show ?thesis
  proof cases
    case same
    have "data_at (disturbed xs d) q = data_at d q" by (simp add: data_at_def same)
    then show ?thesis
      using known_atD [OF assms(2)] assms(4,5) unfolding same [symmetric] by (intro known_atI) auto
  next
    case (new n)
    show ?thesis
    proof (rule known_atI)
      fix n' fp
      assume n': "map_of (dk_nodes (disturbed xs d)) q = Some n'" "fingerprint n' = Some fp" "map_of l q = Some fp" "\<not> fv_loose v' q"
      then obtain k where "fv_node v q = Some k" "fingerprint k = Some fp"
        using assms(1) unfolding recorded_ok_def by blast
      with n' new have "disguised v q (Leaves q n)" by (simp add: looks_like_fingerprint)
      then have "list_ex (disguised v q) xs" using new(1) unfolding list_ex_iff by blast
      then show "fv_shown v' q = data_at (disturbed xs d) q" using assms(3) n'(4) by blast
    qed
  qed (simp add: known_at_def)
qed

text \<open>The paths a store leaves alone, and what stands at its own.\<close>

lemma staging_seq: "dk_seq d' = dk_seq d \<Longrightarrow> staging_file env p d' = staging_file env p d"
  by (simp add: staging_file_def)

lemma known_frame:
  "known_at l v d q \<Longrightarrow> map_of (dk_nodes d') q = map_of (dk_nodes d) q \<or> map_of (dk_nodes d') q = Some DirNode \<Longrightarrow> known_at l v d' q"
  using known_atD [of l v d q] by (intro known_atI) (auto simp: data_at_def)

lemma atomic_write_elsewhere:
  assumes "atomic_write env p content d = (r, d')" and "q \<noteq> staging_file env p d" and "q \<noteq> p \<or> r \<noteq> Inr ()"
  shows "map_of (dk_nodes d') q = map_of (dk_nodes d) q"
proof (cases r)
  case (Inl e)
  then show ?thesis using atomic_write_fails(1) assms(1,2) by metis
next
  case (Inr u)
  then show ?thesis using atomic_write_ok(1) [of env p content d d'] assms by auto
qed

text \<open>The ledger after the last look of a store.\<close>

lemma ledger_refresh_eq:
  "ledger_refresh env p d l =
     (if ie_fault env RefreshStatOp = None \<and> timed (map_of (dk_nodes d) p)
      then tbl_insert p (the (fingerprint (the (map_of (dk_nodes d) p)))) l else l)"
  by (auto simp: ledger_refresh_def stat_def ledger_record_def timed_fingerprint split: option.splits)

definition known_but :: "path \<Rightarrow> ledger \<Rightarrow> file_view \<Rightarrow> disk \<Rightarrow> bool" where
  "known_but tmp l v d \<longleftrightarrow> (\<forall>q. q = tmp \<or> known_at l v d q)"

lemma disguised_note [simp]: "disguised (note_outside ys v) q x = disguised v q x"
  by (cases x) simp_all

lemma known_but_disturbed:
  assumes "recorded_ok l v" and "known_but tmp l (note_outside ys v) d"
  shows "known_but tmp l (note_outside (ys @ xs) v) (disturbed xs d)"
  unfolding known_but_def
proof
  fix q
  show "q = tmp \<or> known_at l (note_outside (ys @ xs) v) (disturbed xs d) q"
    using assms known_disturbed [of l "note_outside ys v" d q xs "note_outside (ys @ xs) v"]
    by (auto simp: known_but_def list_ex_iff elim: disguised.elims)
qed

lemma known_mono:
  "known_at l v d q \<Longrightarrow> (fv_loose v q \<Longrightarrow> fv_loose v' q) \<Longrightarrow> fv_shown v' q = fv_shown v q \<Longrightarrow> known_at l v' d q"
  using known_atD [of l v d q] by (intro known_atI) auto

lemma known_cong:
  assumes "known_at l v d q" and "map_of l' q = map_of l q" and "fv_loose v' q = fv_loose v q" and "fv_shown v' q = fv_shown v q"
  shows "known_at l' v' d q"
proof (rule known_atI)
  fix n fp
  assume n: "map_of (dk_nodes d) q = Some n" "fingerprint n = Some fp" "map_of l' q = Some fp" "\<not> fv_loose v' q"
  from n(3) assms(2) have "map_of l q = Some fp" by (rule trans [OF sym, rotated])
  from known_atD [OF assms(1) n(1,2) this] show "fv_shown v' q = data_at d q" using assms(3,4) n(4) by simp
qed

definition all_moments :: "meddling \<Rightarrow> outside list" where
  "all_moments others = others BeforeCheck @ others BeforeLoad @ others BeforeStore @ others BeforeRefresh"

definition store_view :: "meddling \<Rightarrow> path \<Rightarrow> file_view \<Rightarrow> file_view" where
  "store_view others tmp v =
     (let v1 = note_outside (all_moments others) v in v1\<lparr>fv_loose := (fv_loose v1)(tmp := True)\<rparr>)"

lemma store_view_simps [simp]:
  "fv_shown (store_view others tmp v) = fv_shown v" "fv_node (store_view others tmp v) = fv_node v"
  "recorded_ok l (store_view others tmp v) = recorded_ok l v"
  by (simp_all add: store_view_def Let_def recorded_ok_def)

lemma known_store_view:
  assumes "recorded_ok l v" and "known_but tmp l (note_outside ys v) d" and "set ys \<subseteq> set (all_moments others)"
  shows "known_at l (store_view others tmp v) d q"
proof (cases "q = tmp")
  case True
  then show ?thesis by (intro known_loose) (simp add: store_view_def Let_def)
next
  case False
  then have "known_at l (note_outside ys v) d q" using assms(2) unfolding known_but_def by blast
  then show ?thesis
    by (rule known_mono) (use assms(3) in \<open>auto simp: store_view_def Let_def list_ex_iff\<close>)
qed

lemma note_store_fails:
  assumes "seen_ok ((l, d), v)" and "\<not> succeeded r"
    and "\<And>q. known_at l (store_view others (staging_file env p d) v) d' q"
  shows "seen_ok (note_store others env p (l, d) (r, (l, d')) v)"
proof -
  have "note_store others env p (l, d) (r, (l, d')) v = ((l, d'), store_view others (staging_file env p d) v)"
    using assms(2) by (simp add: note_store_def store_view_def all_moments_def Let_def)
  then show ?thesis using assms(1,3) by (auto simp: seen_ok_def)
qed

lemma store_text_known:
  assumes inv: "seen_ok ((l, d0), v)" and known: "known_but (staging_file env p d0) l (note_outside ys v) d"
    and ys: "set ys \<subseteq> set (others BeforeCheck @ others BeforeLoad)" and seq: "dk_seq d = dk_seq d0"
    and store: "store_text others env p content m (l, d) = rs"
  shows "seen_ok (note_store others env p (l, d0) rs v)"
proof -
  let ?tmp = "staging_file env p d0" and ?ds = "disturbed (others BeforeStore) d"
  have rec: "recorded_ok l v" using inv by (simp add: seen_ok_def)
  have tmp: "staging_file env p ?ds = ?tmp" using seq by (intro staging_seq) simp
  obtain r d1 where w: "atomic_write env p content ?ds = (r, d1)" by fastforce
  have at_store: "known_but ?tmp l (note_outside (ys @ others BeforeStore) v) ?ds"
    by (rule known_but_disturbed [OF rec known])
  show ?thesis
  proof (cases r)
    case (Inl e)
    have "known_but ?tmp l (note_outside (ys @ others BeforeStore) v) d1"
      using at_store atomic_write_elsewhere [OF w] Inl tmp unfolding known_but_def by (metis Inl_Inr_False known_frame)
    from known_store_view [OF rec this, of others] ys
    have "known_at l (store_view others ?tmp v) d1 q" for q by (auto simp: all_moments_def)
    moreover have "rs = (Inl e, (l, d1))" using store w Inl by (simp add: store_text_def)
    ultimately show ?thesis using note_store_fails [OF inv, of "Inl e" others env p d1] by (simp add: succeeded_def)
  next
    case (Inr u)
    let ?d2 = "disturbed (others BeforeRefresh) d1" and ?l2 = "ledger_refresh env p (disturbed (others BeforeRefresh) d1) l"
    have rs: "rs = (Inr (ok_output m), (?l2, ?d2))" using store w Inr by (simp add: store_text_def Let_def)
    define v' where "v' = snd (note_store others env p (l, d0) rs v)"
    let ?v = v'
    have view: "fv_shown ?v = (fv_shown v)(p := (if list_ex (touches p) (others BeforeRefresh) then None else data_at ?d2 p))"
      "fv_loose ?v = (fv_loose (store_view others ?tmp v))(p := list_ex (touches p) (others BeforeRefresh))"
      "fv_node ?v = (if ie_fault env RefreshStatOp = None \<and> timed (map_of (dk_nodes ?d2) p)
                     then (fv_node v)(p := map_of (dk_nodes ?d2) p) else fv_node v)"
      by (simp_all add: v'_def rs note_store_def succeeded_def ok_output_def Let_def store_view_def all_moments_def)
    have "recorded_ok ?l2 ?v"
      using rec unfolding recorded_ok_def ledger_refresh_eq view
      by (auto simp: timed_fingerprint elim!: timed.elims split: if_splits)
    moreover have "known_at ?l2 ?v ?d2 q" for q
    proof (cases "q = p")
      case True
      show ?thesis
      proof (cases "list_ex (touches p) (others BeforeRefresh)")
        case False
        with True show ?thesis by (simp add: known_at_def view split: option.split)
      qed (use True in \<open>simp add: known_at_def view split: option.split\<close>)
    next
      case False
      have "known_at l (store_view others ?tmp v) ?d2 q"
      proof (cases "q = ?tmp")
        case True
        then show ?thesis by (intro known_loose) (simp add: store_view_def Let_def)
      next
        case other: False
        have "known_at l (note_outside (ys @ others BeforeStore) v) ?ds q" using at_store other unfolding known_but_def by blast
        moreover have "map_of (dk_nodes d1) q = map_of (dk_nodes ?ds) q"
          using atomic_write_elsewhere [OF w] other False tmp by simp
        ultimately have "known_at l (note_outside (ys @ others BeforeStore) v) d1 q" by (auto intro: known_frame)
        then show ?thesis
          using rec ys
          by (elim known_disturbed [rotated])
             (auto simp: store_view_def Let_def all_moments_def list_ex_iff)
      qed
      then show ?thesis by (rule known_cong) (use False in \<open>simp_all add: view ledger_refresh_eq\<close>)
    qed
    ultimately have "seen_ok ((?l2, ?d2), ?v)" by (auto simp: seen_ok_def)
    moreover have "note_store others env p (l, d0) rs v = ((?l2, ?d2), ?v)"
      by (simp add: v'_def rs note_store_def Let_def)
    ultimately show ?thesis by (simp only:)
  qed
qed

lemma note_outside_nil [simp]: "note_outside [] v = v"
  by (simp add: note_outside_def)

lemma known_but_all: "seen_ok ((l, d), v) \<Longrightarrow> known_but tmp l (note_outside [] v) d"
  by (simp add: seen_ok_def known_but_def)

lemma write_at_known:
  assumes inv: "seen_ok ((l, d), v)"
  shows "seen_ok (note_store others env p (l, d) (write_at others env p content (l, d)) v)"
proof -
  let ?tmp = "staging_file env p d" and ?d1 = "disturbed (others BeforeCheck) d"
  have rec: "recorded_ok l v" using inv by (simp add: seen_ok_def)
  note at_start = known_but_all [OF inv, of ?tmp]
  have at_check: "known_but ?tmp l (note_outside (others BeforeCheck) v) ?d1"
    using known_but_disturbed [OF rec at_start, of "others BeforeCheck"] by simp
  obtain r d' where c: "create_dir_all env p ?d1 = (r, d')" by fastforce
  note made = create_dir_all_nodes [OF c]
  have at_made: "known_but ?tmp l (note_outside (others BeforeCheck) v) d'"
    using at_check made unfolding known_but_def by (metis known_frame)
  have early: "seen_ok (note_store others env p (l, d) (x, (l, d)) v)" if "\<not> succeeded x" for x
    using that known_store_view [OF rec at_start, of others] by (intro note_store_fails [OF inv]) simp_all
  have late: "seen_ok (note_store others env p (l, d) (x, (l, d')) v)" if "\<not> succeeded x" for x
    using that known_store_view [OF rec at_made, of others] by (intro note_store_fails [OF inv]) (auto simp: all_moments_def)
  have seq: "dk_seq d' = dk_seq d" using made by simp
  have store: "seen_ok (note_store others env p (l, d) (store_text others env p content m (l, d')) v)" for m
    by (rule store_text_known [OF inv at_made _ seq refl]) simp
  show ?thesis
    using c store early late
    by (auto simp: write_at_def succeeded_def err_output_def dest: check_fresh_refuses split: sum.splits option.splits)
qed

lemma edit_at_known:
  assumes inv: "seen_ok ((l, d), v)" and old: "old \<noteq> []"
  shows "seen_ok (note_store others env p (l, d) (edit_at others env p old new (l, d)) v)"
proof -
  let ?tmp = "staging_file env p d" and ?d1 = "disturbed (others BeforeCheck) d"
  let ?d2 = "disturbed (others BeforeLoad) ?d1"
  have rec: "recorded_ok l v" using inv by (simp add: seen_ok_def)
  note at_start = known_but_all [OF inv, of ?tmp]
  have at_check: "known_but ?tmp l (note_outside (others BeforeCheck) v) ?d1"
    using known_but_disturbed [OF rec at_start, of "others BeforeCheck"] by simp
  have at_load: "known_but ?tmp l (note_outside (others BeforeCheck @ others BeforeLoad) v) ?d2"
    by (rule known_but_disturbed [OF rec at_check])
  obtain r s' where e: "edit_at others env p old new (l, d) = (r, s')" by (rule prod.exhaust)
  from this old show ?thesis
  proof (cases rule: edit_at_cases)
    case (quiet d')
    have "known_at l (store_view others ?tmp v) d' q" for q
      using quiet(2) known_store_view [OF rec at_start, of others] known_store_view [OF rec at_check, of others]
        known_store_view [OF rec at_load, of others] by (auto simp: all_moments_def)
    then show ?thesis
      using note_store_fails [OF inv, of r others env p d'] quiet(1,3) e
      by (auto simp: succeeded_def split: sum.splits prod.splits)
  next
    case (stored s u m)
    show ?thesis unfolding e by (rule store_text_known [OF inv at_load _ _ stored(4)]) simp_all
  qed
qed

lemma read_text_refuses: "read_text input s = Inl out \<Longrightarrow> snd out"
  by (auto simp: read_text_def opt_offset_def opt_usize_def read_window_def err_output_def Let_def
      split: sum.splits option.splits json.splits prod.splits if_splits)

lemma read_at_cases:
  assumes "read_at others env p input (l, d) = (r, (l', d'))"
  obtains (quiet) "\<not> succeeded r" and "l' = l" and "d' = d \<or> d' = disturbed (others BeforeLoad) d"
  | (shown) n where "succeeded r" and "map_of (dk_nodes d) p = Some n" and "d' = disturbed (others BeforeLoad) d"
      and "l' = ledger_record p n l"
proof (cases "stat env StatOp p d")
  case (Inl e)
  then show ?thesis using quiet assms by (cases e) (auto simp: read_at_def err_output_def succeeded_def)
next
  case (Inr n)
  show ?thesis
  proof (cases n)
    case DirNode
    then show ?thesis using quiet assms Inr by (auto simp: read_at_def err_output_def succeeded_def)
  next
    case (FileNode data t)
    have "map_of (dk_nodes d) p = Some n" using Inr by (auto simp: stat_def split: option.splits)
    then show ?thesis
      using quiet shown [of n] assms Inr FileNode
      by (auto simp: read_at_def read_loaded_def err_output_def ok_output_def succeeded_def
          dest: read_text_refuses split: sum.splits option.splits io_fault.splits file_data.splits if_splits)
  qed
qed

lemma read_at_known:
  assumes inv: "seen_ok ((l, d), v)"
  shows "seen_ok (note_read others p (l, d) (read_at others env p input (l, d)) v)"
proof -
  let ?v1 = "note_outside (others BeforeLoad) v" and ?d1 = "disturbed (others BeforeLoad) d"
  have rec: "recorded_ok l v" and start: "\<And>q. known_at l v d q" using inv by (simp_all add: seen_ok_def)
  have after: "known_at l ?v1 ?d1 q" for q using known_disturbed [OF rec start [of q], of "others BeforeLoad" ?v1] by auto
  have before: "known_at l ?v1 d q" for q by (rule known_mono [OF start]) auto
  obtain r l' d' where e: "read_at others env p input (l, d) = (r, (l', d'))" by (metis prod.exhaust)
  then show ?thesis
  proof (cases rule: read_at_cases)
    case quiet
    then show ?thesis using e rec after before by (auto simp: note_read_def seen_ok_def Let_def)
  next
    case (shown n)
    define v' where "v' = snd (note_read others p (l, d) (r, (l', d')) v)"
    let ?v = v'
    have view: "fv_shown ?v = (fv_shown v)(p := data_at ?d1 p)" "fv_loose ?v = (fv_loose ?v1)(p := False)"
      "fv_node ?v = (if timed (Some n) then (fv_node v)(p := Some n) else fv_node v)"
      using shown by (simp_all add: v'_def note_read_def Let_def)
    have l': "l' = (if timed (Some n) then tbl_insert p (the (fingerprint n)) l else l)"
      using shown(4) by (auto simp: ledger_record_def timed_fingerprint split: option.splits)
    have "recorded_ok l' ?v"
      using rec unfolding recorded_ok_def l' view by (auto simp: timed_fingerprint split: if_splits)
    moreover have "known_at l' ?v d' q" for q
    proof (cases "q = p")
      case True
      then show ?thesis using shown(3) by (simp add: known_at_def view split: option.split)
    next
      case False
      have "known_at l ?v1 d' q" using after [of q] shown(3) by simp
      then show ?thesis by (rule known_cong) (use False in \<open>simp_all add: view l'\<close>)
    qed
    ultimately have "seen_ok ((l', d'), ?v)" by (auto simp: seen_ok_def)
    moreover have "note_read others p (l, d) (r, (l', d')) v = ((l', d'), ?v)" by (simp add: v'_def note_read_def Let_def)
    ultimately show ?thesis by (simp only: e)
  qed
qed

lemma seen_ok_step: "seen_ok w \<Longrightarrow> seen_ok (file_step x w)"
proof -
  assume inv: "seen_ok w"
  obtain l d v where w: "w = ((l, d), v)" by (metis prod.exhaust)
  show ?thesis
  proof (cases x)
    case (Outside xs)
    have "known_at l (note_outside xs v) (disturbed xs d) q" for q
      using inv known_disturbed [of l v d q xs "note_outside xs v"] by (auto simp: w seen_ok_def)
    then show ?thesis using inv Outside by (auto simp: w seen_ok_def)
  qed (use inv read_at_known write_at_known edit_at_known in \<open>auto simp: w\<close>)
qed

interpretation file_sessions: machine seen_ok file_step
  by unfold_locales (rule seen_ok_step)

text \<open>What a call may go on over, when its freshness check passes: a path the ledger does not know, a
  missing file, what the session last saw there, or a loose path; or the check's own look failed.\<close>

definition may_overwrite :: "io_env \<Rightarrow> path \<Rightarrow> file_run \<Rightarrow> bool" where
  "may_overwrite env p w = (case w of ((l, d), v) \<Rightarrow>
     map_of l p = None \<or> data_at d p = None \<or> data_at d p = fv_shown v p \<or> fv_loose v p \<or>
     ie_fault env FreshStatOp \<noteq> None)"

lemma check_fresh_seen:
  assumes "seen_ok ((l, d), v)" and "check_fresh env p d l = None"
  shows "may_overwrite env p ((l, d), v)"
proof (cases "map_of (dk_nodes d) p")
  case (Some n)
  have "known_at l v d p" using assms(1) by (simp add: seen_ok_def)
  then show ?thesis
    using assms(2) Some
    by (auto simp: may_overwrite_def check_fresh_def stat_def known_at_def split: option.splits sum.splits if_splits)
qed (simp add: may_overwrite_def data_at_def)

text \<open>C27: A session writes over a file only as it knows it. Its calls read, write and edit, succeed or
  fail, with any changes by others between them and inside them. When a write or an edit succeeds, then
  at its freshness check the file at its path held what the session was last shown there or left there
  itself, with these exceptions: the ledger has no entry for the path; nothing is there; the check's
  own look fails; others left a file with the time and the length of the one the entry was taken from;
  others changed the file between the session's last overwrite and the look that records it; or the
  path was used for staging. What others do between the check and the overwrite is not seen.\<close>

theorem session_writes_over_what_it_saw:
  "let w = fold file_step evs (([], d0), \<lparr>fv_shown = (\<lambda>_. None), fv_node = (\<lambda>_. None), fv_loose = (\<lambda>_. False)\<rparr>);
       at_check = file_step (Outside (others BeforeCheck)) w
   in (if succeeded (fst (write_at others env p content (fst w))) then may_overwrite env p at_check else True) \<and>
      (if old \<noteq> [] \<and> succeeded (fst (edit_at others env p old new (fst w))) then may_overwrite env p at_check else True)"
proof -
  let ?w0 = "(([], d0), \<lparr>fv_shown = (\<lambda>_. None), fv_node = (\<lambda>_. None), fv_loose = (\<lambda>_. False)\<rparr>) :: file_run"
  obtain l d v where w: "fold file_step evs ?w0 = ((l, d), v)" by (metis prod.exhaust)
  have "seen_ok ?w0" by (simp add: seen_ok_def recorded_ok_def known_at_def split: option.split)
  then have ok: "seen_ok ((l, d), v)" using file_sessions.run_inv [of ?w0 evs] by (simp add: w)
  let ?d1 = "disturbed (others BeforeCheck) d" and ?v1 = "note_outside (others BeforeCheck) v"
  have at_check: "seen_ok ((l, ?d1), ?v1)"
    using seen_ok_step [OF ok, of "Outside (others BeforeCheck)"] by simp
  have "may_overwrite env p ((l, ?d1), ?v1)" if s: "succeeded (fst (write_at others env p content (l, d)))"
  proof -
    obtain r d' where c: "create_dir_all env p ?d1 = (r, d')" by fastforce
    then have "check_fresh env p d' l = None"
      using s by (auto simp: write_at_def err_output_def succeeded_def
          split: if_splits sum.splits option.splits dest: check_fresh_refuses)
    then have "check_fresh env p ?d1 l = None \<or> map_of (dk_nodes ?d1) p = None"
      using create_dir_all_nodes [OF c, of p] by (auto simp: check_fresh_def stat_def split: option.splits sum.splits)
    then show ?thesis
    proof
      assume "check_fresh env p ?d1 l = None"
      then show ?thesis by (rule check_fresh_seen [OF at_check])
    qed (simp add: may_overwrite_def data_at_def)
  qed
  moreover have "may_overwrite env p ((l, ?d1), ?v1)"
    if "succeeded (fst (edit_at others env p old new (l, d)))" and "old \<noteq> []"
  proof -
    obtain r s' where e: "edit_at others env p old new (l, d) = (r, s')" by (rule prod.exhaust)
    from this that(2) show ?thesis
    proof (cases rule: edit_at_cases)
      case (quiet d')
      then show ?thesis using that e by (auto simp: succeeded_def split: sum.splits prod.splits)
    next
      case (stored s u m)
      show ?thesis by (rule check_fresh_seen [OF at_check stored(3)])
    qed
  qed
  ultimately show ?thesis by (simp only: w Let_def fst_conv file_step.simps) simp
qed

text \<open>A session reads a file, others change it, and its edit is refused.\<close>

definition demo_env :: io_env where
  "demo_env = \<lparr>ie_fault = (\<lambda>_. None), ie_partial = None, ie_pid = 7\<rparr>"

definition demo_disk :: disk where
  "demo_disk = \<lparr>dk_nodes = [([''a''], FileNode (TextData ''one'') (Some 3))], dk_clock = Some 5, dk_seq = 0\<rparr>"

definition demo_view :: file_view where
  "demo_view = \<lparr>fv_shown = (\<lambda>_. None), fv_node = (\<lambda>_. None), fv_loose = (\<lambda>_. False)\<rparr>"

lemma stale_edit_is_refused:
  "fst (edit_at undisturbed demo_env [''a''] ''o'' ''0''
     (fst (fold file_step [FileRead undisturbed demo_env [''a''] (JObj []),
                           Outside [Leaves [''a''] (FileNode (TextData ''two'') (Some 4))]] (([], demo_disk), demo_view)))) =
   Inr (''/a changed on disk since it was last read; re-read it before writing'', True)"
  by (simp add: edit_at_def read_at_def read_loaded_def load_def stat_def demo_env_def demo_disk_def note_read_def read_text_def
      opt_offset_def opt_usize_def disturbed_def
      read_window_def MAX_READ_BYTES_def MAX_LINES_def byte_len_def is_ascii_def char_code_def str_lines_def newline_def
      ledger_record_def check_fresh_def put_node_def err_output_def show_path_def Let_def)

text \<open>Others change the file between the session's overwrite and the look that records it: the session
  takes their text for its own, and its next write replaces it without a word.\<close>

theorem adopted_change_is_overwritten:
  "let meanwhile = (\<lambda>x. if x = BeforeRefresh then [Leaves [''a''] (FileNode (TextData ''theirs'') (Some 6))] else []);
       s1 = snd (write_at meanwhile demo_env [''a''] ''mine'' ([], demo_disk));
       rs2 = write_at undisturbed demo_env [''a''] ''mine again'' s1
   in data_at (snd s1) [''a''] = Some (TextData ''theirs'') \<and> map_of (fst s1) [''a''] = Some (6, 6) \<and>
      succeeded (fst rs2) \<and> data_at (snd (snd rs2)) [''a''] = Some (TextData ''mine again'')"
  by (simp add: write_at_def stat_def demo_env_def demo_disk_def create_dir_all_def ancestors_def check_fresh_def
      store_text_def atomic_write_def staging_file_def put_node_def drop_node_def disturbed_def ledger_refresh_def
      ledger_record_def data_at_def succeeded_def ok_output_def byte_len_def is_ascii_def char_code_def
      Let_def numeral_eq_Suc)

section \<open>What a read shows\<close>

lemma byte_take_prefix: "prefix (byte_take n s) s"
  by (induction n s rule: byte_take.induct) auto

lemma byte_len_Cons: "byte_len (c # s) = byte_len [c] + byte_len s"
  by (simp add: byte_len_def)

lemma byte_take_len: "byte_len (byte_take n s) \<le> n"
proof (induction n s rule: byte_take.induct)
  case (2 n c cs)
  then show ?case using byte_len_Cons [of c "byte_take (n - byte_len [c]) cs"] by (auto simp: byte_len_def)
qed (simp add: byte_len_def)

definition truncation_mark :: string where
  "truncation_mark = [newline] @ ''[truncated]''"

text \<open>A read returns the asked lines or says that it cut them. A read from the top returns the whole text
  or ends with the truncation mark; any other output is the asked lines joined, after the line that
  names them when it starts at an offset from the end; or it is a prefix of that and ends with the
  mark. No output is longer than the cap and the mark.\<close>

theorem read_output_exact:
  "let body = read_slice s tail start end_line;
       head = (if tail \<and> 0 < start
               then ''[showing lines '' @ show_nat (start + 1) @ ''-'' @ show_nat end_line @ '' of '' @
                    show_nat (length (str_lines s)) @ '']'' @ [newline] else []);
       out = read_output s tail start end_line
   in (if byte_len (head @ body) \<le> MAX_BYTES \<and> (tail \<or> length (str_lines s) \<le> end_line) then out = head @ body
       else \<exists>kept. prefix kept (head @ body) \<and> out = kept @ truncation_mark \<and>
              (if byte_len (head @ body) \<le> MAX_BYTES then kept = head @ body else byte_len kept \<le> MAX_BYTES))"
proof -
  let ?head = "if tail \<and> 0 < start
               then ''[showing lines '' @ show_nat (start + 1) @ ''-'' @ show_nat end_line @ '' of '' @
                    show_nat (length (str_lines s)) @ '']'' @ [newline] else []"
  let ?content = "?head @ read_slice s tail start end_line"
  let ?cut = "\<not> tail \<and> end_line < length (str_lines s)"
  have content: "(if tail \<and> 0 < start
                     then ''[showing lines '' @ show_nat (start + 1) @ ''-'' @ show_nat end_line @ '' of '' @
                        show_nat (length (str_lines s)) @ '']'' @ [newline] @ read_slice s tail start end_line
                     else read_slice s tail start end_line) = ?content"
    by simp
  have out: "read_output s tail start end_line =
      (if ?cut \<or> MAX_BYTES < byte_len ?content
       then (if MAX_BYTES < byte_len ?content then byte_take MAX_BYTES ?content else ?content) @ truncation_mark
       else (if MAX_BYTES < byte_len ?content then byte_take MAX_BYTES ?content else ?content))"
    unfolding read_output_def Let_def content truncation_mark_def append_assoc by (rule refl)
  have pick: "(if byte_len x \<le> MAX_BYTES \<and> (tail \<or> length (str_lines s) \<le> end_line)
       then (if ?cut \<or> MAX_BYTES < byte_len x
             then (if MAX_BYTES < byte_len x then byte_take MAX_BYTES x else x) @ truncation_mark
             else (if MAX_BYTES < byte_len x then byte_take MAX_BYTES x else x)) = x
       else \<exists>kept. prefix kept x \<and>
              (if ?cut \<or> MAX_BYTES < byte_len x
               then (if MAX_BYTES < byte_len x then byte_take MAX_BYTES x else x) @ truncation_mark
               else (if MAX_BYTES < byte_len x then byte_take MAX_BYTES x else x)) = kept @ truncation_mark \<and>
              (if byte_len x \<le> MAX_BYTES then kept = x else byte_len kept \<le> MAX_BYTES))" for x
    using byte_take_prefix [of MAX_BYTES x] byte_take_len [of MAX_BYTES x] by (auto simp: not_le)
  show ?thesis unfolding Let_def out by (rule pick)
qed

text \<open>Reading page by page shows every line once.\<close>

definition page_lines :: "string \<Rightarrow> nat \<Rightarrow> nat \<Rightarrow> string list" where
  "page_lines s limit k =
     (case read_window (int (k * limit)) limit (length (str_lines s)) of
        Inr (start, end_line) \<Rightarrow> take (end_line - start) (drop start (str_lines s))
      | Inl _ \<Rightarrow> [])"

lemma read_window_forward:
  "read_window (int a) limit n =
     (if 0 < a \<and> n \<le> a
      then Inl (err_output (''offset '' @ show_nat a @ '' is beyond end of file ('' @ show_nat n @ '' lines)''))
      else Inr (a, min (sat_add 64 a limit) n))"
  by (simp add: read_window_def)

lemma page_lines_take:
  assumes "length (str_lines s) \<le> max_of 64"
  shows "page_lines s limit k = take limit (drop (k * limit) (str_lines s))"
proof -
  define a where "a = k * limit"
  have "page_lines s limit k = take limit (drop a (str_lines s))"
    unfolding page_lines_def a_def [symmetric] read_window_forward
    using assms by (auto simp: sat_add_def min_def)
  then show ?thesis by (simp add: a_def)
qed

lemma read_pages_tile:
  assumes "length (str_lines s) \<le> max_of 64"
  shows "concat (map (page_lines s limit) [0..<n]) = take (n * limit) (str_lines s)"
proof (induction n)
  case (Suc n)
  have "take (Suc n * limit) (str_lines s) = take (n * limit) (str_lines s) @ take limit (drop (n * limit) (str_lines s))"
    by (metis add.commute mult_Suc take_add)
  with Suc show ?case by (simp add: page_lines_take [OF assms])
qed simp

text \<open>A read from the end whose offset reaches past the top shows the first lines, up to the line cap, and
  neither names them nor marks the cut.\<close>

lemma str_lines_rows: "str_lines (concat (replicate n (''a'' @ [newline]))) = replicate n ''a''"
proof -
  have "split_on (\<lambda>c. c = newline) (concat (replicate n (''a'' @ [newline]))) = replicate n ''a'' @ [[]]"
    by (induction n) (simp_all add: newline_def)
  then show ?thesis by (simp add: str_lines_def strip_cr_def carriage_return_def)
qed

lemma rows_len: "byte_len (join [newline] (replicate n ''a'')) \<le> 2 * n"
proof (induction n)
  case (Suc n)
  then show ?case by (cases n) (auto simp: byte_len_def is_ascii_def char_code_def newline_def)
qed (simp add: byte_len_def)

lemma tail_rows:
  assumes "m < n" and "2 * m \<le> MAX_BYTES"
  shows "read_output (concat (replicate n (''a'' @ [newline]))) True 0 m = join [newline] (replicate m ''a'')"
  using assms order_trans [OF rows_len [of m] assms(2)]
  by (simp only: read_output_def read_slice_def str_lines_rows Let_def) (simp add: not_less)

lemma tail_read_rows:
  assumes "n = MAX_LINES + 1"
  shows "read_text (JObj [(''offset'', JNum ''-3000'')]) (concat (replicate n (''a'' @ [newline]))) =
           Inr (join [newline] (replicate MAX_LINES ''a''))"
    and "str_lines (concat (replicate n (''a'' @ [newline]))) = replicate n ''a''"
proof -
  have args: "opt_offset (JObj [(''offset'', JNum ''-3000'')]) ''offset'' = Inr (Some (- 3000))"
    "opt_usize (JObj [(''offset'', JNum ''-3000'')]) ''limit'' = Inr None"
    by (simp_all add: opt_offset_def opt_usize_def parse_uint_def val_of_digits_def digit_val_def is_digit_def char_code_def)
  have pos: "MAX_LINES \<noteq> 0" by (simp add: MAX_LINES_def)
  have "read_window (- 3000) MAX_LINES n = Inr (0, MAX_LINES)"
    using assms by (simp add: read_window_def Let_def MAX_LINES_def sat_add_def max_of_def)
  moreover have "read_output (concat (replicate n (''a'' @ [newline]))) True 0 MAX_LINES = join [newline] (replicate MAX_LINES ''a'')"
    by (rule tail_rows) (simp_all add: assms MAX_LINES_def MAX_BYTES_def)
  ultimately show "read_text (JObj [(''offset'', JNum ''-3000'')]) (concat (replicate n (''a'' @ [newline]))) =
      Inr (join [newline] (replicate MAX_LINES ''a''))"
    unfolding read_text_def str_lines_rows using pos by (simp add: args Let_def)
qed (rule str_lines_rows)

theorem tail_read_cuts_silently:
  "let s = concat (replicate (MAX_LINES + 1) (''a'' @ [newline]))
   in str_lines s = replicate (MAX_LINES + 1) ''a'' \<and>
      read_text (JObj [(''offset'', JNum ''-3000'')]) s = Inr (join [newline] (replicate MAX_LINES ''a''))"
  unfolding Let_def by (rule conjI) (rule tail_read_rows [OF refl])+

text \<open>A file over the input cap is refused whatever the offset and limit, with the advice to use them.\<close>

theorem paging_a_large_file_is_refused:
  "let d = \<lparr>dk_nodes = [([''big''], FileNode (BinaryData 4194305) None)], dk_clock = None, dk_seq = 0\<rparr>
   in fst (read_at undisturbed demo_env [''big''] (JObj [(''offset'', JNum o'), (''limit'', JNum l')]) (l, d)) =
      Inr (''file too large (4194305 bytes), use offset/limit to read parts: /big'', True)"
proof -
  have "digit_char 0 = CHR ''0'' \<and> digit_char 1 = CHR ''1'' \<and> digit_char 3 = CHR ''3'' \<and> digit_char 4 = CHR ''4'' \<and>
      digit_char 5 = CHR ''5'' \<and> digit_char 9 = CHR ''9''"
    by code_simp
  then have "show_nat 4194305 = ''4194305''" by (simp add: show_nat.simps)
  then show ?thesis by (simp add: Let_def read_at_def stat_def demo_env_def MAX_READ_BYTES_def err_output_def show_path_def)
qed

text \<open>Two overlapping places pass for one.\<close>

theorem overlapping_matches_count_once:
  "count_matches ''aa'' ''aaa'' = 1 \<and> prefix ''aa'' (drop 0 ''aaa'') \<and> prefix ''aa'' (drop 1 ''aaa'')"
proof -
  have "count_matches ''aa'' ''aaa'' = 1" by code_simp
  then show ?thesis by simp
qed

end
