(* ===== verification/Path_Guard.thy ===== *)
theory Path_Guard
  imports Prelude
begin

text \<open>
  The path guard of the file tools, \<open>crates/capabilities/tools/src/path_guard.rs\<close>, over a file
  system with symbolic links. A physical path is the list of names from the root; paths
  are Unix paths and the working directory is absolute. What the guard accepts is then
  used by the write of \<open>fs/write.rs\<close> and \<open>fs/mod.rs\<close>, whose system calls are
  given here on the same file system; nothing else runs between the check and the use, which is the
  assumption the module states.
\<close>

section \<open>The file system\<close>

datatype component = CurDir | ParentDir | Normal string

datatype fs_entry = FDir | FFile | FLink bool "component list"

type_synonym tree = "(string list, fs_entry) tbl"

datatype fs_error = NotFoundError | NotADirectory | TooManyLinks | AlreadyExists | IsADirectory

definition is_dir :: "tree \<Rightarrow> string list \<Rightarrow> bool" where
  "is_dir fs p \<longleftrightarrow> p = [] \<or> map_of fs p = Some FDir"

text \<open>Resolution of a path by the kernel: links are followed as often as the fuel allows; a relative
  target starts where the link is. The rest of the fuel is part of the answer.\<close>

function (sequential) walk :: "tree \<Rightarrow> nat \<Rightarrow> string list \<Rightarrow> component list \<Rightarrow> (fs_error, nat \<times> string list) result" where
  "walk fs n cur [] = Inr (n, cur)"
| "walk fs n cur (c # cs) =
     (if \<not> is_dir fs cur then Inl NotADirectory
      else (case c of
              CurDir \<Rightarrow> walk fs n cur cs
            | ParentDir \<Rightarrow> walk fs n (butlast cur) cs
            | Normal s \<Rightarrow>
                (case map_of fs (cur @ [s]) of
                   None \<Rightarrow> Inl NotFoundError
                 | Some (FLink absolute target) \<Rightarrow>
                     (case n of
                        0 \<Rightarrow> Inl TooManyLinks
                      | Suc m \<Rightarrow> walk fs m (if absolute then [] else cur) (target @ cs))
                 | Some _ \<Rightarrow> walk fs n (cur @ [s]) cs)))"
  by pat_completeness auto
termination
  by (relation "measures [\<lambda>(fs, n, cur, cs). n, \<lambda>(fs, n, cur, cs). length cs]") auto

definition SYMLOOP_MAX :: nat where
  "SYMLOOP_MAX = 40"

definition canonicalize :: "tree \<Rightarrow> component list \<Rightarrow> (fs_error, string list) result" where
  "canonicalize fs cs = (case walk fs SYMLOOP_MAX [] cs of Inl e \<Rightarrow> Inl e | Inr (_, q) \<Rightarrow> Inr q)"

text \<open>\<open>symlink_metadata\<close>: the entry itself, a final link not followed.\<close>

definition lstat :: "tree \<Rightarrow> component list \<Rightarrow> (fs_error, fs_entry) result" where
  "lstat fs cs =
     (if cs = [] then Inr FDir
      else (case walk fs SYMLOOP_MAX [] (butlast cs) of
              Inl e \<Rightarrow> Inl e
            | Inr (_, d) \<Rightarrow>
                if \<not> is_dir fs d then Inl NotADirectory
                else (case last cs of
                        Normal s \<Rightarrow> (case map_of fs (d @ [s]) of None \<Rightarrow> Inl NotFoundError | Some e \<Rightarrow> Inr e)
                      | _ \<Rightarrow> Inr FDir)))"

section \<open>The guard\<close>

datatype tools_error = InvalidInput string | PathEscape string | ToolsIo fs_error

text \<open>\<open>Path::components\<close>: empty pieces and inner dots disappear.\<close>

definition component_of :: "string \<Rightarrow> component option" where
  "component_of s = (if s = [] \<or> s = ''.'' then None else if s = ''..'' then Some ParentDir else Some (Normal s))"

definition components :: "string \<Rightarrow> component list" where
  "components s = List.map_filter component_of (split_on (\<lambda>c. c = CHR ''/'') s)"

definition joined :: "component list \<Rightarrow> string \<Rightarrow> component list" where
  "joined cwd path = (if starts_with path ''/'' then components path else cwd @ components path)"

fun is_normal :: "component \<Rightarrow> bool" where
  "is_normal (Normal _) = True"
| "is_normal _ = False"

definition push_component :: "component \<Rightarrow> component list \<Rightarrow> component list" where
  "push_component c out =
     (case c of
        CurDir \<Rightarrow> out
      | Normal s \<Rightarrow> out @ [Normal s]
      | ParentDir \<Rightarrow> if out \<noteq> [] \<and> is_normal (last out) then butlast out else out @ [ParentDir])"

definition normalize_lexically :: "component list \<Rightarrow> component list" where
  "normalize_lexically cs = fold push_component cs []"

definition escape :: "string \<Rightarrow> tools_error" where
  "escape path = PathEscape path"

text \<open>The nearest existing ancestor, the path itself first.\<close>

definition anchor_len :: "tree \<Rightarrow> component list \<Rightarrow> nat option" where
  "anchor_len fs cs = List.find (\<lambda>n. is_ok (lstat fs (take n cs))) (rev [0..<length cs + 1])"

definition resolve :: "tree \<Rightarrow> component list \<Rightarrow> string \<Rightarrow> (tools_error, component list) result" where
  "resolve fs cwd path =
     (if path = [] then Inl (InvalidInput ''path must not be empty'')
      else
        let normalized = normalize_lexically (joined cwd path)
        in case canonicalize fs cwd of
             Inl e \<Rightarrow> Inl (ToolsIo e)
           | Inr cwd_canon \<Rightarrow>
               (case lstat fs normalized of
                  Inr _ \<Rightarrow>
                    (case canonicalize fs normalized of
                       Inl e \<Rightarrow> Inl (ToolsIo e)
                     | Inr canon \<Rightarrow> if prefix cwd_canon canon then Inr normalized else Inl (escape path))
                | Inl NotFoundError \<Rightarrow>
                    (case anchor_len fs normalized of
                       None \<Rightarrow> Inl (escape path)
                     | Some n \<Rightarrow>
                         (case canonicalize fs (take n normalized) of
                            Inl e \<Rightarrow> Inl (ToolsIo e)
                          | Inr anchor_canon \<Rightarrow>
                              let candidate = normalize_lexically (map Normal anchor_canon @ drop n normalized)
                              in if prefix (map Normal cwd_canon) candidate then Inr normalized else Inl (escape path)))
                | Inl e \<Rightarrow> Inl (ToolsIo e)))"

section \<open>The use: directories, staging file, rename\<close>

definition mkdir :: "component list \<Rightarrow> tree \<Rightarrow> (fs_error, tree) result" where
  "mkdir cs fs =
     (case walk fs SYMLOOP_MAX [] (butlast cs) of
        Inl e \<Rightarrow> Inl e
      | Inr (_, d) \<Rightarrow>
          if \<not> is_dir fs d then Inl NotADirectory
          else (case last cs of
                  Normal s \<Rightarrow> if map_of fs (d @ [s]) = None then Inr (tbl_insert (d @ [s]) FDir fs) else Inl AlreadyExists
                | _ \<Rightarrow> Inl AlreadyExists))"

text \<open>\<open>create_dir_all\<close> on each prefix of the list of lengths, in order.\<close>

fun make_all :: "component list \<Rightarrow> nat list \<Rightarrow> tree \<Rightarrow> (fs_error, tree) result" where
  "make_all cs [] fs = Inr fs"
| "make_all cs (n # ns) fs =
     (case canonicalize fs (take n cs) of
        Inr q \<Rightarrow> if is_dir fs q then make_all cs ns fs else Inl NotADirectory
      | Inl NotFoundError \<Rightarrow> (case mkdir (take n cs) fs of Inl e \<Rightarrow> Inl e | Inr fs' \<Rightarrow> make_all cs ns fs')
      | Inl e \<Rightarrow> Inl e)"

definition staged_rename :: "string \<Rightarrow> component list \<Rightarrow> tree \<Rightarrow> (fs_error, tree) result" where
  "staged_rename tmp cs fs =
     (case walk fs SYMLOOP_MAX [] (butlast cs) of
        Inl e \<Rightarrow> Inl e
      | Inr (_, d) \<Rightarrow>
          if \<not> is_dir fs d then Inl NotADirectory
          else (case last cs of
                  Normal s \<Rightarrow> Inr (tbl_insert (d @ [s]) FFile (tbl_remove (d @ [tmp]) (tbl_insert (d @ [tmp]) FFile fs)))
                | _ \<Rightarrow> Inl AlreadyExists))"

definition write_file :: "string \<Rightarrow> component list \<Rightarrow> tree \<Rightarrow> (fs_error, tree) result" where
  "write_file tmp cs fs =
     (if (case canonicalize fs cs of Inr q \<Rightarrow> is_dir fs q | Inl _ \<Rightarrow> False) then Inl AlreadyExists
      else (case make_all (butlast cs) [1..<length cs] fs of
              Inl e \<Rightarrow> Inl e
            | Inr fs' \<Rightarrow> staged_rename tmp cs fs'))"

text \<open>A link inside the tree that leads out, with a link behind it that leads back in.\<close>

definition detour_tree :: tree where
  "detour_tree =
     [([''w''], FDir), ([''w'', ''link''], FLink True [Normal ''out'']), ([''w'', ''f''], FFile),
      ([''out''], FDir), ([''out'', ''back''], FLink True [Normal ''w'', Normal ''f''])]"

theorem detour_writes_outside:
  "resolve detour_tree [Normal ''w''] ''link/back'' = Inr [Normal ''w'', Normal ''link'', Normal ''back''] \<and>
   (case write_file ''t'' [Normal ''w'', Normal ''link'', Normal ''back''] detour_tree of
      Inr fs' \<Rightarrow> map_of fs' [''out'', ''back''] = Some FFile \<and> map_of fs' [''w'', ''f''] = map_of detour_tree [''w'', ''f'']
    | Inl _ \<Rightarrow> False)"
  by code_simp

section \<open>Resolution\<close>

fun is_link :: "fs_entry \<Rightarrow> bool" where
  "is_link (FLink _ _) = True"
| "is_link _ = False"

lemma walk_induct [case_names nil nodir dot parent gone entry loop link]:
  assumes "\<And>n cur. P n cur []"
    and "\<And>n cur c cs. \<not> is_dir fs cur \<Longrightarrow> P n cur (c # cs)"
    and "\<And>n cur cs. is_dir fs cur \<Longrightarrow> P n cur cs \<Longrightarrow> P n cur (CurDir # cs)"
    and "\<And>n cur cs. is_dir fs cur \<Longrightarrow> P n (butlast cur) cs \<Longrightarrow> P n cur (ParentDir # cs)"
    and "\<And>n cur s cs. is_dir fs cur \<Longrightarrow> map_of fs (cur @ [s]) = None \<Longrightarrow> P n cur (Normal s # cs)"
    and "\<And>n cur s cs e. is_dir fs cur \<Longrightarrow> map_of fs (cur @ [s]) = Some e \<Longrightarrow> \<not> is_link e \<Longrightarrow> P n (cur @ [s]) cs \<Longrightarrow>
           P n cur (Normal s # cs)"
    and "\<And>cur s cs a t. is_dir fs cur \<Longrightarrow> map_of fs (cur @ [s]) = Some (FLink a t) \<Longrightarrow> P 0 cur (Normal s # cs)"
    and "\<And>n cur s cs a t. is_dir fs cur \<Longrightarrow> map_of fs (cur @ [s]) = Some (FLink a t) \<Longrightarrow>
           P n (if a then [] else cur) (t @ cs) \<Longrightarrow> P (Suc n) cur (Normal s # cs)"
  shows "P n cur cs"
proof -
  have "f = fs \<Longrightarrow> P n cur cs" for f
  proof (induction f n cur cs rule: walk.induct)
    case (2 f n cur c cs)
    show ?case
    proof (cases "is_dir fs cur")
      case dir: True
      show ?thesis
      proof (cases c)
        case (Normal s)
        show ?thesis
        proof (cases "map_of fs (cur @ [s])")
          case (Some e)
          then show ?thesis
            using assms(6) [OF dir Some] assms(7,8) [OF dir] 2 dir Normal by (cases e; cases n) auto
        qed (use assms(5) [OF dir] Normal in simp)
      qed (use assms(3,4) [OF dir] 2 dir in auto)
    qed (use assms(2) in simp)
  qed (rule assms(1))
  then show ?thesis by simp
qed

lemma walk_append:
  "walk fs n cur (xs @ ys) =
     (case walk fs n cur xs of Inl e \<Rightarrow> Inl e | Inr (m, q) \<Rightarrow> walk fs m q ys)"
proof (induction n cur xs rule: walk_induct [where fs = fs])
  case (entry n cur s cs e)
  then show ?case by (cases e) simp_all
qed simp_all

text \<open>Adding entries does not change what resolves.\<close>

lemma is_dir_mono: "is_dir fs q \<Longrightarrow> map_of fs \<subseteq>\<^sub>m map_of fs' \<Longrightarrow> is_dir fs' q"
  by (force simp: is_dir_def map_le_def dom_def)

lemma entry_mono: "map_of fs q = Some e \<Longrightarrow> map_of fs \<subseteq>\<^sub>m map_of fs' \<Longrightarrow> map_of fs' q = Some e"
  by (force simp: map_le_def dom_def)

lemma walk_mono:
  assumes "map_of fs \<subseteq>\<^sub>m map_of fs'"
  shows "walk fs n cur cs = Inr r \<Longrightarrow> walk fs' n cur cs = Inr r"
proof (induction n cur cs rule: walk_induct [where fs = fs])
  case (entry n cur s cs e)
  then show ?case by (cases e) (simp_all add: is_dir_mono [OF _ assms] entry_mono [OF _ assms])
qed (simp_all add: is_dir_mono [OF _ assms] entry_mono [OF _ assms])

definition fs_ok :: "tree \<Rightarrow> bool" where
  "fs_ok fs \<longleftrightarrow> list_all (\<lambda>(q, _). q \<noteq> [] \<and> is_dir fs (butlast q)) fs"

definition fs_exists :: "tree \<Rightarrow> string list \<Rightarrow> bool" where
  "fs_exists fs q \<longleftrightarrow> q = [] \<or> map_of fs q \<noteq> None"

lemma fs_ok_butlast: "fs_ok fs \<Longrightarrow> fs_exists fs q \<Longrightarrow> q \<noteq> [] \<Longrightarrow> is_dir fs (butlast q)"
  by (force simp: fs_ok_def fs_exists_def list_all_iff dest: map_of_SomeD)

lemma fs_ok_prefix: "fs_ok fs \<Longrightarrow> fs_exists fs (p @ q) \<Longrightarrow> q \<noteq> [] \<Longrightarrow> is_dir fs p"
proof (induction q rule: rev_induct)
  case (snoc x q)
  then have "is_dir fs (p @ q)" using fs_ok_butlast [of fs "p @ q @ [x]"] by (simp add: butlast_append)
  then show ?case using snoc by (cases "q = []") (auto simp: fs_exists_def is_dir_def)
qed simp

lemma walk_exists:
  assumes "fs_ok fs"
  shows "walk fs n cur cs = Inr (m, q) \<Longrightarrow> fs_exists fs cur \<Longrightarrow> fs_exists fs q"
proof (induction n cur cs rule: walk_induct [where fs = fs])
  case (parent n cur cs)
  have "fs_exists fs (butlast cur)"
    using fs_ok_butlast [OF assms parent(4)] by (cases "cur = []") (auto simp: fs_exists_def is_dir_def)
  with parent show ?case by simp
next
  case (entry n cur s cs e)
  then show ?case by (cases e) (simp_all add: fs_exists_def)
next
  case (link n cur s cs a t)
  then show ?case by (cases a) (simp_all add: fs_exists_def)
qed (simp_all add: fs_exists_def)

lemma walk_single:
  "walk fs n d [Normal s] = Inr (m, q) \<Longrightarrow> map_of fs (d @ [s]) = Some e \<Longrightarrow> \<not> is_link e \<Longrightarrow>
   q = d @ [s] \<and> m = n"
  by (auto split: if_splits fs_entry.splits)

section \<open>Lexical normalization\<close>

lemma normalize_push: "fold push_component (map Normal ss) out = out @ map Normal ss"
  by (induction ss arbitrary: out) (simp_all add: push_component_def)

text \<open>The result has its unpoppable parents first and plain names after.\<close>

definition canonical_form :: "component list \<Rightarrow> bool" where
  "canonical_form cs \<longleftrightarrow> (\<exists>k ss. cs = replicate k ParentDir @ map Normal ss)"

lemma push_form: "canonical_form out \<Longrightarrow> canonical_form (push_component c out)"
proof -
  assume "canonical_form out"
  then obtain k ss where out: "out = replicate k ParentDir @ map Normal ss" by (auto simp: canonical_form_def)
  show ?thesis
  proof (cases c)
    case (Normal s)
    have "push_component c out = replicate k ParentDir @ map Normal (ss @ [s])" by (simp add: Normal out push_component_def)
    then show ?thesis unfolding canonical_form_def by blast
  next
    case ParentDir
    show ?thesis
    proof (cases ss rule: rev_cases)
      case Nil
      then have "push_component c out = replicate (Suc k) ParentDir @ map Normal []"
        by (cases k) (simp_all add: ParentDir out push_component_def replicate_append_same)
      then show ?thesis unfolding canonical_form_def by blast
    next
      case (snoc ss' s)
      then have "push_component c out = replicate k ParentDir @ map Normal ss'"
        by (simp add: ParentDir out push_component_def butlast_append)
      then show ?thesis by (auto simp: canonical_form_def)
    qed
  qed (use \<open>canonical_form out\<close> in \<open>simp add: push_component_def\<close>)
qed

lemma normalize_form: "canonical_form (normalize_lexically cs)"
proof -
  have "canonical_form out \<Longrightarrow> canonical_form (fold push_component cs out)" for out
    by (induction cs arbitrary: out) (auto intro: push_form)
  moreover have "canonical_form []" by (force simp: canonical_form_def)
  ultimately show ?thesis by (simp add: normalize_lexically_def)
qed

lemma normalize_normals: "normalize_lexically (map Normal ss) = map Normal ss"
  by (simp add: normalize_lexically_def normalize_push)

section \<open>What the guard accepts\<close>

lemma canonicalize_take:
  assumes "canonicalize fs cs = Inr q" and "n < length cs"
  shows "\<exists>d. canonicalize fs (take n cs) = Inr d \<and> is_dir fs d"
proof -
  obtain r where "walk fs SYMLOOP_MAX [] (take n cs @ drop n cs) = Inr r"
    using assms(1) by (auto simp: canonicalize_def split: sum.splits)
  moreover obtain c cs' where "drop n cs = c # cs'" using assms(2) by (cases "drop n cs") auto
  ultimately show ?thesis
    unfolding walk_append canonicalize_def by (auto split: sum.splits if_splits)
qed

text \<open>Prefixes of a path that resolves are not made anew.\<close>

lemma make_all_existing:
  assumes "canonicalize fs (take n cs) = Inr q" and "is_dir fs q" and "list_all (\<lambda>j. j \<le> n) ns"
  shows "make_all cs ns fs = Inr fs"
  using assms(3)
proof (induction ns)
  case (Cons j ns)
  then have "\<exists>d. canonicalize fs (take j cs) = Inr d \<and> is_dir fs d"
    using assms canonicalize_take [OF assms(1), of j] by (cases "j < length (take n cs)") (auto simp: min_def split: if_splits)
  with Cons show ?case by auto
qed simp

lemma make_all_append:
  "make_all cs (xs @ ys) fs = (case make_all cs xs fs of Inl e \<Rightarrow> Inl e | Inr fs' \<Rightarrow> make_all cs ys fs')"
  by (induction cs xs fs rule: make_all.induct) (auto split: sum.splits fs_error.splits)

text \<open>Two trees that differ only below a directory.\<close>

definition only_under :: "string list \<Rightarrow> tree \<Rightarrow> tree \<Rightarrow> bool" where
  "only_under root fs fs' \<longleftrightarrow> (\<forall>q. map_of fs' q = map_of fs q \<or> (prefix root q \<and> q \<noteq> root))"

lemma only_under_insert:
  "only_under root fs fs' \<Longrightarrow> prefix root d \<Longrightarrow> only_under root fs (tbl_insert (d @ [s]) e fs')"
  "only_under root fs fs' \<Longrightarrow> prefix root d \<Longrightarrow> only_under root fs (tbl_remove (d @ [s]) fs')"
  by (auto simp: only_under_def prefix_def)

lemma staged_rename_under:
  assumes "staged_rename tmp cs fs = Inr fs'" and "walk fs SYMLOOP_MAX [] (butlast cs) = Inr (m, d)"
    and "prefix root d" and "only_under root fs0 fs"
  shows "only_under root fs0 fs'"
  using assms by (auto simp: staged_rename_def only_under_insert split: component.splits if_splits)

text \<open>The anchor of a missing path: a real directory below which the path goes on with plain names, the
  first of them absent.\<close>

lemma walk_parents: "walk fs n [] (replicate k ParentDir) = Inr (n, [])"
  by (induction k) (simp_all add: is_dir_def)

lemma lstat_parents: "is_ok (lstat fs (replicate k ParentDir))"
  by (cases k) (simp_all add: lstat_def walk_parents is_dir_def butlast_append flip: replicate_append_same)

lemma find_rev_upt:
  assumes "List.find P (rev [0..<N]) = Some n"
  shows "P n \<and> n < N \<and> (\<forall>j. n < j \<and> j < N \<longrightarrow> \<not> P j)"
  using assms
proof (induction N)
  case (Suc N)
  then show ?case by (cases "P N") (auto simp: less_Suc_eq)
qed simp

lemma anchor_facts:
  assumes "canonical_form cs" and "lstat fs cs = Inl NotFoundError" and "anchor_len fs cs = Some n"
    and "canonicalize fs (take n cs) = Inr ac"
  obtains m r rs where "cs = take n cs @ map Normal (r # rs)" and "walk fs SYMLOOP_MAX [] (take n cs) = Inr (m, ac)"
    and "is_dir fs ac" and "map_of fs (ac @ [r]) = None" and "n + Suc (length rs) = length cs"
proof -
  have n: "n < length cs" "\<And>j. n < j \<Longrightarrow> j \<le> length cs \<Longrightarrow> \<not> is_ok (lstat fs (take j cs))"
    using find_rev_upt [OF assms(3) [unfolded anchor_len_def]] assms(2) by (auto simp: nat_less_le)
  obtain k ss where cs: "cs = replicate k ParentDir @ map Normal ss" using assms(1) by (auto simp: canonical_form_def)
  have "k \<le> n"
  proof (rule ccontr)
    assume "\<not> k \<le> n"
    then have "take k cs = replicate k ParentDir" "n < k" by (simp_all add: cs)
    then show False using n(2) [of k] lstat_parents [of fs k] by (simp add: cs)
  qed
  then have drop: "drop n cs = map Normal (drop (n - k) ss)" by (simp add: cs drop_map)
  moreover have "drop (n - k) ss \<noteq> []" using n(1) cs \<open>k \<le> n\<close> by auto
  ultimately obtain r rs where rs: "drop n cs = map Normal (r # rs)" by (metis neq_Nil_conv)
  then have split: "cs = take n cs @ map Normal (r # rs)" by (metis append_take_drop_id)
  obtain m where m: "walk fs SYMLOOP_MAX [] (take n cs) = Inr (m, ac)"
    using assms(4) by (auto simp: canonicalize_def split: sum.splits)
  have len: "n + Suc (length rs) = length cs" using rs n(1) by (metis length_Cons length_drop length_map add_diff_inverse_nat not_less_iff_gr_or_eq)
  have dir: "is_dir fs ac"
  proof (rule ccontr)
    assume nd: "\<not> is_dir fs ac"
    show False
    proof (cases rs)
      case Nil
      then have "Suc n = length cs" using len by simp
      then have "butlast cs = take n cs" by (simp add: butlast_conv_take flip: \<open>Suc n = length cs\<close>)
      moreover have "cs \<noteq> []" using n(1) by auto
      ultimately have "lstat fs cs = Inl NotADirectory" using m nd by (simp add: lstat_def)
      with assms(2) show False by simp
    next
      case (Cons r' rs')
      then have "butlast cs = take n cs @ Normal r # map Normal (butlast rs)" by (subst split) (simp add: butlast_append map_butlast)
      then have "lstat fs cs = Inl NotADirectory" using n(1) m nd by (auto simp: lstat_def walk_append)
      with assms(2) show False by simp
    qed
  qed
  have "take (Suc n) cs = take n cs @ [Normal r]" using rs n(1) by (metis list.simps(9) nth_via_drop take_Suc_conv_app_nth)
  then have "lstat fs (take (Suc n) cs) = (case map_of fs (ac @ [r]) of None \<Rightarrow> Inl NotFoundError | Some e \<Rightarrow> Inr e)"
    using m dir by (simp add: lstat_def)
  then have "map_of fs (ac @ [r]) = None" using n(1) n(2) [of "Suc n"] by (auto split: option.splits)
  then show ?thesis using that split m dir len by blast
qed

text \<open>Creating the missing directories, one at a time, below the anchor.\<close>

definition made :: "string list \<Rightarrow> tree \<Rightarrow> component list \<Rightarrow> nat \<Rightarrow> string list \<Rightarrow> string list \<Rightarrow> nat \<Rightarrow> tree \<Rightarrow> bool" where
  "made root fs cs n ac rs i fs' \<longleftrightarrow>
     only_under root fs fs' \<and> (\<exists>m. walk fs' SYMLOOP_MAX [] (take (n + i) cs) = Inr (m, ac @ take i rs)) \<and>
     is_dir fs' (ac @ take i rs) \<and> (\<forall>j. i < j \<and> j \<le> length rs \<longrightarrow> map_of fs' (ac @ take j rs) = None)"

lemma made_step:
  assumes "made root fs cs n ac rs i fs'" and "cs = take n cs @ map Normal rs" and "prefix root ac"
    and "Suc i < length rs" and "n + length rs = length cs"
  shows "\<exists>fs''. make_all (butlast cs) [Suc (n + i)] fs' = Inr fs'' \<and> made root fs cs n ac rs (Suc i) fs''"
proof -
  let ?d = "ac @ take i rs" and ?s = "rs ! i"
  obtain m where m: "walk fs' SYMLOOP_MAX [] (take (n + i) cs) = Inr (m, ?d)" and dir: "is_dir fs' ?d"
    and gone: "\<And>j. i < j \<Longrightarrow> j \<le> length rs \<Longrightarrow> map_of fs' (ac @ take j rs) = None"
    and under: "only_under root fs fs'"
    using assms(1) by (auto simp: made_def)
  have "cs ! (n + i) = Normal ?s"
  proof -
    have "(take n cs @ map Normal rs) ! (n + i) = Normal ?s" using assms(4,5) by (simp add: nth_append)
    then show ?thesis using assms(2) by metis
  qed
  then have next_cs: "take (Suc (n + i)) cs = take (n + i) cs @ [Normal ?s]"
    using assms(4,5) by (simp add: take_Suc_conv_app_nth)
  have short: "take (Suc (n + i)) (butlast cs) = take (Suc (n + i)) cs" using assms(4,5) by (simp add: butlast_conv_take)
  have entry: "?d @ [?s] = ac @ take (Suc i) rs" using assms(4) by (simp add: take_Suc_conv_app_nth)
  then have none: "map_of fs' (?d @ [?s]) = None" using gone [of "Suc i"] assms(4) by simp
  let ?fs = "tbl_insert (?d @ [?s]) FDir fs'"
  have "canonicalize fs' (take (Suc (n + i)) (butlast cs)) = Inl NotFoundError"
    using m dir none by (simp add: canonicalize_def short next_cs walk_append)
  moreover have "mkdir (take (Suc (n + i)) (butlast cs)) fs' = Inr ?fs"
    using m dir none by (simp add: mkdir_def short next_cs)
  ultimately have make: "make_all (butlast cs) [Suc (n + i)] fs' = Inr ?fs" by simp
  have le: "map_of fs' \<subseteq>\<^sub>m map_of ?fs" using none by (auto simp: map_le_def)
  have new: "map_of ?fs (?d @ [?s]) = Some FDir" by simp
  have "walk ?fs SYMLOOP_MAX [] (take (Suc (n + i)) cs) = Inr (m, ?d @ [?s])"
    using walk_mono [OF le m] is_dir_mono [OF dir le] by (simp add: next_cs walk_append)
  moreover have "map_of ?fs (ac @ take j rs) = None" if "Suc i < j" "j \<le> length rs" for j
  proof -
    have "length (ac @ take j rs) \<noteq> length (?d @ [?s])" using that assms(4) by simp
    then have "ac @ take j rs \<noteq> ?d @ [?s]" by metis
    then show ?thesis using gone [of j] that by simp
  qed
  moreover have "prefix root ?d" using assms(3) by (auto simp: prefix_def)
  ultimately have "made root fs cs n ac rs (Suc i) ?fs"
    using only_under_insert(1) [OF under, of ?d] new unfolding made_def entry [symmetric] by (auto simp: is_dir_def)
  with make show ?thesis by blast
qed

lemma made_steps:
  assumes "made root fs cs n ac rs 0 fs" and "cs = take n cs @ map Normal rs" and "prefix root ac"
    and "i < length rs" and "n + length rs = length cs"
  shows "\<exists>fs'. make_all (butlast cs) [Suc n..<Suc n + i] fs = Inr fs' \<and> made root fs cs n ac rs i fs'"
  using assms(4)
proof (induction i)
  case (Suc i)
  then obtain fs' where "make_all (butlast cs) [Suc n..<Suc n + i] fs = Inr fs'" "made root fs cs n ac rs i fs'" by auto
  with made_step [OF _ assms(2,3) Suc.prems assms(5)] show ?case
    by (auto simp: make_all_append)
qed (use assms(1) in simp)

lemma only_under_refl [simp]: "only_under root fs fs"
  by (simp add: only_under_def)

lemma missing_below:
  assumes "fs_ok fs" and "map_of fs (ac @ [r]) = None"
  shows "map_of fs (ac @ r # rs) = None"
proof (rule ccontr)
  assume "map_of fs (ac @ r # rs) \<noteq> None"
  then have "fs_exists fs ((ac @ [r]) @ rs)" by (simp add: fs_exists_def)
  then show False
    using fs_ok_prefix [OF assms(1), of "ac @ [r]" rs] assms(2) by (cases "rs = []") (auto simp: fs_exists_def is_dir_def)
qed

lemma prefix_map_Normal: "prefix (map Normal xs) (map Normal ys) \<longleftrightarrow> prefix xs ys"
proof (induction xs arbitrary: ys)
  case (Cons x xs)
  then show ?case by (cases ys) auto
qed simp

lemma write_file_missing:
  assumes "fs_ok fs" and "canonicalize fs cwd = Inr root" and "is_dir fs root"
    and "canonical_form cs" and "lstat fs cs = Inl NotFoundError" and "anchor_len fs cs = Some n"
    and "canonicalize fs (take n cs) = Inr ac"
    and "prefix (map Normal root) (normalize_lexically (map Normal ac @ drop n cs))"
    and "write_file tmp cs fs = Inr fs'"
  shows "only_under root fs fs'"
proof -
  obtain m r rs where split: "cs = take n cs @ map Normal (r # rs)" and m: "walk fs SYMLOOP_MAX [] (take n cs) = Inr (m, ac)"
    and dir: "is_dir fs ac" and none: "map_of fs (ac @ [r]) = None" and len: "n + Suc (length rs) = length cs"
    by (rule anchor_facts [OF assms(4-7)])
  have "length (take n cs) = n" using len by simp
  then have "drop n cs = map Normal (r # rs)" using split by (metis append_eq_conv_conj)
  then have "prefix (map Normal root) (map Normal (ac @ r # rs))"
    using assms(8) normalize_normals [of "ac @ r # rs"] by simp
  then have root: "prefix root (ac @ r # rs)" by (simp only: prefix_map_Normal)
  have "prefix root ac"
  proof (rule ccontr)
    assume "\<not> prefix root ac"
    then obtain q where "root = ac @ q" "q \<noteq> []" "prefix q (r # rs)" using root by (auto simp: prefix_append)
    then obtain q' where "root = ac @ r # q'" by (cases q) (auto simp: prefix_def)
    then show False using missing_below [OF assms(1) none, of q'] assms(3) by (simp add: is_dir_def)
  qed
  have "made root fs cs n ac (r # rs) 0 fs"
    unfolding made_def using m dir missing_below [OF assms(1) none]
    by (simp add: gr0_conv_Suc) (metis take_Suc_Cons old.nat.exhaust less_nat_zero_code)
  then obtain fs1 where fs1: "make_all (butlast cs) [Suc n..<Suc n + length rs] fs = Inr fs1" "made root fs cs n ac (r # rs) (length rs) fs1"
    using made_steps [OF _ split \<open>prefix root ac\<close>, of fs "length rs"] len by auto
  have upto: "[1..<length cs] = [1..<Suc n] @ [Suc n..<Suc n + length rs]"
    using len upt_add_eq_append [of 1 "Suc n" "length rs"] by (simp del: upt_Suc)
  have "take n (butlast cs) = take n cs" using len by (simp add: butlast_conv_take)
  then have "make_all (butlast cs) [1..<Suc n] fs = Inr fs"
    using make_all_existing [of fs n "butlast cs" ac "[1..<Suc n]"] assms(7) dir by (simp add: list_all_iff del: upt_Suc)
  then have "make_all (butlast cs) [1..<length cs] fs = Inr fs1" using fs1 by (simp only: upto make_all_append sum.case)
  then have "staged_rename tmp cs fs1 = Inr fs'" using assms(9) by (auto simp: write_file_def split: sum.splits if_splits)
  moreover obtain m' where "walk fs1 SYMLOOP_MAX [] (take (n + length rs) cs) = Inr (m', ac @ take (length rs) (r # rs))"
    and "only_under root fs fs1"
    using fs1(2) by (auto simp: made_def)
  moreover have "butlast cs = take (n + length rs) cs" by (simp add: butlast_conv_take flip: len)
  moreover have "prefix root (ac @ take (length rs) (r # rs))" using \<open>prefix root ac\<close> by (auto simp: prefix_def)
  ultimately show ?thesis by (metis staged_rename_under)
qed

lemma write_file_existing:
  assumes "canonicalize fs cs = Inr canon" and "is_dir fs root" and "lstat fs cs = Inr e" and "\<not> is_link e"
    and "prefix root canon" and "write_file tmp cs fs = Inr fs'"
  shows "only_under root fs fs'"
proof -
  have no_dir: "\<not> is_dir fs canon" using assms(1,6) by (auto simp: write_file_def)
  have "cs \<noteq> []" using assms(1) no_dir by (auto simp: canonicalize_def is_dir_def)
  then obtain d m where d: "walk fs SYMLOOP_MAX [] (butlast cs) = Inr (m, d)" "is_dir fs d"
    using assms(3) by (auto simp: lstat_def split: sum.splits if_splits)
  have whole: "walk fs SYMLOOP_MAX [] cs = walk fs m d [last cs]"
    using walk_append [of fs SYMLOOP_MAX "[]" "butlast cs" "[last cs]"] d \<open>cs \<noteq> []\<close> by simp
  have st: "staged_rename tmp cs fs = Inr fs'"
  proof -
    have "canonicalize fs (butlast cs) = Inr d" using d by (simp add: canonicalize_def)
    moreover have "list_all (\<lambda>j. j \<le> length cs - 1) [1..<length cs]" by (auto simp: list_all_iff)
    ultimately have "make_all (butlast cs) [1..<length cs] fs = Inr fs"
      using make_all_existing [of fs "length cs - 1" "butlast cs" d "[1..<length cs]"] d(2) by simp
    then show ?thesis using assms(6) by (simp add: write_file_def split: if_splits)
  qed
  then obtain s where s: "last cs = Normal s" using d by (auto simp: staged_rename_def split: component.splits if_splits)
  have "map_of fs (d @ [s]) = Some e" using assms(3) d s \<open>cs \<noteq> []\<close> by (auto simp: lstat_def split: option.splits)
  moreover have "\<exists>m'. walk fs m d [Normal s] = Inr (m', canon)"
    using assms(1) whole s by (auto simp: canonicalize_def simp del: walk.simps split: sum.splits)
  ultimately have canon: "canon = d @ [s]" using walk_single assms(4) by blast
  have "root \<noteq> canon" using assms(2) no_dir by auto
  then have "prefix root d" using assms(5) by (auto simp: canon prefix_snoc)
  then show ?thesis using staged_rename_under [OF st d(1)] by simp
qed


text \<open>A read through an accepted path reaches something inside, or nothing.\<close>

lemma resolved_reads_stay_inside:
  assumes "canonicalize fs cwd = Inr root" and "resolve fs cwd path = Inr cs" and "canonicalize fs cs = Inr q"
    and "lstat fs cs \<noteq> Inl NotFoundError"
  shows "prefix root q"
  using assms
  by (auto simp: resolve_def Let_def split: if_splits sum.splits fs_error.splits option.splits)

definition plain_tree :: tree where
  "plain_tree = [([''w''], FDir), ([''w'', ''sub''], FLink False [Normal ''real'']), ([''w'', ''real''], FDir), ([''out''], FDir)]"


end
