(* ===== verification/Diff_View.thy ===== *)
theory Diff_View
  imports Prelude
begin

text \<open>
  The line diff of the console's edit card, \<open>crates/frontends/console/src/diff.rs\<close>: the table of the
  longest common subsequence, the way back through it, the counts, and which rows the card keeps. Colours,
  gutters and truncation to the width of the terminal are not modelled.
\<close>

definition CONTEXT_LINES :: nat where
  "CONTEXT_LINES = 3"

definition MAX_DIFF_LINES :: nat where
  "MAX_DIFF_LINES = 2000"

datatype diff_row = Context string | Added string | Removed string

section \<open>The table\<close>

text \<open>One row from the row above: the entry left of the cell is the last one made.\<close>

fun lcs_row :: "string \<Rightarrow> string list \<Rightarrow> nat list \<Rightarrow> nat list \<Rightarrow> nat list" where
  "lcs_row x (y # ys) (p # p' # ps) current =
     lcs_row x ys (p' # ps) (current @ [if x = y then p + 1 else max p' (last current)])"
| "lcs_row x _ _ current = current"

fun lcs_rows :: "string list \<Rightarrow> string list \<Rightarrow> nat list \<Rightarrow> nat list list" where
  "lcs_rows [] b row = [row]"
| "lcs_rows (x # a) b row = row # lcs_rows a b (lcs_row x b row [0])"

definition lcs_table :: "string list \<Rightarrow> string list \<Rightarrow> nat list list" where
  "lcs_table a b = lcs_rows a b (replicate (length b + 1) 0)"

section \<open>The way back\<close>

function backtrack :: "nat list list \<Rightarrow> string list \<Rightarrow> string list \<Rightarrow> nat \<Rightarrow> nat \<Rightarrow> diff_row list" where
  "backtrack t a b i j =
     (if i = 0 \<and> j = 0 then []
      else if 0 < i \<and> 0 < j \<and> a ! (i - 1) = b ! (j - 1) then Context (a ! (i - 1)) # backtrack t a b (i - 1) (j - 1)
      else if 0 < j \<and> (i = 0 \<or> t ! i ! j = t ! i ! (j - 1)) then Added (b ! (j - 1)) # backtrack t a b i (j - 1)
      else Removed (a ! (i - 1)) # backtrack t a b (i - 1) j)"
  by auto
termination
  by (relation "measure (\<lambda>(t, a, b, i, j). i + j)") auto

declare backtrack.simps [simp del]

fun is_removed :: "diff_row \<Rightarrow> bool" where
  "is_removed (Removed _) = True"
| "is_removed _ = False"

fun is_added :: "diff_row \<Rightarrow> bool" where
  "is_added (Added _) = True"
| "is_added _ = False"

definition compute_rows :: "string \<Rightarrow> string \<Rightarrow> bool \<Rightarrow> diff_row list" where
  "compute_rows old new incomplete =
     (let a = str_lines old; b = str_lines new;
          rows = rev (backtrack (lcs_table a b) a b (length a) (length b))
      in if incomplete then rev (dropWhile is_removed (rev rows)) else rows)"

definition counts :: "diff_row list \<Rightarrow> nat \<times> nat" where
  "counts rows = (length (filter is_added rows), length (filter is_removed rows))"

section \<open>The rows the card keeps\<close>

definition is_change :: "diff_row \<Rightarrow> bool" where
  "is_change r \<longleftrightarrow> is_added r \<or> is_removed r"

definition mark_around :: "nat \<Rightarrow> bool list \<Rightarrow> bool list" where
  "mark_around index marked =
     map (\<lambda>k. marked ! k \<or> (index - CONTEXT_LINES \<le> k \<and> k < index + CONTEXT_LINES + 1)) [0..<length marked]"

definition marked_rows :: "diff_row list \<Rightarrow> bool list" where
  "marked_rows rows =
     fold (\<lambda>(index, r) marked. if is_change r then mark_around index marked else marked)
       (enumerate 0 rows) (replicate (length rows) False)"

text \<open>Changed rows among the marked ones past the budget.\<close>

definition hidden_changed :: "nat \<Rightarrow> diff_row list \<Rightarrow> nat" where
  "hidden_changed max_rows rows =
     length (filter is_change (drop max_rows (map fst (filter snd (zip rows (marked_rows rows))))))"

fun count_gaps :: "bool \<Rightarrow> bool list \<Rightarrow> nat" where
  "count_gaps in_gap [] = 0"
| "count_gaps in_gap (m # ms) =
     (if \<not> m then (if in_gap then 0 else 1) + count_gaps True ms else count_gaps False ms)"

section \<open>What the diff says\<close>

fun old_side :: "diff_row list \<Rightarrow> string list" where
  "old_side [] = []"
| "old_side (Added _ # rs) = old_side rs"
| "old_side (Context s # rs) = s # old_side rs"
| "old_side (Removed s # rs) = s # old_side rs"

fun new_side :: "diff_row list \<Rightarrow> string list" where
  "new_side [] = []"
| "new_side (Removed _ # rs) = new_side rs"
| "new_side (Context s # rs) = s # new_side rs"
| "new_side (Added s # rs) = s # new_side rs"

definition unchanged :: "diff_row list \<Rightarrow> nat" where
  "unchanged rows = length (filter (\<lambda>r. \<not> is_change r) rows)"

definition longest_common :: "string list \<Rightarrow> string list \<Rightarrow> nat \<Rightarrow> bool" where
  "longest_common a b n \<longleftrightarrow>
     (\<exists>zs. subseq zs a \<and> subseq zs b \<and> length zs = n) \<and> (\<forall>zs. subseq zs a \<and> subseq zs b \<longrightarrow> length zs \<le> n)"

fun lcs :: "'a list \<Rightarrow> 'a list \<Rightarrow> nat" where
  "lcs [] ys = 0"
| "lcs (x # xs) [] = 0"
| "lcs (x # xs) (y # ys) = (if x = y then Suc (lcs xs ys) else max (lcs xs (y # ys)) (lcs (x # xs) ys))"

lemma lcs_Nil2 [simp]: "lcs xs [] = 0"
  by (cases xs) simp_all

text \<open>No common subsequence is longer, and one is as long.\<close>

lemma lcs_upper: "subseq zs xs \<Longrightarrow> subseq zs ys \<Longrightarrow> length zs \<le> lcs xs ys"
proof (induction xs ys arbitrary: zs rule: lcs.induct)
  case (3 x xs y ys)
  show ?case
  proof (cases "x = y")
    case True
    show ?thesis
    proof (cases zs)
      case (Cons z zs')
      have "subseq zs' xs" "subseq zs' ys"
        using "3.prems" True by (auto simp: Cons split: if_splits dest: subseq_Cons')
      then show ?thesis using "3.IH"(1) [OF True] True by (simp add: Cons)
    qed simp
  next
    case False
    then have "subseq zs xs \<or> subseq zs ys"
      using "3.prems" by (cases zs) (auto split: if_splits)
    then show ?thesis
      using "3.IH"(2,3) [OF False] "3.prems" False by (auto simp: le_max_iff_disj)
  qed
qed auto

lemma lcs_attained: "\<exists>zs. subseq zs xs \<and> subseq zs ys \<and> length zs = lcs xs ys"
proof (induction xs ys rule: lcs.induct)
  case (3 x xs y ys)
  show ?case
  proof (cases "x = y")
    case True
    then obtain zs where "subseq zs xs" "subseq zs ys" "length zs = lcs xs ys" using "3.IH"(1) by blast
    then show ?thesis using True by (intro exI [of _ "x # zs"]) simp
  next
    case False
    then show ?thesis using "3.IH"(2,3) by (auto simp: max_def intro: subseq_Cons2 list_emb_Cons)
  qed
qed auto

lemma subseq_rev: "subseq (rev (zs :: 'a list)) (rev xs) \<longleftrightarrow> subseq zs xs"
proof -
  have "subseq zs xs \<Longrightarrow> subseq (rev zs) (rev xs)" for zs xs :: "'a list"
    by (induction rule: list_emb.induct) (auto intro: list_emb_append_mono list_emb_append2)
  from this [of zs xs] this [of "rev zs" "rev xs"] show ?thesis by auto
qed

lemma lcs_longest: "longest_common a b (lcs (rev a) (rev b))"
proof -
  obtain zs where "subseq zs (rev a)" "subseq zs (rev b)" "length zs = lcs (rev a) (rev b)" using lcs_attained by blast
  then have "subseq (rev zs) a" "subseq (rev zs) b" "length (rev zs) = lcs (rev a) (rev b)"
    using subseq_rev [of "rev zs"] by simp_all
  moreover have "length ws \<le> lcs (rev a) (rev b)" if "subseq ws a" "subseq ws b" for ws
    using lcs_upper [of "rev ws" "rev a" "rev b"] that by (simp add: subseq_rev)
  ultimately show ?thesis unfolding longest_common_def by blast
qed

subsection \<open>The table holds the reference\<close>

definition cell :: "string list \<Rightarrow> string list \<Rightarrow> nat \<Rightarrow> nat \<Rightarrow> nat" where
  "cell a b i j = lcs (rev (take i a)) (rev (take j b))"

lemma cell_step:
  assumes "i < length a" and "j < length b"
  shows "cell a b (Suc i) (Suc j) =
    (if a ! i = b ! j then cell a b i j + 1 else max (cell a b i (Suc j)) (cell a b (Suc i) j))"
  using assms by (simp add: cell_def take_Suc_conv_app_nth)

lemma lcs_row_cells:
  assumes "i < length a" and "j \<le> length b"
  shows "lcs_row (a ! i) (drop j b) (map (cell a b i) [j..<length b + 1]) (map (cell a b (Suc i)) [0..<j + 1]) =
         map (cell a b (Suc i)) [0..<length b + 1]"
  using assms(2)
proof (induction "length b - j" arbitrary: j)
  case 0
  then show ?case by simp
next
  case (Suc k)
  then have j: "j < length b" by simp
  have "[j..<length b + 1] = j # Suc j # [Suc (Suc j)..<length b + 1]" "[Suc j..<length b + 1] = Suc j # [Suc (Suc j)..<length b + 1]"
    using j by (simp_all add: upt_conv_Cons del: upt_Suc)
  then have up: "map (cell a b i) [j..<length b + 1] = cell a b i j # cell a b i (Suc j) # map (cell a b i) [Suc (Suc j)..<length b + 1]"
    and up': "cell a b i (Suc j) # map (cell a b i) [Suc (Suc j)..<length b + 1] = map (cell a b i) [Suc j..<length b + 1]"
    by (simp_all only: list.map)
  have v: "(if a ! i = b ! j then cell a b i j + 1 else max (cell a b i (Suc j)) (last (map (cell a b (Suc i)) [0..<j + 1]))) =
      cell a b (Suc i) (Suc j)"
    using cell_step [OF assms(1) j] by simp
  have row: "map (cell a b (Suc i)) [0..<j + 1] @ [cell a b (Suc i) (Suc j)] = map (cell a b (Suc i)) [0..<Suc j + 1]"
    by simp
  show ?case
    unfolding Cons_nth_drop_Suc [OF j, symmetric] up unfolding lcs_row.simps v row unfolding up'
    by (rule Suc.hyps(1)) (use Suc.hyps(2) j in simp_all)
qed

lemma lcs_rows_cells:
  assumes "i \<le> length a"
  shows "lcs_rows (drop i a) b (map (cell a b i) [0..<length b + 1]) =
         map (\<lambda>k. map (cell a b k) [0..<length b + 1]) [i..<length a + 1]"
  using assms
proof (induction "length a - i" arbitrary: i)
  case 0
  then show ?case by simp
next
  case (Suc k)
  then have i: "i < length a" by simp
  have "[i..<length a + 1] = i # [Suc i..<length a + 1]" using i by (simp add: upt_conv_Cons del: upt_Suc)
  moreover have "lcs_row (a ! i) b (map (cell a b i) [0..<length b + 1]) [0] = map (cell a b (Suc i)) [0..<length b + 1]"
  proof -
    have "map (cell a b (Suc i)) [0..<0 + 1] = [0]" by (simp add: cell_def)
    from lcs_row_cells [OF i, of 0 b, unfolded this] show ?thesis by (simp del: upt_Suc)
  qed
  moreover have "lcs_rows (drop (Suc i) a) b (map (cell a b (Suc i)) [0..<length b + 1]) =
      map (\<lambda>k. map (cell a b k) [0..<length b + 1]) [Suc i..<length a + 1]"
    by (rule Suc.hyps(1)) (use Suc.hyps(2) i in simp_all)
  ultimately show ?case
    unfolding Cons_nth_drop_Suc [OF i, symmetric] lcs_rows.simps by (simp only: list.map)
qed

lemma table_cell: "i \<le> length a \<Longrightarrow> j \<le> length b \<Longrightarrow> lcs_table a b ! i ! j = cell a b i j"
proof -
  assume "i \<le> length a" "j \<le> length b"
  moreover have "replicate (length b + 1) 0 = map (cell a b 0) [0..<length b + 1]"
    by (rule nth_equalityI) (simp_all add: cell_def del: upt_Suc replicate_Suc)
  ultimately show ?thesis
    unfolding lcs_table_def using lcs_rows_cells [of 0 a b] by (simp del: upt_Suc replicate_Suc)
qed

subsection \<open>The way back\<close>

lemma sides_append [simp]: "old_side (xs @ ys) = old_side xs @ old_side ys" "new_side (xs @ ys) = new_side xs @ new_side ys"
  by (induction xs rule: old_side.induct) (auto elim: new_side.elims)

lemma unchanged_simps [simp]:
  "unchanged [] = 0" "unchanged (Context s # rs) = Suc (unchanged rs)" "unchanged (Added s # rs) = unchanged rs"
  "unchanged (Removed s # rs) = unchanged rs" "unchanged (rev rs) = unchanged rs"
  by (simp_all add: unchanged_def is_change_def flip: rev_filter)

lemma backtrack_exact:
  assumes "i \<le> length a" and "j \<le> length b"
  shows "old_side (rev (backtrack (lcs_table a b) a b i j)) = take i a \<and>
         new_side (rev (backtrack (lcs_table a b) a b i j)) = take j b \<and>
         unchanged (backtrack (lcs_table a b) a b i j) = cell a b i j"
  using assms
proof (induction "i + j" arbitrary: i j rule: less_induct)
  case less
  let ?bt = "backtrack (lcs_table a b) a b"
  show ?case
  proof (cases "i = 0 \<and> j = 0")
    case True
    then show ?thesis by (simp add: backtrack.simps [of _ _ _ 0 0] cell_def)
  next
    case start: False
    show ?thesis
    proof (cases "0 < i \<and> 0 < j \<and> a ! (i - 1) = b ! (j - 1)")
      case True
      then obtain i' j' where ij: "i = Suc i'" "j = Suc j'" by (metis gr0_implies_Suc)
      with True less.hyps [of i' j'] less.prems show ?thesis
        by (simp add: backtrack.simps [of _ _ _ "Suc i'" "Suc j'"] take_Suc_conv_app_nth cell_step)
    next
      case noteq: False
      show ?thesis
      proof (cases "0 < j \<and> (i = 0 \<or> lcs_table a b ! i ! j = lcs_table a b ! i ! (j - 1))")
        case True
        then obtain j' where j: "j = Suc j'" by (metis gr0_implies_Suc)
        have "?bt i j = Added (b ! j') # ?bt i j'" using start noteq True by (subst backtrack.simps) (simp add: j)
        moreover have "cell a b i j = cell a b i j'"
          using True less.prems table_cell [of i a j b] table_cell [of i a j' b] by (auto simp: j cell_def)
        ultimately show ?thesis using less.hyps [of i j'] less.prems by (simp add: j take_Suc_conv_app_nth)
      next
        case False
        with start obtain i' where i: "i = Suc i'" by (cases i) auto
        have "?bt i j = Removed (a ! i') # ?bt i' j" using start noteq False by (subst backtrack.simps) (simp add: i)
        moreover have "cell a b i j = cell a b i' j"
        proof (cases j)
          case 0
          then show ?thesis by (simp add: cell_def)
        next
          case (Suc j')
          then have "cell a b i j \<noteq> cell a b i j'" "a ! i' \<noteq> b ! j'"
            using False noteq less.prems table_cell [of i a j b] table_cell [of i a j' b] by (auto simp: i)
          then show ?thesis using cell_step [of i' a j' b] less.prems by (auto simp: i Suc max_def split: if_splits)
        qed
        ultimately show ?thesis using less.hyps [of i' j] less.prems by (simp add: i take_Suc_conv_app_nth)
      qed
    qed
  qed
qed

text \<open>C30: The diff is exact and shortest. Its unchanged and removed rows are the lines of the old text, its
  unchanged and added rows those of the new, both in order; no common subsequence of the two has more
  lines than the unchanged rows. The streaming form is the same without the removals at its end.\<close>

theorem diff_is_exact_and_shortest:
  "let rows = compute_rows old new False
   in old_side rows = str_lines old \<and> new_side rows = str_lines new \<and>
      longest_common (str_lines old) (str_lines new) (unchanged rows) \<and>
      compute_rows old new True = rev (dropWhile is_removed (rev rows))"
proof -
  let ?a = "str_lines old" and ?b = "str_lines new"
  have "longest_common ?a ?b (cell ?a ?b (length ?a) (length ?b))"
    using lcs_longest [of ?a ?b] by (simp add: cell_def)
  then show ?thesis
    using backtrack_exact [of "length ?a" ?a "length ?b" ?b] by (simp add: compute_rows_def Let_def)
qed

end
