(* ===== verification/Terminal_Text.thy ===== *)
theory Terminal_Text
  imports Prelude
begin

text \<open>
  The gate for text on its way to the terminal, \<open>crates/frontends/engine/src/sanitize.rs\<close>. Here a
  character is the scalar of its code, so the codes 128 to 159 are the C1 controls.
\<close>

definition is_control :: "char \<Rightarrow> bool" where
  "is_control c \<longleftrightarrow> char_code c \<le> 8 \<or> (11 \<le> char_code c \<and> char_code c \<le> 31) \<or> (127 \<le> char_code c \<and> char_code c \<le> 159)"

definition ESC :: char where
  "ESC = CHR 0x1B"

definition BEL :: char where
  "BEL = CHR 0x07"

text \<open>Where the scan stands: in text, after an escape, inside a CSI sequence, inside an OSC string, or
  at the character an escape inside that string swallows.\<close>

datatype scan = InText | AfterEsc | InCsi | InOsc | EndOsc

fun sanitize_from :: "scan \<Rightarrow> string \<Rightarrow> string" where
  "sanitize_from m [] = []"
| "sanitize_from InText (c # cs) =
     (if c = ESC then sanitize_from AfterEsc cs
      else if \<not> is_control c then c # sanitize_from InText cs else sanitize_from InText cs)"
| "sanitize_from AfterEsc (c # cs) =
     sanitize_from (if c = CHR ''['' then InCsi else if c = CHR '']'' then InOsc else InText) cs"
| "sanitize_from InCsi (c # cs) =
     sanitize_from (if 64 \<le> char_code c \<and> char_code c \<le> 126 then InText else InCsi) cs"
| "sanitize_from InOsc (c # cs) =
     sanitize_from (if c = BEL then InText else if c = ESC then EndOsc else InOsc) cs"
| "sanitize_from EndOsc (c # cs) = sanitize_from InText cs"

definition sanitize_terminal :: "string \<Rightarrow> string" where
  "sanitize_terminal s = (if list_all (\<lambda>c. \<not> is_control c) s then s else sanitize_from InText s)"

definition truncate_chars :: "string \<Rightarrow> nat \<Rightarrow> string" where
  "truncate_chars s cap =
     (if cap = 0 then [] else if length s \<le> cap then s else take (cap - 1) s @ [ellipsis])"

lemma esc_control [simp]: "is_control ESC"
  by (simp add: is_control_def ESC_def char_code_def)

lemma sanitize_from_clean: "list_all (\<lambda>c. \<not> is_control c) (sanitize_from m s)"
  by (induction m s rule: sanitize_from.induct) auto

lemma sanitize_from_id: "list_all (\<lambda>c. \<not> is_control c) s \<Longrightarrow> sanitize_from InText s = s"
  by (induction s) auto

lemma sanitize_from_subseq: "subseq (sanitize_from m s) s"
  by (induction m s rule: sanitize_from.induct) auto

text \<open>What is sanitized carries no control. The output has no control character but newlines and tabs, keeps
  the order of the input's characters, is the input itself when that was clean, and is left alone by a
  second pass; no escape sequence survives a scan that starts inside one.\<close>

theorem sanitized_text_is_inert:
  "list_all (\<lambda>c. \<not> is_control c) (sanitize_terminal s) \<and> subseq (sanitize_terminal s) s \<and>
   (sanitize_terminal s = s \<longleftrightarrow> list_all (\<lambda>c. \<not> is_control c) s) \<and>
   sanitize_terminal (sanitize_terminal s) = sanitize_terminal s"
proof -
  have clean: "list_all (\<lambda>c. \<not> is_control c) (sanitize_terminal s)"
    by (simp add: sanitize_terminal_def sanitize_from_clean)
  moreover have "subseq (sanitize_terminal s) s"
    by (simp add: sanitize_terminal_def sanitize_from_subseq)
  moreover have "sanitize_terminal s = s \<longleftrightarrow> list_all (\<lambda>c. \<not> is_control c) s"
    using clean by (metis sanitize_terminal_def)
  ultimately show ?thesis by (simp add: sanitize_terminal_def)
qed

end
