(* ===== verification/Editor.thy ===== *)
theory Editor
  imports Terminal_Text
begin

text \<open>
  The input editor, \<open>crates/frontends/engine/src/editor.rs\<close>, with the trigger detection and the popup
  of \<open>autocomplete.rs\<close> and the selection of \<open>select_list.rs\<close>. In the text model of this
  development every character of a line is its own grapheme cluster, so columns and offsets count
  characters; the display width of a character and the completion provider are parameters. Painting is
  not modelled; the wrap, the vertical movement and the scroll window are.
\<close>

fun find_index :: "('a \<Rightarrow> bool) \<Rightarrow> 'a list \<Rightarrow> nat option" where
  "find_index P [] = None"
| "find_index P (x # xs) = (if P x then Some 0 else map_option Suc (find_index P xs))"

section \<open>Completion\<close>

record completion =
  cp_label :: string
  cp_description :: "string option"
  cp_insert :: string

datatype trigger_kind = SlashTrigger | MentionTrigger

record trigger =
  tg_start :: nat
  tg_token :: string
  tg_kind :: trigger_kind

type_synonym provider = "trigger_kind \<Rightarrow> string \<Rightarrow> completion list"

definition ascii_ws :: "char \<Rightarrow> bool" where
  "ascii_ws c \<longleftrightarrow> char_code c \<in> {9, 10, 12, 13, 32}"

fun trigger_char :: "trigger_kind \<Rightarrow> char" where
  "trigger_char SlashTrigger = CHR ''/''"
| "trigger_char MentionTrigger = CHR ''@''"

text \<open>Back from the cursor to the trigger, across no white space.\<close>

fun scan_trigger :: "string \<Rightarrow> char \<Rightarrow> nat \<Rightarrow> nat option" where
  "scan_trigger line ch 0 = None"
| "scan_trigger line ch (Suc i) =
     (if line ! i = ch then (if i = 0 \<or> ascii_ws (line ! (i - 1)) then Some i else None)
      else if ascii_ws (line ! i) then None
      else scan_trigger line ch i)"

definition detect_trigger :: "string \<Rightarrow> nat \<Rightarrow> trigger_kind \<Rightarrow> trigger option" where
  "detect_trigger line cursor kind =
     (let cursor = min cursor (length line)
      in case scan_trigger line (trigger_char kind) cursor of
           None \<Rightarrow> None
         | Some start \<Rightarrow>
             if start = cursor then None
             else let token = take (cursor - (start + 1)) (drop (start + 1) line)
                  in if contains token '' '' then None
                     else Some \<lparr>tg_start = start, tg_token = token, tg_kind = kind\<rparr>)"

record popup =
  pp_completions :: "completion list"
  pp_selected :: nat

definition popup_update :: "provider \<Rightarrow> trigger option \<Rightarrow> popup \<Rightarrow> popup" where
  "popup_update pv t p =
     (let cs = (case t of None \<Rightarrow> [] | Some t \<Rightarrow> pv (tg_kind t) (tg_token t))
      in \<lparr>pp_completions = cs, pp_selected = min (pp_selected p) (length cs - 1)\<rparr>)"

definition select_previous :: "popup \<Rightarrow> popup" where
  "select_previous p =
     (if pp_completions p = [] then p
      else p\<lparr>pp_selected := (if pp_selected p = 0 then length (pp_completions p) - 1 else pp_selected p - 1)\<rparr>)"

definition select_next :: "popup \<Rightarrow> popup" where
  "select_next p =
     (if pp_completions p = [] then p
      else p\<lparr>pp_selected := (pp_selected p + 1) mod length (pp_completions p)\<rparr>)"

definition selected_completion :: "popup \<Rightarrow> completion option" where
  "selected_completion p =
     (if pp_selected p < length (pp_completions p) then Some (pp_completions p ! pp_selected p) else None)"

section \<open>State\<close>

record input_history =
  hs_entries :: "string list"
  hs_position :: "nat option"
  hs_draft :: "string option"
  hs_cap :: nat

definition DEFAULT_HISTORY_CAP :: nat where
  "DEFAULT_HISTORY_CAP = 100"

definition effective_cap :: "input_history \<Rightarrow> nat" where
  "effective_cap h = (if hs_cap h = 0 then DEFAULT_HISTORY_CAP else hs_cap h)"

record paste_marker =
  pm_id :: nat
  pm_text :: string
  pm_lines :: nat

record yank_record =
  yr_row :: nat
  yr_col :: nat
  yr_index :: nat

datatype editor_action = Handled | Passthrough | Submit string

record editor =
  ed_lines :: "string list"
  ed_row :: nat
  ed_col :: nat
  ed_goal :: "nat option"
  ed_width :: nat
  ed_history :: input_history
  ed_undo :: "(string list \<times> nat \<times> nat) list"
  ed_ring :: "string list"
  ed_kill_pos :: "(nat \<times> nat) option"
  ed_yank :: "yank_record option"
  ed_markers :: "paste_marker list"
  ed_next_id :: nat
  ed_popup :: popup
  ed_trigger :: "trigger option"

definition editor_new :: editor where
  "editor_new =
     \<lparr>ed_lines = [[]], ed_row = 0, ed_col = 0, ed_goal = None, ed_width = 40,
      ed_history = \<lparr>hs_entries = [], hs_position = None, hs_draft = None, hs_cap = DEFAULT_HISTORY_CAP\<rparr>,
      ed_undo = [], ed_ring = [], ed_kill_pos = None, ed_yank = None, ed_markers = [], ed_next_id = 1,
      ed_popup = \<lparr>pp_completions = [], pp_selected = 0\<rparr>, ed_trigger = None\<rparr>"

definition cursor_line :: "editor \<Rightarrow> string" where
  "cursor_line e = (if ed_row e < length (ed_lines e) then ed_lines e ! ed_row e else [])"

definition set_line :: "string \<Rightarrow> editor \<Rightarrow> editor" where
  "set_line l e = e\<lparr>ed_lines := (ed_lines e)[ed_row e := l]\<rparr>"

definition editor_text :: "editor \<Rightarrow> string" where
  "editor_text e = join [newline] (ed_lines e)"

definition editor_is_empty :: "editor \<Rightarrow> bool" where
  "editor_is_empty e \<longleftrightarrow> ed_lines e = [[]]"

text \<open>The popup from the buffer. A slash counts on the first line, a mention on any.\<close>

definition refresh_popup :: "provider option \<Rightarrow> editor \<Rightarrow> editor" where
  "refresh_popup pv e =
     (case pv of
        None \<Rightarrow> e\<lparr>ed_trigger := None\<rparr>
      | Some pv \<Rightarrow>
          let slash = (if ed_row e = 0 then detect_trigger (cursor_line e) (ed_col e) SlashTrigger else None);
              mention = detect_trigger (cursor_line e) (ed_col e) MentionTrigger;
              t = (case slash of Some _ \<Rightarrow> slash | None \<Rightarrow> mention);
              p = popup_update pv t (ed_popup e)
          in e\<lparr>ed_popup := p, ed_trigger := (if pp_completions p = [] then None else t)\<rparr>)"

definition set_text :: "provider option \<Rightarrow> string \<Rightarrow> editor \<Rightarrow> editor" where
  "set_text pv s e =
     (let ls = split_on (\<lambda>c. c = newline) s
      in refresh_popup pv (e\<lparr>ed_lines := ls, ed_row := length ls - 1, ed_col := length (last ls), ed_goal := None\<rparr>))"

definition editor_clear :: "provider option \<Rightarrow> editor \<Rightarrow> editor" where
  "editor_clear pv e =
     (let e' = set_text pv [] e in e'\<lparr>ed_history := (ed_history e')\<lparr>hs_draft := None\<rparr>\<rparr>)"

section \<open>History\<close>

definition remember :: "string \<Rightarrow> input_history \<Rightarrow> input_history" where
  "remember entry h =
     (if hs_entries h \<noteq> [] \<and> hd (hs_entries h) = entry then h
      else h\<lparr>hs_entries := take (effective_cap h) (entry # hs_entries h), hs_position := None, hs_draft := None\<rparr>)"

definition set_history_cap :: "nat \<Rightarrow> editor \<Rightarrow> editor" where
  "set_history_cap cap e =
     (let h = (ed_history e)\<lparr>hs_cap := cap\<rparr>
      in e\<lparr>ed_history := h\<lparr>hs_entries := take (effective_cap h) (hs_entries h)\<rparr>\<rparr>)"

definition load_history :: "string list \<Rightarrow> editor \<Rightarrow> editor" where
  "load_history es e =
     e\<lparr>ed_history := (ed_history e)
         \<lparr>hs_entries := take (effective_cap (ed_history e)) (rev es), hs_position := None, hs_draft := None\<rparr>\<rparr>"

definition history_entries :: "editor \<Rightarrow> string list" where
  "history_entries e = rev (hs_entries (ed_history e))"

definition history_previous :: "provider option \<Rightarrow> editor \<Rightarrow> bool \<times> editor" where
  "history_previous pv e =
     (let h = ed_history e
      in if hs_entries h = [] then (False, e)
         else
           let k = (case hs_position h of Some p \<Rightarrow> min (p + 1) (length (hs_entries h) - 1) | None \<Rightarrow> 0);
               h' = (case hs_position h of Some _ \<Rightarrow> h | None \<Rightarrow> h\<lparr>hs_draft := Some (editor_text e)\<rparr>)
           in (True, set_text pv (hs_entries h ! k) (e\<lparr>ed_history := h'\<lparr>hs_position := Some k\<rparr>\<rparr>)))"

definition history_next :: "provider option \<Rightarrow> editor \<Rightarrow> bool \<times> editor" where
  "history_next pv e =
     (let h = ed_history e
      in case hs_position h of
           None \<Rightarrow> (False, e)
         | Some 0 \<Rightarrow>
             (case hs_draft h of
                Some draft \<Rightarrow> (True, set_text pv draft (e\<lparr>ed_history := h\<lparr>hs_draft := None, hs_position := None\<rparr>\<rparr>))
              | None \<Rightarrow> (False, e))
         | Some (Suc p) \<Rightarrow>
             (True, set_text pv (hs_entries h ! p) (e\<lparr>ed_history := h\<lparr>hs_position := Some p\<rparr>\<rparr>)))"

section \<open>Undo\<close>

definition undo_push :: "editor \<Rightarrow> editor" where
  "undo_push e =
     (let u = ed_undo e @ [(ed_lines e, ed_row e, ed_col e)]
      in e\<lparr>ed_yank := None, ed_undo := (if 100 < length u then tl u else u)\<rparr>)"

definition undo_pop :: "editor \<Rightarrow> editor" where
  "undo_pop e =
     (if ed_undo e = [] then e
      else case last (ed_undo e) of (ls, r, c) \<Rightarrow>
        let r' = min r (length ls - 1)
        in e\<lparr>ed_undo := butlast (ed_undo e), ed_lines := ls, ed_row := r', ed_col := min c (length (ls ! r'))\<rparr>)"

section \<open>Mutation\<close>

definition insert_fragment :: "string \<Rightarrow> editor \<Rightarrow> editor" where
  "insert_fragment f e =
     (set_line (take (ed_col e) (cursor_line e) @ f @ drop (ed_col e) (cursor_line e)) e)
       \<lparr>ed_col := ed_col e + length f\<rparr>"

definition split_at_cursor :: "editor \<Rightarrow> editor" where
  "split_at_cursor e =
     e\<lparr>ed_lines := take (ed_row e) (ed_lines e) @
                   [take (ed_col e) (cursor_line e), drop (ed_col e) (cursor_line e)] @ drop (ed_row e + 1) (ed_lines e),
       ed_row := ed_row e + 1, ed_col := 0\<rparr>"

definition insert_text :: "provider option \<Rightarrow> string \<Rightarrow> editor \<Rightarrow> editor" where
  "insert_text pv s e =
     (let fs = split_on (\<lambda>c. c = newline) s;
          e1 = fold (\<lambda>f e. insert_fragment f (split_at_cursor e)) (tl fs) (insert_fragment (hd fs) (undo_push e))
      in refresh_popup pv (e1\<lparr>ed_goal := None\<rparr>))"

definition join_with_next :: "editor \<Rightarrow> editor" where
  "join_with_next e =
     (if length (ed_lines e) \<le> ed_row e + 1 then e
      else e\<lparr>ed_lines := take (ed_row e) (ed_lines e) @ [cursor_line e @ ed_lines e ! (ed_row e + 1)] @ drop (ed_row e + 2) (ed_lines e),
             ed_col := length (cursor_line e)\<rparr>)"

definition marker_short :: "paste_marker \<Rightarrow> string" where
  "marker_short m = ''[paste #'' @ show_nat (pm_id m) @ '' +'' @ show_nat (pm_lines m - 1) @ '' lines]''"

definition marker_wide :: "paste_marker \<Rightarrow> string" where
  "marker_wide m = ''[paste #'' @ show_nat (pm_id m) @ '' '' @ show_nat (length (pm_text m)) @ '' chars]''"

definition insert_paste :: "provider option \<Rightarrow> string \<Rightarrow> editor \<Rightarrow> editor" where
  "insert_paste pv s e =
     (let t = sanitize_terminal (concat (map (\<lambda>c. if c = CHR 0x09 then ''    '' else [c]) s));
          n = length (split_on (\<lambda>c. c = newline) t)
      in if 10 < n \<or> 1000 < length t
         then
           let e1 = undo_push e; m = \<lparr>pm_id = ed_next_id e, pm_text = t, pm_lines = n\<rparr>
           in insert_text pv (if 10 < n then marker_short m else marker_wide m)
                (e1\<lparr>ed_next_id := ed_next_id e + 1, ed_markers := ed_markers e @ [m]\<rparr>)
         else insert_text pv t e)"

text \<open>\<open>str::replace\<close> of a nonempty pattern.\<close>

function replace_all :: "string \<Rightarrow> string \<Rightarrow> string \<Rightarrow> string" where
  "replace_all p q s =
     (if p = [] then s
      else (case find_str p s of None \<Rightarrow> s | Some i \<Rightarrow> take i s @ q @ replace_all p q (drop (i + length p) s)))"
  by auto
termination
proof (relation "measure (\<lambda>(p, q, s). length s)", simp, clarsimp)
  fix p s :: string and i
  assume "p \<noteq> []" and "find_str p s = Some i"
  then show "length s - (i + length p) < length s"
    using find_str_prefix [of p s i] by (cases s) (auto simp: prefix_def)
qed

declare replace_all.simps [simp del]

definition expand_marker :: "paste_marker \<Rightarrow> string \<Rightarrow> string" where
  "expand_marker m out =
     (if contains out (marker_short m) then replace_all (marker_short m) (pm_text m) out
      else if contains out (marker_wide m) then replace_all (marker_wide m) (pm_text m) out
      else out)"

definition expand_markers :: "editor \<Rightarrow> string \<Rightarrow> string" where
  "expand_markers e s = fold expand_marker (ed_markers e) s"

definition marker_before_cursor :: "editor \<Rightarrow> string option" where
  "marker_before_cursor e =
     (let h = take (ed_col e) (cursor_line e)
      in find_map (\<lambda>m. if ends_with h (marker_short m) then Some (marker_short m)
                       else if ends_with h (marker_wide m) then Some (marker_wide m) else None) (ed_markers e))"

definition backspace :: "editor \<Rightarrow> editor" where
  "backspace e =
     (if 0 < ed_col e then
        (case marker_before_cursor e of
           Some m \<Rightarrow>
             (let k = min (ed_col e) (length (cursor_line e))
              in (set_line (take (k - length m) (cursor_line e) @ drop k (cursor_line e)) (undo_push e))
                   \<lparr>ed_col := ed_col e - length m\<rparr>)
         | None \<Rightarrow>
             (set_line (take (ed_col e - 1) (cursor_line e) @ drop (ed_col e) (cursor_line e)) (undo_push e))
               \<lparr>ed_col := ed_col e - 1\<rparr>)
      else if 0 < ed_row e then
        (let above = ed_lines e ! (ed_row e - 1)
         in (undo_push e)
              \<lparr>ed_lines := take (ed_row e - 1) (ed_lines e) @ [above @ cursor_line e] @ drop (ed_row e + 1) (ed_lines e),
               ed_row := ed_row e - 1, ed_col := length above\<rparr>)
      else e)"

definition delete_forward :: "editor \<Rightarrow> editor" where
  "delete_forward e =
     (if ed_col e < length (cursor_line e)
      then set_line (take (ed_col e) (cursor_line e) @ drop (ed_col e + 1) (cursor_line e)) (undo_push e)
      else if ed_row e + 1 < length (ed_lines e) then join_with_next (undo_push e)
      else e)"

section \<open>Kill ring\<close>

definition kill_push :: "string \<Rightarrow> bool \<Rightarrow> nat \<times> nat \<Rightarrow> editor \<Rightarrow> editor" where
  "kill_push s forward at e =
     (let ring =
        (if s = [] then ed_ring e
         else if ed_kill_pos e = Some at \<and> ed_ring e \<noteq> []
         then (if forward then hd (ed_ring e) @ s else s @ hd (ed_ring e)) # tl (ed_ring e)
         else take 32 (s # ed_ring e))
      in e\<lparr>ed_ring := ring, ed_kill_pos := Some (ed_row e, ed_col e)\<rparr>)"

definition kill_to_line_end :: "provider option \<Rightarrow> editor \<Rightarrow> editor" where
  "kill_to_line_end pv e =
     (if length (cursor_line e) \<le> ed_col e then e
      else refresh_popup pv
             (kill_push (drop (ed_col e) (cursor_line e)) True (ed_row e, ed_col e)
                (set_line (take (ed_col e) (cursor_line e)) (undo_push e))))"

definition kill_to_line_start :: "provider option \<Rightarrow> editor \<Rightarrow> editor" where
  "kill_to_line_start pv e =
     (if ed_col e = 0 then e
      else refresh_popup pv
             (kill_push (take (ed_col e) (cursor_line e)) False (ed_row e, ed_col e)
                ((set_line (drop (ed_col e) (cursor_line e)) (undo_push e))\<lparr>ed_col := 0\<rparr>)))"

text \<open>How far back, or forward, a predicate holds.\<close>

fun back_while :: "(char \<Rightarrow> bool) \<Rightarrow> string \<Rightarrow> nat \<Rightarrow> nat" where
  "back_while P l 0 = 0"
| "back_while P l (Suc n) = (if P (l ! n) then back_while P l n else Suc n)"

definition forward_while :: "(char \<Rightarrow> bool) \<Rightarrow> string \<Rightarrow> nat \<Rightarrow> nat" where
  "forward_while P l n = n + length (takeWhile P (drop n l))"

definition word_left :: "string \<Rightarrow> nat \<Rightarrow> nat" where
  "word_left l n = back_while (\<lambda>c. c \<noteq> CHR '' '') l (back_while (\<lambda>c. c = CHR '' '') l n)"

definition word_right :: "string \<Rightarrow> nat \<Rightarrow> nat" where
  "word_right l n = forward_while (\<lambda>c. c \<noteq> CHR '' '') l (forward_while (\<lambda>c. c = CHR '' '') l n)"

definition kill_word_back :: "provider option \<Rightarrow> editor \<Rightarrow> editor" where
  "kill_word_back pv e =
     (if ed_col e = 0 then backspace e
      else
        let start = word_left (cursor_line e) (ed_col e)
        in refresh_popup pv
             (kill_push (take (ed_col e - start) (drop start (cursor_line e))) False (ed_row e, ed_col e)
                ((set_line (take start (cursor_line e) @ drop (ed_col e) (cursor_line e)) (undo_push e))\<lparr>ed_col := start\<rparr>)))"

definition yank :: "provider option \<Rightarrow> editor \<Rightarrow> editor" where
  "yank pv e =
     (if ed_ring e = [] \<or> hd (ed_ring e) = [] then e
      else (insert_text pv (hd (ed_ring e)) e)
             \<lparr>ed_yank := Some \<lparr>yr_row = ed_row e, yr_col = ed_col e, yr_index = 0\<rparr>\<rparr>)"

definition yank_pop :: "provider option \<Rightarrow> editor \<Rightarrow> editor" where
  "yank_pop pv e =
     (case ed_yank e of
        None \<Rightarrow> e
      | Some r \<Rightarrow>
          if length (ed_ring e) \<le> yr_index r then e\<lparr>ed_yank := None\<rparr>
          else if \<not> (ed_row e = yr_row r \<and> yr_col r \<le> ed_col e \<and>
                    take (ed_col e - yr_col r) (drop (yr_col r) (cursor_line e)) = ed_ring e ! yr_index r)
          then e\<lparr>ed_yank := None\<rparr>
          else
            let k = (yr_index r + 1) mod length (ed_ring e); s = ed_ring e ! k
            in refresh_popup pv
                 ((set_line (take (yr_col r) (cursor_line e) @ s @ drop (ed_col e) (cursor_line e)) (undo_push e))
                    \<lparr>ed_col := yr_col r + length s,
                     ed_yank := Some \<lparr>yr_row = ed_row e, yr_col = yr_col r, yr_index = k\<rparr>\<rparr>))"

section \<open>Wrap and movement\<close>

record visual_row =
  vr_text :: string
  vr_line :: nat
  vr_start :: nat
  vr_end :: nat

text \<open>The rows of one line from a position on; a space at a break is dropped.\<close>

fun wrap_from :: "(char \<Rightarrow> nat) \<Rightarrow> nat \<Rightarrow> nat \<Rightarrow> string \<Rightarrow> nat \<Rightarrow> string \<Rightarrow> nat \<Rightarrow> nat \<Rightarrow> visual_row list" where
  "wrap_from cw budget n [] index current used row_start =
     (if current \<noteq> [] \<or> row_start = index
      then [\<lparr>vr_text = current, vr_line = n, vr_start = row_start, vr_end = index\<rparr>] else [])"
| "wrap_from cw budget n (g # gs) index current used row_start =
     (if budget < used + cw g \<and> 0 < used
      then \<lparr>vr_text = current, vr_line = n, vr_start = row_start, vr_end = index\<rparr> #
           (if g = CHR '' '' then wrap_from cw budget n gs (index + 1) [] 0 (index + 1)
            else wrap_from cw budget n gs (index + 1) [g] (cw g) index)
      else wrap_from cw budget n gs (index + 1) (current @ [g]) (used + cw g) row_start)"

definition build_visual :: "(char \<Rightarrow> nat) \<Rightarrow> nat \<Rightarrow> string list \<Rightarrow> visual_row list" where
  "build_visual cw budget ls = concat (map (\<lambda>(n, l). wrap_from cw budget n l 0 [] 0 0) (enumerate 0 ls))"

definition holds_cursor :: "editor \<Rightarrow> visual_row \<Rightarrow> bool" where
  "holds_cursor e r \<longleftrightarrow>
     vr_line r = ed_row e \<and> vr_start r \<le> ed_col e \<and>
     (ed_col e < vr_end r \<or>
      (ed_col e = vr_end r \<and> vr_end r < length (cursor_line e) \<and> cursor_line e ! vr_end r = CHR '' ''))"

definition cursor_row_index :: "visual_row list \<Rightarrow> editor \<Rightarrow> nat" where
  "cursor_row_index rows e =
     (case find_index (holds_cursor e) rows of
        Some k \<Rightarrow> k
      | None \<Rightarrow>
          (case find_index (\<lambda>r. vr_line r = ed_row e) (rev rows) of
             Some k \<Rightarrow> length rows - 1 - k
           | None \<Rightarrow> 0))"

definition cursor_visual_col :: "(char \<Rightarrow> nat) \<Rightarrow> visual_row list \<Rightarrow> editor \<Rightarrow> nat" where
  "cursor_visual_col cw rows e =
     (let r = rows ! cursor_row_index rows e
      in sum_list (map cw (take (ed_col e - vr_start r) (drop (vr_start r) (ed_lines e ! vr_line r)))))"

text \<open>The column whose characters from the start of the row reach the goal.\<close>

fun col_from :: "(char \<Rightarrow> nat) \<Rightarrow> string \<Rightarrow> nat \<Rightarrow> nat \<Rightarrow> nat \<Rightarrow> nat" where
  "col_from cw [] col used goal = col"
| "col_from cw (g # gs) col used goal = (if goal \<le> used then col else col_from cw gs (col + 1) (used + cw g) goal)"

definition col_at_visual_col :: "(char \<Rightarrow> nat) \<Rightarrow> string \<Rightarrow> nat \<Rightarrow> nat \<Rightarrow> nat" where
  "col_at_visual_col cw l from goal =
     (if from \<le> length l then col_from cw (drop from l) from 0 goal else length l)"

definition move_to_visual_row :: "(char \<Rightarrow> nat) \<Rightarrow> visual_row list \<Rightarrow> nat \<Rightarrow> editor \<Rightarrow> editor" where
  "move_to_visual_row cw rows target e =
     (let goal = (case ed_goal e of Some g \<Rightarrow> g | None \<Rightarrow> cursor_visual_col cw rows e); r = rows ! target
      in e\<lparr>ed_goal := Some goal, ed_row := vr_line r,
           ed_col := col_at_visual_col cw (ed_lines e ! vr_line r) (vr_start r) goal\<rparr>)"

definition visual_rows :: "(char \<Rightarrow> nat) \<Rightarrow> editor \<Rightarrow> visual_row list" where
  "visual_rows cw e = build_visual cw (max 1 (ed_width e)) (ed_lines e)"

definition move_up :: "(char \<Rightarrow> nat) \<Rightarrow> editor \<Rightarrow> bool \<times> editor" where
  "move_up cw e =
     (let rows = visual_rows cw e; k = cursor_row_index rows e
      in if k = 0 then (False, e) else (True, move_to_visual_row cw rows (k - 1) e))"

definition move_down :: "(char \<Rightarrow> nat) \<Rightarrow> editor \<Rightarrow> bool \<times> editor" where
  "move_down cw e =
     (let rows = visual_rows cw e; k = cursor_row_index rows e
      in if length rows \<le> k + 1 then (False, e) else (True, move_to_visual_row cw rows (k + 1) e))"

definition move_left :: "editor \<Rightarrow> editor" where
  "move_left e =
     (if 0 < ed_col e then e\<lparr>ed_goal := None, ed_col := ed_col e - 1\<rparr>
      else if 0 < ed_row e
      then e\<lparr>ed_goal := None, ed_row := ed_row e - 1, ed_col := length (ed_lines e ! (ed_row e - 1))\<rparr>
      else e\<lparr>ed_goal := None\<rparr>)"

definition move_right :: "editor \<Rightarrow> editor" where
  "move_right e =
     (if ed_col e < length (cursor_line e) then e\<lparr>ed_goal := None, ed_col := ed_col e + 1\<rparr>
      else if ed_row e + 1 < length (ed_lines e) then e\<lparr>ed_goal := None, ed_row := ed_row e + 1, ed_col := 0\<rparr>
      else e\<lparr>ed_goal := None\<rparr>)"

definition move_word_left :: "editor \<Rightarrow> editor" where
  "move_word_left e =
     (if ed_col e = 0 then move_left e else e\<lparr>ed_col := word_left (cursor_line e) (ed_col e)\<rparr>)"

definition move_word_right :: "editor \<Rightarrow> editor" where
  "move_word_right e =
     (if length (cursor_line e) \<le> ed_col e then move_right e else e\<lparr>ed_col := word_right (cursor_line e) (ed_col e)\<rparr>)"

text \<open>The rows of the frame that are shown, of so many rows with the cursor on one of them.\<close>

definition scroll_window :: "bool \<Rightarrow> nat \<Rightarrow> nat \<Rightarrow> nat \<Rightarrow> nat \<times> nat" where
  "scroll_window is_empty terminal_rows n cursor =
     (let cap = (if is_empty then max 5 (terminal_rows * 3 div 10) else max (terminal_rows * 5 div 10) 8);
          visible = min n cap;
          start = (if visible \<le> cursor then min (cursor + 1 - visible) (n - visible) else 0)
      in (start, min (start + visible) n))"

section \<open>Completion, submit and keys\<close>

definition close_popup :: "editor \<Rightarrow> editor" where
  "close_popup e = e\<lparr>ed_trigger := None\<rparr>"

definition accept_completion :: "provider option \<Rightarrow> editor \<Rightarrow> editor" where
  "accept_completion pv e =
     (case ed_trigger e of
        None \<Rightarrow> e
      | Some t \<Rightarrow>
          if ed_col e < tg_start t then close_popup e
          else
            (case selected_completion (ed_popup e) of
               None \<Rightarrow> e
             | Some cp \<Rightarrow>
                 refresh_popup pv
                   ((set_line (take (tg_start t) (cursor_line e) @ cp_insert cp @ drop (ed_col e) (cursor_line e)) e)
                      \<lparr>ed_col := tg_start t + length (cp_insert cp)\<rparr>)))"

definition submit :: "provider option \<Rightarrow> editor \<Rightarrow> editor_action \<times> editor" where
  "submit pv e =
     (if editor_is_empty e then (Passthrough, e)
      else let expanded = expand_markers e (editor_text e)
           in (Submit expanded,
               (set_text pv [] (e\<lparr>ed_history := remember expanded (ed_history e)\<rparr>))\<lparr>ed_markers := []\<rparr>))"

datatype key =
    KChar char | KEnter | KTab | KBackspace | KDelete | KEsc | KLeft | KRight | KUp | KDown
  | KHome | KEnd | KPageUp | KPageDown | KInsert | KF nat | KOther

record mods =
  md_ctrl :: bool
  md_alt :: bool
  md_shift :: bool

definition no_mods :: mods where
  "no_mods = \<lparr>md_ctrl = False, md_alt = False, md_shift = False\<rparr>"

definition popup_key :: "provider option \<Rightarrow> key \<Rightarrow> mods \<Rightarrow> editor \<Rightarrow> (editor_action \<times> editor) option" where
  "popup_key pv k m e =
     (if ed_trigger e = None then None
      else case k of
        KUp \<Rightarrow> Some (Handled, e\<lparr>ed_popup := select_previous (ed_popup e)\<rparr>)
      | KDown \<Rightarrow> Some (Handled, e\<lparr>ed_popup := select_next (ed_popup e)\<rparr>)
      | KEsc \<Rightarrow> Some (Handled, close_popup e)
      | KTab \<Rightarrow> Some (Handled, accept_completion pv e)
      | KEnter \<Rightarrow> if md_shift m \<or> md_ctrl m then None else Some (submit pv (accept_completion pv e))
      | _ \<Rightarrow> None)"

definition kill_ring_key :: "provider option \<Rightarrow> key \<Rightarrow> mods \<Rightarrow> editor \<Rightarrow> (editor_action \<times> editor) option" where
  "kill_ring_key pv k m e =
     (if k = KChar CHR ''u'' \<and> md_ctrl m then Some (Handled, kill_to_line_start pv e)
      else if k = KChar CHR ''k'' \<and> md_ctrl m then Some (Handled, kill_to_line_end pv e)
      else if k = KChar CHR ''w'' \<and> md_ctrl m then Some (Handled, kill_word_back pv e)
      else if k = KChar CHR ''y'' \<and> md_ctrl m then Some (Handled, yank pv e)
      else if k = KChar CHR ''y'' \<and> md_alt m then Some (Handled, yank_pop pv e)
      else None)"

definition to_col :: "provider option \<Rightarrow> nat \<Rightarrow> editor \<Rightarrow> editor" where
  "to_col pv c e = refresh_popup pv (e\<lparr>ed_goal := None, ed_col := c\<rparr>)"

definition break_line :: "provider option \<Rightarrow> editor \<Rightarrow> editor" where
  "break_line pv e = refresh_popup pv (split_at_cursor (undo_push e))"

definition backslash_break :: "provider option \<Rightarrow> editor \<Rightarrow> editor" where
  "backslash_break pv e =
     refresh_popup pv (split_at_cursor
       ((set_line (take (ed_col e - 1) (cursor_line e) @ drop (ed_col e) (cursor_line e)) (undo_push e))
          \<lparr>ed_col := ed_col e - 1\<rparr>))"

definition vertical :: "provider option \<Rightarrow> bool \<times> editor \<Rightarrow> editor_action \<times> editor" where
  "vertical pv r =
     (case r of (moved, e) \<Rightarrow> if moved then (Handled, refresh_popup pv e) else (Passthrough, e\<lparr>ed_goal := None\<rparr>))"

text \<open>The keys in the order of the code's match: the popup, the kill ring, then the rest.\<close>

definition edit_key :: "provider option \<Rightarrow> (char \<Rightarrow> nat) \<Rightarrow> key \<Rightarrow> mods \<Rightarrow> editor \<Rightarrow> editor_action \<times> editor" where
  "edit_key pv cw k m e =
     (case k of
        KEnter \<Rightarrow>
          if md_ctrl m \<or> md_shift m then (Handled, break_line pv e)
          else if 0 < ed_col e \<and> ed_col e \<le> length (cursor_line e) \<and> cursor_line e ! (ed_col e - 1) = CHR 0x5C
          then (Handled, backslash_break pv e)
          else submit pv e
      | KTab \<Rightarrow> (Handled, e)
      | KBackspace \<Rightarrow> (Handled, if md_alt m then kill_word_back pv e else refresh_popup pv (backspace e))
      | KDelete \<Rightarrow> (Handled, refresh_popup pv (delete_forward e))
      | KLeft \<Rightarrow>
          (Handled, refresh_popup pv (if md_ctrl m \<or> md_alt m then move_word_left (e\<lparr>ed_goal := None\<rparr>) else move_left e))
      | KRight \<Rightarrow>
          (Handled, refresh_popup pv (if md_ctrl m \<or> md_alt m then move_word_right (e\<lparr>ed_goal := None\<rparr>) else move_right e))
      | KUp \<Rightarrow> vertical pv (move_up cw e)
      | KDown \<Rightarrow> vertical pv (move_down cw e)
      | KHome \<Rightarrow> (Handled, to_col pv 0 e)
      | KEnd \<Rightarrow> (Handled, to_col pv (length (cursor_line e)) e)
      | KChar c \<Rightarrow>
          if c = CHR ''j'' \<and> md_ctrl m \<and> \<not> md_alt m then (Handled, break_line pv e)
          else if c = CHR ''b'' \<and> md_alt m \<and> \<not> md_ctrl m
          then (Handled, refresh_popup pv (move_word_left (e\<lparr>ed_goal := None\<rparr>)))
          else if c = CHR ''f'' \<and> md_alt m \<and> \<not> md_ctrl m
          then (Handled, refresh_popup pv (move_word_right (e\<lparr>ed_goal := None\<rparr>)))
          else if c = CHR ''a'' \<and> md_ctrl m then (Handled, to_col pv 0 e)
          else if c = CHR ''e'' \<and> md_ctrl m then (Handled, to_col pv (length (cursor_line e)) e)
          else if c = CHR ''-'' \<and> md_ctrl m then (Handled, refresh_popup pv (undo_pop e))
          else if \<not> md_ctrl m \<and> \<not> md_alt m then (Handled, insert_text pv [c] e)
          else (Passthrough, e)
      | _ \<Rightarrow> (Passthrough, e))"

definition handle_key :: "provider option \<Rightarrow> (char \<Rightarrow> nat) \<Rightarrow> key \<Rightarrow> mods \<Rightarrow> editor \<Rightarrow> editor_action \<times> editor" where
  "handle_key pv cw k m e =
     (case popup_key pv k m e of
        Some r \<Rightarrow> r
      | None \<Rightarrow> (case kill_ring_key pv k m e of Some r \<Rightarrow> r | None \<Rightarrow> edit_key pv cw k m e))"

text \<open>What the host does to an editor: it hands it keys, pastes, recalls history, sets, clears and inserts
  text, seeds the history after capping it, and tells it its width.\<close>

datatype editor_event =
    Press key mods | Paste string | RecallPrevious | RecallNext | SetText string | ClearText
  | InsertText string | Seed nat "string list" | Remember string | Resize nat

fun editor_step :: "provider option \<Rightarrow> (char \<Rightarrow> nat) \<Rightarrow> editor_event \<Rightarrow> editor \<Rightarrow> editor" where
  "editor_step pv cw (Press k m) e = snd (handle_key pv cw k m e)"
| "editor_step pv cw (Paste s) e = insert_paste pv s e"
| "editor_step pv cw RecallPrevious e = snd (history_previous pv e)"
| "editor_step pv cw RecallNext e = snd (history_next pv e)"
| "editor_step pv cw (SetText s) e = set_text pv s e"
| "editor_step pv cw ClearText e = editor_clear pv e"
| "editor_step pv cw (InsertText s) e = insert_text pv s e"
| "editor_step pv cw (Seed cap es) e = load_history es (set_history_cap cap e)"
| "editor_step pv cw (Remember s) e = e\<lparr>ed_history := remember s (ed_history e)\<rparr>"
| "editor_step pv cw (Resize w) e = e\<lparr>ed_width := w\<rparr>"

definition editor_run :: "provider option \<Rightarrow> (char \<Rightarrow> nat) \<Rightarrow> editor_event list \<Rightarrow> editor \<Rightarrow> editor" where
  "editor_run pv cw evs e = fold (editor_step pv cw) evs e"

section \<open>Well-formed editors\<close>

fun lines_ok :: "string list \<times> nat \<times> nat \<Rightarrow> bool" where
  "lines_ok (ls, r, c) \<longleftrightarrow> ls \<noteq> [] \<and> r < length ls \<and> c \<le> length (ls ! r)"

definition buffer :: "editor \<Rightarrow> string list \<times> nat \<times> nat" where
  "buffer e = (ed_lines e, ed_row e, ed_col e)"

definition history_ok :: "input_history \<Rightarrow> bool" where
  "history_ok h \<longleftrightarrow>
     length (hs_entries h) \<le> effective_cap h \<and> (\<forall>p. hs_position h = Some p \<longrightarrow> p < length (hs_entries h))"

definition core_ok :: "editor \<Rightarrow> bool" where
  "core_ok e \<longleftrightarrow>
     lines_ok (buffer e) \<and> list_all lines_ok (ed_undo e) \<and> length (ed_undo e) \<le> 100 \<and>
     length (ed_ring e) \<le> 32 \<and> history_ok (ed_history e)"

text \<open>An open completion popup has a candidate selected and its token starts before the cursor.\<close>

definition popup_ok :: "editor \<Rightarrow> bool" where
  "popup_ok e \<longleftrightarrow>
     (\<forall>t. ed_trigger e = Some t \<longrightarrow> tg_start t < ed_col e \<and> pp_selected (ed_popup e) < length (pp_completions (ed_popup e)))"

definition editor_ok :: "editor \<Rightarrow> bool" where
  "editor_ok e \<longleftrightarrow> core_ok e \<and> popup_ok e"

lemmas editor_frames = core_ok_def buffer_def set_line_def cursor_line_def

lemma core_buffer [intro]: "core_ok e \<Longrightarrow> lines_ok (buffer e)"
  by (simp add: core_ok_def)

lemma scan_trigger_less: "scan_trigger l ch n = Some i \<Longrightarrow> i < n"
  by (induction l ch n rule: scan_trigger.induct) (auto split: if_splits)

lemma detect_trigger_less: "detect_trigger l n k = Some t \<Longrightarrow> tg_start t < n"
  by (auto simp: detect_trigger_def Let_def split: option.splits if_splits dest: scan_trigger_less)

lemma refresh_frame [simp]:
  "ed_lines (refresh_popup pv e) = ed_lines e" "ed_row (refresh_popup pv e) = ed_row e"
  "ed_col (refresh_popup pv e) = ed_col e" "ed_undo (refresh_popup pv e) = ed_undo e"
  "ed_ring (refresh_popup pv e) = ed_ring e" "ed_history (refresh_popup pv e) = ed_history e"
  "ed_goal (refresh_popup pv e) = ed_goal e" "ed_kill_pos (refresh_popup pv e) = ed_kill_pos e"
  "ed_markers (refresh_popup pv e) = ed_markers e" "ed_yank (refresh_popup pv e) = ed_yank e"
  "ed_width (refresh_popup pv e) = ed_width e" "ed_next_id (refresh_popup pv e) = ed_next_id e"
  by (auto simp: refresh_popup_def Let_def split: option.splits)

lemma core_refresh [simp]: "core_ok (refresh_popup pv e) = core_ok e"
  by (simp add: core_ok_def buffer_def)

lemma min_last_index: "xs \<noteq> [] \<Longrightarrow> min k (length xs - Suc 0) < length xs"
  by (cases xs) auto

lemma popup_refresh [simp]: "popup_ok (refresh_popup pv e)"
  by (auto simp: min_last_index popup_ok_def refresh_popup_def Let_def popup_update_def
           split: option.splits if_splits dest!: detect_trigger_less)

lemma ok_refresh [intro]: "core_ok e \<Longrightarrow> editor_ok (refresh_popup pv e)"
  by (simp add: editor_ok_def)

lemma core_undo_push [intro]: "core_ok e \<Longrightarrow> core_ok (undo_push e)"
  by (cases "ed_undo e") (auto simp: core_ok_def undo_push_def buffer_def Let_def)

lemma undo_push_frame [simp]:
  "ed_lines (undo_push e) = ed_lines e" "ed_row (undo_push e) = ed_row e" "ed_col (undo_push e) = ed_col e"
  "cursor_line (undo_push e) = cursor_line e" "ed_ring (undo_push e) = ed_ring e"
  "ed_kill_pos (undo_push e) = ed_kill_pos e" "ed_goal (undo_push e) = ed_goal e"
  "ed_history (undo_push e) = ed_history e" "ed_trigger (undo_push e) = ed_trigger e"
  "ed_markers (undo_push e) = ed_markers e"
  by (simp_all add: undo_push_def Let_def cursor_line_def)

text \<open>An edit of the cursor's line, or of the lines, that leaves the cursor in the buffer.\<close>

lemma core_edit:
  assumes "core_ok e" and "ed_undo e' = ed_undo e" and "ed_ring e' = ed_ring e" and "ed_history e' = ed_history e"
    and "lines_ok (buffer e')"
  shows "core_ok e'"
  using assms by (simp add: core_ok_def)

lemma core_set_line:
  "core_ok e \<Longrightarrow> c \<le> length l \<Longrightarrow> core_ok ((set_line l e)\<lparr>ed_col := c\<rparr>)"
  by (rule core_edit [of e]) (auto simp: editor_frames)

lemma core_goal [simp]: "core_ok (e\<lparr>ed_goal := g\<rparr>) = core_ok e"
  by (simp add: core_ok_def buffer_def)

lemma core_col: "core_ok e \<Longrightarrow> c \<le> length (cursor_line e) \<Longrightarrow> core_ok (e\<lparr>ed_col := c\<rparr>)"
  by (rule core_edit [of e]) (auto simp: editor_frames split: if_splits)

lemma core_cursor: "core_ok e \<Longrightarrow> ed_col e \<le> length (cursor_line e) \<and> ed_row e < length (ed_lines e) \<and> ed_lines e \<noteq> []"
  by (auto simp: editor_frames)

lemma core_insert_fragment [intro]: "core_ok e \<Longrightarrow> core_ok (insert_fragment f e)"
  unfolding insert_fragment_def by (rule core_set_line) (auto dest: core_cursor)

lemma core_split [intro]: "core_ok e \<Longrightarrow> core_ok (split_at_cursor e)"
  by (rule core_edit [of e]) (auto simp: split_at_cursor_def buffer_def nth_append dest: core_cursor)

lemma core_fold_fragments:
  "core_ok e \<Longrightarrow> core_ok (fold (\<lambda>f e. insert_fragment f (split_at_cursor e)) fs e)"
  by (induction fs arbitrary: e) auto

lemma ok_insert_text [intro]: "core_ok e \<Longrightarrow> editor_ok (insert_text pv s e)"
  unfolding insert_text_def Let_def by (intro ok_refresh) (auto intro: core_fold_fragments)

lemma ok_core: "editor_ok e \<Longrightarrow> core_ok e"
  by (simp add: editor_ok_def)

lemma ok_set_text [intro]: "core_ok e \<Longrightarrow> editor_ok (set_text pv s e)"
  unfolding set_text_def Let_def
  by (intro ok_refresh) (rule core_edit [of e], auto simp: buffer_def last_conv_nth)

lemma core_history: "core_ok e \<Longrightarrow> history_ok h \<Longrightarrow> core_ok (e\<lparr>ed_history := h\<rparr>)"
  by (simp add: core_ok_def buffer_def)

lemma popup_frame:
  "popup_ok e \<Longrightarrow> ed_trigger e' = ed_trigger e \<Longrightarrow> ed_popup e' = ed_popup e \<Longrightarrow> ed_col e' = ed_col e \<Longrightarrow> popup_ok e'"
  by (simp add: popup_ok_def)

lemma history_remember [intro]: "history_ok h \<Longrightarrow> history_ok (remember s h)"
  by (auto simp: history_ok_def remember_def effective_cap_def)

lemma history_load [intro]: "core_ok e \<Longrightarrow> core_ok (load_history es (set_history_cap cap e))"
  by (auto simp: load_history_def history_ok_def effective_cap_def set_history_cap_def Let_def core_ok_def buffer_def)

lemma ok_history_previous: "editor_ok e \<Longrightarrow> editor_ok (snd (history_previous pv e))"
  by (auto simp: history_previous_def Let_def history_ok_def effective_cap_def dest!: ok_core
           intro!: ok_set_text core_history split: option.splits)
     (auto simp: core_ok_def history_ok_def effective_cap_def)

lemma ok_history_next: "editor_ok e \<Longrightarrow> editor_ok (snd (history_next pv e))"
  by (frule ok_core)
     (auto simp: history_next_def Let_def intro!: ok_set_text core_history split: option.splits nat.splits,
      auto simp: core_ok_def history_ok_def effective_cap_def)

lemma core_kill_push [intro]: "core_ok e \<Longrightarrow> core_ok (kill_push s f at e)"
  by (auto simp: kill_push_def core_ok_def buffer_def Let_def)

lemma core_line: "core_ok e \<Longrightarrow> ed_col e \<le> length l \<Longrightarrow> core_ok (set_line l e)"
  by (rule core_edit [of e]) (auto simp: editor_frames)

lemmas core_edits = ok_refresh core_kill_push core_set_line core_line core_undo_push

lemma ok_kill_end: "editor_ok e \<Longrightarrow> editor_ok (kill_to_line_end pv e)"
  by (frule ok_core, frule core_cursor) (auto simp: kill_to_line_end_def intro!: core_edits)

lemma ok_kill_start: "editor_ok e \<Longrightarrow> editor_ok (kill_to_line_start pv e)"
  by (frule ok_core, frule core_cursor) (auto simp: kill_to_line_start_def intro!: core_edits)

lemma back_while_le: "back_while P l n \<le> n"
  by (induction n) auto

lemma word_left_le: "word_left l n \<le> n"
  unfolding word_left_def using back_while_le order_trans by blast

lemma forward_while_bounds: "n \<le> length l \<Longrightarrow> n \<le> forward_while P l n \<and> forward_while P l n \<le> length l"
  using length_takeWhile_le [of P "drop n l"] by (auto simp: forward_while_def)

lemma word_right_le: "n \<le> length l \<Longrightarrow> word_right l n \<le> length l"
  unfolding word_right_def using forward_while_bounds by blast

lemma find_map_in: "find_map f xs = Some y \<Longrightarrow> (\<And>x z. f x = Some z \<Longrightarrow> Q z) \<Longrightarrow> Q y"
  by (metis find_map_SomeD)

lemma marker_before_fits:
  "marker_before_cursor e = Some m \<Longrightarrow> suffix m (take (ed_col e) (cursor_line e))"
  unfolding marker_before_cursor_def Let_def
  by (erule find_map_in) (auto simp: ends_with_def split: if_splits)

lemma core_backspace: "core_ok e \<Longrightarrow> core_ok (backspace e)"
proof -
  assume ok: "core_ok e"
  note c = core_cursor [OF ok]
  consider (marker) m where "0 < ed_col e" "marker_before_cursor e = Some m"
    | (char) "0 < ed_col e" "marker_before_cursor e = None"
    | (join) "ed_col e = 0" "0 < ed_row e" | (top) "ed_col e = 0" "ed_row e = 0"
    by (cases "marker_before_cursor e") auto
  then show ?thesis
  proof cases
    case marker
    then have "length m \<le> ed_col e"
      using c suffix_length_le [OF marker_before_fits [OF marker(2)]] by simp
    with marker c ok show ?thesis by (auto simp: backspace_def Let_def intro!: core_edits)
  next
    case char with c ok show ?thesis by (auto simp: backspace_def intro!: core_edits)
  next
    case join
    show ?thesis
      by (rule core_edit [OF core_undo_push [OF ok]]) (use join c in \<open>auto simp: backspace_def Let_def buffer_def nth_append\<close>)
  next
    case top with ok show ?thesis by (simp add: backspace_def)
  qed
qed

lemma core_delete: "core_ok e \<Longrightarrow> core_ok (delete_forward e)"
proof -
  assume ok: "core_ok e"
  note c = core_cursor [OF ok]
  have "core_ok (join_with_next (undo_push e))" if "ed_row e + 1 < length (ed_lines e)"
    by (rule core_edit [OF core_undo_push [OF ok]])
       (use that c in \<open>auto simp: join_with_next_def buffer_def nth_append cursor_line_def\<close>)
  with c ok show ?thesis by (auto simp: delete_forward_def intro!: core_edits)
qed

lemma popup_top: "popup_ok e \<Longrightarrow> ed_col e = 0 \<Longrightarrow> ed_trigger e = None"
  by (auto simp: popup_ok_def)

lemma backspace_trigger [simp]: "ed_trigger (backspace e) = ed_trigger e"
  by (auto simp: backspace_def Let_def set_line_def split: option.splits)

lemma ok_kill_word: "editor_ok e \<Longrightarrow> editor_ok (kill_word_back pv e)"
proof (cases "ed_col e = 0")
  case True
  assume "editor_ok e"
  with True show ?thesis
    using popup_top [of e] core_backspace [of e] by (simp add: kill_word_back_def editor_ok_def popup_ok_def)
next
  case False
  assume "editor_ok e"
  then have ok: "core_ok e" by (rule ok_core)
  have "word_left (cursor_line e) (ed_col e) \<le> length (cursor_line e)"
    using word_left_le [of "cursor_line e" "ed_col e"] core_cursor [OF ok] by simp
  with False core_cursor [OF ok] ok show ?thesis
    by (auto simp: kill_word_back_def Let_def intro!: core_edits)
qed

lemma editor_ok_yank [simp]: "editor_ok (e\<lparr>ed_yank := y\<rparr>) = editor_ok e"
  by (simp add: editor_ok_def core_ok_def popup_ok_def buffer_def)

lemma core_yank [simp]: "core_ok (e\<lparr>ed_yank := y\<rparr>) = core_ok e"
  by (simp add: core_ok_def buffer_def)

lemma ok_yank: "editor_ok e \<Longrightarrow> editor_ok (yank pv e)"
  by (auto simp: yank_def dest: ok_core)

lemma ok_yank_pop: "editor_ok e \<Longrightarrow> editor_ok (yank_pop pv e)"
proof -
  assume ok: "editor_ok e"
  note core = ok_core [OF ok]
  note c = core_cursor [OF core]
  have "core_ok (e'\<lparr>ed_col := n, ed_yank := y\<rparr>)" if "core_ok (e'\<lparr>ed_col := n\<rparr>)" for e' n y
    using that by (simp add: core_ok_def buffer_def)
  with ok core c show ?thesis
    by (auto simp: yank_pop_def Let_def intro!: ok_refresh core_set_line split: option.splits)
qed

lemma wrap_from_line: "r \<in> set (wrap_from cw b n gs i cur u st) \<Longrightarrow> vr_line r = n"
  by (induction cw b n gs i cur u st rule: wrap_from.induct) (auto split: if_splits)

lemma visual_rows_line: "r \<in> set (visual_rows cw e) \<Longrightarrow> vr_line r < length (ed_lines e)"
  unfolding visual_rows_def build_visual_def by (auto dest!: wrap_from_line simp: in_set_enumerate_eq)

lemma find_index_less: "find_index P xs = Some k \<Longrightarrow> k < length xs \<and> P (xs ! k)"
  by (induction xs arbitrary: k) (auto split: if_splits)

lemma cursor_row_less: "rows \<noteq> [] \<Longrightarrow> cursor_row_index rows e < length rows"
  by (auto simp: cursor_row_index_def dest: find_index_less split: option.splits)

lemma cursor_row_pos: "0 < cursor_row_index rows e \<Longrightarrow> rows \<noteq> []"
  by (auto simp: cursor_row_index_def)

lemma col_from_le: "col_from cw l col used goal \<le> col + length l"
  by (induction cw l col used goal rule: col_from.induct) auto

lemma col_at_le: "col_at_visual_col cw l from goal \<le> length l"
  using col_from_le [of cw "drop from l" "from" 0 goal] by (auto simp: col_at_visual_col_def)

lemma core_move_to:
  "core_ok e \<Longrightarrow> k < length (visual_rows cw e) \<Longrightarrow> core_ok (move_to_visual_row cw (visual_rows cw e) k e)"
  by (rule core_edit [of e])
     (auto simp: move_to_visual_row_def Let_def buffer_def col_at_le visual_rows_line [OF nth_mem] dest: core_cursor)

lemma core_move_up: "core_ok e \<Longrightarrow> core_ok (snd (move_up cw e))"
  unfolding move_up_def Let_def
  using cursor_row_less [of "visual_rows cw e" e] cursor_row_pos [of "visual_rows cw e" e]
  by (auto intro!: core_move_to)

lemma core_move_down: "core_ok e \<Longrightarrow> core_ok (snd (move_down cw e))"
  unfolding move_down_def Let_def by (auto intro!: core_move_to)

lemma move_stays: "\<not> fst (move_up cw e) \<Longrightarrow> snd (move_up cw e) = e" "\<not> fst (move_down cw e) \<Longrightarrow> snd (move_down cw e) = e"
  by (auto simp: move_up_def move_down_def Let_def split: if_splits)

lemma core_position:
  "core_ok e \<Longrightarrow> r < length (ed_lines e) \<Longrightarrow> c \<le> length (ed_lines e ! r) \<Longrightarrow> core_ok (e\<lparr>ed_goal := g, ed_row := r, ed_col := c\<rparr>)"
  by (rule core_edit [of e]) (auto simp: buffer_def dest: core_cursor)

lemma core_moves:
  assumes "core_ok e"
  shows "core_ok (move_left e)" "core_ok (move_right e)" "core_ok (move_word_left e)" "core_ok (move_word_right e)"
proof -
  note c = core_cursor [OF assms]
  have col: "core_ok (e\<lparr>ed_goal := None, ed_col := x\<rparr>)" if "x \<le> length (cursor_line e)" for x
    by (rule core_edit [OF assms]) (use that c in \<open>simp_all add: buffer_def cursor_line_def\<close>)
  show l: "core_ok (move_left e)" and r: "core_ok (move_right e)"
    using c assms by (auto simp: move_left_def move_right_def intro!: col core_position)
  show "core_ok (move_word_left e)"
    using l c assms word_left_le [of "cursor_line e" "ed_col e"] by (auto simp: move_word_left_def intro!: core_col)
  show "core_ok (move_word_right e)"
    using r assms by (auto simp: move_word_right_def intro!: core_col word_right_le)
qed

lemma core_undo_pop: "core_ok e \<Longrightarrow> core_ok (undo_pop e)"
proof (cases "ed_undo e = []")
  case False
  assume ok: "core_ok e"
  obtain u s where u: "ed_undo e = u @ [s]" using False rev_exhaust by blast
  obtain ls r c where s: "s = (ls, r, c)" by (cases s)
  have "ls \<noteq> []" using ok u s by (simp add: core_ok_def)
  then show ?thesis using ok u s by (auto simp: undo_pop_def core_ok_def buffer_def Let_def min_last_index)
qed (simp add: undo_pop_def)

lemma core_accept: "core_ok e \<Longrightarrow> core_ok (accept_completion pv e)"
proof -
  assume ok: "core_ok e"
  note c = core_cursor [OF ok]
  have "core_ok (close_popup e)" using ok by (simp add: close_popup_def core_ok_def buffer_def)
  with ok c show ?thesis
    by (auto simp: accept_completion_def intro!: core_set_line split: option.splits)
qed

lemma ok_accept: "editor_ok e \<Longrightarrow> editor_ok (accept_completion pv e)"
proof (cases "ed_trigger e")
  case (Some t)
  assume ok: "editor_ok e"
  have "core_ok (accept_completion pv e)" using ok core_accept ok_core by blast
  moreover have "popup_ok (accept_completion pv e)"
    using ok Some by (simp add: accept_completion_def editor_ok_def popup_ok_def [of e] selected_completion_def)
  ultimately show ?thesis by (simp add: editor_ok_def)
qed (simp add: accept_completion_def)

lemma ok_markers [simp]: "editor_ok (e\<lparr>ed_markers := ms\<rparr>) = editor_ok e"
  by (simp add: editor_ok_def core_ok_def popup_ok_def buffer_def)

lemma ok_submit: "editor_ok e \<Longrightarrow> editor_ok (snd (submit pv e))"
proof -
  assume ok: "editor_ok e"
  have "history_ok (ed_history e)" using ok by (simp add: editor_ok_def core_ok_def)
  then show ?thesis using ok
    by (auto simp: submit_def Let_def dest: ok_core intro!: ok_set_text core_history history_remember)
qed

lemma ok_popup_key: "editor_ok e \<Longrightarrow> popup_key pv k m e = Some r \<Longrightarrow> editor_ok (snd r)"
proof -
  assume ok: "editor_ok e" and r: "popup_key pv k m e = Some r"
  from r obtain t where t: "ed_trigger e = Some t" by (auto simp: popup_key_def split: if_splits)
  have "pp_selected (ed_popup e) < length (pp_completions (ed_popup e))" "pp_completions (ed_popup e) \<noteq> []"
    using ok t by (auto simp: editor_ok_def popup_ok_def)
  then have "editor_ok (e\<lparr>ed_popup := select_previous (ed_popup e)\<rparr>)" "editor_ok (e\<lparr>ed_popup := select_next (ed_popup e)\<rparr>)"
    using ok by (auto simp: editor_ok_def core_ok_def popup_ok_def buffer_def select_previous_def select_next_def)
  moreover have "editor_ok (close_popup e)"
    using ok by (simp add: close_popup_def editor_ok_def core_ok_def popup_ok_def buffer_def)
  ultimately show ?thesis
    using r ok by (auto simp: popup_key_def ok_accept ok_submit split: key.splits if_splits)
qed

lemma ok_kill_ring_key: "editor_ok e \<Longrightarrow> kill_ring_key pv k m e = Some r \<Longrightarrow> editor_ok (snd r)"
  by (auto simp: kill_ring_key_def ok_kill_start ok_kill_end ok_kill_word ok_yank ok_yank_pop split: if_splits)

lemma ok_vertical:
  "editor_ok e \<Longrightarrow> core_ok (snd r) \<Longrightarrow> (\<not> fst r \<longrightarrow> snd r = e) \<Longrightarrow> editor_ok (snd (vertical pv r))"
proof (cases "fst r")
  case False
  assume "editor_ok e" and "\<not> fst r \<longrightarrow> snd r = e"
  then have "editor_ok (e\<lparr>ed_goal := None\<rparr>)" by (simp add: editor_ok_def popup_ok_def)
  with False \<open>\<not> fst r \<longrightarrow> snd r = e\<close> show ?thesis by (simp add: vertical_def split_beta)
qed (auto simp: vertical_def split_beta)

lemma ok_edit_key: "editor_ok e \<Longrightarrow> editor_ok (snd (edit_key pv cw k m e))"
proof -
  assume ok: "editor_ok e"
  note core = ok_core [OF ok]
  note c = core_cursor [OF core]
  have goal: "core_ok (e\<lparr>ed_goal := None\<rparr>)" using core by simp
  have col: "editor_ok (to_col pv x e)" if "x \<le> length (cursor_line e)" for x
    unfolding to_col_def
    by (intro ok_refresh, rule core_edit [OF core]) (use that c in \<open>simp_all add: buffer_def cursor_line_def\<close>)
  have up: "editor_ok (snd (vertical pv (move_up cw e)))" and down: "editor_ok (snd (vertical pv (move_down cw e)))"
    by (rule ok_vertical [OF ok]; simp add: core core_move_up core_move_down move_stays)+
  have brk: "editor_ok (break_line pv e)"
    unfolding break_line_def by (intro ok_refresh core_split core_undo_push core)
  have bsl: "editor_ok (backslash_break pv e)"
    unfolding backslash_break_def by (intro ok_refresh core_split core_set_line core_undo_push core) (use c in \<open>auto simp: min_def\<close>)
  show ?thesis
    by (simp add: edit_key_def ok core core_moves [OF core] core_moves [OF goal] ok_refresh core_backspace core_delete
        core_undo_pop ok_kill_word ok_insert_text ok_submit up down brk bsl col split: key.split)
qed

lemma ok_handle_key: "editor_ok e \<Longrightarrow> editor_ok (snd (handle_key pv cw k m e))"
  by (auto simp: handle_key_def ok_edit_key dest: ok_popup_key ok_kill_ring_key split: option.splits)

lemma ok_paste: "editor_ok e \<Longrightarrow> editor_ok (insert_paste pv s e)"
proof -
  assume "editor_ok e"
  then have "core_ok e" by (rule ok_core)
  moreover have "core_ok (undo_push e\<lparr>ed_next_id := i, ed_markers := ms\<rparr>)" for i ms
    using core_undo_push [OF \<open>core_ok e\<close>] by (simp add: core_ok_def buffer_def)
  ultimately show ?thesis by (auto simp: insert_paste_def Let_def)
qed

lemma ok_step: "editor_ok e \<Longrightarrow> editor_ok (editor_step pv cw ev e)"
proof (cases ev)
  case ClearText
  assume "editor_ok e"
  then have "editor_ok (set_text pv [] e)" by (auto dest: ok_core)
  with ClearText show ?thesis
    by (auto simp: editor_clear_def Let_def editor_ok_def core_ok_def popup_ok_def buffer_def history_ok_def effective_cap_def)
next
  case (Seed cap es)
  assume "editor_ok e"
  with Seed show ?thesis
    using history_load [of e es cap]
    by (auto simp: editor_ok_def popup_ok_def load_history_def set_history_cap_def Let_def)
next
  case (Remember s)
  assume "editor_ok e"
  with Remember history_remember [of "ed_history e" s] show ?thesis
    by (auto simp: editor_ok_def core_ok_def popup_ok_def buffer_def)
next
  case (Resize w)
  assume "editor_ok e"
  with Resize show ?thesis by (auto simp: editor_ok_def core_ok_def popup_ok_def buffer_def)
qed (auto simp: ok_handle_key ok_paste ok_history_previous ok_history_next dest: ok_core)

interpretation editor_runs: machine editor_ok "editor_step pv cw" for pv cw
  by unfold_locales (rule ok_step)


section \<open>Undo\<close>

text \<open>An edit that changed the lines left the buffer it started from on the undo stack.\<close>

definition kept_for_undo :: "editor \<Rightarrow> editor \<Rightarrow> bool" where
  "kept_for_undo e e' \<longleftrightarrow> ed_lines e' = ed_lines e \<or> (ed_undo e' \<noteq> [] \<and> last (ed_undo e') = buffer e)"

lemma kept_push: "ed_undo e' = ed_undo (undo_push e) \<Longrightarrow> kept_for_undo e e'"
  by (cases "ed_undo e") (auto simp: kept_for_undo_def undo_push_def buffer_def Let_def)

lemma kept_same: "ed_lines e' = ed_lines e \<Longrightarrow> kept_for_undo e e'"
  by (simp add: kept_for_undo_def)

lemma fragments_undo: "ed_undo (insert_fragment f e) = ed_undo e" "ed_undo (split_at_cursor e) = ed_undo e"
  "ed_undo (fold (\<lambda>f e. insert_fragment f (split_at_cursor e)) fs e) = ed_undo e"
proof -
  show ins: "ed_undo (insert_fragment f e) = ed_undo e" for f e by (simp add: insert_fragment_def set_line_def)
  show spl: "ed_undo (split_at_cursor e) = ed_undo e" for e by (simp add: split_at_cursor_def)
  show "ed_undo (fold (\<lambda>f e. insert_fragment f (split_at_cursor e)) fs e) = ed_undo e"
    by (induction fs arbitrary: e) (simp_all add: ins spl)
qed

lemma kill_push_frame [simp]:
  "ed_undo (kill_push s f at e) = ed_undo e" "ed_lines (kill_push s f at e) = ed_lines e"
  "ed_row (kill_push s f at e) = ed_row e" "ed_col (kill_push s f at e) = ed_col e"
  by (simp_all add: kill_push_def Let_def)

lemma set_line_frame [simp]:
  "ed_undo (set_line l e) = ed_undo e" "ed_row (set_line l e) = ed_row e" "ed_col (set_line l e) = ed_col e"
  "ed_ring (set_line l e) = ed_ring e" "ed_kill_pos (set_line l e) = ed_kill_pos e"
  by (simp_all add: set_line_def)

lemma kept_insert: "kept_for_undo e (insert_text pv s e)"
  by (rule kept_push) (simp add: insert_text_def Let_def fragments_undo)

lemma kept_backspace: "kept_for_undo e (backspace e)" "kept_for_undo e (refresh_popup pv (backspace e))"
  by (auto simp: backspace_def Let_def intro: kept_push kept_same split: option.splits)

lemma kept_delete: "kept_for_undo e (refresh_popup pv (delete_forward e))"
  by (auto simp: delete_forward_def join_with_next_def intro: kept_push kept_same)

lemma kept_kills:
  "kept_for_undo e (kill_to_line_end pv e)" "kept_for_undo e (kill_to_line_start pv e)" "kept_for_undo e (kill_word_back pv e)"
  "kept_for_undo e (yank pv e)" "kept_for_undo e (yank_pop pv e)"
proof -
  show "kept_for_undo e (kill_to_line_end pv e)" "kept_for_undo e (kill_to_line_start pv e)"
    by (auto simp: kill_to_line_end_def kill_to_line_start_def intro: kept_push kept_same)
  show "kept_for_undo e (kill_word_back pv e)"
    by (auto simp: kill_word_back_def Let_def kept_backspace intro!: kept_push)
  show "kept_for_undo e (yank pv e)"
    using kept_insert [of e pv "hd (ed_ring e)"] by (auto simp: yank_def kept_for_undo_def)
  show "kept_for_undo e (yank_pop pv e)"
    by (auto simp: yank_pop_def Let_def intro: kept_push kept_same split: option.splits)
qed

lemma moves_lines [simp]:
  "ed_lines (move_left e) = ed_lines e" "ed_lines (move_right e) = ed_lines e"
  "ed_lines (move_word_left e) = ed_lines e" "ed_lines (move_word_right e) = ed_lines e"
  "ed_lines (snd (move_up cw e)) = ed_lines e" "ed_lines (snd (move_down cw e)) = ed_lines e"
  by (simp_all add: move_left_def move_right_def move_word_left_def move_word_right_def move_up_def move_down_def
        move_to_visual_row_def Let_def)

lemma vertical_lines [simp]: "ed_lines (snd (vertical pv r)) = ed_lines (snd r)"
  by (cases r) (simp add: vertical_def)

lemma kept_if: "kept_for_undo e (snd a) \<Longrightarrow> kept_for_undo e (snd b) \<Longrightarrow> kept_for_undo e (snd (if P then a else b))"
  by simp

lemma kept_edit_key:
  assumes "fst (edit_key pv cw k m e) = Handled" and "\<not> (k = KChar CHR ''-'' \<and> md_ctrl m)"
  shows "kept_for_undo e (snd (edit_key pv cw k m e))"
proof -
  have brk: "kept_for_undo e (break_line pv e)" and bsl: "kept_for_undo e (backslash_break pv e)"
    by (rule kept_push; simp add: break_line_def backslash_break_def fragments_undo)+
  have sub: "fst (submit pv e) \<noteq> Handled" by (simp add: submit_def Let_def)
  have same: "kept_for_undo e (refresh_popup pv x)" if "ed_lines x = ed_lines e" for x
    using that by (simp add: kept_same)
  have cols: "kept_for_undo e (to_col pv c e)" for c by (simp add: to_col_def same)
  have vert: "kept_for_undo e (snd (vertical pv (move_up cw e)))" "kept_for_undo e (snd (vertical pv (move_down cw e)))"
    by (simp_all add: kept_same)
  show ?thesis
  proof (cases "k = KEnter")
    case True
    then show ?thesis using assms(1) sub brk bsl by (auto simp: edit_key_def split: if_splits)
  next
    case False
    note saves = kept_same kept_insert kept_backspace kept_delete kept_kills brk same cols vert
    show ?thesis
    proof (cases k)
      case (KChar c)
      with assms(2) have "\<not> (c = CHR ''-'' \<and> md_ctrl m)" by simp
      then have "kept_for_undo e (snd (edit_key pv cw (KChar c) m e))"
        unfolding edit_key_def key.case by (simp only: if_False, intro kept_if) (simp_all add: saves)
      then show ?thesis using KChar by simp
    qed (use False in \<open>simp_all add: edit_key_def saves\<close>)
  qed
qed

lemma kept_key:
  assumes "ed_trigger e = None" and "handle_key pv cw k m e = (Handled, e')" and "\<not> (k = KChar CHR ''-'' \<and> md_ctrl m)"
  shows "kept_for_undo e e'"
proof (cases "kill_ring_key pv k m e")
  case (Some r)
  then show ?thesis
    using assms by (auto simp: handle_key_def popup_key_def kill_ring_key_def kept_kills split: if_splits)
next
  case None
  then have "edit_key pv cw k m e = (Handled, e')" using assms by (simp add: handle_key_def popup_key_def)
  then show ?thesis using kept_edit_key [of pv cw k m e] assms(3) by simp
qed

lemma undo_restores:
  assumes "editor_ok e" and "ed_undo e' \<noteq> []" and "last (ed_undo e') = buffer e"
  shows "buffer (undo_pop e') = buffer e"
  using assms by (auto simp: undo_pop_def buffer_def Let_def editor_ok_def core_ok_def)


section \<open>Kills and yanks\<close>

lemma insert_plain:
  assumes "newline \<notin> set s"
  shows "ed_lines (insert_text pv s e) =
         (ed_lines e)[ed_row e := take (ed_col e) (cursor_line e) @ s @ drop (ed_col e) (cursor_line e)]"
proof -
  have "split_on (\<lambda>c. c = newline) s = [s]" using assms by (intro split_on_none) auto
  then show ?thesis by (simp add: insert_text_def insert_fragment_def set_line_def)
qed

lemma kill_push_fresh:
  "s \<noteq> [] \<Longrightarrow> ed_kill_pos e \<noteq> Some at \<Longrightarrow> hd (ed_ring (kill_push s f at e)) = s \<and> ed_ring (kill_push s f at e) \<noteq> []"
  by (auto simp: kill_push_def)

text \<open>A kill that took a piece of the cursor's line, and a yank of it.\<close>

definition killed_at :: "editor \<Rightarrow> string \<Rightarrow> nat \<Rightarrow> editor \<Rightarrow> bool" where
  "killed_at e s c e' \<longleftrightarrow>
     s \<noteq> [] \<and> ed_ring e' \<noteq> [] \<and> hd (ed_ring e') = s \<and> ed_row e' = ed_row e \<and> ed_col e' = c \<and>
     c + length s \<le> length (cursor_line e) \<and> s = take (length s) (drop c (cursor_line e)) \<and>
     ed_lines e' = (ed_lines e)[ed_row e := take c (cursor_line e) @ drop (c + length s) (cursor_line e)]"

lemma yank_back:
  assumes "killed_at e s c e'" and "editor_ok e" and "newline \<notin> set (cursor_line e)"
  shows "ed_lines (yank pv e') = ed_lines e"
proof -
  let ?l = "cursor_line e"
  have k: "s \<noteq> []" "ed_ring e' \<noteq> []" "hd (ed_ring e') = s" "ed_row e' = ed_row e" "ed_col e' = c"
    "c + length s \<le> length ?l" "s = take (length s) (drop c ?l)"
    "ed_lines e' = (ed_lines e)[ed_row e := take c ?l @ drop (c + length s) ?l]"
    using assms(1) by (auto simp: killed_at_def)
  have "newline \<notin> set s"
    using assms(3) k(7) set_take_subset [of "length s" "drop c ?l"] set_drop_subset [of c ?l] by auto
  moreover have "ed_row e < length (ed_lines e)" using core_cursor assms(2) ok_core by blast
  moreover have "take c ?l @ s @ drop (c + length s) ?l = ?l"
    using k(7) append_take_drop_id [of "length s" "drop c ?l"] append_take_drop_id [of c ?l]
    by (metis add.commute drop_drop)
  ultimately show ?thesis
    using k by (simp add: yank_def insert_plain cursor_line_def)
qed

lemma killed_by:
  assumes "s \<noteq> []" and "ed_kill_pos e \<noteq> Some (ed_row e, ed_col e)"
    and "c + length s \<le> length (cursor_line e)" and "s = take (length s) (drop c (cursor_line e))"
    and "ed_kill_pos x = ed_kill_pos e" and "ed_row x = ed_row e" and "ed_col x = c"
    and "ed_lines x = (ed_lines e)[ed_row e := take c (cursor_line e) @ drop (c + length s) (cursor_line e)]"
  shows "killed_at e s c (refresh_popup pv (kill_push s f (ed_row e, ed_col e) x))"
  using assms kill_push_fresh [of s x "(ed_row e, ed_col e)" f] by (simp add: killed_at_def)

lemma killed_end:
  "ed_col e < length (cursor_line e) \<Longrightarrow> ed_kill_pos e \<noteq> Some (ed_row e, ed_col e) \<Longrightarrow>
   \<exists>s c. killed_at e s c (kill_to_line_end pv e)"
  unfolding kill_to_line_end_def by (simp, rule exI, rule exI, rule killed_by, auto simp: set_line_def)

lemma killed_start:
  "0 < ed_col e \<Longrightarrow> ed_col e \<le> length (cursor_line e) \<Longrightarrow> ed_kill_pos e \<noteq> Some (ed_row e, ed_col e) \<Longrightarrow>
   \<exists>s c. killed_at e s c (kill_to_line_start pv e)"
  unfolding kill_to_line_start_def by (simp, rule exI, rule exI, rule killed_by, auto simp: set_line_def)

lemma word_left_less: "0 < n \<Longrightarrow> word_left l n < n"
proof -
  have gen: "back_while P l n < n \<or> (0 < n \<longrightarrow> \<not> P (l ! (n - 1)))" for P
    using back_while_le [of P l "n - 1"] by (cases n) auto
  assume n: "0 < n"
  show ?thesis
  proof (cases "back_while (\<lambda>c. c = CHR '' '') l n < n")
    case True
    then show ?thesis unfolding word_left_def using back_while_le le_less_trans by blast
  next
    case False
    then have eq: "back_while (\<lambda>c. c = CHR '' '') l n = n" using back_while_le [of "\<lambda>c. c = CHR '' ''" l n] by simp
    with gen [of "\<lambda>c. c = CHR '' ''"] n gen [of "\<lambda>c. c \<noteq> CHR '' ''"] show ?thesis
      unfolding word_left_def by auto
  qed
qed

lemma killed_word:
  assumes "0 < ed_col e" and "ed_col e \<le> length (cursor_line e)" and "ed_kill_pos e \<noteq> Some (ed_row e, ed_col e)"
  shows "\<exists>s c. killed_at e s c (kill_word_back pv e)"
proof -
  have w: "word_left (cursor_line e) (ed_col e) < ed_col e" using assms(1) by (rule word_left_less)
  from assms show ?thesis unfolding kill_word_back_def Let_def
    by (simp, intro exI, rule_tac killed_by) (use w in \<open>auto simp: set_line_def\<close>)
qed

text \<open>Kill then yank is the identity. A kill key, to the end of the line, to its start or back by a word, that follows no
  other kill at that place and takes something, puts exactly what it took on the ring, and the yank key
  right after it restores the lines.\<close>

theorem yank_restores_what_was_killed:
  assumes "editor_ok e" and "newline \<notin> set (cursor_line e)" and "ed_kill_pos e \<noteq> Some (ed_row e, ed_col e)"
    and "x \<in> {CHR ''u'', CHR ''k'', CHR ''w''}" and "x = CHR ''w'' \<longrightarrow> 0 < ed_col e" and "md_ctrl m"
    and "ed_lines (snd (handle_key pv cw (KChar x) m e)) \<noteq> ed_lines e"
  shows "ed_lines (snd (handle_key pv cw (KChar CHR ''y'') m (snd (handle_key pv cw (KChar x) m e)))) = ed_lines e"
proof -
  have y: "snd (handle_key pv cw (KChar CHR ''y'') m e') = yank pv e'" for e'
    using assms(6) by (simp add: handle_key_def popup_key_def kill_ring_key_def)
  have col: "ed_col e \<le> length (cursor_line e)" using core_cursor assms(1) ok_core by blast
  consider "x = CHR ''u''" | "x = CHR ''k''" | "x = CHR ''w''" using assms(4) by auto
  then have "\<exists>s c. killed_at e s c (snd (handle_key pv cw (KChar x) m e))"
  proof cases
    case 1
    then have eq: "snd (handle_key pv cw (KChar x) m e) = kill_to_line_start pv e"
      using assms(6) by (simp add: handle_key_def popup_key_def kill_ring_key_def)
    then have "0 < ed_col e" using assms(7) [unfolded eq] by (cases "ed_col e") (auto simp: kill_to_line_start_def)
    then show ?thesis unfolding eq using col assms(3) by (intro killed_start)
  next
    case 2
    then have eq: "snd (handle_key pv cw (KChar x) m e) = kill_to_line_end pv e"
      using assms(6) by (simp add: handle_key_def popup_key_def kill_ring_key_def)
    then have "ed_col e < length (cursor_line e)" using assms(7) [unfolded eq] by (rule_tac ccontr) (auto simp: kill_to_line_end_def)
    then show ?thesis unfolding eq using assms(3) by (intro killed_end)
  next
    case 3
    then have eq: "snd (handle_key pv cw (KChar x) m e) = kill_word_back pv e"
      using assms(6) by (simp add: handle_key_def popup_key_def kill_ring_key_def)
    then show ?thesis unfolding eq using 3 assms(3,5) col by (intro killed_word) auto
  qed
  then show ?thesis unfolding y using yank_back assms(1,2) by blast
qed


lemma yank_restores_what_was_killed_witness:
  "\<exists>e m. let e' = snd (handle_key None (\<lambda>c. 1) (KChar CHR ''k'') m e)
        in ed_lines e' = [''ab''] \<and> ed_lines (snd (handle_key None (\<lambda>c. 1) (KChar CHR ''y'') m e')) = [''abcd'']"
proof -
  let ?m = "\<lparr>md_ctrl = True, md_alt = False, md_shift = False\<rparr>"
  let ?e = "editor_new\<lparr>ed_lines := [''abcd''], ed_col := 2\<rparr>"
  have ok: "editor_ok ?e" and nl: "newline \<notin> set (cursor_line ?e)" and pos: "ed_kill_pos ?e \<noteq> Some (ed_row ?e, ed_col ?e)"
    by (simp_all add: editor_ok_def core_ok_def popup_ok_def editor_new_def buffer_def history_ok_def cursor_line_def newline_def)
  have cut: "ed_lines (snd (handle_key None (\<lambda>c. 1) (KChar CHR ''k'') ?m ?e)) = [''ab'']"
    by (simp add: handle_key_def popup_key_def kill_ring_key_def kill_to_line_end_def cursor_line_def editor_new_def set_line_def)
  have "ed_lines (snd (handle_key None (\<lambda>c. 1) (KChar CHR ''y'') ?m
          (snd (handle_key None (\<lambda>c. 1) (KChar CHR ''k'') ?m ?e)))) = ed_lines ?e"
    by (rule yank_restores_what_was_killed [OF ok nl pos]) (simp, simp, simp, unfold cut, simp)
  with cut show ?thesis by (intro exI [of _ ?e] exI [of _ ?m]) (simp add: Let_def)
qed

section \<open>Recall\<close>

lemma join_split_on: "join [d] (split_on (\<lambda>c. c = d) s) = s"
proof (induction s)
  case (Cons c cs)
  obtain w ws where w: "split_on (\<lambda>c. c = d) cs = w # ws" by (meson neq_Nil_conv split_on_not_Nil)
  with Cons show ?case by (cases ws) auto
qed simp

lemma text_set_text [simp]: "editor_text (set_text pv s e) = s"
  by (simp add: editor_text_def set_text_def Let_def join_split_on)

lemma history_set_text [simp]: "ed_history (set_text pv s e) = ed_history e"
  by (simp add: set_text_def Let_def)

lemma recalled:
  assumes "hs_position (ed_history e) = None" and "k < length (hs_entries (ed_history e))"
  shows "let e' = editor_run pv cw (replicate (Suc k) RecallPrevious) e
         in editor_text e' = hs_entries (ed_history e) ! k \<and>
            ed_history e' = (ed_history e)\<lparr>hs_position := Some k, hs_draft := Some (editor_text e)\<rparr>"
  using assms(2)
proof (induction k)
  case 0
  then show ?case using assms(1) by (simp add: editor_run_def history_previous_def Let_def)
next
  case (Suc k)
  have step: "editor_run pv cw (replicate (Suc (Suc k)) RecallPrevious) e =
      snd (history_previous pv (editor_run pv cw (replicate (Suc k) RecallPrevious) e))"
    by (simp add: editor_run_def replicate_append_same [symmetric] del: replicate.simps(2))
  let ?r = "editor_run pv cw (replicate (Suc k) RecallPrevious) e"
  have r: "ed_history ?r = (ed_history e)\<lparr>hs_position := Some k, hs_draft := Some (editor_text e)\<rparr>"
    using Suc unfolding Let_def by simp
  have "hs_entries (ed_history e) \<noteq> []" "min (k + 1) (length (hs_entries (ed_history e)) - 1) = Suc k"
    using Suc.prems by auto
  then show ?case unfolding step Let_def by (simp add: history_previous_def Let_def r del: replicate.simps)
qed

lemma returned:
  assumes "hs_position (ed_history e) = Some p" and "hs_draft (ed_history e) = Some d"
  shows "let e' = editor_run pv cw (replicate (Suc p) RecallNext) e
         in editor_text e' = d \<and> ed_history e' = (ed_history e)\<lparr>hs_position := None, hs_draft := None\<rparr>"
  using assms
proof (induction p arbitrary: e)
  case 0
  then show ?case by (simp add: editor_run_def history_next_def Let_def)
next
  case (Suc p)
  let ?e = "snd (history_next pv e)"
  have "hs_position (ed_history ?e) = Some p" "hs_draft (ed_history ?e) = Some d"
    "ed_history ?e = (ed_history e)\<lparr>hs_position := Some p\<rparr>"
    using Suc.prems by (simp_all add: history_next_def Let_def)
  then show ?case using Suc.IH [of ?e] by (simp add: editor_run_def Let_def)
qed

text \<open>C33: Recall comes back to the draft. From a buffer that is not a recalled entry, so many steps back as there are entries show the
  entry of that age, and as many steps forward restore the text that was being typed.\<close>

theorem recall_comes_back_to_the_draft:
  assumes "hs_position (ed_history e) = None" and "k < length (hs_entries (ed_history e))"
  shows "let back = editor_run pv cw (replicate (Suc k) RecallPrevious) e;
             forth = editor_run pv cw (replicate (Suc k) RecallNext) back
         in editor_text back = hs_entries (ed_history e) ! k \<and> editor_text forth = editor_text e \<and>
            hs_position (ed_history forth) = None \<and> hs_entries (ed_history forth) = hs_entries (ed_history e)"
  using recalled [OF assms, of pv cw] returned [of _ k "editor_text e" pv cw] by (simp add: Let_def)

lemma recall_comes_back_to_the_draft_witness:
  "\<exists>e. let back = editor_run None (\<lambda>c. 1) (replicate (Suc 1) RecallPrevious) e;
           forth = editor_run None (\<lambda>c. 1) (replicate (Suc 1) RecallNext) back
       in editor_text back = ''one'' \<and> editor_text forth = ''dra''"
proof -
  let ?e = "editor_new\<lparr>ed_lines := [''dra''], ed_history := (ed_history editor_new)\<lparr>hs_entries := [''two'', ''one'']\<rparr>\<rparr>"
  have "hs_position (ed_history ?e) = None" "1 < length (hs_entries (ed_history ?e))" "editor_text ?e = ''dra''"
    by (simp_all add: editor_new_def editor_text_def)
  then show ?thesis
    using recall_comes_back_to_the_draft [of ?e 1 None "\<lambda>c. 1"] by (intro exI [of _ ?e]) (simp add: Let_def)
qed

section \<open>Wrap\<close>

definition slice :: "nat \<Rightarrow> nat \<Rightarrow> 'a list \<Rightarrow> 'a list" where
  "slice i j l = take (j - i) (drop i l)"

text \<open>Rows that tile a line from a position on: each is the text between its ends, and the next starts
  where it ends, or one further where a space was dropped at the break.\<close>

fun tiles :: "string \<Rightarrow> nat \<Rightarrow> visual_row list \<Rightarrow> bool" where
  "tiles l i [] \<longleftrightarrow> False"
| "tiles l i (r # rs) \<longleftrightarrow>
     vr_start r = i \<and> i \<le> vr_end r \<and> vr_end r \<le> length l \<and> vr_text r = slice i (vr_end r) l \<and>
     (if rs = [] then vr_end r = length l
      else tiles l (vr_end r) rs \<or> (vr_end r < length l \<and> l ! vr_end r = CHR '' '' \<and> tiles l (vr_end r + 1) rs))"

definition row_fits :: "(char \<Rightarrow> nat) \<Rightarrow> nat \<Rightarrow> string \<Rightarrow> bool" where
  "row_fits cw budget s \<longleftrightarrow> sum_list (map cw s) \<le> budget \<or> (\<exists>c \<in> set s. budget < cw c)"

lemma slice_snoc: "i \<le> j \<Longrightarrow> j < length l \<Longrightarrow> slice i (Suc j) l = slice i j l @ [l ! j]"
  by (simp add: slice_def Suc_diff_le take_Suc_conv_app_nth)

lemma slice_all: "slice (length l) (length l) l = []" "slice i i l = []"
  by (simp_all add: slice_def)

lemma wrap_not_Nil:
  "current = slice row_start (length pre) (pre @ gs) \<Longrightarrow> row_start \<le> length pre \<Longrightarrow>
   wrap_from cw b n gs (length pre) current used row_start \<noteq> []"
proof (induction gs arbitrary: pre current used row_start)
  case Nil
  then show ?case by (auto simp: slice_def)
next
  case (Cons g gs)
  have "pre @ g # gs = (pre @ [g]) @ gs" "length pre + 1 = length (pre @ [g])" by simp_all
  moreover have "slice row_start (length (pre @ [g])) ((pre @ [g]) @ gs) = current @ [g]"
    using slice_snoc [of row_start "length pre" "pre @ g # gs"] Cons.prems by simp
  ultimately show ?case
    using Cons.IH [of "current @ [g]" row_start "pre @ [g]" "used + cw g"] Cons.prems by (auto simp: Let_def)
qed

lemma wrap_from_tiles:
  assumes "current = slice row_start (length pre) (pre @ gs)" and "row_start \<le> length pre"
    and "used = sum_list (map cw current)" and "row_fits cw b current"
  shows "tiles (pre @ gs) row_start (wrap_from cw b n gs (length pre) current used row_start) \<and>
         (\<forall>r \<in> set (wrap_from cw b n gs (length pre) current used row_start). row_fits cw b (vr_text r))"
  using assms
proof (induction gs arbitrary: pre current used row_start)
  case Nil
  then show ?case by (auto simp: slice_def)
next
  case (Cons g gs)
  let ?l = "pre @ g # gs" and ?m = "length pre"
  let ?w = "\<lambda>c u st. wrap_from cw b n gs (Suc ?m) c u st"
  have IH: "tiles ?l st (?w c u st) \<and> (\<forall>r \<in> set (?w c u st). row_fits cw b (vr_text r))"
    if "c = slice st (Suc ?m) ?l" "st \<le> Suc ?m" "u = sum_list (map cw c)" "row_fits cw b c" for c u st
    using Cons.IH [of c st "pre @ [g]" u] that by simp
  have ne: "?w c u st \<noteq> []" if "c = slice st (Suc ?m) ?l" "st \<le> Suc ?m" for c u st
    using wrap_not_Nil [of c st "pre @ [g]" gs cw b n u] that by simp
  have row: "slice row_start (Suc ?m) ?l = current @ [g]" and one: "slice ?m (Suc ?m) ?l = [g]"
    and none: "slice (Suc ?m) (Suc ?m) ?l = []"
    using slice_snoc [of row_start ?m ?l] slice_snoc [of ?m ?m ?l] Cons.prems by (simp_all add: slice_all)
  consider (space) "b < used + cw g \<and> 0 < used" "g = CHR '' ''" | (brk) "b < used + cw g \<and> 0 < used" "g \<noteq> CHR '' ''"
    | (go) "\<not> (b < used + cw g \<and> 0 < used)" by blast
  then show ?case
  proof cases
    case space
    have "row_fits cw b []" by (simp add: row_fits_def)
    with space show ?thesis
      using IH [of "[]" "Suc ?m" 0] ne [of "[]" "Suc ?m" 0] none Cons.prems by simp
  next
    case brk
    have "row_fits cw b [g]" by (auto simp: row_fits_def)
    with brk show ?thesis
      using IH [of "[g]" ?m "cw g"] ne [of "[g]" ?m "cw g"] one Cons.prems by simp
  next
    case go
    have sum: "sum_list (map cw (current @ [g])) = used + cw g" using Cons.prems(3) by simp
    have "row_fits cw b (current @ [g])"
      unfolding row_fits_def sum using go by (cases "used = 0") auto
    then have tl: "tiles ?l row_start (?w (current @ [g]) (used + cw g) row_start) \<and>
        (\<forall>r \<in> set (?w (current @ [g]) (used + cw g) row_start). row_fits cw b (vr_text r))"
      using row sum Cons.prems(2) by (intro IH) simp_all
    have eq: "wrap_from cw b n (g # gs) ?m current used row_start = ?w (current @ [g]) (used + cw g) row_start"
      using go by (simp only: wrap_from.simps if_False Suc_eq_plus1)
    show ?thesis unfolding eq by (rule tl)
  qed
qed

lemma filter_enumerated:
  assumes "\<And>i l r. r \<in> set (f i l) \<Longrightarrow> vr_line r = i"
  shows "k \<le> n \<Longrightarrow> n < k + length ls \<Longrightarrow>
         filter (\<lambda>r. vr_line r = n) (concat (map (\<lambda>(i, l). f i l) (enumerate k ls))) = f n (ls ! (n - k))"
proof (induction ls arbitrary: k)
  case (Cons l ls)
  have none: "filter (\<lambda>r. vr_line r = n) (concat (map (\<lambda>(i, l). f i l) (enumerate j ls))) = []" if "n < j" for j ls
    using assms that by (fastforce simp: filter_empty_conv in_set_enumerate_eq)
  show ?case
  proof (cases "n = k")
    case True
    have "filter (\<lambda>r. vr_line r = k) (f k l) = f k l" using assms by (intro filter_True) auto
    with True none [of "Suc k" ls] show ?thesis by simp
  next
    case False
    have "filter (\<lambda>r. vr_line r = n) (f k l) = []" using assms False by (auto simp: filter_empty_conv)
    with False Cons show ?thesis by (simp add: nth_Cons')
  qed
qed simp

text \<open>C34: Wrapping loses nothing. The rows of a logical line, in order, tile it: each is the text between its ends, the next
  starts where it ends or after one space dropped at the break, the last ends with the line; and a row is
  wider than the width only when a character alone is.\<close>

theorem wrap_loses_nothing:
  assumes "n < length (ed_lines e)"
  shows "let rows = filter (\<lambda>r. vr_line r = n) (visual_rows cw e)
         in tiles (ed_lines e ! n) 0 rows \<and> (\<forall>r \<in> set rows. row_fits cw (max 1 (ed_width e)) (vr_text r))"
proof -
  let ?f = "\<lambda>i l. wrap_from cw (max 1 (ed_width e)) i l 0 [] 0 0"
  have "filter (\<lambda>r. vr_line r = n) (visual_rows cw e) = ?f n (ed_lines e ! n)"
    unfolding visual_rows_def build_visual_def
    using filter_enumerated [of ?f 0 n "ed_lines e"] wrap_from_line assms by fastforce
  then show ?thesis
    using wrap_from_tiles [of "[]" 0 "[]" "ed_lines e ! n" 0 cw "max 1 (ed_width e)" n]
    by (simp add: slice_def row_fits_def)
qed

lemma wrap_loses_nothing_witness:
  "\<exists>e. map vr_text (visual_rows (\<lambda>c. 1) e) = [''ab'', ''c''] \<and>
      tiles ''ab c'' 0 (filter (\<lambda>r. vr_line r = 0) (visual_rows (\<lambda>c. 1) e))"
proof -
  let ?e = "editor_new\<lparr>ed_lines := [''ab c''], ed_width := 2\<rparr>"
  have "map vr_text (visual_rows (\<lambda>c. 1) ?e) = [''ab'', ''c'']"
    by (simp add: visual_rows_def build_visual_def editor_new_def)
  moreover have "0 < length (ed_lines ?e)" "ed_lines ?e ! 0 = ''ab c''" by simp_all
  ultimately show ?thesis
    using wrap_loses_nothing [of 0 ?e "\<lambda>c. 1"] by (intro exI [of _ ?e]) (simp add: Let_def)
qed

lemma window_holds_cursor:
  fixes n cap cursor :: nat
  assumes "cursor < n" and "0 < cap"
  defines "start \<equiv> if min n cap \<le> cursor then min (cursor + 1 - min n cap) (n - min n cap) else 0"
  shows "start \<le> cursor \<and> cursor < start + min n cap \<and> start + min n cap \<le> n"
  using assms by (cases "n \<le> cap") (auto simp: min_def)

lemma scroll_window_shows_cursor:
  assumes "cursor < n"
  shows "case scroll_window b rows n cursor of (start, stop) \<Rightarrow>
           start \<le> cursor \<and> cursor < stop \<and> stop \<le> n \<and> stop - start \<le> max 8 (rows * 5 div 10)"
proof -
  define cap where "cap = (if b then max 5 (rows * 3 div 10) else max (rows * 5 div 10) 8)"
  have "rows * 3 div 10 \<le> rows * 5 div 10" by (rule div_le_mono) simp
  then have cap: "0 < cap" "cap \<le> max 8 (rows * 5 div 10)" by (auto simp: cap_def)
  define start where "start = (if min n cap \<le> cursor then min (cursor + 1 - min n cap) (n - min n cap) else 0)"
  have w: "start \<le> cursor" "cursor < start + min n cap" "start + min n cap \<le> n"
    using window_holds_cursor [OF assms cap(1)] unfolding start_def by blast+
  have "scroll_window b rows n cursor = (start, min (start + min n cap) n)"
    unfolding scroll_window_def cap_def start_def Let_def by (rule refl)
  moreover have "min (start + min n cap) n = start + min n cap" using w(3) by (rule min_absorb1)
  moreover have "min n cap \<le> max 8 (rows * 5 div 10)" using cap(2) by (rule order_trans [OF min.cobounded2])
  ultimately show ?thesis using w by simp
qed

section \<open>Where the code falls short\<close>

text \<open>A resubmitted newest entry keeps the recall position: what is typed next is not kept_for_undo by the next
  recall, and coming back shows the older draft.\<close>

lemma resubmit_loses_the_next_draft:
  "editor_text (editor_run None (\<lambda>c. 1)
     [InsertText ''x'', Press KEnter no_mods, RecallPrevious, Press KEnter no_mods, InsertText ''abc'',
      RecallPrevious, RecallNext] editor_new) = []"
  by code_simp

text \<open>Clearing a recalled entry drops the draft and keeps the position, so the next recall saves nothing and
  coming back is refused.\<close>

lemma clear_strands_the_recall:
  "editor_text (editor_run None (\<lambda>c. 1)
     [InsertText ''x'', Press KEnter no_mods, RecallPrevious, ClearText, InsertText ''abc'',
      RecallPrevious, RecallNext] editor_new) = ''x''"
  by code_simp

text \<open>From the end of a line that fills its last row, the key up lands on the start of the same row, and stays.\<close>

lemma up_stays_on_a_full_row:
  "let e = editor_new\<lparr>ed_lines := [''abcdefghij''], ed_col := 10, ed_width := 5\<rparr>;
       e' = snd (move_up (\<lambda>c. 1) e)
   in ed_col e' = 5 \<and> cursor_row_index (visual_rows (\<lambda>c. 1) e') e' = 1 \<and> move_up (\<lambda>c. 1) e' = (True, e')"
  by code_simp

text \<open>The markers are forgotten at the submit but not the undo entries that show them.\<close>

lemma undone_submit_sends_the_marker:
  "let e = editor_run None (\<lambda>c. 1) [Paste (replicate 10 newline), InsertText ''a''] editor_new;
       e' = editor_run None (\<lambda>c. 1) [Press KEnter no_mods, Press (KChar CHR ''-'') \<lparr>md_ctrl = True, md_alt = False, md_shift = False\<rparr>] e
   in fst (submit None e) = Submit (replicate 10 newline @ ''a'') \<and>
      fst (submit None e') = Submit ''[paste #1 +10 lines]''"
  by code_simp

end
