(* ===== verification/Hooks.thy ===== *)
theory Hooks
  imports Run_Dispatch File_Tools Jobs
begin

text \<open>
  Lifecycle hooks, \<open>capabilities/hooks/src/lib.rs\<close>, and the adapter that puts them behind the run loop's
  hook seam, \<open>operations/bootstrap/src/hook_adapter.rs\<close>. The process a hook starts is an argument: given the
  point, the entry and the payload it answers over an arbitrary world with how it went. The decoding of
  its bytes to text is an argument too. Tables indexed by event points are functions. The report has a
  ghost field, the entries that were executed, in order; no operation reads it.
\<close>

section \<open>Event points and entries\<close>

datatype event_point =
    EvPreToolUse | EvPostToolUse | EvUserPromptSubmit | EvSessionStart | EvSessionEnd | EvStop | EvPreCompact | EvPostCompact

definition event_points :: "event_point list" where
  "event_points =
     [EvPreToolUse, EvPostToolUse, EvUserPromptSubmit, EvSessionStart, EvSessionEnd, EvStop, EvPreCompact, EvPostCompact]"

fun point_name :: "event_point \<Rightarrow> string" where
  "point_name EvPreToolUse = ''PreToolUse''"
| "point_name EvPostToolUse = ''PostToolUse''"
| "point_name EvUserPromptSubmit = ''UserPromptSubmit''"
| "point_name EvSessionStart = ''SessionStart''"
| "point_name EvSessionEnd = ''SessionEnd''"
| "point_name EvStop = ''Stop''"
| "point_name EvPreCompact = ''PreCompact''"
| "point_name EvPostCompact = ''PostCompact''"

definition point_parse :: "string \<Rightarrow> event_point option" where
  "point_parse name = find (\<lambda>p. point_name p = name) event_points"

definition blockable :: "event_point \<Rightarrow> bool" where
  "blockable p \<longleftrightarrow> p \<in> {EvPreToolUse, EvUserPromptSubmit, EvStop}"

definition is_tool_point :: "event_point \<Rightarrow> bool" where
  "is_tool_point p \<longleftrightarrow> p \<in> {EvPreToolUse, EvPostToolUse}"

definition HOOK_TIMEOUT_MS :: nat where
  "HOOK_TIMEOUT_MS = 10000"

definition PROMPT_CONTEXT_MAX_BYTES :: nat where
  "PROMPT_CONTEXT_MAX_BYTES = 64 * 1024"

definition PROMPT_CONTEXT_TRUNCATED :: string where
  "PROMPT_CONTEXT_TRUNCATED = [newline] @ ''[...prompt hook output truncated]''"

record hook_def =
  hd_matcher :: "string option"
  hd_command :: string
  hd_timeout_ms :: nat
  hd_once :: bool

definition effective_timeout :: "hook_def \<Rightarrow> nat" where
  "effective_timeout d = (if hd_timeout_ms d = 0 then HOOK_TIMEOUT_MS else hd_timeout_ms d)"

definition unusable_reasons :: "hook_def \<Rightarrow> event_point \<Rightarrow> string list" where
  "unusable_reasons d p =
     (if blank (hd_command d) then [''has an empty command (never executes)''] else []) @
     (case hd_matcher d of
        None \<Rightarrow> []
      | Some mt \<Rightarrow>
          if blank mt then [''matcher is blank (never matches)'']
          else if \<not> is_tool_point p then [''has a matcher but this point carries no tool name (never fires)'']
          else [])"

definition matcher_matches :: "string \<Rightarrow> string \<Rightarrow> bool" where
  "matcher_matches mt tool \<longleftrightarrow>
     list_ex (\<lambda>alt. alt = ''*'' \<or> alt = tool) (map trim (split_on (\<lambda>c. c = CHR ''|'') mt))"

record hook_input =
  hi_cwd :: string
  hi_tool_name :: "string option"
  hi_tool_input :: "json option"
  hi_tool_output :: "string option"

section \<open>One execution\<close>

text \<open>How the process went: it did not start, it overran its time, waiting for it failed, or it ended with
  what it wrote on its two streams and its exit code, none when a signal killed it.\<close>

datatype process =
    NoSpawn string | Overran | WaitFailed string | Ended string string "int option"

datatype exec_outcome =
    ExecSuccess string bool | ExecBlocked string | ExecNonZero int string | ExecTimeout | ExecSpawnFailed string

definition read_capped :: "nat \<Rightarrow> string \<Rightarrow> string \<times> bool" where
  "read_capped cap s = (take (cap + 1) s, cap < length (take (cap + 1) s))"

definition finished_outcome :: "(string \<Rightarrow> string) \<Rightarrow> string \<times> bool \<Rightarrow> string \<times> bool \<Rightarrow> int option \<Rightarrow> exec_outcome" where
  "finished_outcome lossy out err status =
     (let stdout = trim (lossy (fst out));
          stderr = trim (lossy (fst err)) @ (if snd err then PROMPT_CONTEXT_TRUNCATED else [])
      in case status of
           Some code \<Rightarrow>
             if code = 0 then ExecSuccess stdout (snd out)
             else if code = 2 then ExecBlocked stderr else ExecNonZero code stderr
         | None \<Rightarrow> ExecNonZero (- 1) stderr)"

fun run_command :: "(string \<Rightarrow> string) \<Rightarrow> process \<Rightarrow> exec_outcome" where
  "run_command lossy (NoSpawn e) = ExecSpawnFailed e"
| "run_command lossy Overran = ExecTimeout"
| "run_command lossy (WaitFailed e) = ExecSpawnFailed e"
| "run_command lossy (Ended out err status) =
     finished_outcome lossy (read_capped PROMPT_CONTEXT_MAX_BYTES out) (read_capped PROMPT_CONTEXT_MAX_BYTES err) status"

definition capture_context :: "string \<Rightarrow> bool \<Rightarrow> string" where
  "capture_context stdout truncated =
     (if \<not> truncated \<and> byte_len stdout \<le> PROMPT_CONTEXT_MAX_BYTES then stdout
      else byte_take PROMPT_CONTEXT_MAX_BYTES stdout @ PROMPT_CONTEXT_TRUNCATED)"

definition append_context :: "string \<Rightarrow> string \<Rightarrow> bool \<Rightarrow> string" where
  "append_context context stdout truncated =
     (let captured = capture_context stdout truncated
      in if captured = [] then context
         else context @ (if context = [] then [] else [newline]) @ captured)"

definition one_line :: "string \<Rightarrow> string" where
  "one_line s = take 200 (case str_lines s of [] \<Rightarrow> [] | l # _ \<Rightarrow> l)"

section \<open>The engine\<close>

datatype hook_verdict = HookAllow | HookBlock string

record engine_report =
  er_verdict :: hook_verdict
  er_warnings :: "string list"
  er_context :: string
  er_ran :: "(bool \<times> nat \<times> exec_outcome) list"

record plugin_hook =
  ph_source :: string
  ph_handler :: "json \<Rightarrow> json option"

record hook_engine =
  he_defs :: "event_point \<Rightarrow> hook_def list"
  he_prompts :: "event_point \<Rightarrow> hook_def list"
  he_fired :: "(event_point \<times> nat) set"
  he_fired_prompts :: "(event_point \<times> nat) set"
  he_plugins :: "event_point \<Rightarrow> plugin_hook list"

definition engine_new :: "(event_point \<Rightarrow> hook_def list) \<Rightarrow> hook_engine" where
  "engine_new defs =
     \<lparr>he_defs = defs, he_prompts = \<lambda>_. [], he_fired = {}, he_fired_prompts = {}, he_plugins = \<lambda>_. []\<rparr>"

definition engine_is_empty :: "hook_engine \<Rightarrow> bool" where
  "engine_is_empty h \<longleftrightarrow> list_all (\<lambda>p. he_defs h p = [] \<and> he_prompts h p = []) event_points"

definition has_hooks :: "hook_engine \<Rightarrow> event_point \<Rightarrow> bool" where
  "has_hooks h p \<longleftrightarrow> he_defs h p \<noteq> [] \<or> he_prompts h p \<noteq> []"

definition register_prompt_hook :: "event_point \<Rightarrow> hook_def \<Rightarrow> hook_engine \<Rightarrow> hook_engine" where
  "register_prompt_hook p d h = h\<lparr>he_prompts := (he_prompts h)(p := he_prompts h p @ [d])\<rparr>"

definition entry_diagnostics :: "event_point \<Rightarrow> hook_def list \<Rightarrow> string list" where
  "entry_diagnostics p defs =
     concat (map (\<lambda>(i, d).
       map (\<lambda>r. ''['' @ point_name p @ ''] entry #'' @ show_nat i @ '' '' @ r) (unusable_reasons d p) @
       (if hd_timeout_ms d = 0
        then [''['' @ point_name p @ ''] entry #'' @ show_nat i @ '' timeout_ms is 0 (falls back to '' @
              show_nat HOOK_TIMEOUT_MS @ ''ms)''] else []))
     (enumerate 0 defs))"

text \<open>Sorted by name; within a point the commands come before the prompts.\<close>

definition engine_validate :: "hook_engine \<Rightarrow> string list" where
  "engine_validate h =
     concat (map (\<lambda>(p, defs). entry_diagnostics p defs)
       (sort_key (\<lambda>(p, _). point_name p)
         (map (\<lambda>p. (p, he_defs h p)) event_points @ map (\<lambda>p. (p, he_prompts h p)) event_points)))"

type_synonym 'w hook_process = "event_point \<Rightarrow> hook_def \<Rightarrow> hook_input \<Rightarrow> 'w \<Rightarrow> process \<times> 'w"

definition matches :: "hook_def \<Rightarrow> hook_input \<Rightarrow> bool" where
  "matches d input \<longleftrightarrow>
     (case hd_matcher d of
        None \<Rightarrow> True
      | Some mt \<Rightarrow> (case hi_tool_name input of Some tool \<Rightarrow> matcher_matches mt tool | None \<Rightarrow> False))"

definition warn :: "string \<Rightarrow> engine_report \<Rightarrow> engine_report" where
  "warn s r = r\<lparr>er_warnings := er_warnings r @ [s]\<rparr>"

definition hook_warning :: "event_point \<Rightarrow> string \<Rightarrow> hook_def \<Rightarrow> string \<Rightarrow> string" where
  "hook_warning p noun d rest = ''['' @ point_name p @ ''] '' @ noun @ '' `'' @ hd_command d @ ''` '' @ rest"

text \<open>What an outcome does to the report; true when it ends the run of the entries.\<close>

fun settle_entry :: "event_point \<Rightarrow> bool \<Rightarrow> hook_def \<Rightarrow> exec_outcome \<Rightarrow> engine_report \<Rightarrow> bool \<times> engine_report" where
  "settle_entry p prompt d (ExecSuccess stdout truncated) r =
     (False, if prompt then r\<lparr>er_context := append_context (er_context r) stdout truncated\<rparr> else r)"
| "settle_entry p prompt d (ExecBlocked stderr) r =
     (if prompt
      then (False, warn (hook_warning p ''prompt hook'' d (''exited with code 2 (prompt hooks never block): '' @ one_line stderr)) r)
      else if blockable p then (True, r\<lparr>er_verdict := HookBlock stderr\<rparr>)
      else (False, warn (hook_warning p ''hook'' d
              ''exited with code 2, but this point is not blockable (allowed with warning)'') r))"
| "settle_entry p prompt d (ExecNonZero code stderr) r =
     (False, warn (hook_warning p ''hook'' d
       (''exited with code '' @ show_int code @ '' (allowed with warning): '' @ one_line stderr)) r)"
| "settle_entry p prompt d ExecTimeout r =
     (False, warn (hook_warning p ''hook'' d
       (''timed out ('' @ show_nat (effective_timeout d) @ ''ms), force-killed (allowed with warning)'')) r)"
| "settle_entry p prompt d (ExecSpawnFailed reason) r =
     (False, warn (hook_warning p ''hook'' d (''failed to spawn (allowed with warning): '' @ reason)) r)"

fun is_spawn_failed :: "exec_outcome \<Rightarrow> bool" where
  "is_spawn_failed (ExecSpawnFailed _) = True"
| "is_spawn_failed _ = False"

type_synonym fired = "(event_point \<times> nat) set"

fun run_entries ::
    "(string \<Rightarrow> string) \<Rightarrow> 'w hook_process \<Rightarrow> event_point \<Rightarrow> bool \<Rightarrow> hook_input \<Rightarrow> nat \<Rightarrow> hook_def list \<Rightarrow>
     fired \<Rightarrow> engine_report \<Rightarrow> 'w \<Rightarrow> fired \<times> engine_report \<times> 'w" where
  "run_entries lossy exec p prompt input i [] fired r w = (fired, r, w)"
| "run_entries lossy exec p prompt input i (d # ds) fired r w =
     (if \<not> matches d input then run_entries lossy exec p prompt input (i + 1) ds fired r w
      else if blank (hd_command d)
      then run_entries lossy exec p prompt input (i + 1) ds fired
             (warn (''['' @ point_name p @ ''] entry #'' @ show_nat i @ '' has an empty command (skipped)'') r) w
      else if hd_once d \<and> (p, i) \<in> fired then run_entries lossy exec p prompt input (i + 1) ds fired r w
      else
        case exec p d input w of (proc, w') \<Rightarrow>
          let out = run_command lossy proc;
              fired' = (if hd_once d then (if is_spawn_failed out then fired - {(p, i)} else insert (p, i) fired) else fired)
          in case settle_entry p prompt d out (r\<lparr>er_ran := er_ran r @ [(prompt, i, out)]\<rparr>) of
               (True, r') \<Rightarrow> (fired', r', w')
             | (False, r') \<Rightarrow> run_entries lossy exec p prompt input (i + 1) ds fired' r' w')"

definition empty_report :: engine_report where
  "empty_report = \<lparr>er_verdict = HookAllow, er_warnings = [], er_context = [], er_ran = []\<rparr>"

definition engine_run ::
    "(string \<Rightarrow> string) \<Rightarrow> 'w hook_process \<Rightarrow> event_point \<Rightarrow> hook_input \<Rightarrow> hook_engine \<Rightarrow> 'w \<Rightarrow> engine_report \<times> hook_engine \<times> 'w" where
  "engine_run lossy exec p input h w =
     (case run_entries lossy exec p False input 0 (he_defs h p) (he_fired h) empty_report w of
        (fired, r, w') \<Rightarrow>
          let h' = h\<lparr>he_fired := fired\<rparr>
          in if er_verdict r \<noteq> HookAllow then (r, h', w')
             else case run_entries lossy exec p True input 0 (he_prompts h p) (he_fired_prompts h) r w' of
               (fired_prompts, r', w'') \<Rightarrow> (r', h'\<lparr>he_fired_prompts := fired_prompts\<rparr>, w''))"

section \<open>Plugin middleware\<close>

definition register_plugin_hook :: "string \<Rightarrow> event_point \<Rightarrow> (json \<Rightarrow> json option) \<Rightarrow> hook_engine \<Rightarrow> hook_engine" where
  "register_plugin_hook source p f h =
     h\<lparr>he_plugins := (he_plugins h)(p := he_plugins h p @ [\<lparr>ph_source = source, ph_handler = f\<rparr>])\<rparr>"

definition plugin_hook_count :: "hook_engine \<Rightarrow> event_point \<Rightarrow> nat" where
  "plugin_hook_count h p = length (he_plugins h p)"

fun chain :: "(json \<Rightarrow> json option) list \<Rightarrow> json \<Rightarrow> json option" where
  "chain [] event = Some event"
| "chain (f # fs) event = (case f event of None \<Rightarrow> None | Some next \<Rightarrow> chain fs next)"

definition run_plugin_hooks :: "hook_engine \<Rightarrow> event_point \<Rightarrow> json \<Rightarrow> json option" where
  "run_plugin_hooks h p event = chain (map ph_handler (he_plugins h p)) event"

section \<open>The adapter\<close>

fun event_point_of :: "hook_point \<Rightarrow> event_point" where
  "event_point_of PreToolUse = EvPreToolUse"
| "event_point_of PostToolUse = EvPostToolUse"
| "event_point_of PromptSubmit = EvUserPromptSubmit"
| "event_point_of SessionStart = EvSessionStart"
| "event_point_of SessionEnd = EvSessionEnd"
| "event_point_of Stop = EvStop"
| "event_point_of PreCompact = EvPreCompact"
| "event_point_of PostCompact = EvPostCompact"

definition translate_report :: "engine_report \<Rightarrow> hook_report" where
  "translate_report r =
     (case er_verdict r of
        HookAllow \<Rightarrow> \<lparr>hr_allow = True, hr_message = join [newline] (er_warnings r), hr_context = er_context r\<rparr>
      | HookBlock reason \<Rightarrow> \<lparr>hr_allow = False, hr_message = reason, hr_context = er_context r\<rparr>)"

definition adapter_fire ::
    "(string \<Rightarrow> string) \<Rightarrow> 'w hook_process \<Rightarrow> hook_point \<Rightarrow> hook_input \<Rightarrow> hook_engine \<times> 'w \<Rightarrow> hook_report \<times> (hook_engine \<times> 'w)" where
  "adapter_fire lossy exec p input s =
     (case engine_run lossy exec (event_point_of p) input (fst s) (snd s) of (r, s') \<Rightarrow> (translate_report r, s'))"

definition adapter_run ::
    "(string \<Rightarrow> string) \<Rightarrow> 'w hook_process \<Rightarrow> string \<Rightarrow> hook_point \<Rightarrow> string \<Rightarrow> hook_engine \<times> 'w \<Rightarrow> hook_report \<times> (hook_engine \<times> 'w)" where
  "adapter_run lossy exec cwd p payload =
     adapter_fire lossy exec p \<lparr>hi_cwd = cwd, hi_tool_name = None, hi_tool_input = None, hi_tool_output = None\<rparr>"

definition adapter_run_tool ::
    "(string \<Rightarrow> string) \<Rightarrow> 'w hook_process \<Rightarrow> string \<Rightarrow> hook_point \<Rightarrow> string \<Rightarrow> json \<Rightarrow> string option \<Rightarrow> hook_engine \<times> 'w \<Rightarrow>
     hook_report \<times> (hook_engine \<times> 'w)" where
  "adapter_run_tool lossy exec cwd p tool input out =
     adapter_fire lossy exec p \<lparr>hi_cwd = cwd, hi_tool_name = Some tool, hi_tool_input = Some input, hi_tool_output = out\<rparr>"

text \<open>The seams of the run loop with the hooks behind them.\<close>

definition hook_seams ::
    "(string \<Rightarrow> string) \<Rightarrow> 'w hook_process \<Rightarrow> string \<Rightarrow> (hook_engine \<times> 'w) seams \<Rightarrow> (hook_engine \<times> 'w) seams" where
  "hook_seams lossy exec cwd sm =
     sm\<lparr>sm_hook := adapter_run lossy exec cwd, sm_hook_tool := adapter_run_tool lossy exec cwd\<rparr>"

section \<open>What a run of the entries did\<close>

fun is_exec_blocked :: "exec_outcome \<Rightarrow> bool" where
  "is_exec_blocked (ExecBlocked _) = True"
| "is_exec_blocked _ = False"

text \<open>The executions of one run: increasing indices of entries that match, have a command and, when they
  fire once, had not fired; what started stays recorded; only the last may end the run.\<close>

definition run_facts ::
    "event_point \<Rightarrow> bool \<Rightarrow> hook_input \<Rightarrow> nat \<Rightarrow> hook_def list \<Rightarrow> fired \<Rightarrow> engine_report \<Rightarrow>
     fired \<Rightarrow> engine_report \<Rightarrow> (nat \<times> exec_outcome) list \<Rightarrow> bool" where
  "run_facts p prompt input i ds fired r fired' r' t \<longleftrightarrow>
     er_ran r' = er_ran r @ map (\<lambda>(j, out). (prompt, j, out)) t \<and>
     sorted_wrt (<) (map fst t) \<and>
     (\<forall>(j, out) \<in> set t. i \<le> j \<and> j < i + length ds \<and> matches (ds ! (j - i)) input \<and> \<not> blank (hd_command (ds ! (j - i))) \<and>
        (hd_once (ds ! (j - i)) \<longrightarrow> (p, j) \<notin> fired \<and> (\<not> is_spawn_failed out \<longrightarrow> (p, j) \<in> fired'))) \<and>
     fired \<subseteq> fired' \<and>
     (if \<not> prompt \<and> blockable p \<and> t \<noteq> [] \<and> is_exec_blocked (snd (last t))
      then \<exists>s. snd (last t) = ExecBlocked s \<and> er_verdict r' = HookBlock s
      else er_verdict r' = er_verdict r) \<and>
     (\<not> prompt \<and> blockable p \<longrightarrow> (\<forall>(j, out) \<in> set (butlast t). \<not> is_exec_blocked out)) \<and>
     (\<not> prompt \<longrightarrow> er_context r' = er_context r)"

lemma run_facts_skip:
  "run_facts p prompt input (Suc i) ds fired r fired' r' t \<Longrightarrow> run_facts p prompt input i (d # ds) fired r fired' r' t"
  unfolding run_facts_def by (auto simp: nth_Cons' Suc_diff_Suc split: prod.splits if_splits)

lemma settle_facts:
  "settle_entry p prompt d out r = (stop, r') \<Longrightarrow>
   er_ran r' = er_ran r \<and> (stop \<longleftrightarrow> \<not> prompt \<and> blockable p \<and> is_exec_blocked out) \<and>
   (stop \<longrightarrow> (\<exists>s. out = ExecBlocked s \<and> er_verdict r' = HookBlock s)) \<and> (\<not> stop \<longrightarrow> er_verdict r' = er_verdict r) \<and>
   (\<not> prompt \<longrightarrow> er_context r' = er_context r)"
  by (cases out) (auto simp: warn_def split: if_splits)

lemma run_facts_step:
  assumes "matches d input" and "\<not> blank (hd_command d)" and "hd_once d \<longrightarrow> (p, i) \<notin> fired"
    and fired1: "fired1 = (if hd_once d then (if is_spawn_failed out then fired - {(p, i)} else insert (p, i) fired) else fired)"
    and st: "settle_entry p prompt d out (r\<lparr>er_ran := er_ran r @ [(prompt, i, out)]\<rparr>) = (False, r1)"
    and t: "run_facts p prompt input (Suc i) ds fired1 r1 fired' r' t"
  shows "run_facts p prompt input i (d # ds) fired r fired' r' ((i, out) # t)"
proof -
  note s = settle_facts [OF st]
  have sub: "fired \<subseteq> fired1" using assms(3) fired1 by auto
  have later: "Suc i \<le> j" if "(j, o1) \<in> set t" for j o1
    using t that by (auto simp: run_facts_def)
  have ent: "i \<le> j \<and> j < i + length (d # ds) \<and> matches ((d # ds) ! (j - i)) input \<and> \<not> blank (hd_command ((d # ds) ! (j - i))) \<and>
      (hd_once ((d # ds) ! (j - i)) \<longrightarrow> (p, j) \<notin> fired \<and> (\<not> is_spawn_failed o1 \<longrightarrow> (p, j) \<in> fired'))"
    if mem: "(j, o1) \<in> set ((i, out) # t)" for j o1
  proof (cases "j = i")
    case True
    then have "o1 = out" using mem later by fastforce
    moreover have "fired1 \<subseteq> fired'" using t by (simp add: run_facts_def)
    ultimately show ?thesis using True assms(1,2,3) fired1 by auto
  next
    case False
    then have m: "(j, o1) \<in> set t" using mem by auto
    have "j - i = Suc (j - Suc i)" using later [OF m] by simp
    then show ?thesis using t m sub by (auto simp: run_facts_def)
  qed
  have entb: "\<forall>(j, o1) \<in> set ((i, out) # t). i \<le> j \<and> j < i + length (d # ds) \<and> matches ((d # ds) ! (j - i)) input \<and>
      \<not> blank (hd_command ((d # ds) ! (j - i))) \<and>
      (hd_once ((d # ds) ! (j - i)) \<longrightarrow> (p, j) \<notin> fired \<and> (\<not> is_spawn_failed o1 \<longrightarrow> (p, j) \<in> fired'))"
    by (intro ballI, simp only: split: prod.split) (use ent in blast)
  have sorted: "sorted_wrt (<) (map fst ((i, out) # t))"
    using t later by (force simp: run_facts_def)
  have ran: "er_ran r' = er_ran r @ map (\<lambda>(j, out). (prompt, j, out)) ((i, out) # t)"
    using t s by (simp add: run_facts_def)
  show ?thesis
    unfolding run_facts_def
  proof (intro conjI)
    show "fired \<subseteq> fired'" using t sub by (auto simp: run_facts_def)
    show "if \<not> prompt \<and> blockable p \<and> (i, out) # t \<noteq> [] \<and> is_exec_blocked (snd (last ((i, out) # t)))
      then \<exists>s. snd (last ((i, out) # t)) = ExecBlocked s \<and> er_verdict r' = HookBlock s
      else er_verdict r' = er_verdict r"
      using t s by (cases t) (auto simp: run_facts_def split: if_splits)
    show "\<not> prompt \<and> blockable p \<longrightarrow> (\<forall>(j, out) \<in> set (butlast ((i, out) # t)). \<not> is_exec_blocked out)"
      using t s by (cases t) (auto simp: run_facts_def)
    show "\<not> prompt \<longrightarrow> er_context r' = er_context r" using t s by (simp add: run_facts_def)
  qed (rule ran sorted entb)+
qed

lemma run_facts_stop:
  assumes "matches d input" and "\<not> blank (hd_command d)" and "hd_once d \<longrightarrow> (p, i) \<notin> fired"
    and "fired1 = (if hd_once d then (if is_spawn_failed out then fired - {(p, i)} else insert (p, i) fired) else fired)"
    and st: "settle_entry p prompt d out (r\<lparr>er_ran := er_ran r @ [(prompt, i, out)]\<rparr>) = (True, r1)"
  shows "run_facts p prompt input i (d # ds) fired r fired1 r1 [(i, out)]"
  using assms settle_facts [OF st] by (auto simp: run_facts_def)

lemma run_entries_facts:
  "run_entries lossy exec p prompt input i ds fired r w = (fired', r', w') \<Longrightarrow>
   \<exists>t. run_facts p prompt input i ds fired r fired' r' t"
proof (induction ds arbitrary: i fired r w)
  case Nil
  then show ?case by (intro exI [of _ "[]"]) (simp add: run_facts_def)
next
  case (Cons d ds)
  let ?skip = "\<not> matches d input \<or> blank (hd_command d) \<or> (hd_once d \<and> (p, i) \<in> fired)"
  show ?case
  proof (cases ?skip)
    case True
    then obtain r1 where rec: "run_entries lossy exec p prompt input (Suc i) ds fired r1 w = (fired', r', w')"
      and r1: "er_ran r1 = er_ran r" "er_verdict r1 = er_verdict r" "er_context r1 = er_context r"
      using Cons.prems by (auto simp: warn_def split: if_splits)
    obtain t where "run_facts p prompt input (Suc i) ds fired r1 fired' r' t" using Cons.IH [OF rec] by blast
    then have "run_facts p prompt input (Suc i) ds fired r fired' r' t" unfolding run_facts_def r1 .
    then show ?thesis using run_facts_skip by blast
  next
    case False
    obtain proc w1 where ex: "exec p d input w = (proc, w1)" by fastforce
    define out where "out = run_command lossy proc"
    define fired1 where "fired1 =
      (if hd_once d then (if is_spawn_failed out then fired - {(p, i)} else insert (p, i) fired) else fired)"
    obtain stop r1 where st: "settle_entry p prompt d out (r\<lparr>er_ran := er_ran r @ [(prompt, i, out)]\<rparr>) = (stop, r1)" by fastforce
    have eq: "run_entries lossy exec p prompt input i (d # ds) fired r w =
      (if stop then (fired1, r1, w1) else run_entries lossy exec p prompt input (Suc i) ds fired1 r1 w1)"
      using False ex st by (simp add: out_def [symmetric] fired1_def Let_def split: bool.split)
    from False have m: "matches d input" "\<not> blank (hd_command d)" "hd_once d \<longrightarrow> (p, i) \<notin> fired" by simp_all
    show ?thesis
    proof (cases stop)
      case True
      then have same: "fired' = fired1" "r' = r1" using Cons.prems unfolding eq by auto
      from True st have st1: "settle_entry p prompt d out (r\<lparr>er_ran := er_ran r @ [(prompt, i, out)]\<rparr>) = (True, r1)" by simp
      show ?thesis unfolding same using run_facts_stop [OF m fired1_def st1] by blast
    next
      case go: False
      then have rec: "run_entries lossy exec p prompt input (Suc i) ds fired1 r1 w1 = (fired', r', w')"
        using Cons.prems unfolding eq by simp
      obtain t where t: "run_facts p prompt input (Suc i) ds fired1 r1 fired' r' t" using Cons.IH [OF rec] by blast
      from go st have st1: "settle_entry p prompt d out (r\<lparr>er_ran := er_ran r @ [(prompt, i, out)]\<rparr>) = (False, r1)" by simp
      show ?thesis using run_facts_step [OF m fired1_def st1] t by blast
    qed
  qed
qed

section \<open>What a firing did\<close>

lemma engine_run_facts:
  assumes "engine_run lossy exec p input h w = (r, h', w')"
  obtains t1 t2 where
    "er_ran r = map (\<lambda>(j, out). (False, j, out)) t1 @ map (\<lambda>(j, out). (True, j, out)) t2"
    "run_facts p False input 0 (he_defs h p) (he_fired h) empty_report (he_fired h') (r\<lparr>er_ran := map (\<lambda>(j, out). (False, j, out)) t1, er_context := []\<rparr>) t1"
    "er_verdict r \<noteq> HookAllow \<longrightarrow> t2 = [] \<and> er_context r = []"
    "\<exists>r1. run_facts p True input 0 (he_prompts h p) (he_fired_prompts h) r1 (he_fired_prompts h') r t2"
    "he_defs h' = he_defs h" "he_prompts h' = he_prompts h" "he_plugins h' = he_plugins h"
proof -
  obtain f1 r1 w1 where c: "run_entries lossy exec p False input 0 (he_defs h p) (he_fired h) empty_report w = (f1, r1, w1)"
    by (metis prod_cases3)
  obtain t1 where t1: "run_facts p False input 0 (he_defs h p) (he_fired h) empty_report f1 r1 t1"
    using run_entries_facts [OF c] by blast
  have ran1: "er_ran r1 = map (\<lambda>(j, out). (False, j, out)) t1" "er_context r1 = []"
    using t1 by (simp_all add: run_facts_def empty_report_def)
  show thesis
  proof (cases "er_verdict r1 = HookAllow")
    case False
    then have r: "r = r1" "h' = h\<lparr>he_fired := f1\<rparr>" using assms c by (simp_all add: engine_run_def Let_def)
    have "run_facts p True input 0 (he_prompts h p) (he_fired_prompts h) r1 (he_fired_prompts h) r1 []"
      by (simp add: run_facts_def)
    then have prompts: "\<exists>r0. run_facts p True input 0 (he_prompts h p) (he_fired_prompts h) r0 (he_fired_prompts h') r []"
      using r by auto
    have same: "r\<lparr>er_ran := map (\<lambda>(j, out). (False, j, out)) t1, er_context := []\<rparr> = r1" using r ran1 by simp
    show ?thesis by (rule that [of t1 "[]", unfolded same]) (use r t1 ran1 prompts in simp_all)
  next
    case True
    obtain f2 r2 w2 where q: "run_entries lossy exec p True input 0 (he_prompts h p) (he_fired_prompts h) r1 w1 = (f2, r2, w2)"
      by (metis prod_cases3)
    obtain t2 where t2: "run_facts p True input 0 (he_prompts h p) (he_fired_prompts h) r1 f2 r2 t2"
      using run_entries_facts [OF q] by blast
    have r: "r = r2" "h' = h\<lparr>he_fired := f1, he_fired_prompts := f2\<rparr>"
      using assms c q True by (simp_all add: engine_run_def Let_def)
    have v: "er_verdict r2 = er_verdict r1" using t2 by (simp add: run_facts_def)
    show ?thesis
    proof (rule that [of t1 t2])
      show "er_ran r = map (\<lambda>(j, out). (False, j, out)) t1 @ map (\<lambda>(j, out). (True, j, out)) t2"
        using t2 ran1 r by (simp add: run_facts_def)
      show "run_facts p False input 0 (he_defs h p) (he_fired h) empty_report (he_fired h')
          (r\<lparr>er_ran := map (\<lambda>(j, out). (False, j, out)) t1, er_context := []\<rparr>) t1"
        using t1 ran1 r v by (simp add: run_facts_def empty_report_def)
    qed (use r t2 v True in auto)
  qed
qed



section \<open>Entries that fire once\<close>

text \<open>A session: the engine, everything executed so far, and the world.\<close>

record 'w hook_session =
  ss_engine :: hook_engine
  ss_log :: "(event_point \<times> bool \<times> nat \<times> exec_outcome) list"
  ss_world :: 'w

datatype hook_event =
    FireHooks event_point hook_input | RegisterPrompt event_point hook_def
  | RegisterPlugin string event_point "json \<Rightarrow> json option"

fun hook_step :: "(string \<Rightarrow> string) \<Rightarrow> 'w hook_process \<Rightarrow> hook_event \<Rightarrow> 'w hook_session \<Rightarrow> 'w hook_session" where
  "hook_step lossy exec (FireHooks p input) s =
     (case engine_run lossy exec p input (ss_engine s) (ss_world s) of (r, h, w) \<Rightarrow>
        \<lparr>ss_engine = h, ss_log = ss_log s @ map (Pair p) (er_ran r), ss_world = w\<rparr>)"
| "hook_step lossy exec (RegisterPrompt p d) s = s\<lparr>ss_engine := register_prompt_hook p d (ss_engine s)\<rparr>"
| "hook_step lossy exec (RegisterPlugin source p f) s = s\<lparr>ss_engine := register_plugin_hook source p f (ss_engine s)\<rparr>"

definition entries_of :: "hook_engine \<Rightarrow> bool \<Rightarrow> event_point \<Rightarrow> hook_def list" where
  "entries_of h prompt p = (if prompt then he_prompts h p else he_defs h p)"

definition fired_of :: "hook_engine \<Rightarrow> bool \<Rightarrow> fired" where
  "fired_of h prompt = (if prompt then he_fired_prompts h else he_fired h)"

text \<open>How often an entry's process started.\<close>

definition starts :: "event_point \<Rightarrow> bool \<Rightarrow> nat \<Rightarrow> (event_point \<times> bool \<times> nat \<times> exec_outcome) list \<Rightarrow> nat" where
  "starts p prompt i log =
     length (filter (\<lambda>(p', prompt', i', out). p' = p \<and> prompt' = prompt \<and> i' = i \<and> \<not> is_spawn_failed out) log)"

definition once_ok :: "'w hook_session \<Rightarrow> bool" where
  "once_ok s \<longleftrightarrow>
     (\<forall>p prompt i. 0 < starts p prompt i (ss_log s) \<longrightarrow>
        i < length (entries_of (ss_engine s) prompt p) \<and>
        (hd_once (entries_of (ss_engine s) prompt p ! i) \<longrightarrow>
           starts p prompt i (ss_log s) = 1 \<and> (p, i) \<in> fired_of (ss_engine s) prompt))"

lemma starts_append: "starts p pr i (a @ b) = starts p pr i a + starts p pr i b"
  by (simp add: starts_def)

lemma starts_other: "q \<noteq> p \<or> pr \<noteq> pr' \<Longrightarrow> starts p pr i (map (\<lambda>(j, out). (q, pr', j, out)) t) = 0"
  by (auto simp: starts_def filter_empty_conv)

lemma starts_run:
  assumes "sorted_wrt (<) (map fst t)"
  shows "starts p pr i (map (\<lambda>(j, out). (p, pr, j, out)) t) \<le> 1"
    and "0 < starts p pr i (map (\<lambda>(j, out). (p, pr, j, out)) t) \<Longrightarrow> \<exists>out. (i, out) \<in> set t \<and> \<not> is_spawn_failed out"
proof -
  have "length (filter (\<lambda>(j, out). j = i \<and> \<not> is_spawn_failed out) t) \<le> 1"
    using assms
  proof (induction t)
    case (Cons x t)
    obtain j out where x: "x = (j, out)" by (cases x)
    show ?case
    proof (cases "j = i")
      case True
      then have "filter (\<lambda>(j, out). j = i \<and> \<not> is_spawn_failed out) t = []"
        using Cons.prems x by (fastforce simp: filter_empty_conv)
      then show ?thesis using x by simp
    qed (use Cons x in simp)
  qed simp
  moreover have eq: "starts p pr i (map (\<lambda>(j, out). (p, pr, j, out)) t) = length (filter (\<lambda>(j, out). j = i \<and> \<not> is_spawn_failed out) t)"
    by (simp add: starts_def filter_map o_def case_prod_unfold)
  ultimately show "starts p pr i (map (\<lambda>(j, out). (p, pr, j, out)) t) \<le> 1" by simp
  show "\<exists>out. (i, out) \<in> set t \<and> \<not> is_spawn_failed out"
    if "0 < starts p pr i (map (\<lambda>(j, out). (p, pr, j, out)) t)"
    using that unfolding eq by (auto simp: filter_empty_conv)
qed

lemma once_fire: "once_ok s \<Longrightarrow> once_ok (hook_step lossy exec (FireHooks p input) s)"
proof -
  assume ok: "once_ok s"
  obtain r h w where eq: "engine_run lossy exec p input (ss_engine s) (ss_world s) = (r, h, w)" by (metis prod_cases3)
  obtain t1 t2 r1 where ran: "er_ran r = map (\<lambda>(j, out). (False, j, out)) t1 @ map (\<lambda>(j, out). (True, j, out)) t2"
    and c: "run_facts p False input 0 (he_defs (ss_engine s) p) (he_fired (ss_engine s)) empty_report (he_fired h)
      (r\<lparr>er_ran := map (\<lambda>(j, out). (False, j, out)) t1, er_context := []\<rparr>) t1"
    and q: "run_facts p True input 0 (he_prompts (ss_engine s) p) (he_fired_prompts (ss_engine s)) r1 (he_fired_prompts h) r t2"
    and h: "he_defs h = he_defs (ss_engine s)" "he_prompts h = he_prompts (ss_engine s)"
    using engine_run_facts [OF eq] by metis
  define t where "t prompt = (if prompt then t2 else t1)" for prompt
  have ent: "entries_of h = entries_of (ss_engine s)" using h by (auto simp: entries_of_def fun_eq_iff)
  have facts: "sorted_wrt (<) (map fst (t prompt)) \<and> fired_of (ss_engine s) prompt \<subseteq> fired_of h prompt \<and>
      (\<forall>(j, out) \<in> set (t prompt). j < length (entries_of (ss_engine s) prompt p) \<and>
         (hd_once (entries_of (ss_engine s) prompt p ! j) \<longrightarrow>
            (p, j) \<notin> fired_of (ss_engine s) prompt \<and> (\<not> is_spawn_failed out \<longrightarrow> (p, j) \<in> fired_of h prompt)))" for prompt
    using c q by (cases prompt) (auto simp: t_def run_facts_def entries_of_def fired_of_def)
  have log: "starts p' prompt i (ss_log s @ map (Pair p) (er_ran r)) = starts p' prompt i (ss_log s) +
      (if p' = p then starts p prompt i (map (\<lambda>(j, out). (p, prompt, j, out)) (t prompt)) else 0)" for p' prompt i
  proof -
    have "map (Pair p) (er_ran r) = map (\<lambda>(j, out). (p, False, j, out)) t1 @ map (\<lambda>(j, out). (p, True, j, out)) t2"
      unfolding ran by (simp add: o_def split_beta)
    then show ?thesis by (cases prompt) (auto simp: starts_append starts_other t_def)
  qed
  have "once_ok \<lparr>ss_engine = h, ss_log = ss_log s @ map (Pair p) (er_ran r), ss_world = w\<rparr>"
    unfolding once_ok_def hook_session.simps ent
  proof (intro allI impI)
    fix p' prompt i
    let ?n = "starts p prompt i (map (\<lambda>(j, out). (p, prompt, j, out)) (t prompt))"
    assume pos: "0 < starts p' prompt i (ss_log s @ map (Pair p) (er_ran r))"
    note runs = starts_run [of "t prompt" p prompt i]
    have old: "0 < starts p' prompt i (ss_log s) \<Longrightarrow> i < length (entries_of (ss_engine s) prompt p') \<and>
        (hd_once (entries_of (ss_engine s) prompt p' ! i) \<longrightarrow>
           starts p' prompt i (ss_log s) = 1 \<and> (p', i) \<in> fired_of (ss_engine s) prompt)"
      using ok by (simp add: once_ok_def)
    show "i < length (entries_of (ss_engine s) prompt p') \<and> (hd_once (entries_of (ss_engine s) prompt p' ! i) \<longrightarrow>
        starts p' prompt i (ss_log s @ map (Pair p) (er_ran r)) = 1 \<and> (p', i) \<in> fired_of h prompt)"
    proof (cases "p' = p \<and> 0 < ?n")
      case True
      then obtain out where out: "(i, out) \<in> set (t prompt)" "\<not> is_spawn_failed out" using runs(2) facts by blast
      have one: "?n = 1" using True runs(1) facts by (simp add: le_less_Suc_eq)
      have "i < length (entries_of (ss_engine s) prompt p)" using facts out by fastforce
      moreover have "starts p prompt i (ss_log s) = 0 \<and> (p, i) \<in> fired_of h prompt" if "hd_once (entries_of (ss_engine s) prompt p ! i)"
        using facts [of prompt] out old that True by fastforce
      ultimately show ?thesis using True one log [of p prompt i] by simp
    next
      case False
      then have "starts p' prompt i (ss_log s @ map (Pair p) (er_ran r)) = starts p' prompt i (ss_log s)"
        using log [of p' prompt i] by auto
      then show ?thesis using pos old facts [of prompt] by auto
    qed
  qed
  then show ?thesis using eq by simp
qed

lemma once_step: "once_ok s \<Longrightarrow> once_ok (hook_step lossy exec ev s)"
proof (cases ev)
  case (RegisterPrompt p d)
  assume ok: "once_ok s"
  have same: "i < length (entries_of (ss_engine s) pr q) \<Longrightarrow>
      i < length (entries_of (register_prompt_hook p d (ss_engine s)) pr q) \<and>
      entries_of (register_prompt_hook p d (ss_engine s)) pr q ! i = entries_of (ss_engine s) pr q ! i" for i pr q
    by (auto simp: entries_of_def register_prompt_hook_def nth_append)
  have fired: "fired_of (register_prompt_hook p d (ss_engine s)) = fired_of (ss_engine s)"
    by (simp add: fired_of_def register_prompt_hook_def fun_eq_iff)
  show ?thesis using ok same unfolding RegisterPrompt once_ok_def by (simp add: fired)
next
  case (RegisterPlugin source p f)
  assume "once_ok s"
  moreover have "entries_of (register_plugin_hook source p f h) = entries_of h"
    "fired_of (register_plugin_hook source p f h) = fired_of h" for h
    by (simp_all add: entries_of_def fired_of_def register_plugin_hook_def fun_eq_iff)
  ultimately show ?thesis by (simp add: RegisterPlugin once_ok_def)
qed (simp del: hook_step.simps add: once_fire)

interpretation hook_sessions: machine once_ok "hook_step lossy exec" for lossy exec
  by unfold_locales (rule once_step)



section \<open>Diagnosed entries\<close>

lemma trim_blank_alternatives: "blank mt \<Longrightarrow> map trim (split_on (\<lambda>c. c = CHR ''|'') mt) = [[]]"
proof -
  assume b: "blank mt"
  have drop: "dropWhile P s = [] \<Longrightarrow> c \<in> set s \<Longrightarrow> P c" for P :: "char \<Rightarrow> bool" and s c
    by (metis dropWhile_eq_Nil_conv)
  have "is_ws c" if c: "c \<in> set mt" for c
  proof (rule ccontr)
    assume "\<not> is_ws c"
    then have "c \<in> set (trim_start mt)"
      unfolding trim_start_def using c by (metis Un_iff set_append set_takeWhileD takeWhile_dropWhile_id)
    moreover have "list_all is_ws (trim_start mt)"
      using b unfolding blank_def trim_def trim_end_def list_all_iff by (metis drop rev_is_Nil_conv set_rev)
    ultimately show False using \<open>\<not> is_ws c\<close> by (simp add: list_all_iff)
  qed
  moreover have "\<not> is_ws (CHR ''|'')" by (simp add: is_ws_def char_code_def)
  ultimately have "split_on (\<lambda>c. c = CHR ''|'') mt = [mt]" by (intro split_on_none) auto
  then show ?thesis using b by (simp add: blank_def)
qed

text \<open>What validation flags never runs. When the points that carry no tool are fired without one, and no tool's name is
  empty, an entry with a reason to be unusable is never executed.\<close>

theorem flagged_entries_never_run:
  assumes "is_tool_point p \<or> hi_tool_name input = None" and "hi_tool_name input \<noteq> Some []"
  shows "list_all (\<lambda>(prompt, i, out). unusable_reasons (entries_of h prompt p ! i) p = [])
           (er_ran (fst (engine_run lossy exec p input h w)))"
proof -
  obtain r h' w' where eq: "engine_run lossy exec p input h w = (r, h', w')" by (metis prod_cases3)
  obtain t1 t2 r1 where ran: "er_ran r = map (\<lambda>(j, out). (False, j, out)) t1 @ map (\<lambda>(j, out). (True, j, out)) t2"
    and c: "run_facts p False input 0 (he_defs h p) (he_fired h) empty_report (he_fired h')
      (r\<lparr>er_ran := map (\<lambda>(j, out). (False, j, out)) t1, er_context := []\<rparr>) t1"
    and q: "run_facts p True input 0 (he_prompts h p) (he_fired_prompts h) r1 (he_fired_prompts h') r t2"
    using engine_run_facts [OF eq] by metis
  have usable: "unusable_reasons d p = []" if m: "matches d input" and cmd: "\<not> blank (hd_command d)" for d
  proof (cases "hd_matcher d")
    case (Some mt)
    then obtain tool where tool: "hi_tool_name input = Some tool" "matcher_matches mt tool"
      using m by (auto simp: matches_def split: option.splits)
    then have "\<not> blank mt" using assms(2) trim_blank_alternatives by (auto simp: matcher_matches_def)
    then show ?thesis using Some tool assms(1) cmd by (simp add: unusable_reasons_def)
  qed (use cmd in \<open>simp add: unusable_reasons_def\<close>)
  have "list_all (\<lambda>x. unusable_reasons (he_defs h p ! fst x) p = []) t1"
    using c unfolding run_facts_def list_all_iff by (auto simp: split_beta intro!: usable)
  moreover have "list_all (\<lambda>x. unusable_reasons (he_prompts h p ! fst x) p = []) t2"
    using q unfolding run_facts_def list_all_iff by (auto simp: split_beta intro!: usable)
  ultimately show ?thesis unfolding eq fst_conv ran
    by (simp add: list.pred_map o_def split_beta entries_of_def)
qed

text \<open>A block carries its reason alone: the warnings collected before it do not reach the gateway.\<close>

lemma block_drops_warnings:
  "translate_report \<lparr>er_verdict = HookBlock reason, er_warnings = ws, er_context = c, er_ran = t\<rparr> =
   \<lparr>hr_allow = False, hr_message = reason, hr_context = c\<rparr>"
  by (simp add: translate_report_def)

end
