(* ===== verification/Web_Fetch.thy ===== *)
theory Web_Fetch
  imports File_Tools "HOL-Library.Word"
begin

unbundle bit_operations_syntax

text \<open>
  The \<open>web_fetch\<close> tool, \<open>capabilities/tools/src/web_fetch.rs\<close>: the parameters, the screen of hosts, the vetting
  resolver, the redirect loop and the capped body. The HTTP client, URL parsing and joining, the parser of
  address literals, the decoding of the body and the HTML renderer are arguments; addresses and the
  standard library's predicates on them are modelled on machine words.
\<close>

section \<open>Addresses\<close>

datatype ip =
    V4 "8 word" "8 word" "8 word" "8 word"
  | V6 "16 word" "16 word" "16 word" "16 word" "16 word" "16 word" "16 word" "16 word"

definition v4_loopback :: "8 word \<Rightarrow> bool" where
  "v4_loopback a \<longleftrightarrow> a = 127"

definition v4_private :: "8 word \<Rightarrow> 8 word \<Rightarrow> bool" where
  "v4_private a b \<longleftrightarrow> a = 10 \<or> (a = 172 \<and> 16 \<le> b \<and> b \<le> 31) \<or> (a = 192 \<and> b = 168)"

definition v4_link_local :: "8 word \<Rightarrow> 8 word \<Rightarrow> bool" where
  "v4_link_local a b \<longleftrightarrow> a = 169 \<and> b = 254"

definition v4_documentation :: "8 word \<Rightarrow> 8 word \<Rightarrow> 8 word \<Rightarrow> bool" where
  "v4_documentation a b c \<longleftrightarrow> (a, b, c) \<in> {(192, 0, 2), (198, 51, 100), (203, 0, 113)}"

fun to_ipv4_mapped :: "ip \<Rightarrow> ip option" where
  "to_ipv4_mapped (V6 a b c d e f g h) =
     (if a = 0 \<and> b = 0 \<and> c = 0 \<and> d = 0 \<and> e = 0 \<and> f = 0xffff
      then Some (V4 (ucast (drop_bit 8 g)) (ucast g) (ucast (drop_bit 8 h)) (ucast h)) else None)"
| "to_ipv4_mapped (V4 _ _ _ _) = None"

text \<open>The range a request by literal is refused for.\<close>

fun link_local :: "ip \<Rightarrow> bool" where
  "link_local (V4 a b c d) = v4_link_local a b"
| "link_local (V6 a b c d e f g h) =
     (case to_ipv4_mapped (V6 a b c d e f g h) of
        Some (V4 x y _ _) \<Rightarrow> v4_link_local x y
      | _ \<Rightarrow> a AND 0xffc0 = 0xfe80)"

fun v4_is_private :: "ip \<Rightarrow> bool" where
  "v4_is_private (V4 a b c d) \<longleftrightarrow>
     v4_loopback a \<or> v4_private a b \<or> v4_link_local a b \<or> (a, b, c, d) = (0, 0, 0, 0) \<or>
     (a, b, c, d) = (255, 255, 255, 255) \<or> v4_documentation a b c \<or> (a = 100 \<and> b AND 0xc0 = 64)"
| "v4_is_private (V6 _ _ _ _ _ _ _ _) = False"

fun is_private_addr :: "ip \<Rightarrow> bool" where
  "is_private_addr (V4 a b c d) = v4_is_private (V4 a b c d)"
| "is_private_addr (V6 a b c d e f g h) =
     (case to_ipv4_mapped (V6 a b c d e f g h) of
        Some v4 \<Rightarrow> v4_is_private v4
      | None \<Rightarrow>
          (a, b, c, d, e, f, g, h) = (0, 0, 0, 0, 0, 0, 0, 1) \<or> (a, b, c, d, e, f, g, h) = (0, 0, 0, 0, 0, 0, 0, 0) \<or>
          a AND 0xfe00 = 0xfc00 \<or> a AND 0xffc0 = 0xfe80)"

lemma link_local_private: "link_local x \<Longrightarrow> is_private_addr x"
  by (cases x) (auto split: option.splits ip.splits)

section \<open>Hosts\<close>

definition literal_text :: "string \<Rightarrow> string" where
  "literal_text host =
     (let h = trim_end_matches (\<lambda>c. c = CHR '']'') (dropWhile (\<lambda>c. c = CHR ''['') (trim host))
      in if ends_with h ''.'' then butlast h else h)"

definition is_link_local_host :: "(string \<Rightarrow> ip option) \<Rightarrow> string \<Rightarrow> bool" where
  "is_link_local_host parse_ip host =
     (case parse_ip (literal_text host) of Some x \<Rightarrow> link_local x | None \<Rightarrow> False)"

text \<open>The resolver: what the system answers for the name, without the private addresses.\<close>

definition vet_addresses :: "string \<Rightarrow> (string, ip list) result \<Rightarrow> (string, ip list) result" where
  "vet_addresses name answer =
     (case answer of
        Inl e \<Rightarrow> Inl e
      | Inr addrs \<Rightarrow>
          let vetted = filter (\<lambda>x. \<not> is_private_addr x) addrs
          in if vetted = []
             then Inl (''host '' @ [quote_char] @ name @ [quote_char] @ '' resolves only into private address ranges; this tool never reaches private networks by name'')
             else Inr vetted)"

section \<open>Parameters\<close>

definition DEFAULT_MAX_BYTES :: nat where "DEFAULT_MAX_BYTES = 256 * 1024"
definition CAP_MAX_BYTES :: nat where "CAP_MAX_BYTES = 1024 * 1024"
definition FETCH_TIMEOUT_MS :: nat where "FETCH_TIMEOUT_MS = 30000"
definition MAX_TIMEOUT_MS :: nat where "MAX_TIMEOUT_MS = 300000"
definition MAX_REDIRECTS :: nat where "MAX_REDIRECTS = 5"

definition resolve_max_bytes :: "json \<Rightarrow> (tool_output, nat) result" where
  "resolve_max_bytes input =
     (case json_get ''max_bytes'' input of
        None \<Rightarrow> Inr DEFAULT_MAX_BYTES
      | Some JNull \<Rightarrow> Inr DEFAULT_MAX_BYTES
      | Some v \<Rightarrow>
          (case json_as_u64 v of
             Some n \<Rightarrow> Inr (min n CAP_MAX_BYTES)
           | None \<Rightarrow> Inl (err_output ''invalid parameter 'max_bytes' (non-negative integer required)'')))"

definition resolve_timeout_ms :: "json \<Rightarrow> (tool_output, nat) result" where
  "resolve_timeout_ms input =
     (case json_get ''timeout_ms'' input of
        None \<Rightarrow> Inr FETCH_TIMEOUT_MS
      | Some JNull \<Rightarrow> Inr FETCH_TIMEOUT_MS
      | Some v \<Rightarrow>
          (case json_as_u64 v of
             Some n \<Rightarrow>
               if n = 0 then Inl (err_output ''invalid parameter 'timeout_ms' (positive integer required; omit it for the default)'')
               else Inr (min n MAX_TIMEOUT_MS)
           | None \<Rightarrow> Inl (err_output ''invalid parameter 'timeout_ms' (non-negative integer required)'')))"

section \<open>Requests\<close>

record url =
  u_scheme :: string
  u_host :: "string option"
  u_text :: string

datatype chunk = Chunk string | ChunkError string

record response =
  rp_status :: nat
  rp_location :: "string option"
  rp_content_type :: "string option"
  rp_chunks :: "chunk list"

text \<open>What the tool calls: the URL library, the address parser, and one request over a world, with its timeout.\<close>

record 'w fetch_env =
  fe_parse_url :: "string \<Rightarrow> (string, url) result"
  fe_join :: "url \<Rightarrow> string \<Rightarrow> (string, url) result"
  fe_parse_ip :: "string \<Rightarrow> ip option"
  fe_client :: "string option"
  fe_send :: "url \<Rightarrow> nat \<Rightarrow> 'w \<Rightarrow> (string, response) result \<times> 'w"

definition web_scheme :: "url \<Rightarrow> bool" where
  "web_scheme u \<longleftrightarrow> u_scheme u \<in> {''http'', ''https''}"

definition link_local_url :: "'w fetch_env \<Rightarrow> url \<Rightarrow> bool" where
  "link_local_url env u = (case u_host u of Some h \<Rightarrow> is_link_local_host (fe_parse_ip env) h | None \<Rightarrow> False)"

definition quoted :: "string \<Rightarrow> string" where
  "quoted s = [quote_char] @ s @ [quote_char]"

definition host_text :: "url \<Rightarrow> string" where
  "host_text u = (case u_host u of Some h \<Rightarrow> h | None \<Rightarrow> [])"

definition validate_url :: "'w fetch_env \<Rightarrow> json \<Rightarrow> (tool_output, url) result" where
  "validate_url env input =
     (case json_str_at ''url'' input of
        None \<Rightarrow> Inl (err_output (''missing or invalid parameter '' @ quoted ''url'' @ '' (string required)''))
      | Some raw \<Rightarrow>
          (case fe_parse_url env raw of
             Inl e \<Rightarrow> Inl (err_output (''invalid URL '' @ quoted raw @ '': '' @ e))
           | Inr u \<Rightarrow>
               if \<not> web_scheme u
               then Inl (err_output (''unsupported URL scheme '' @ quoted (u_scheme u) @ '': only http and https are allowed''))
               else if link_local_url env u
               then Inl (err_output (''refusing to fetch link-local host '' @ quoted (host_text u) @
                      '': this tool never reaches cloud metadata or local-link addresses''))
               else Inr u))"

definition is_redirection :: "nat \<Rightarrow> bool" where
  "is_redirection code \<longleftrightarrow> 300 \<le> code \<and> code < 400"

definition is_success :: "nat \<Rightarrow> bool" where
  "is_success code \<longleftrightarrow> 200 \<le> code \<and> code < 300"

text \<open>Where a redirect leads, or why it is refused; the hop it makes is the given one.\<close>

definition next_hop :: "'w fetch_env \<Rightarrow> url \<Rightarrow> nat \<Rightarrow> response \<Rightarrow> (tool_output, url) result" where
  "next_hop env current hops resp =
     (case rp_location resp of
        None \<Rightarrow> Inl (err_output ''redirect without Location header'')
      | Some location \<Rightarrow>
          if MAX_REDIRECTS < hops then Inl (err_output (''too many redirects (limit '' @ show_nat MAX_REDIRECTS @ '')''))
          else
            (case fe_join env current location of
               Inl e \<Rightarrow> Inl (err_output (''invalid redirect target: '' @ e))
             | Inr u \<Rightarrow>
                 if \<not> web_scheme u
                 then Inl (err_output (''redirect to unsupported scheme '' @ quoted (u_scheme u) @ '': only http and https are allowed''))
                 else if link_local_url env u
                 then Inl (err_output (''refusing redirect to link-local host '' @ quoted (host_text u) @
                        '': this tool never reaches cloud metadata or local-link addresses''))
                 else Inr u))"

lemma next_hop_bound: "next_hop env current hops resp = Inr u \<Longrightarrow> hops \<le> MAX_REDIRECTS"
  by (auto simp: next_hop_def split: option.splits if_splits)

function follow :: "'w fetch_env \<Rightarrow> nat \<Rightarrow> url \<Rightarrow> nat \<Rightarrow> 'w \<Rightarrow> (tool_output, response) result \<times> 'w" where
  "follow env timeout current hops w =
     (case fe_send env current timeout w of (Inl e, w') \<Rightarrow> (Inl (err_output (''request to '' @ u_text current @ '' failed: '' @ e)), w')
      | (Inr resp, w') \<Rightarrow>
          if \<not> is_redirection (rp_status resp) then
            (if \<not> is_success (rp_status resp)
             then (Inl (err_output (''HTTP '' @ show_nat (rp_status resp) @ '' for '' @ u_text current)), w')
             else (Inr resp, w'))
          else
            (case next_hop env current (hops + 1) resp of
               Inl out \<Rightarrow> (Inl out, w')
             | Inr u \<Rightarrow> follow env timeout u (hops + 1) w'))"
  by pat_completeness auto
termination
  by (relation "measure (\<lambda>(env, timeout, current, hops, w). MAX_REDIRECTS + 1 - hops)")
     (auto dest!: next_hop_bound)

declare follow.simps [simp del]

text \<open>The body, up to the cap.\<close>

fun read_body :: "nat \<Rightarrow> string \<Rightarrow> chunk list \<Rightarrow> (tool_output, string \<times> bool) result" where
  "read_body max_bytes body [] = Inr (body, False)"
| "read_body max_bytes body (ChunkError e # cs) = Inl (err_output (''failed reading response body: '' @ e))"
| "read_body max_bytes body (Chunk c # cs) =
     (let room = max_bytes - length body
      in if room < length c then Inr (body @ take room c, True) else read_body max_bytes (body @ c) cs)"

definition json_as_bool :: "json \<Rightarrow> bool option" where
  "json_as_bool v = (case v of JBool b \<Rightarrow> Some b | _ \<Rightarrow> None)"

definition html_mime :: "string \<Rightarrow> bool" where
  "html_mime ct \<longleftrightarrow>
     to_lower (trim (hd (split_on (\<lambda>c. c = CHR '';'') ct))) \<in> {''text/html'', ''application/xhtml+xml''}"

definition is_html :: "string option \<Rightarrow> string \<Rightarrow> bool" where
  "is_html content_type s =
     (case content_type of
        Some ct \<Rightarrow> html_mime ct
      | None \<Rightarrow> prefix ''<!doctype html'' (to_lower (trim_start s)))"

definition fetch_text :: "(string \<Rightarrow> string) \<Rightarrow> (string \<Rightarrow> string option \<Rightarrow> string) \<Rightarrow> json \<Rightarrow> string option \<Rightarrow> string \<times> bool \<Rightarrow> string" where
  "fetch_text to_markdown decode input content_type body =
     (let s = decode (fst body) content_type;
          raw = (case Option.bind (json_get ''raw'' input) json_as_bool of Some b \<Rightarrow> b | None \<Rightarrow> False)
      in (if is_html content_type s \<and> \<not> raw then to_markdown s else s) @
         (if snd body then [newline] @ ''[truncated]'' else []))"

definition web_fetch ::
    "(string \<Rightarrow> string) \<Rightarrow> (string \<Rightarrow> string option \<Rightarrow> string) \<Rightarrow> 'w fetch_env \<Rightarrow> json \<Rightarrow> 'w \<Rightarrow> tool_output \<times> 'w" where
  "web_fetch to_markdown decode env input w =
     (case validate_url env input of
        Inl out \<Rightarrow> (out, w)
      | Inr start \<Rightarrow>
          (case resolve_max_bytes input of
             Inl out \<Rightarrow> (out, w)
           | Inr max_bytes \<Rightarrow>
               (case resolve_timeout_ms input of
                  Inl out \<Rightarrow> (out, w)
                | Inr timeout \<Rightarrow>
                    (case fe_client env of
                       Some e \<Rightarrow> (err_output (''failed to build HTTP client: '' @ e), w)
                     | None \<Rightarrow>
                         (case follow env timeout start 0 w of
                            (Inl out, w') \<Rightarrow> (out, w')
                          | (Inr resp, w') \<Rightarrow>
                              (case read_body max_bytes [] (rp_chunks resp) of
                                 Inl out \<Rightarrow> (out, w')
                               | Inr body \<Rightarrow> (ok_output (fetch_text to_markdown decode input (rp_content_type resp) body), w')))))))"

section \<open>Where requests go\<close>

text \<open>The requests a world has seen, recorded by wrapping the client.\<close>

definition logged :: "'w fetch_env \<Rightarrow> (url list \<times> 'w) fetch_env" where
  "logged env =
     \<lparr>fe_parse_url = fe_parse_url env, fe_join = fe_join env, fe_parse_ip = fe_parse_ip env, fe_client = fe_client env,
      fe_send = (\<lambda>u timeout (log, w). case fe_send env u timeout w of (r, w') \<Rightarrow> (r, (log @ [u], w')))\<rparr>"

text \<open>The addresses a request may connect to: a literal host is connected to as it is, any other through the
  resolver.\<close>

definition reachable :: "('w fetch_env) \<Rightarrow> (string \<Rightarrow> (string, ip list) result) \<Rightarrow> url \<Rightarrow> ip set" where
  "reachable env dns u =
     (case u_host u of
        None \<Rightarrow> {}
      | Some h \<Rightarrow>
          (case fe_parse_ip env (literal_text h) of
             Some x \<Rightarrow> {x}
           | None \<Rightarrow> (case vet_addresses h (dns h) of Inl e \<Rightarrow> {} | Inr xs \<Rightarrow> set xs)))"

definition allowed :: "'w fetch_env \<Rightarrow> url \<Rightarrow> bool" where
  "allowed env u \<longleftrightarrow> web_scheme u \<and> \<not> link_local_url env u"

lemma logged_fields [simp]:
  "fe_parse_url (logged env) = fe_parse_url env" "fe_join (logged env) = fe_join env"
  "fe_parse_ip (logged env) = fe_parse_ip env" "fe_client (logged env) = fe_client env"
  by (simp_all add: logged_def)

lemma logged_link_local [simp]: "link_local_url (logged env) = link_local_url env"
  by (rule ext) (auto simp: link_local_url_def split: option.split)

lemma logged_send: "fe_send (logged env) u timeout (log, w) = (r, (log', w')) \<Longrightarrow> log' = log @ [u]"
  by (auto simp: logged_def split: prod.splits)

lemma next_hop_allowed: "next_hop (logged env) current hops resp = Inr u \<Longrightarrow> allowed env u"
  by (auto simp: next_hop_def allowed_def split: option.splits sum.splits if_splits)

lemma validate_allowed: "validate_url (logged env) input = Inr u \<Longrightarrow> allowed env u"
  by (auto simp: validate_url_def allowed_def split: option.splits sum.splits if_splits)

lemma follow_log:
  assumes "allowed env u" and "hops \<le> MAX_REDIRECTS" and "follow (logged env) timeout u hops (log, w) = (r, (log', w'))"
  shows "\<exists>us. log' = log @ us \<and> list_all (allowed env) us \<and> length us \<le> MAX_REDIRECTS + 1 - hops"
  using assms
proof (induction "MAX_REDIRECTS - hops" arbitrary: hops u log w rule: less_induct)
  case less
  obtain a log1 w1 where send: "fe_send (logged env) u timeout (log, w) = (a, (log1, w1))" by (metis prod_cases3)
  have log1: "log1 = log @ [u]" using logged_send [OF send] .
  have one: "\<exists>us. log @ [u] = log @ us \<and> list_all (allowed env) us \<and> length us \<le> MAX_REDIRECTS + 1 - hops"
    using less.prems by (intro exI [of _ "[u]"]) simp
  show ?case
  proof (cases "\<exists>resp next. a = Inr resp \<and> is_redirection (rp_status resp) \<and> next_hop (logged env) u (hops + 1) resp = Inr next")
    case True
    then obtain resp nxt where a: "a = Inr resp" "is_redirection (rp_status resp)"
      and hop: "next_hop (logged env) u (hops + 1) resp = Inr nxt" by blast
    have rec: "follow (logged env) timeout nxt (hops + 1) (log1, w1) = (r, (log', w'))"
      using less.prems(3) send a hop by (subst (asm) follow.simps) simp
    have bound: "hops + 1 \<le> MAX_REDIRECTS" using next_hop_bound [OF hop] .
    then have "MAX_REDIRECTS - (hops + 1) < MAX_REDIRECTS - hops" by simp
    from less.hyps [OF this next_hop_allowed [OF hop] bound rec]
    obtain us where us: "log' = log1 @ us" "list_all (allowed env) us" "length us \<le> MAX_REDIRECTS + 1 - (hops + 1)" by blast
    show ?thesis
      using us log1 less.prems(1) bound by (intro exI [of _ "u # us"]) simp
  next
    case False
    have "log' = log1"
      using less.prems(3) send False by (subst (asm) follow.simps) (auto split: sum.splits if_splits)
    then show ?thesis using one log1 by simp
  qed
qed

lemma fetch_log:
  assumes "web_fetch to_markdown decode (logged env) input ([], w) = (out, (log, w'))"
  shows "list_all (allowed env) log \<and> length log \<le> MAX_REDIRECTS + 1"
proof -
  have via: "list_all (allowed env) log' \<and> length log' \<le> MAX_REDIRECTS + 1"
    if "validate_url (logged env) input = Inr u" "follow (logged env) timeout u 0 ([], w) = (r, (log', w1))" for u timeout r log' w1
    using follow_log [OF validate_allowed [OF that(1)] _ that(2)] by auto
  show ?thesis
    using assms unfolding web_fetch_def
    by (auto split: sum.splits option.splits prod.splits dest: via)
qed


lemma read_body_exact:
  "list_all (\<lambda>c. case c of Chunk _ \<Rightarrow> True | ChunkError _ \<Rightarrow> False) cs \<Longrightarrow> length body \<le> n \<Longrightarrow>
   let s = body @ concat (map (\<lambda>c. case c of Chunk b \<Rightarrow> b | ChunkError _ \<Rightarrow> []) cs)
   in read_body n body cs = Inr (take n s, n < length s)"
  by (induction n body cs rule: read_body.induct) (auto simp: Let_def)

lemma read_body_capped: "read_body n body cs = Inr (b, t) \<Longrightarrow> length body \<le> n \<Longrightarrow> length b \<le> n"
  by (induction n body cs rule: read_body.induct) (auto simp: Let_def split: if_splits)

text \<open>The name of the local host resolves to loopback alone, so it is refused.\<close>

lemma localhost_by_name_refused:
  "vet_addresses ''localhost'' (Inr [V4 127 0 0 1, V6 0 0 0 0 0 0 0 1]) =
   Inl (''host '' @ quoted ''localhost'' @ '' resolves only into private address ranges; this tool never reaches private networks by name'')"
  by (simp add: vet_addresses_def v4_loopback_def quoted_def)

end
