(* ===== verification/History_Log.thy ===== *)
theory History_Log
  imports Conversation
begin

text \<open>
  The durable history: the record log of a session (\<open>state/persistence/src/history.rs\<close>), the sink that
  mirrors every mutation of the conversation into it and the replay at a resume
  (\<open>operations/bootstrap/src/history_journal.rs\<close>). A file is its text, none when it is missing; reading is
  of the whole text, as the code does. Rendering and parsing of JSON are arguments, as are the derived
  encodings of a history entry; an append that fails leaves the file as it was, and a crash may cut it
  anywhere.
\<close>

section \<open>The log file\<close>

record 'r log_codec =
  lc_show :: "'r \<Rightarrow> string"
  lc_parse :: "string \<Rightarrow> 'r option"

definition HISTORY_FORMAT_VERSION :: nat where
  "HISTORY_FORMAT_VERSION = 1"

definition header_record :: json where
  "header_record = JObj [(''k'', JStr ''header''), (''format'', JNum (show_nat HISTORY_FORMAT_VERSION))]"

definition is_header :: "json \<Rightarrow> bool" where
  "is_header v \<longleftrightarrow> json_str_at ''k'' v = Some ''header''"

record history_read =
  hr_records :: "json list"
  hr_torn_tail :: bool
  hr_mid_gap :: bool

text \<open>One line of the log, and the header when the file is missing or empty.\<close>

definition log_append :: "json log_codec \<Rightarrow> json \<Rightarrow> string option \<Rightarrow> string option" where
  "log_append cd r f =
     (let head = (if f = None \<or> f = Some [] then lc_show cd header_record @ [newline] else [])
      in Some ((case f of None \<Rightarrow> [] | Some s \<Rightarrow> s) @ head @ lc_show cd r @ [newline]))"

definition log_rewrite :: "json log_codec \<Rightarrow> json list \<Rightarrow> string option" where
  "log_rewrite cd rs = Some (concat (map (\<lambda>r. lc_show cd r @ [newline]) (header_record # rs)))"

text \<open>The lines from an index on; the flags say whether the first unreadable one is the last.\<close>

fun read_lines :: "json log_codec \<Rightarrow> nat \<Rightarrow> string list \<Rightarrow> history_read" where
  "read_lines cd index [] = \<lparr>hr_records = [], hr_torn_tail = False, hr_mid_gap = False\<rparr>"
| "read_lines cd index (l # ls) =
     (case lc_parse cd l of
        None \<Rightarrow> \<lparr>hr_records = [], hr_torn_tail = (ls = []), hr_mid_gap = (ls \<noteq> [])\<rparr>
      | Some v \<Rightarrow>
          let out = read_lines cd (index + 1) ls
          in if index = 0 \<and> is_header v then out else out\<lparr>hr_records := v # hr_records out\<rparr>)"

definition log_read :: "json log_codec \<Rightarrow> string option \<Rightarrow> history_read" where
  "log_read cd f =
     (case f of
        None \<Rightarrow> \<lparr>hr_records = [], hr_torn_tail = False, hr_mid_gap = False\<rparr>
      | Some s \<Rightarrow> read_lines cd 0 (filter (\<lambda>l. \<not> blank l) (str_lines s)))"

section \<open>The sink\<close>

text \<open>The derived encodings of a history entry and of a list of them.\<close>

record entry_codec =
  ec_entry :: "history_entry \<Rightarrow> json"
  ec_entries :: "history_entry list \<Rightarrow> json"
  ec_to_entry :: "json \<Rightarrow> history_entry option"
  ec_to_entries :: "json \<Rightarrow> history_entry list option"

record journal_sink =
  js_file :: "string option"
  js_next_seq :: nat

definition note_fields :: "entry_codec \<Rightarrow> sink_note \<Rightarrow> (string \<times> json) list" where
  "note_fields ec n =
     (case n of
        Appended e \<Rightarrow> [(''k'', JStr ''append''), (''entry'', ec_entry ec e)]
      | Replaced es \<Rightarrow> [(''k'', JStr ''replace''), (''entries'', ec_entries ec es)])"

definition sink_record :: "entry_codec \<Rightarrow> nat \<Rightarrow> sink_note \<Rightarrow> json" where
  "sink_record ec seq n = JObj (note_fields ec n @ [(''seq'', JNum (show_nat seq))])"

text \<open>The number is used up whether or not the write succeeds.\<close>

definition sink_write :: "json log_codec \<Rightarrow> entry_codec \<Rightarrow> bool \<Rightarrow> sink_note \<Rightarrow> journal_sink \<Rightarrow> journal_sink" where
  "sink_write cd ec written n j =
     \<lparr>js_file = (if written then log_append cd (sink_record ec (js_next_seq j) n) (js_file j) else js_file j),
      js_next_seq = js_next_seq j + 1\<rparr>"

section \<open>Replay\<close>

definition UNKNOWN_OUTCOME :: string where
  "UNKNOWN_OUTCOME =
     ''wavecode lost this call'' @ [quote_char] @ ''s result while the session was down: the tool may or may not have run, so do not assume either '' @
     [em_dash] @ '' verify before repeating it''"

record replayed =
  rp_entries :: "history_entry list"
  rp_lost_calls :: "string list"
  rp_torn_tail :: bool
  rp_gapped :: bool
  rp_next_seq :: nat

text \<open>What a record does to the history, none when it cannot be interpreted.\<close>

definition apply_record :: "entry_codec \<Rightarrow> json \<Rightarrow> history_entry list \<Rightarrow> history_entry list option" where
  "apply_record ec r es =
     (case json_str_at ''k'' r of
        Some k \<Rightarrow>
          if k = ''append'' then map_option (\<lambda>e. es @ [e]) (Option.bind (json_get ''entry'' r) (ec_to_entry ec))
          else if k = ''replace'' then Option.bind (json_get ''entries'' r) (ec_to_entries ec)
          else None
      | None \<Rightarrow> None)"

fun replay_records :: "entry_codec \<Rightarrow> json list \<Rightarrow> nat \<Rightarrow> history_entry list \<Rightarrow> history_entry list \<times> bool \<times> nat" where
  "replay_records ec [] expected es = (es, False, expected)"
| "replay_records ec (r # rs) expected es =
     (if Option.bind (json_get ''seq'' r) json_as_u64 \<noteq> Some expected then (es, True, expected)
      else case apply_record ec r es of
             None \<Rightarrow> (es, True, expected)
           | Some es' \<Rightarrow> replay_records ec rs (expected + 1) es')"

definition replay_history :: "json log_codec \<Rightarrow> entry_codec \<Rightarrow> string option \<Rightarrow> replayed" where
  "replay_history cd ec f =
     (let read = log_read cd f;
          (es, gapped, next_seq) = replay_records ec (hr_records read) 0 [];
          (entries, lost) = close_open_calls es UNKNOWN_OUTCOME
      in \<lparr>rp_entries = entries, rp_lost_calls = lost, rp_torn_tail = hr_torn_tail read,
          rp_gapped = (hr_mid_gap read \<or> gapped), rp_next_seq = next_seq\<rparr>)"

section \<open>Lines of a cut file\<close>

definition as_lines :: "string list \<Rightarrow> string" where
  "as_lines ls = concat (map (\<lambda>l. l @ [newline]) ls)"

definition plain_line :: "string \<Rightarrow> bool" where
  "plain_line l \<longleftrightarrow> newline \<notin> set l \<and> carriage_return \<notin> set l"

lemma split_as_lines:
  "list_all plain_line ls \<Longrightarrow> newline \<notin> set p \<Longrightarrow> split_on (\<lambda>c. c = newline) (as_lines ls @ p) = ls @ [p]"
proof (induction ls)
  case Nil
  then show ?case by (auto simp: as_lines_def intro: split_on_none)
next
  case (Cons l ls)
  then have "split_on (\<lambda>c. c = newline) (l @ newline # (as_lines ls @ p)) = l # ls @ [p]"
    by (subst split_on_append) (auto simp: plain_line_def)
  then show ?case by (simp add: as_lines_def)
qed

lemma lines_as_lines:
  assumes "list_all plain_line ls" and "newline \<notin> set p"
  shows "str_lines (as_lines ls @ p) = ls @ (if p = [] then [] else [p])"
proof -
  have "map strip_cr ls = ls"
    using assms(1) by (induction ls) (auto simp: strip_cr_def plain_line_def dest: last_in_set)
  then show ?thesis using assms by (simp add: str_lines_def split_as_lines)
qed

text \<open>A cut leaves whole lines and a piece of the next.\<close>

lemma take_as_lines:
  "\<exists>j p. take c (as_lines ls) = as_lines (take j ls) @ p \<and> j \<le> length ls \<and>
     (p = [] \<or> (j < length ls \<and> prefix p (ls ! j))) \<and> (length (as_lines ls) \<le> c \<longrightarrow> j = length ls)"
proof (induction ls arbitrary: c)
  case Nil
  show ?case by (simp add: as_lines_def)
next
  case (Cons l ls)
  show ?case
  proof (cases "c \<le> length l")
    case True
    then show ?thesis
      by (intro exI [of _ 0] exI [of _ "take c l"]) (auto simp: as_lines_def take_is_prefix)
  next
    case False
    obtain j p where jp: "take (c - length l - 1) (as_lines ls) = as_lines (take j ls) @ p" "j \<le> length ls"
      "p = [] \<or> (j < length ls \<and> prefix p (ls ! j))" "length (as_lines ls) \<le> c - length l - 1 \<longrightarrow> j = length ls"
      using Cons.IH by blast
    have "take c (as_lines (l # ls)) = l @ newline # take (c - length l - 1) (as_lines ls)"
      using False by (simp add: as_lines_def take_Cons')
    then show ?thesis
      using jp by (intro exI [of _ "Suc j"] exI [of _ p]) (auto simp: as_lines_def)
  qed
qed

section \<open>What the sink leaves on disk\<close>

text \<open>The records that reached the disk, numbered by the notes.\<close>

fun survivors :: "entry_codec \<Rightarrow> nat \<Rightarrow> (bool \<times> sink_note) list \<Rightarrow> json list" where
  "survivors ec i [] = []"
| "survivors ec i ((written, n) # ws) = (if written then [sink_record ec i n] else []) @ survivors ec (Suc i) ws"

definition sink_run :: "json log_codec \<Rightarrow> entry_codec \<Rightarrow> (bool \<times> sink_note) list \<Rightarrow> journal_sink \<Rightarrow> journal_sink" where
  "sink_run cd ec ws j = fold (\<lambda>(written, n). sink_write cd ec written n) ws j"

text \<open>The laws of the two codecs. A record's text is one line that does not start with white space, parses
  back, and of no proper beginning does; an entry decodes to itself.\<close>

definition record_ok :: "json log_codec \<Rightarrow> json \<Rightarrow> bool" where
  "record_ok cd r \<longleftrightarrow>
     plain_line (lc_show cd r) \<and> lc_show cd r \<noteq> [] \<and> \<not> is_ws (hd (lc_show cd r)) \<and> lc_parse cd (lc_show cd r) = Some r \<and>
     (\<forall>p. strict_prefix p (lc_show cd r) \<longrightarrow> lc_parse cd p = None)"

definition entry_ok :: "entry_codec \<Rightarrow> sink_note \<Rightarrow> bool" where
  "entry_ok ec n \<longleftrightarrow>
     (case n of
        Appended e \<Rightarrow> ec_to_entry ec (ec_entry ec e) = Some e
      | Replaced es \<Rightarrow> ec_to_entries ec (ec_entries ec es) = Some es)"

definition disk_text :: "json log_codec \<Rightarrow> json list \<Rightarrow> string option" where
  "disk_text cd rs = (if rs = [] then None else Some (as_lines (map (lc_show cd) (header_record # rs))))"

lemma as_lines_append: "as_lines (xs @ ys) = as_lines xs @ as_lines ys"
  by (simp add: as_lines_def)

lemma append_disk: "log_append cd r (disk_text cd rs) = disk_text cd (rs @ [r])"
  by (auto simp: log_append_def disk_text_def as_lines_def Let_def)

lemma sink_run_disk:
  "js_file j = disk_text cd rs \<Longrightarrow> js_next_seq j = i \<Longrightarrow>
   js_file (sink_run cd ec ws j) = disk_text cd (rs @ survivors ec i ws) \<and> js_next_seq (sink_run cd ec ws j) = i + length ws"
proof (induction ws arbitrary: j i rs)
  case (Cons x ws)
  obtain written n where x: "x = (written, n)" by (cases x)
  have "js_file (sink_write cd ec written n j) = disk_text cd (rs @ (if written then [sink_record ec i n] else []))"
    "js_next_seq (sink_write cd ec written n j) = Suc i"
    using Cons.prems by (auto simp: sink_write_def append_disk)
  from Cons.IH [OF this] show ?case by (simp add: sink_run_def x)
qed (simp add: sink_run_def)

section \<open>What a replay makes of it\<close>

lemma sink_record_fields:
  "json_str_at ''k'' (sink_record ec i n) = Some (case n of Appended _ \<Rightarrow> ''append'' | Replaced _ \<Rightarrow> ''replace'')"
  "i \<le> max_of 64 \<Longrightarrow> Option.bind (json_get ''seq'' (sink_record ec i n)) json_as_u64 = Some i"
  by (cases n; simp add: sink_record_def note_fields_def json_str_at_def parse_show_nat)+

lemma apply_sink_record: "entry_ok ec n \<Longrightarrow> apply_record ec (sink_record ec i n) es = Some (replay_note n es)"
  by (cases n) (simp_all add: apply_record_def sink_record_fields entry_ok_def, simp_all add: sink_record_def note_fields_def)

lemma sink_record_not_header [simp]: "\<not> is_header (sink_record ec i n)"
  by (cases n) (simp_all add: is_header_def sink_record_fields)

lemma survivors_later: "r \<in> set (survivors ec i ws) \<Longrightarrow> \<exists>j n. r = sink_record ec j n \<and> i \<le> j \<and> j < i + length ws"
proof (induction ws arbitrary: i)
  case (Cons x ws)
  then show ?case by (cases x) (force split: if_splits)
qed simp

lemma replay_survivors:
  assumes "list_all (\<lambda>(written, n). entry_ok ec n) ws" and "i + length ws \<le> max_of 64"
  shows "let m = min k (length (takeWhile fst ws)); rs = take k (survivors ec i ws)
         in replay_records ec rs i es = (fold replay_note (map snd (take m ws)) es, m < length rs, i + m)"
  using assms
proof (induction ws arbitrary: i k es)
  case (Cons x ws)
  obtain written n where x: "x = (written, n)" by (cases x)
  show ?case
  proof (cases written)
    case True
    show ?thesis
    proof (cases k)
      case (Suc k')
      have "i \<le> max_of 64" using Cons.prems by simp
      then show ?thesis
        using Cons.IH [of "Suc i" k' "replay_note n es"] Cons.prems True x Suc
        by (simp add: Let_def apply_sink_record sink_record_fields)
    qed simp
  next
    case False
    show ?thesis
    proof (cases "take k (survivors ec (Suc i) ws)")
      case (Cons r rs)
      then have "r \<in> set (survivors ec (Suc i) ws)" by (metis in_set_takeD list.set_intros(1))
      then obtain j n' where j: "r = sink_record ec j n'" "Suc i \<le> j" "j < Suc i + length ws"
        using survivors_later by blast
      then have "Option.bind (json_get ''seq'' r) json_as_u64 = Some j"
        using sink_record_fields(2) [of j] Cons.prems by simp
      then show ?thesis using False x Cons j by (simp add: Let_def)
    qed (use False x in auto)
  qed
qed simp

section \<open>Reading a cut log\<close>

lemma not_blank: "s \<noteq> [] \<Longrightarrow> \<not> is_ws (hd s) \<Longrightarrow> \<not> blank s"
  by (cases s) (auto simp: blank_def trim_def trim_start_def trim_end_def dropWhile_eq_Nil_conv)

lemma read_lines_records:
  "list_all (record_ok cd) rs \<Longrightarrow> 0 < i \<Longrightarrow>
   read_lines cd i (map (lc_show cd) rs @ ls) =
   (read_lines cd (i + length rs) ls)\<lparr>hr_records := rs @ hr_records (read_lines cd (i + length rs) ls)\<rparr>"
  by (induction rs arbitrary: i) (auto simp: record_ok_def Let_def)

text \<open>A last line that is a piece of a record: the record itself or nothing.\<close>

lemma read_last_piece:
  assumes "record_ok cd r" and "prefix p (lc_show cd r)" and "p \<noteq> []" and "0 < i"
  shows "read_lines cd i [p] = \<lparr>hr_records = (if p = lc_show cd r then [r] else []), hr_torn_tail = (p \<noteq> lc_show cd r), hr_mid_gap = False\<rparr>"
  using assms by (auto simp: record_ok_def prefix_order.less_le)

lemma header_is_header [simp]: "is_header header_record"
  by (simp add: is_header_def header_record_def json_str_at_def)

lemma read_cut_log:
  assumes ok: "list_all (record_ok cd) (header_record # rs)"
  shows "\<exists>k torn. log_read cd (Some (take c (as_lines (map (lc_show cd) (header_record # rs))))) =
           \<lparr>hr_records = take k rs, hr_torn_tail = torn, hr_mid_gap = False\<rparr> \<and>
           (length (as_lines (map (lc_show cd) (header_record # rs))) \<le> c \<longrightarrow> k = length rs \<and> \<not> torn)"
proof -
  let ?ls = "map (lc_show cd) (header_record # rs)"
  obtain j p where cut: "take c (as_lines ?ls) = as_lines (take j ?ls) @ p" "j \<le> length ?ls"
    "p = [] \<or> (j < length ?ls \<and> prefix p (?ls ! j))" "length (as_lines ?ls) \<le> c \<longrightarrow> j = length ?ls"
    using take_as_lines [of c ?ls] by blast
  have lines: "plain_line l \<and> l \<noteq> [] \<and> \<not> is_ws (hd l)" if "l \<in> set ?ls" for l
    using ok that by (auto simp: list_all_iff record_ok_def)
  have p: "p = [] \<or> (plain_line p \<and> p \<noteq> [] \<and> \<not> is_ws (hd p))"
  proof (cases "p = []")
    case False
    then obtain l where l: "l \<in> set ?ls" "prefix p l" using cut(3) nth_mem by metis
    then obtain z where "l = p @ z" by (auto simp: prefix_def)
    then show ?thesis using lines [OF l(1)] False by (auto simp: plain_line_def)
  qed simp
  have "str_lines (as_lines (take j ?ls) @ p) = take j ?ls @ (if p = [] then [] else [p])"
    using lines p by (intro lines_as_lines) (auto simp: list_all_iff plain_line_def dest: in_set_takeD)
  moreover have "filter (\<lambda>l. \<not> blank l) (take j ?ls @ (if p = [] then [] else [p])) = take j ?ls @ (if p = [] then [] else [p])"
  proof (intro filter_True ballI)
    fix x assume x: "x \<in> set (take j ?ls @ (if p = [] then [] else [p]))"
    then have "x \<noteq> [] \<and> \<not> is_ws (hd x)" using lines [OF in_set_takeD, of x j] p by (auto split: if_splits)
    then show "\<not> blank x" using not_blank [of x] by simp
  qed
  ultimately have read: "log_read cd (Some (take c (as_lines ?ls))) = read_lines cd 0 (take j ?ls @ (if p = [] then [] else [p]))"
    using cut(1) by (simp add: log_read_def del: list.map)
  show ?thesis
  proof (cases j)
    case 0
    have short: "\<not> length (as_lines ?ls) \<le> c" using cut(4) 0 by auto
    have "read_lines cd 0 [p] = \<lparr>hr_records = [], hr_torn_tail = (p \<noteq> lc_show cd header_record), hr_mid_gap = False\<rparr>" if "p \<noteq> []"
    proof -
      have "prefix p (lc_show cd header_record)" using cut(3) 0 that by simp
      then have "lc_parse cd p = (if p = lc_show cd header_record then Some header_record else None)"
        using ok by (auto simp: record_ok_def prefix_order.less_le)
      then show ?thesis by (simp add: Let_def)
    qed
    then show ?thesis using read 0 short
      by (intro exI [of _ 0] exI [of _ "p \<noteq> [] \<and> p \<noteq> lc_show cd header_record"]) (auto simp del: read_lines.simps(2))
  next
    case (Suc i)
    have oki: "list_all (record_ok cd) (take i rs)" using ok by (auto simp: list_all_iff dest: in_set_takeD)
    have hdr: "lc_parse cd (lc_show cd header_record) = Some header_record" using ok by (simp add: record_ok_def)
    have full: "read_lines cd 0 (take j ?ls @ q) = read_lines cd 1 (map (lc_show cd) (take i rs) @ q)" for q
      using hdr Suc by (simp add: Let_def take_map)
    have len: "length (take i rs) = i" using cut(2) Suc by simp
    show ?thesis
    proof (cases "p = []")
      case True
      then show ?thesis
        using read full [of "[]"] read_lines_records [OF oki, of 1 "[]"] cut(4) Suc
        by (intro exI [of _ i] exI [of _ False]) auto
    next
      case False
      then have r: "i < length rs" "prefix p (lc_show cd (rs ! i))" using cut(3) Suc by auto
      then have "record_ok cd (rs ! i)" using ok by (simp add: list_all_iff)
      from read_last_piece [OF this r(2) False, of "1 + i"]
      have "log_read cd (Some (take c (as_lines ?ls))) =
          \<lparr>hr_records = take (if p = lc_show cd (rs ! i) then Suc i else i) rs, hr_torn_tail = (p \<noteq> lc_show cd (rs ! i)), hr_mid_gap = False\<rparr>"
        using read full [of "[p]"] read_lines_records [OF oki, of 1 "[p]"] False len r(1)
        by (simp add: take_Suc_conv_app_nth)
      moreover have "\<not> length (as_lines ?ls) \<le> c" using cut(4) Suc r(1) by auto
      ultimately show ?thesis by blast
    qed
  qed
qed



end
