(* ===== verification/Side_Stores.thy ===== *)
theory Side_Stores
  imports History_Log Session_Files
begin

text \<open>
  Two stores under the home directory: the spill store for oversized tool outputs
  (\<open>capabilities/context/src/spill.rs\<close>) and the table of persisted approvals
  (\<open>state/persistence/src/grants.rs\<close>). A file is its text; the rendering and parsing of a grant are
  arguments, and each step that may fail takes its outcome. Other processes sharing the root, and the
  permissions of the files, are not modelled.
\<close>

section \<open>The spill manifest\<close>

definition SPILL_TOTAL_CAP_BYTES :: nat where "SPILL_TOTAL_CAP_BYTES = 32 * 1024 * 1024"
definition DEFAULT_PRUNE_THRESHOLD_CHARS :: nat where "DEFAULT_PRUNE_THRESHOLD_CHARS = 8192"
definition PRUNE_HEAD_CHARS :: nat where "PRUNE_HEAD_CHARS = 1024"
definition PRUNE_MARKER :: string where "PRUNE_MARKER = ''[pruned: output spilled to side-store]''"
definition SPILL_SCHEME :: string where "SPILL_SCHEME = ''spill://''"

record manifest_entry =
  mn_id :: string
  mn_bytes :: nat
  mn_created_at :: nat

definition validate_spill_id :: "string \<Rightarrow> (string, unit) result" where
  "validate_spill_id i =
     (if i = [] \<or> 64 < byte_len i then Inl ''invalid spill id (expected 1-64 chars [A-Za-z0-9_-])''
      else if list_all id_char i then Inr ()
      else Inl ''invalid spill id (expected [A-Za-z0-9_-] only)'')"

definition manifest_line :: "string \<Rightarrow> manifest_entry option" where
  "manifest_line l =
     (case split_whitespace l of
        i # b # c # _ \<Rightarrow>
          (case (parse_uint (max_of 64) b, parse_uint (max_of 64) c) of
             (Some bytes, Some created) \<Rightarrow>
               if is_ok (validate_spill_id i) then Some \<lparr>mn_id = i, mn_bytes = bytes, mn_created_at = created\<rparr> else None
           | _ \<Rightarrow> None)
      | _ \<Rightarrow> None)"

definition parse_manifest :: "string \<Rightarrow> manifest_entry list" where
  "parse_manifest raw = List.map_filter manifest_line (str_lines raw)"

definition show_entry :: "manifest_entry \<Rightarrow> string" where
  "show_entry e = mn_id e @ '' '' @ show_nat (mn_bytes e) @ '' '' @ show_nat (mn_created_at e)"

definition render_manifest :: "manifest_entry list \<Rightarrow> string" where
  "render_manifest es = join [newline] (map show_entry es)"

datatype spill_error = SpillIo string | SpillUnknown string

definition parse_spill_uri :: "string \<Rightarrow> (spill_error, string) result" where
  "parse_spill_uri uri =
     (case strip_prefix uri SPILL_SCHEME of
        None \<Rightarrow> Inl (SpillUnknown uri)
      | Some i \<Rightarrow> (case validate_spill_id i of Inl _ \<Rightarrow> Inl (SpillUnknown i) | Inr _ \<Rightarrow> Inr i))"

section \<open>The spill store\<close>

record spill_store =
  sl_total_cap :: nat
  sl_files :: "string \<Rightarrow> string option"
  sl_manifest :: "string option"

definition spill_new :: spill_store where
  "spill_new = \<lparr>sl_total_cap = SPILL_TOTAL_CAP_BYTES, sl_files = Map.empty, sl_manifest = None\<rparr>"

definition load_manifest :: "spill_store \<Rightarrow> manifest_entry list" where
  "load_manifest st = parse_manifest (case sl_manifest st of None \<Rightarrow> [] | Some raw \<Rightarrow> raw)"

fun evict_from :: "nat \<Rightarrow> nat \<Rightarrow> manifest_entry list \<Rightarrow> (string \<Rightarrow> string option) \<Rightarrow> manifest_entry list \<times> (string \<Rightarrow> string option)" where
  "evict_from cap total_bytes [] files = ([], files)"
| "evict_from cap total_bytes (e # es) files =
     (if cap < total_bytes then evict_from cap (total_bytes - mn_bytes e) es (files(mn_id e := None)) else (e # es, files))"

definition evict_to_cap :: "nat \<Rightarrow> manifest_entry list \<Rightarrow> (string \<Rightarrow> string option) \<Rightarrow> manifest_entry list \<times> (string \<Rightarrow> string option)" where
  "evict_to_cap cap es files = evict_from cap (foldl (\<lambda>acc e. sat_add 64 acc (mn_bytes e)) 0 es) es files"

text \<open>What may fail in a spill: making the root, writing the entry, saving the manifest.\<close>

record spill_io =
  io_root :: "string option"
  io_write :: "string option"
  io_save :: "string option"

definition spill :: "string \<Rightarrow> nat \<Rightarrow> spill_io \<Rightarrow> string \<Rightarrow> spill_store \<Rightarrow> (spill_error, string) result \<times> spill_store" where
  "spill i now io content st =
     (case io_root io of
        Some e \<Rightarrow> (Inl (SpillIo e), st)
      | None \<Rightarrow>
          (case validate_spill_id i of
             Inl e \<Rightarrow> (Inl (SpillUnknown e), st)
           | Inr _ \<Rightarrow>
               (case io_write io of
                  Some e \<Rightarrow> (Inl (SpillIo e), st)
                | None \<Rightarrow>
                    let st1 = st\<lparr>sl_files := (sl_files st)(i \<mapsto> content)\<rparr>;
                        (es, files) = evict_to_cap (sl_total_cap st)
                          (load_manifest st1 @ [\<lparr>mn_id = i, mn_bytes = byte_len content, mn_created_at = now\<rparr>]) (sl_files st1);
                        st2 = st1\<lparr>sl_files := files\<rparr>
                    in case io_save io of
                         Some e \<Rightarrow> (Inl (SpillIo e), st2)
                       | None \<Rightarrow> (Inr (SPILL_SCHEME @ i), st2\<lparr>sl_manifest := Some (render_manifest es)\<rparr>))))"

definition spill_read :: "string \<Rightarrow> spill_store \<Rightarrow> (spill_error, string) result" where
  "spill_read uri st =
     (case parse_spill_uri uri of
        Inl e \<Rightarrow> Inl e
      | Inr i \<Rightarrow> (case sl_files st i of None \<Rightarrow> Inl (SpillUnknown uri) | Some s \<Rightarrow> Inr s))"

definition spill_new_id :: "nat \<Rightarrow> nat \<Rightarrow> nat \<Rightarrow> string" where
  "spill_new_id now pid n = show_hex now @ ''-'' @ show_nat pid @ ''-'' @ show_nat n"

fun spill_error_text :: "spill_error \<Rightarrow> string" where
  "spill_error_text (SpillIo e) = ''spill IO failed: '' @ e"
| "spill_error_text (SpillUnknown _) = ''unknown spill''"

definition prune_tool_output :: "string \<Rightarrow> nat \<Rightarrow> spill_io \<Rightarrow> string \<Rightarrow> nat \<Rightarrow> spill_store \<Rightarrow> string \<times> spill_store" where
  "prune_tool_output i now io content threshold st =
     (if length content \<le> threshold then (content, st)
      else
        case spill i now io content st of
          (Inl e, st') \<Rightarrow>
            (PRUNE_MARKER @ [newline] @ ''(spill failed: '' @ spill_error_text e @ '')'' @ [newline, newline] @ content, st')
        | (Inr uri, st') \<Rightarrow>
            (PRUNE_MARKER @ [newline] @ ''spill: '' @ uri @ [newline] @ ''chars: '' @ show_nat (length content) @ [newline] @
             ''head:'' @ [newline] @ take PRUNE_HEAD_CHARS content, st'))"

section \<open>The manifest reads back\<close>

definition entry_valid :: "manifest_entry \<Rightarrow> bool" where
  "entry_valid e \<longleftrightarrow> is_ok (validate_spill_id (mn_id e)) \<and> mn_bytes e \<le> max_of 64 \<and> mn_created_at e \<le> max_of 64"

lemma id_char_plain: "id_char c \<Longrightarrow> \<not> is_ws c \<and> c \<noteq> newline \<and> c \<noteq> carriage_return"
  by (auto simp: id_char_def is_alnum_def is_digit_def is_upper_def is_lower_def is_ws_def char_code_def Let_def
      newline_def carriage_return_def)

lemma digit_plain: "is_digit c \<Longrightarrow> \<not> is_ws c \<and> c \<noteq> newline \<and> c \<noteq> carriage_return"
  by (auto simp: is_digit_def is_ws_def char_code_def Let_def newline_def carriage_return_def)

lemma valid_id: "is_ok (validate_spill_id i) \<Longrightarrow> i \<noteq> [] \<and> list_all id_char i"
  by (auto simp: validate_spill_id_def split: if_splits)

lemma show_nat_plain: "c \<in> set (show_nat n) \<Longrightarrow> \<not> is_ws c \<and> c \<noteq> newline \<and> c \<noteq> carriage_return"
  using show_nat_digits [of n] digit_plain by (auto simp: list_all_iff)

lemma split_three:
  assumes "\<And>c. c \<in> set a \<union> set b \<union> set d \<Longrightarrow> \<not> is_ws c" and "a \<noteq> []" and "b \<noteq> []" and "d \<noteq> []"
  shows "split_whitespace (a @ '' '' @ b @ '' '' @ d) = [a, b, d]"
proof -
  have sp: "is_ws (CHR '' '')" by (simp add: is_ws_def char_code_def)
  have "split_on is_ws (a @ CHR '' '' # (b @ CHR '' '' # d)) = [a, b, d]"
    using assms sp by (subst split_on_append) (auto simp: split_on_append split_on_none)
  then show ?thesis using assms by (simp add: split_whitespace_def)
qed

lemma manifest_line_show: "entry_valid e \<Longrightarrow> manifest_line (show_entry e) = Some e"
proof -
  assume v: "entry_valid e"
  have "split_whitespace (show_entry e) = [mn_id e, show_nat (mn_bytes e), show_nat (mn_created_at e)]"
    unfolding show_entry_def using valid_id [of "mn_id e"] v id_char_plain show_nat_plain
    by (intro split_three) (auto simp: entry_valid_def list_all_iff)
  then show ?thesis using v by (simp add: manifest_line_def parse_show_nat entry_valid_def)
qed

lemma show_entry_plain: "entry_valid e \<Longrightarrow> plain_line (show_entry e) \<and> show_entry e \<noteq> []"
proof -
  assume "entry_valid e"
  then have i: "list_all id_char (mn_id e)" using valid_id by (simp add: entry_valid_def)
  have "c \<noteq> newline \<and> c \<noteq> carriage_return" if c: "c \<in> set (show_entry e)" for c
  proof -
    consider "c \<in> set (mn_id e)" | "c = CHR '' ''" | n where "c \<in> set (show_nat n)"
      using c by (auto simp: show_entry_def)
    then show ?thesis
    proof cases
      case 1
      then have "id_char c" using i by (simp add: list_all_iff)
      then show ?thesis using id_char_plain by blast
    next
      case 3 then show ?thesis using show_nat_plain by blast
    qed (simp add: newline_def carriage_return_def)
  qed
  then show ?thesis by (auto simp: plain_line_def show_entry_def)
qed

lemma str_lines_join:
  assumes "list_all (\<lambda>l. plain_line l \<and> l \<noteq> []) ls"
  shows "str_lines (join [newline] ls) = ls"
proof (cases "ls = []")
  case False
  have "split_on (\<lambda>c. c = newline) (join [newline] ls) = ls"
  proof (rule split_on_join [OF False])
    fix w c assume "w \<in> set ls" "c \<in> set w"
    then show "c \<noteq> newline" using assms by (auto simp: list_all_iff plain_line_def)
  qed simp
  moreover have "map strip_cr (butlast ls) = butlast ls"
  proof (intro map_idI)
    fix l assume "l \<in> set (butlast ls)"
    then have "plain_line l" using assms by (auto simp: list_all_iff dest: in_set_butlastD)
    then show "strip_cr l = l" by (auto simp: strip_cr_def plain_line_def dest: last_in_set)
  qed
  moreover have "last ls \<noteq> []" using assms False by (simp add: list_all_iff)
  ultimately show ?thesis using False by (simp add: str_lines_def)
qed (simp add: str_lines_def)

lemma manifest_roundtrip: "list_all entry_valid es \<Longrightarrow> parse_manifest (render_manifest es) = es"
proof -
  assume v: "list_all entry_valid es"
  have "str_lines (render_manifest es) = map show_entry es"
    unfolding render_manifest_def using v by (intro str_lines_join) (simp add: list_all_iff show_entry_plain)
  moreover have "List.map_filter manifest_line (map show_entry es) = es"
    using v by (induction es) (simp_all add: map_filter_simps manifest_line_show)
  ultimately show ?thesis by (simp add: parse_manifest_def)
qed

section \<open>Eviction keeps the newest\<close>

definition bytes_of :: "manifest_entry list \<Rightarrow> nat" where
  "bytes_of es = sum_list (map mn_bytes es)"

lemma fold_sat: "a + bytes_of es \<le> max_of 64 \<Longrightarrow> foldl (\<lambda>acc e. sat_add 64 acc (mn_bytes e)) a es = a + bytes_of es"
  by (induction es arbitrary: a) (auto simp: bytes_of_def sat_add_def min_def)

lemma evict_from_facts:
  assumes "distinct (map mn_id es)" and "evict_from cap (bytes_of es) es files = (es', files')"
  shows "suffix es' es \<and> bytes_of es' \<le> cap \<and> (\<forall>i. i \<in> set (map mn_id es') \<longrightarrow> files' i = files i) \<and>
         (es' = es \<or> (\<exists>e zs. es = zs @ e # es' \<and> cap < bytes_of (e # es')))"
  using assms
proof (induction es arbitrary: files)
  case Nil
  then show ?case by (simp add: bytes_of_def)
next
  case (Cons e es)
  show ?case
  proof (cases "cap < bytes_of (e # es)")
    case True
    have "bytes_of (e # es) - mn_bytes e = bytes_of es" by (simp add: bytes_of_def)
    then have rec: "evict_from cap (bytes_of es) es (files(mn_id e := None)) = (es', files')" using Cons.prems True by simp
    note IH = Cons.IH [OF _ rec]
    have suf: "suffix es' es" using IH Cons.prems(1) by simp
    then have "mn_id e \<notin> set (map mn_id es')"
      using Cons.prems(1) by (auto dest: set_mono_suffix)
    moreover have "\<exists>f zs. e # es = zs @ f # es' \<and> cap < bytes_of (f # es')"
    proof (cases "es' = es")
      case True
      then show ?thesis using \<open>cap < bytes_of (e # es)\<close> by (intro exI [of _ e] exI [of _ "[]"]) simp
    next
      case False
      then obtain f zs where "es = zs @ f # es'" "cap < bytes_of (f # es')" using IH Cons.prems(1) by auto
      then show ?thesis by (intro exI [of _ f] exI [of _ "e # zs"]) simp
    qed
    ultimately show ?thesis using IH Cons.prems(1) suf by (auto simp: suffix_ConsI)
  next
    case False
    then show ?thesis using Cons.prems by auto
  qed
qed

text \<open>Every listed entry is on disk in full, within the cap.\<close>

definition spill_ok :: "spill_store \<Rightarrow> bool" where
  "spill_ok st \<longleftrightarrow>
     (let es = load_manifest st
      in distinct (map mn_id es) \<and> list_all entry_valid es \<and> bytes_of es \<le> sl_total_cap st \<and> 2 * sl_total_cap st \<le> max_of 64 \<and>
         list_all (\<lambda>e. \<exists>c. sl_files st (mn_id e) = Some c \<and> byte_len c = mn_bytes e) es)"



text \<open>An output over the cap evicts itself: the spill succeeds and the URI it answers reads nothing.\<close>

lemma oversized_spill_is_lost:
  assumes "spill_ok st" and "i \<notin> mn_id ` set (load_manifest st)" and "is_ok (validate_spill_id i)"
    and "sl_total_cap st < byte_len content" and "sl_total_cap st + byte_len content \<le> max_of 64"
  shows "\<exists>st'. spill i now \<lparr>io_root = None, io_write = None, io_save = None\<rparr> content st = (Inr (SPILL_SCHEME @ i), st') \<and>
           spill_read (SPILL_SCHEME @ i) st' = Inl (SpillUnknown (SPILL_SCHEME @ i))"
proof -
  let ?e = "\<lparr>mn_id = i, mn_bytes = byte_len content, mn_created_at = now\<rparr>"
  let ?old = "load_manifest st @ [?e]" and ?cap = "sl_total_cap st"
  have all_gone: "evict_from cap (bytes_of (xs @ [x])) (xs @ [x]) files = ([], foldl (\<lambda>f e. f(mn_id e := None)) files (xs @ [x]))"
    if "cap < mn_bytes x" for cap xs x files
    using that by (induction xs arbitrary: files) (simp_all add: bytes_of_def)
  have "bytes_of ?old \<le> max_of 64" using assms(1,5) by (simp add: spill_ok_def Let_def bytes_of_def)
  then have "evict_to_cap ?cap ?old files = ([], foldl (\<lambda>f e. f(mn_id e := None)) files ?old)" for files
    using fold_sat [of 0 ?old] all_gone [of ?cap ?e "load_manifest st" files] assms(4) by (simp add: evict_to_cap_def del: foldl_append)
  moreover have "parse_spill_uri (SPILL_SCHEME @ i) = Inr i"
    using assms(3) by (auto simp: parse_spill_uri_def strip_prefix_def is_ok_iff)
  ultimately show ?thesis
    using assms(3) by (auto simp: spill_def is_ok_iff load_manifest_def spill_read_def Let_def)
qed

section \<open>Persisted approvals\<close>

record grant =
  gn_rule :: string
  gn_tool :: string
  gn_granted_at_secs :: nat
  gn_session :: string

datatype grant_error = GrantIo string | GrantWildcard string

definition wildcard_rule :: "string \<Rightarrow> bool" where
  "wildcard_rule rule \<longleftrightarrow> CHR ''*'' \<in> set rule \<or> CHR ''?'' \<in> set rule"

record grants_read =
  gs_grants :: "grant list"
  gs_malformed :: nat

definition read_grant_line :: "grant log_codec \<Rightarrow> string \<Rightarrow> grants_read \<Rightarrow> grants_read" where
  "read_grant_line cd l r =
     (let l = trim l
      in if l = [] then r
         else case lc_parse cd l of
           None \<Rightarrow> r\<lparr>gs_malformed := gs_malformed r + 1\<rparr>
         | Some g \<Rightarrow>
             if wildcard_rule (gn_rule g) then r\<lparr>gs_malformed := gs_malformed r + 1\<rparr>
             else if gn_rule g \<in> gn_rule ` set (gs_grants r) then r
             else r\<lparr>gs_grants := gs_grants r @ [g]\<rparr>)"

definition load_grants :: "grant log_codec \<Rightarrow> string option \<Rightarrow> grants_read" where
  "load_grants cd f =
     (let r0 = \<lparr>gs_grants = [], gs_malformed = 0\<rparr>
      in case f of None \<Rightarrow> r0 | Some s \<Rightarrow> fold (read_grant_line cd) (str_lines s) r0)"

text \<open>The file operations take what failed in them; a failed append or rewrite leaves the file.\<close>

definition add_grant :: "grant log_codec \<Rightarrow> grant \<Rightarrow> string option \<Rightarrow> string option \<Rightarrow> (grant_error, bool) result \<times> string option" where
  "add_grant cd g io f =
     (if wildcard_rule (gn_rule g) then (Inl (GrantWildcard (gn_rule g)), f)
      else if gn_rule g \<in> gn_rule ` set (gs_grants (load_grants cd f)) then (Inr False, f)
      else case io of
             Some e \<Rightarrow> (Inl (GrantIo e), f)
           | None \<Rightarrow> (Inr True, Some ((case f of None \<Rightarrow> [] | Some s \<Rightarrow> s) @ lc_show cd g @ [newline])))"

definition without :: "'a list \<Rightarrow> nat \<Rightarrow> 'a list" where
  "without gs index = map snd (filter (\<lambda>(i, g). i \<noteq> index) (enumerate 0 gs))"

definition rewrite_grants :: "grant log_codec \<Rightarrow> grant list \<Rightarrow> string" where
  "rewrite_grants cd gs = as_lines (map (lc_show cd) gs)"

definition remove_grant :: "grant log_codec \<Rightarrow> nat \<Rightarrow> string option \<Rightarrow> string option \<Rightarrow> (grant_error, grant option) result \<times> string option" where
  "remove_grant cd index io f =
     (let gs = gs_grants (load_grants cd f)
      in if length gs \<le> index then (Inr None, f)
         else case io of
                Some e \<Rightarrow> (Inl (GrantIo e), f)
              | None \<Rightarrow> (Inr (Some (gs ! index)), Some (rewrite_grants cd (without gs index))))"

definition clear_grants :: "grant log_codec \<Rightarrow> string option \<Rightarrow> string option \<Rightarrow> (grant_error, nat) result \<times> string option" where
  "clear_grants cd io f =
     (case io of
        Some e \<Rightarrow> (Inl (GrantIo e), f)
      | None \<Rightarrow> (Inr (length (gs_grants (load_grants cd f))), Some (rewrite_grants cd [])))"

section \<open>The table as a list of rules\<close>

datatype grant_op = AddGrant grant "string option" | RemoveGrant nat "string option" | ClearGrants "string option"

fun grant_step :: "grant log_codec \<Rightarrow> grant_op \<Rightarrow> string option \<Rightarrow> string option" where
  "grant_step cd (AddGrant g io) f = snd (add_grant cd g io f)"
| "grant_step cd (RemoveGrant i io) f = snd (remove_grant cd i io f)"
| "grant_step cd (ClearGrants io) f = snd (clear_grants cd io f)"

text \<open>What it promises: a list of distinct literal rules.\<close>

fun grant_spec :: "grant_op \<Rightarrow> grant list \<Rightarrow> grant list" where
  "grant_spec (AddGrant g io) gs =
     (if wildcard_rule (gn_rule g) \<or> gn_rule g \<in> gn_rule ` set gs \<or> io \<noteq> None then gs else gs @ [g])"
| "grant_spec (RemoveGrant i io) gs = (if length gs \<le> i \<or> io \<noteq> None then gs else take i gs @ drop (Suc i) gs)"
| "grant_spec (ClearGrants io) gs = (if io = None then [] else gs)"

definition grant_text_ok :: "grant log_codec \<Rightarrow> grant \<Rightarrow> bool" where
  "grant_text_ok cd g \<longleftrightarrow>
     plain_line (lc_show cd g) \<and> lc_show cd g \<noteq> [] \<and> trim (lc_show cd g) = lc_show cd g \<and> lc_parse cd (lc_show cd g) = Some g"

definition literal_table :: "grant log_codec \<Rightarrow> grant list \<Rightarrow> bool" where
  "literal_table cd gs \<longleftrightarrow>
     list_all (\<lambda>g. grant_text_ok cd g \<and> \<not> wildcard_rule (gn_rule g)) gs \<and> distinct (map gn_rule gs)"

definition table_file :: "grant log_codec \<Rightarrow> grant list \<Rightarrow> string option \<Rightarrow> bool" where
  "table_file cd gs f \<longleftrightarrow> literal_table cd gs \<and> (f = Some (as_lines (map (lc_show cd) gs)) \<or> (gs = [] \<and> f = None))"

lemma without_nth: "without gs i = take i gs @ drop (Suc i) gs"
proof -
  have "map snd (filter (\<lambda>(j, g). j \<noteq> n + i) (enumerate n gs)) = take i gs @ drop (Suc i) gs" for n
  proof (induction gs arbitrary: n i)
    case (Cons g gs)
    show ?case
    proof (cases i)
      case 0
      have "filter (\<lambda>(j, g). j \<noteq> n) (enumerate (Suc n) gs) = enumerate (Suc n) gs"
        by (intro filter_True) (auto simp: in_set_enumerate_eq)
      then show ?thesis using 0 by simp
    next
      case (Suc k)
      then show ?thesis using Cons.IH [of "Suc n" k] by simp
    qed
  qed simp
  from this [of 0] show ?thesis by (simp add: without_def)
qed

lemma load_table:
  assumes "literal_table cd (hs @ gs)"
  shows "fold (read_grant_line cd) (map (lc_show cd) gs) \<lparr>gs_grants = hs, gs_malformed = 0\<rparr> = \<lparr>gs_grants = hs @ gs, gs_malformed = 0\<rparr>"
  using assms
proof (induction gs arbitrary: hs)
  case (Cons g gs)
  then have "read_grant_line cd (lc_show cd g) \<lparr>gs_grants = hs, gs_malformed = 0\<rparr> = \<lparr>gs_grants = hs @ [g], gs_malformed = 0\<rparr>"
    by (auto simp: read_grant_line_def literal_table_def grant_text_ok_def)
  then show ?case using Cons.IH [of "hs @ [g]"] Cons.prems by simp
qed simp

lemma load_table_file: "table_file cd gs f \<Longrightarrow> load_grants cd f = \<lparr>gs_grants = gs, gs_malformed = 0\<rparr>"
proof -
  assume t: "table_file cd gs f"
  have "list_all plain_line (map (lc_show cd) gs)"
    using t by (auto simp: table_file_def literal_table_def grant_text_ok_def list_all_iff)
  then have "str_lines (as_lines (map (lc_show cd) gs)) = map (lc_show cd) gs"
    using lines_as_lines [of "map (lc_show cd) gs" "[]"] by simp
  then show ?thesis using t load_table [of cd "[]" gs] by (auto simp: table_file_def load_grants_def)
qed

lemma subseq_distinct_set: "subseq xs ys \<Longrightarrow> set xs \<subseteq> set ys \<and> (distinct ys \<longrightarrow> distinct xs)"
  by (induction rule: list_emb.induct) auto

lemma literal_subseq: "literal_table cd gs \<Longrightarrow> subseq hs gs \<Longrightarrow> literal_table cd hs"
  using subseq_distinct_set [of hs gs] subseq_distinct_set [OF subseq_map, of hs gs gn_rule]
  by (auto simp: literal_table_def list_all_iff)

lemma subseq_drop_one: "subseq (take i gs @ drop (Suc i) gs) gs"
proof -
  have "subseq (drop (Suc i) gs) (drop i gs)" by (metis drop_Suc drop_drop plus_1_eq_Suc suffix_drop suffix_imp_subseq)
  then have "subseq (take i gs @ drop (Suc i) gs) (take i gs @ drop i gs)" by (intro list_emb_append_mono) auto
  then show ?thesis by simp
qed

lemma table_step:
  assumes "table_file cd gs f" and "\<And>g io. op = AddGrant g io \<Longrightarrow> grant_text_ok cd g"
  shows "table_file cd (grant_spec op gs) (grant_step cd op f)"
proof (cases op)
  case (AddGrant g io)
  with assms show ?thesis
    by (cases io) (auto simp: add_grant_def load_table_file table_file_def literal_table_def as_lines_def)
next
  case (RemoveGrant i io)
  have "literal_table cd (take i gs @ drop (Suc i) gs)" if "literal_table cd gs"
    using that subseq_drop_one [of i gs] by (rule literal_subseq)
  with RemoveGrant assms show ?thesis
    by (cases io) (auto simp: remove_grant_def load_table_file Let_def table_file_def rewrite_grants_def without_nth)
next
  case (ClearGrants io)
  with assms show ?thesis
    by (cases io) (auto simp: clear_grants_def table_file_def rewrite_grants_def literal_table_def)
qed



text \<open>A torn last line has no line break, so the next grant is appended to it and lost with it.\<close>

lemma torn_line_costs_the_next_grant:
  assumes "table_file cd gs (Some s)" and "plain_line p" and "p \<noteq> []" and "lc_parse cd (trim (p @ lc_show cd g)) = None"
    and "lc_parse cd (trim p) = None" and "\<not> blank p" and "trim (p @ lc_show cd g) \<noteq> []"
    and "plain_line (lc_show cd g)" and "\<not> wildcard_rule (gn_rule g)" and "gn_rule g \<notin> gn_rule ` set gs"
  shows "\<exists>f. add_grant cd g None (Some (s @ p)) = (Inr True, f) \<and> gs_grants (load_grants cd f) = gs"
proof -
  have lit: "literal_table cd gs" and s: "s = as_lines (map (lc_show cd) gs)"
    using assms(1) by (auto simp: table_file_def as_lines_def)
  have lines: "list_all plain_line (map (lc_show cd) gs)"
    using lit by (auto simp: literal_table_def grant_text_ok_def list_all_iff)
  have load: "gs_grants (load_grants cd (Some (as_lines (map (lc_show cd) gs) @ q))) = gs"
    if "str_lines (as_lines (map (lc_show cd) gs) @ q) = map (lc_show cd) gs @ [l]" "lc_parse cd (trim l) = None" for q l
    using load_table [of cd "[]" gs] lit that by (auto simp: load_grants_def Let_def read_grant_line_def)
  have "newline \<notin> set p" using assms(2) by (simp add: plain_line_def)
  then have torn: "gs_grants (load_grants cd (Some (s @ p))) = gs"
    unfolding s using lines_as_lines [OF lines, of p] assms(3,5) by (intro load) auto
  have "list_all plain_line (map (lc_show cd) gs @ [p @ lc_show cd g])"
    using lines assms(2,8) by (auto simp: plain_line_def)
  then have "str_lines (as_lines (map (lc_show cd) gs @ [p @ lc_show cd g]) @ []) = map (lc_show cd) gs @ [p @ lc_show cd g]"
    using lines_as_lines [of "map (lc_show cd) gs @ [p @ lc_show cd g]" "[]"] by simp
  then have "gs_grants (load_grants cd (Some (s @ p @ lc_show cd g @ [newline]))) = gs"
    unfolding s using assms(4) by (intro load) (auto simp: as_lines_def)
  then show ?thesis using torn assms(9,10) by (simp add: add_grant_def)
qed

end
