(* ===== verification/Spec2Isabelle.thy ===== *)
theory Spec2Isabelle
  imports Context_Window Durable_Goal Reviewed_Plan Workflow Retry Session_Actor Jobs Scheduler File_Tools Path_Guard
    Diff_View Editor Hooks Web_Fetch Side_Stores
begin

text \<open>
  A verification development for wave-code, a terminal coding agent written in Rust (\<open>src/crates\<close>).

  \<^bold>\<open>The program.\<close> A frontend submits operations to a session actor (\<open>operations/actor\<close>). The actor
  serves them one at a time; a user input becomes a turn of the run loop (\<open>runtime/runner\<close>), which
  samples a model, dispatches the tool calls it asks for, and repeats until the model stops, the
  user interrupts, or a ceiling is met. Every tool call passes the permission policy
  (\<open>capabilities/sandbox\<close>, \<open>bootstrap/policy_adapter.rs\<close>), may be parked at an approval gate
  (\<open>safety/gate\<close>), and ends with exactly one result in the history (\<open>state/store\<close>). The context
  pipeline (\<open>capabilities/context\<close> and its adapters) keeps the prompt within the model's window. Model
  streams come from the provider client (\<open>foundation/llm\<close>) through the retry executor. Goals, plans,
  todo lists, child agents and workflows hang off the loop as tools and trackers; checkpoints
  (\<open>state/checkpoint\<close>) record the history before each turn acts.

  \<^bold>\<open>Theories and what they model.\<close>
  \<^item> \<^verbatim>\<open>Prelude\<close>: results, saturating arithmetic, tables, text, JSON values, and the machine locales.
  \<^item> \<^verbatim>\<open>Sandbox_Rules\<close>, \<^verbatim>\<open>Command_Risk\<close>, \<^verbatim>\<open>Sandbox_Policy\<close>: wildcard matching, path normalisation,
    command splitting and permission rules (\<open>sandbox/src/lib.rs\<close>), the dangerous-command screen
    (\<open>risk.rs\<close>, \<open>bash.rs\<close>), and the verdict of a call with the policy adapter.
  \<^item> \<^verbatim>\<open>Conversation\<close>: history entries, token estimates, the journal, repair of open calls
    (\<open>state/store/src/lib.rs\<close>).
  \<^item> \<^verbatim>\<open>Run_Types\<close>, \<^verbatim>\<open>Run_Dispatch\<close>, \<^verbatim>\<open>Run_Loop\<close>: the run loop's types, inbox and slots; one batch of tool
    calls; the turn as a state machine (\<open>runtime/runner/src/lib.rs\<close>).
  \<^item> \<^verbatim>\<open>Context_Window\<close>: accounting, waterlines, compaction, history repair, eviction.
  \<^item> \<^verbatim>\<open>Todo_List\<close>, \<^verbatim>\<open>Session_Files\<close>, \<^verbatim>\<open>Durable_Goal\<close>, \<^verbatim>\<open>Reviewed_Plan\<close>: session state and its tools.
  \<^item> \<^verbatim>\<open>Task_Service\<close>, \<^verbatim>\<open>Child_Runtime\<close>, \<^verbatim>\<open>Workflow\<close>: the task seam as a locale, the background children and the
    service over them, workflow validation and waves, Ralph loops.
  \<^item> \<^verbatim>\<open>Llm_Stream\<close>, \<^verbatim>\<open>Retry\<close>: SSE framing, the stream parser and the error taxonomy; the retry executor.
  \<^item> \<^verbatim>\<open>Checkpoints\<close>, \<^verbatim>\<open>Approval_Gate\<close>, \<^verbatim>\<open>Session_Actor\<close>: checkpoint store, durable copies and resume labels; the
    one-shot gates; the actor with its queue, routing, teardown and rewinding.
  \<^item> \<^verbatim>\<open>Jobs\<close>, \<^verbatim>\<open>Scheduler\<close>: background shell jobs with their drivers (\<open>action/jobs\<close>); priority and delay queues,
    cron, the concurrency gate and the durable schedule (\<open>runtime/scheduler\<close>).
  \<^item> \<^verbatim>\<open>File_Text\<close>, \<^verbatim>\<open>File_Tools\<close>, \<^verbatim>\<open>Path_Guard\<close>: exact and line-block replacement and the bounded edit
    distance; read, write and edit with the freshness ledger over a disk that may fail; the path guard
    over a file system with symbolic links (\<open>capabilities/tools/src/fs\<close>, \<open>path_guard.rs\<close>).
  \<^item> \<^verbatim>\<open>Diff_View\<close>, \<^verbatim>\<open>Terminal_Text\<close>, \<^verbatim>\<open>Editor\<close>: the line diff of the edit card (\<open>console/src/diff.rs\<close>), the gate
    for text on its way to the terminal, and the input editor with its completion popup
    (\<open>engine/src/sanitize.rs\<close>, \<open>editor.rs\<close>, \<open>autocomplete.rs\<close>, \<open>select_list.rs\<close>, \<open>keys.rs\<close>).
  \<^item> \<^verbatim>\<open>Hooks\<close>: the hook engine, its plugin middleware and its adapter on the loop's seam
    (\<open>hooks/src/lib.rs\<close>, \<open>bootstrap/hook_adapter.rs\<close>).
  \<^item> \<^verbatim>\<open>Web_Fetch\<close>: parameters, host screen, vetting resolver, redirects and the capped body of
    \<open>tools/src/web_fetch.rs\<close>.
  \<^item> \<^verbatim>\<open>History_Log\<close>, \<^verbatim>\<open>Side_Stores\<close>: the record log of a session and its replay (\<open>persistence/history.rs\<close>,
    \<open>bootstrap/history_journal.rs\<close>); the spill store and the approvals table (\<open>context/src/spill.rs\<close>,
    \<open>persistence/grants.rs\<close>).

  \<^bold>\<open>State and operations.\<close> A struct is a record with the source's fields under a two-letter prefix, an
  enum a datatype, a method a function that returns the updated record; a \<open>Result\<close> is a sum, every
  early return a branch. \<open>HashMap\<close>s are association tables. Unsigned integers are naturals with
  saturation or bounds written out where the code saturates or checks, words where it wraps.
  Concurrency is explicit: a component that owns its state is a machine over signals or operations
  in any order, and its invariant is proved for every run through an interpretation of the
  \<^verbatim>\<open>machine\<close> or \<^verbatim>\<open>guarded_machine\<close> locale. The seams of the run loop and of the actor are records of
  functions over an arbitrary world, so a theorem holds for every implementation behind them.

  \<^bold>\<open>Lemma groups.\<close> Each theory has the functional lemmas of its operations, the invariant with its
  preservation lemmas, and then its properties: for the policy, that denials come first and every
  allow is justified by a rule, an answer or a mode; for the loop, that every call is answered
  once, nothing runs unauthorised, a turn ends once and within its iteration bound; for the
  context pipeline, that repair and compaction keep calls and results paired and recent text; for
  goals and plans, lifecycles and compare-and-set; for workflows, exact validation, dependency order and no orphaned child;
  for streams, independence of chunking and the bound of retries; for the actor, order, persistence before
  action, and one teardown; for jobs, caps, one notice and no kill after the reap; for files, one place
  changed per edit, no overwrite of what the session has not seen, and no write outside; for the editor,
  bounds under any keys, undo, recall, yank and wrap; for the diff, that it is exact and shortest;
  for hooks, when an event is blocked and that an entry marked so fires once; for fetches, that no
  redirect or name leads to a local address; for the history log, that a replay after a crash
  recovers a prefix; for the side stores, the cap of the newest outputs and the table as a list.

  \<^bold>\<open>Bounds and fuel.\<close> The turn loop is a total function: its measure counts the rounds and retries a
  configuration leaves, and \<^verbatim>\<open>iteration_bound\<close> is a fuel that always suffices for \<^verbatim>\<open>run_bounded\<close>. Awaiting a
  child polls at most \<^verbatim>\<open>MAX_POLLS\<close> times, as the code does. The validator's drain terminates by the
  number of steps not yet drained, and the walk over shell commands by the size of the text.

  \<^bold>\<open>Modelling choices.\<close> Text is a list of characters, the non-ASCII ones standing for scalars that are
  neither white space nor case-changing. A policy decision reads the mode once. The bodies of a
  read-only batch are atomic, in a completion order the world chooses. Loop events are logged without
  the submission id. Files are tables of parsed contents with the outcome of each write as an
  argument, a stream is its list of items, a child driver its phase.

  \<^bold>\<open>Parameters.\<close> JSON rendering and parsing, derived decoders, regular expressions, the network, the
  model that writes summaries, tool bodies, the processes of hooks, clocks, and the file system beyond the tables above
  are arguments or seams.

  \<^bold>\<open>Not modelled.\<close> The rest of the frontends and all painting, transports and protocol gateways, the provider request
  dialects, operating-system sandboxes, tool bodies that are input and output, skills, plugins,
  memory, configuration, evaluation, metrics, and the assembly that wires the parts: they are input and output, parsing by third-party code, or glue around the parts modelled here.
\<close>

end
